(* ===== verification/Prelude.thy ===== *)
theory Prelude
  imports "HOL-Library.Word" "HOL-Library.Sublist"
begin

text \<open>
  What every component shares: machine integers and byte strings, little-endian
  conversion, UTF-8 validation as the standard library performs it, and readers.

  A reader takes the bytes that are left and returns an error, or a value with the bytes
  after it: the mutable slice a \<open>read_all\<close> of the source advances is the second component
  of the result. Readers are sequenced with \<open>bnd\<close>, so a reader here has the order of
  fields and of checks of the source.

  Two predicates carry all codec proofs. \<open>reads_as e r bs x\<close>: the reader \<open>r\<close> turns \<open>bs\<close>
  into \<open>x\<close> whatever follows, and fails with \<open>e\<close> on every strict prefix of \<open>bs\<close>.
  \<open>consumes k r\<close>: whatever \<open>r\<close> returns, it used up at least \<open>k\<close> bytes and gave back the
  rest unchanged. Both compose along \<open>bnd\<close> by the rules of the collections
  \<open>reads_intros\<close> and \<open>consumes_intros\<close>.
\<close>

named_theorems reads_intros \<open>composition rules for reads_as\<close>
named_theorems reads_leaf \<open>reads_as facts of single encoded types\<close>
named_theorems consumes_intros \<open>composition rules for consumes\<close>

type_synonym u8 = "8 word"
type_synonym u16 = "16 word"
type_synonym u32 = "32 word"
type_synonym u64 = "64 word"

text \<open>Two's complement: the same bits as the unsigned type, read with \<open>sint\<close>.\<close>
type_synonym i64 = "64 word"

type_synonym bytes = "u8 list"

text \<open>A Rust \<open>String\<close> is its UTF-8 bytes.\<close>
type_synonym rstring = bytes

subsection \<open>Little-endian integers\<close>

primrec nat_le :: "nat \<Rightarrow> nat \<Rightarrow> bytes" where
  "nat_le 0 n = []"
| "nat_le (Suc k) n = of_nat n # nat_le k (n div 256)"

fun le_nat :: "bytes \<Rightarrow> nat" where
  "le_nat [] = 0"
| "le_nat (b # bs) = unat b + 256 * le_nat bs"

definition to_le :: "nat \<Rightarrow> 'a::len word \<Rightarrow> bytes" where
  "to_le k w = nat_le k (unat w)"

definition from_le :: "bytes \<Rightarrow> 'a::len word" where
  "from_le bs = of_nat (le_nat bs)"

lemma length_nat_le [simp]: "length (nat_le k n) = k"
  by (induction k arbitrary: n) auto

lemma length_to_le [simp]: "length (to_le k w) = k"
  by (simp add: to_le_def)

lemma unat_of_nat_u8 [simp]: "unat (of_nat n :: u8) = n mod 256"
  by (simp add: unat_of_nat)

lemma le_nat_nat_le: "le_nat (nat_le k n) = n mod 256 ^ k"
proof (induction k arbitrary: n)
  case 0
  then show ?case by simp
next
  case (Suc k)
  have "n mod 256 + 256 * (n div 256 mod 256 ^ k) = n mod (256 * 256 ^ k)"
    by (simp add: mod_mult2_eq)
  with Suc show ?case by simp
qed

lemma le_nat_bound: "le_nat bs < 256 ^ length bs"
proof (induction bs)
  case Nil
  then show ?case by simp
next
  case (Cons b bs)
  have "unat b < 256" using unsigned_less [of b] by simp
  moreover from Cons have "256 * le_nat bs \<le> 256 * (256 ^ length bs - 1)"
    by simp
  ultimately have "unat b + 256 * le_nat bs < 256 + 256 * (256 ^ length bs - 1)"
    by linarith
  also have "\<dots> = 256 ^ length (b # bs)"
    by (simp add: right_diff_distrib')
  finally show ?case by simp
qed

lemma nat_le_le_nat: "nat_le (length bs) (le_nat bs) = bs"
proof (induction bs)
  case Nil
  then show ?case by simp
next
  case (Cons b bs)
  have b: "unat b < 256" using unsigned_less [of b] by simp
  then have "(of_nat (unat b + 256 * le_nat bs) :: u8) = b"
    by (metis mod_less mod_mult_self2 of_nat_unat unat_of_nat_u8 word_unat_eq_iff)
  moreover from b have "(unat b + 256 * le_nat bs) div 256 = le_nat bs" by simp
  ultimately show ?case using Cons by simp
qed

lemma from_le_to_le [simp]:
  fixes w :: "'a::len word"
  assumes "LENGTH('a) \<le> 8 * k"
  shows "from_le (to_le k w) = w"
proof -
  have "unat w < 2 ^ LENGTH('a)" by (rule unsigned_less)
  also have "(2::nat) ^ LENGTH('a) \<le> 2 ^ (8 * k)"
    using assms by (rule power_increasing) simp
  also have "\<dots> = 256 ^ k" by (simp add: power_mult)
  finally show ?thesis by (simp add: from_le_def to_le_def le_nat_nat_le)
qed

lemma to_le_from_le [simp]:
  assumes "length bs = k" and "8 * k \<le> LENGTH('a)"
  shows "to_le k (from_le bs :: 'a::len word) = bs"
proof -
  have "le_nat bs < 256 ^ k" using le_nat_bound [of bs] assms(1) by simp
  also have "(256::nat) ^ k = 2 ^ (8 * k)" by (simp add: power_mult)
  also have "\<dots> \<le> 2 ^ LENGTH('a)"
    using assms(2) by (rule power_increasing) simp
  finally have "unat (from_le bs :: 'a word) = le_nat bs"
    by (simp add: from_le_def unat_of_nat)
  then show ?thesis using nat_le_le_nat [of bs] assms(1) by (simp add: to_le_def)
qed

lemma le_nat_append: "le_nat (xs @ ys) = le_nat xs + 256 ^ length xs * le_nat ys"
  by (induction xs) (auto simp: algebra_simps)

lemma le_nat_replicate_0 [simp]: "le_nat (replicate k 0) = 0"
  by (induction k) auto

subsection \<open>Splitting, checked and saturating arithmetic\<close>

text \<open>\<open>split_at_checked\<close> of the standard library.\<close>

definition split_at_checked :: "nat \<Rightarrow> 'a list \<Rightarrow> ('a list \<times> 'a list) option" where
  "split_at_checked n xs = (if n \<le> length xs then Some (take n xs, drop n xs) else None)"

lemma split_at_checked_append [simp]:
  "n = length xs \<Longrightarrow> split_at_checked n (xs @ ys) = Some (xs, ys)"
  by (simp add: split_at_checked_def)

lemma split_at_checked_eq_Some:
  "split_at_checked n xs = Some (a, b) \<longleftrightarrow> xs = a @ b \<and> length a = n"
  by (auto simp: split_at_checked_def)

lemma split_at_checked_eq_None: "split_at_checked n xs = None \<longleftrightarrow> length xs < n"
  by (auto simp: split_at_checked_def)

text \<open>
  \<open>usize\<close> is 64 bits wide on every target the program is built for; a \<open>usize\<close> is a
  \<open>nat\<close> below \<open>usize_limit\<close>. Conversions and checked operations keep their failure branch.
\<close>

definition usize_limit :: nat where
  "usize_limit = 2 ^ 64"

definition usize_try_from :: "u64 \<Rightarrow> nat option" where
  "usize_try_from v = (if unat v < usize_limit then Some (unat v) else None)"

definition checked_add :: "nat \<Rightarrow> nat \<Rightarrow> nat option" where
  "checked_add a b = (if a + b < usize_limit then Some (a + b) else None)"

definition checked_mul :: "nat \<Rightarrow> nat \<Rightarrow> nat option" where
  "checked_mul a b = (if a * b < usize_limit then Some (a * b) else None)"

definition saturating_add :: "'a::len word \<Rightarrow> 'a word \<Rightarrow> 'a word" where
  "saturating_add a b = (if unat a + unat b < 2 ^ LENGTH('a) then a + b else - 1)"

definition saturating_sub :: "'a::len word \<Rightarrow> 'a word \<Rightarrow> 'a word" where
  "saturating_sub a b = (if a < b then 0 else a - b)"

lemma unat_u64_bound: "unat (v :: u64) < usize_limit"
  using unsigned_less [of v] by (simp add: usize_limit_def)

lemma unat_u64_less: "unat (v :: u64) < 18446744073709551616"
  using unat_u64_bound [of v] by (simp add: usize_limit_def)

lemma usize_try_from [simp]: "usize_try_from v = Some (unat v)"
  by (simp add: usize_try_from_def unat_u64_bound)

lemma unat_of_nat_u64 [simp]: "n < usize_limit \<Longrightarrow> unat (of_nat n :: u64) = n"
  by (simp add: usize_limit_def unat_of_nat)

subsection \<open>Results and options\<close>

text \<open>The \<open>?\<close> operator and \<open>map_err\<close> on results, \<open>unwrap_or\<close> and \<open>then_some\<close>.\<close>

definition and_then :: "'e + 'a \<Rightarrow> ('a \<Rightarrow> 'e + 'b) \<Rightarrow> 'e + 'b" where
  "and_then r f = (case r of Inl e \<Rightarrow> Inl e | Inr x \<Rightarrow> f x)"

definition map_err :: "('e \<Rightarrow> 'f) \<Rightarrow> 'e + 'a \<Rightarrow> 'f + 'a" where
  "map_err f r = (case r of Inl e \<Rightarrow> Inl (f e) | Inr x \<Rightarrow> Inr x)"

lemma and_then_simps [simp]: "and_then (Inl e) f = Inl e" "and_then (Inr x) f = f x"
  by (simp_all add: and_then_def)

lemma map_err_simps [simp]: "map_err f (Inl e) = Inl (f e)" "map_err f (Inr x) = Inr x"
  by (simp_all add: map_err_def)

lemma and_then_eq_Inr: "and_then r f = Inr y \<longleftrightarrow> (\<exists>x. r = Inr x \<and> f x = Inr y)"
  by (cases r) simp_all

lemma map_err_eq_Inr: "map_err f r = Inr y \<longleftrightarrow> r = Inr y"
  by (cases r) simp_all

definition then_some :: "bool \<Rightarrow> 'a \<Rightarrow> 'a option" where
  "then_some b x = (if b then Some x else None)"

definition unwrap_or :: "'a option \<Rightarrow> 'a \<Rightarrow> 'a" where
  "unwrap_or m d = (case m of None \<Rightarrow> d | Some x \<Rightarrow> x)"

lemma unwrap_or_simps [simp]: "unwrap_or None d = d" "unwrap_or (Some x) d = x"
  by (simp_all add: unwrap_or_def)

subsection \<open>Readers\<close>

type_synonym ('e, 'a) reader = "bytes \<Rightarrow> 'e + 'a \<times> bytes"

definition ret :: "'a \<Rightarrow> ('e, 'a) reader" where
  "ret x = (\<lambda>s. Inr (x, s))"

definition fail :: "'e \<Rightarrow> ('e, 'a) reader" where
  "fail e = (\<lambda>s. Inl e)"

definition bnd :: "('e, 'a) reader \<Rightarrow> ('a \<Rightarrow> ('e, 'b) reader) \<Rightarrow> ('e, 'b) reader" where
  "bnd r f = (\<lambda>s. case r s of Inl e \<Rightarrow> Inl e | Inr (x, s') \<Rightarrow> f x s')"

text \<open>Take \<open>n\<close> bytes, or fail with \<open>e\<close> when there are fewer.\<close>

definition take_bytes :: "'e \<Rightarrow> nat \<Rightarrow> ('e, bytes) reader" where
  "take_bytes e n = (\<lambda>s. case split_at_checked n s of None \<Rightarrow> Inl e | Some (a, b) \<Rightarrow> Inr (a, b))"

text \<open>Read \<open>n\<close> items one after the other: the loop \<open>for _ in 0..len { push(read()?) }\<close>.\<close>

primrec read_n :: "('e, 'a) reader \<Rightarrow> nat \<Rightarrow> ('e, 'a list) reader" where
  "read_n r 0 = ret []"
| "read_n r (Suc n) = bnd r (\<lambda>x. bnd (read_n r n) (\<lambda>xs. ret (x # xs)))"

lemma ret_apply [simp]: "ret x s = Inr (x, s)"
  by (simp add: ret_def)

lemma fail_apply [simp]: "fail e s = Inl e"
  by (simp add: fail_def)

lemma bnd_Inl [simp]: "r s = Inl e \<Longrightarrow> bnd r f s = Inl e"
  by (simp add: bnd_def)

lemma bnd_Inr [simp]: "r s = Inr (x, s') \<Longrightarrow> bnd r f s = f x s'"
  by (simp add: bnd_def)

lemma bnd_eq_Inr:
  "bnd r f s = Inr (y, t) \<longleftrightarrow> (\<exists>x s'. r s = Inr (x, s') \<and> f x s' = Inr (y, t))"
  by (auto simp: bnd_def split: sum.splits)

lemma bnd_cases:
  assumes "bnd r f s = Inr (y, t)"
  obtains x s' where "r s = Inr (x, s')" and "f x s' = Inr (y, t)"
  using assms by (auto simp: bnd_eq_Inr)

lemma strict_prefix_append_iff:
  "strict_prefix p (a @ b) \<longleftrightarrow> strict_prefix p a \<or> (\<exists>q. p = a @ q \<and> strict_prefix q b)"
proof
  assume p: "strict_prefix p (a @ b)"
  show "strict_prefix p a \<or> (\<exists>q. p = a @ q \<and> strict_prefix q b)"
    using p by (auto simp: strict_prefix_def prefix_append)
next
  assume "strict_prefix p a \<or> (\<exists>q. p = a @ q \<and> strict_prefix q b)"
  then show "strict_prefix p (a @ b)"
    by (auto simp: strict_prefix_def prefix_def)
qed

subsection \<open>The codec laws of a reader\<close>

definition reads_as :: "'e \<Rightarrow> ('e, 'a) reader \<Rightarrow> bytes \<Rightarrow> 'a \<Rightarrow> bool" where
  "reads_as e r bs x \<longleftrightarrow>
     (\<forall>rest. r (bs @ rest) = Inr (x, rest)) \<and> (\<forall>p. strict_prefix p bs \<longrightarrow> r p = Inl e)"

lemma reads_asI:
  assumes "\<And>rest. r (bs @ rest) = Inr (x, rest)" and "\<And>p. strict_prefix p bs \<Longrightarrow> r p = Inl e"
  shows "reads_as e r bs x"
  using assms by (simp add: reads_as_def)

lemma reads_asD: "reads_as e r bs x \<Longrightarrow> r (bs @ rest) = Inr (x, rest)"
  by (simp add: reads_as_def)

lemma reads_asD_exact: "reads_as e r bs x \<Longrightarrow> r bs = Inr (x, [])"
  using reads_asD [of e r bs x "[]"] by simp

lemma reads_as_prefixD: "reads_as e r bs x \<Longrightarrow> strict_prefix p bs \<Longrightarrow> r p = Inl e"
  by (simp add: reads_as_def)

lemma reads_as_ret [reads_intros]: "reads_as e (ret x) [] x"
  by (simp add: reads_as_def)

lemma reads_as_ret_eq: "x = y \<Longrightarrow> reads_as e (ret x) [] y"
  by (simp add: reads_as_def)

lemma reads_as_bnd [reads_intros]:
  assumes "reads_as e r a x" and "reads_as e (f x) b y"
  shows "reads_as e (bnd r f) (a @ b) y"
  using assms by (auto simp: reads_as_def bnd_def strict_prefix_append_iff)

lemma reads_as_bnd_last [reads_intros]:
  assumes "reads_as e r a x" and "reads_as e (f x) [] y"
  shows "reads_as e (bnd r f) a y"
  using reads_as_bnd [where r = r and f = f and x = x and a = a and b = "[]" and y = y and e = e] assms by simp

lemma reads_as_if_true [reads_intros]:
  "c \<Longrightarrow> reads_as e r bs x \<Longrightarrow> reads_as e (if c then r else r') bs x"
  by simp

lemma reads_as_if_false [reads_intros]:
  "\<not> c \<Longrightarrow> reads_as e r' bs x \<Longrightarrow> reads_as e (if c then r else r') bs x"
  by simp

lemma reads_as_take_bytes [reads_intros]:
  "n = length bs \<Longrightarrow> reads_as e (take_bytes e n) bs bs"
  by (auto simp: reads_as_def take_bytes_def split_at_checked_def dest!: prefix_length_less)

lemma reads_as_read_n [reads_intros]:
  assumes "n = length xs" and "\<And>x. x \<in> set xs \<Longrightarrow> reads_as e r (enc x) x"
  shows "reads_as e (read_n r n) (concat (map enc xs)) xs"
  using assms
proof (induction xs arbitrary: n)
  case Nil
  then show ?case by (simp add: reads_as_ret del: ret_apply)
next
  case (Cons x xs)
  have "reads_as e (bnd (read_n r (length xs)) (\<lambda>xs. ret (x # xs))) (concat (map enc xs)) (x # xs)"
    using Cons.IH [OF refl] Cons.prems(2) by (intro reads_as_bnd_last) (auto intro: reads_as_ret)
  then show ?case
    using Cons.prems by (auto intro!: reads_as_bnd)
qed

text \<open>Encodings with these laws are prefix-free, so a stream of them has one reading.\<close>

lemma reads_as_prefix_free:
  assumes "reads_as e r a x" and "reads_as e r b y"
  shows "\<not> strict_prefix a b"
proof
  assume "strict_prefix a b"
  then have "r a = Inl e" using assms(2) by (simp add: reads_as_def)
  moreover have "r a = Inr (x, [])" using assms(1) by (rule reads_asD_exact)
  ultimately show False by simp
qed

definition consumes :: "nat \<Rightarrow> ('e, 'a) reader \<Rightarrow> bool" where
  "consumes k r \<longleftrightarrow> (\<forall>s x s'. r s = Inr (x, s') \<longrightarrow> (\<exists>c. s = c @ s' \<and> k \<le> length c))"

lemma consumesD: "consumes k r \<Longrightarrow> r s = Inr (x, s') \<Longrightarrow> \<exists>c. s = c @ s' \<and> k \<le> length c"
  by (simp add: consumes_def)

lemma consumes_length: "consumes k r \<Longrightarrow> r s = Inr (x, s') \<Longrightarrow> length s' + k \<le> length s"
  by (drule (1) consumesD) auto

lemma consumes_suffix: "consumes k r \<Longrightarrow> r s = Inr (x, s') \<Longrightarrow> suffix s' s"
  by (drule (1) consumesD) (auto simp: suffix_def)

lemma consumes_mono: "consumes k r \<Longrightarrow> j \<le> k \<Longrightarrow> consumes j r"
  by (auto simp: consumes_def) (meson le_trans)

text \<open>
  The facts about single readers carry their count as an inequality, so that one fact serves
  for the first field of a record (which must consume) and for the later ones.
\<close>

lemma consumes_ret [consumes_intros]: "k \<le> 0 \<Longrightarrow> consumes k (ret x)"
  by (simp add: consumes_def)

lemma consumes_fail [consumes_intros]: "consumes k (fail e)"
  by (simp add: consumes_def)

lemma consumes_bnd:
  assumes "consumes k r" and "\<And>x. consumes j (f x)"
  shows "consumes (k + j) (bnd r f)"
  unfolding consumes_def
proof (intro allI impI)
  fix s y t
  assume "bnd r f s = Inr (y, t)"
  then obtain x s' where "r s = Inr (x, s')" and "f x s' = Inr (y, t)"
    by (rule bnd_cases)
  with consumesD [OF assms(1)] consumesD [OF assms(2)]
  obtain c d where "s = c @ s'" "k \<le> length c" "s' = d @ t" "j \<le> length d"
    by metis
  then show "\<exists>c. s = c @ t \<and> k + j \<le> length c"
    by (intro exI [of _ "c @ d"]) simp
qed

text \<open>For readers that return whatever the first one consumed at least.\<close>

lemma consumes_bnd_first [consumes_intros]:
  assumes "consumes k r" and "\<And>x. consumes 0 (f x)"
  shows "consumes k (bnd r f)"
  using consumes_bnd [of k r 0 f] assms by simp

lemma consumes_if [consumes_intros]:
  "consumes k r \<Longrightarrow> consumes k r' \<Longrightarrow> consumes k (if c then r else r')"
  by simp

lemma consumes_take_bytes [consumes_intros]: "k \<le> n \<Longrightarrow> consumes k (take_bytes e n)"
  by (auto simp: consumes_def take_bytes_def split_at_checked_eq_Some split: option.splits)

lemma consumes_read_n:
  assumes "consumes k r"
  shows "read_n r n s = Inr (xs, s') \<Longrightarrow> \<exists>c. s = c @ s' \<and> k * n \<le> length c \<and> length xs = n"
proof (induction n arbitrary: s xs)
  case 0
  then show ?case by simp
next
  case (Suc n)
  from Suc.prems obtain x s1 ys s2
    where "r s = Inr (x, s1)" "read_n r n s1 = Inr (ys, s2)" "xs = x # ys" "s' = s2"
    by (auto simp: bnd_eq_Inr)
  moreover from this consumesD [OF assms] Suc.IH
  obtain c d where "s = c @ s1" "k \<le> length c" "s1 = d @ s'" "k * n \<le> length d" "length ys = n"
    by metis
  ultimately show ?case
    by (intro exI [of _ "c @ d"]) auto
qed

lemma consumes_read_n_0 [consumes_intros]: "k \<le> 0 \<Longrightarrow> consumes 0 r \<Longrightarrow> consumes k (read_n r n)"
  using consumes_read_n [of 0 r n] by (auto simp: consumes_def)

subsection \<open>UTF-8 validation\<close>

text \<open>\<open>core::str::from_utf8\<close>: the byte sequences of Unicode scalar values.\<close>

definition utf8_cont :: "u8 \<Rightarrow> bool" where
  "utf8_cont b \<longleftrightarrow> 0x80 \<le> b \<and> b \<le> 0xBF"

fun utf8_valid :: "bytes \<Rightarrow> bool" where
  "utf8_valid [] = True"
| "utf8_valid (b0 # rest) =
     (if b0 < 0x80 then utf8_valid rest
      else if 0xC2 \<le> b0 \<and> b0 \<le> 0xDF then
        (case rest of b1 # r \<Rightarrow> utf8_cont b1 \<and> utf8_valid r | _ \<Rightarrow> False)
      else if 0xE0 \<le> b0 \<and> b0 \<le> 0xEF then
        (case rest of b1 # b2 # r \<Rightarrow>
           utf8_cont b1 \<and> (b0 = 0xE0 \<longrightarrow> 0xA0 \<le> b1) \<and> (b0 = 0xED \<longrightarrow> b1 \<le> 0x9F) \<and>
           utf8_cont b2 \<and> utf8_valid r
         | _ \<Rightarrow> False)
      else if 0xF0 \<le> b0 \<and> b0 \<le> 0xF4 then
        (case rest of b1 # b2 # b3 # r \<Rightarrow>
           utf8_cont b1 \<and> (b0 = 0xF0 \<longrightarrow> 0x90 \<le> b1) \<and> (b0 = 0xF4 \<longrightarrow> b1 \<le> 0x8F) \<and>
           utf8_cont b2 \<and> utf8_cont b3 \<and> utf8_valid r
         | _ \<Rightarrow> False)
      else False)"

lemma utf8_valid_ascii: "\<forall>b \<in> set xs. b < 0x80 \<Longrightarrow> utf8_valid xs"
  by (induction xs) auto

end
