(* ===== verification/Codec.thy ===== *)
theory Codec
  imports Prelude
begin

text \<open>
  The interface between a format and the code that stores values in it. \<open>byte_codec\<close> is the
  contract of one encoded type: a well-formed value is read back from its encoding whatever
  follows, every cut of the encoding is reported as \<open>err\<close>, and a successful read uses up at
  least one byte. The lemmas are what the clients rely on: round trip, truncation,
  injectivity, lists of items, the bound on how many items a given number of bytes can hold.
  Every encoded type of the replay format and of the network protocol is an interpretation.
\<close>

locale byte_codec =
  fixes err :: 'e
    and enc :: "'a \<Rightarrow> bytes"
    and dec :: "('e, 'a) reader"
    and ok :: "'a \<Rightarrow> bool"
  assumes dec_enc: "ok x \<Longrightarrow> reads_as err dec (enc x) x"
    and dec_consumes: "consumes 1 dec"
begin

lemma roundtrip: "ok x \<Longrightarrow> dec (enc x @ rest) = Inr (x, rest)"
  by (rule reads_asD [OF dec_enc])

lemma truncated: "ok x \<Longrightarrow> strict_prefix p (enc x) \<Longrightarrow> dec p = Inl err"
  by (rule reads_as_prefixD [OF dec_enc])

lemma enc_nonempty: "ok x \<Longrightarrow> enc x \<noteq> []"
  using roundtrip [of x "[]"] consumes_length [OF dec_consumes, of "enc x" x "[]"] by auto

lemma enc_inject: "ok x \<Longrightarrow> ok y \<Longrightarrow> enc x = enc y \<Longrightarrow> x = y"
  using roundtrip [of x "[]"] roundtrip [of y "[]"] by simp

lemma prefix_free: "ok x \<Longrightarrow> ok y \<Longrightarrow> \<not> strict_prefix (enc x) (enc y)"
  by (rule reads_as_prefix_free [OF dec_enc dec_enc])

lemma dec_shorter: "dec s = Inr (x, s') \<Longrightarrow> length s' < length s"
  using consumes_length [OF dec_consumes, of s x s'] by simp

lemma reads_items:
  "n = length xs \<Longrightarrow> list_all ok xs \<Longrightarrow> reads_as err (read_n dec n) (concat (map enc xs)) xs"
  by (rule reads_as_read_n) (auto simp: list_all_iff dec_enc)

text \<open>However many items a count claims, no more are read than there are bytes.\<close>

lemma items_bounded: "read_n dec n s = Inr (xs, s') \<Longrightarrow> n + length s' \<le> length s"
  using consumes_read_n [OF dec_consumes, of n s xs s'] by auto

lemma dec_consumes_le: "k \<le> 1 \<Longrightarrow> consumes k dec"
  by (rule consumes_mono [OF dec_consumes])

end

end
