(* ===== verification/Packet_IO.thy ===== *)
theory Packet_IO
  imports Codec
begin

text \<open>
  The primitive encodings of replay packets, from
  \<open>supershuckie-replay-recorder/src/packet/io.rs\<close>: the write instructions of the
  \<open>PacketIO\<close> trait and the readers for integers, byte vectors, strings and vectors.
  \<open>write_X\<close> is \<open>write_packet_instructions\<close> of the type \<open>X\<close>, \<open>read_X v\<close> its
  \<open>read_all\<close> for a file of version \<open>v\<close>.
\<close>

subsection \<open>Write instructions\<close>

datatype packet_write_command = WriteByte u8 | WriteSlice bytes | WriteVec bytes

fun command_bytes :: "packet_write_command \<Rightarrow> bytes" where
  "command_bytes (WriteByte b) = [b]"
| "command_bytes (WriteSlice bs) = bs"
| "command_bytes (WriteVec bs) = bs"

text \<open>What a list of instructions puts on the stream.\<close>

definition instr_bytes :: "packet_write_command list \<Rightarrow> bytes" where
  "instr_bytes cs = concat (map command_bytes cs)"

definition append_packet :: "packet_write_command list \<Rightarrow> bytes \<Rightarrow> bytes" where
  "append_packet what into = into @ instr_bytes what"

text \<open>
  Owned copies of temporary instructions: empty ones are dropped and single bytes become
  \<open>WriteByte\<close>. The last \<open>WriteByte\<close> branch is the \<open>unreachable!\<close> of the source: such an
  instruction has one byte and was handled before.
\<close>

definition static_packet_write_array_references ::
    "packet_write_command list \<Rightarrow> packet_write_command list" where
  "static_packet_write_array_references from = concat (map (\<lambda>i.
     let bytes = command_bytes i in
     if bytes = [] then []
     else if length bytes = 1 then [WriteByte (hd bytes)]
     else (case i of
         WriteByte b \<Rightarrow> [WriteByte b]
       | WriteVec bs \<Rightarrow> [WriteVec bs]
       | WriteSlice bs \<Rightarrow> [WriteVec bs])) from)"

lemma instr_bytes_Nil [simp]: "instr_bytes [] = []"
  by (simp add: instr_bytes_def)

lemma instr_bytes_Cons [simp]: "instr_bytes (c # cs) = command_bytes c @ instr_bytes cs"
  by (simp add: instr_bytes_def)

lemma instr_bytes_append [simp]: "instr_bytes (cs @ ds) = instr_bytes cs @ instr_bytes ds"
  by (simp add: instr_bytes_def)

lemma instr_bytes_concat: "instr_bytes (concat css) = concat (map instr_bytes css)"
  by (induction css) auto

lemma instr_bytes_static [simp]:
  "instr_bytes (static_packet_write_array_references cs) = instr_bytes cs"
proof (induction cs)
  case Nil
  then show ?case by (simp add: static_packet_write_array_references_def)
next
  case (Cons c cs)
  have "instr_bytes (static_packet_write_array_references (c # cs)) =
      command_bytes c @ instr_bytes (static_packet_write_array_references cs)"
    by (cases c) (auto simp: static_packet_write_array_references_def Let_def length_Suc_conv)
  with Cons show ?case by simp
qed

subsection \<open>Read errors\<close>

text \<open>
  The explanations of \<open>ParseFail\<close>, one constructor for each message text of the source.
  \<open>Unreachable\<close> is the panic of an \<open>unreachable!\<close> arm.
\<close>

datatype parse_fail =
    BadIntegerLength nat
  | UsizeTooLarge
  | InvalidUtf8
  | UnknownDiscriminator u8
  | ZeroNonZeroU16
  | SerialInTooLong nat
  | UnsupportedBookmarkTableFormat u32
  | Unreachable

datatype packet_read_error = NotEnoughData | ParseFail parse_fail

type_synonym 'a preader = "(packet_read_error, 'a) reader"

locale packet_io =
  fixes wr :: "'a \<Rightarrow> packet_write_command list"
    and rd :: "u32 \<Rightarrow> 'a preader"
    and ok :: "u32 \<Rightarrow> 'a \<Rightarrow> bool"
  assumes read_write: "ok v x \<Longrightarrow> reads_as NotEnoughData (rd v) (instr_bytes (wr x)) x"
    and read_consumes: "consumes 1 (rd v)"

sublocale packet_io \<subseteq> item: byte_codec NotEnoughData "\<lambda>x. instr_bytes (wr x)" "rd v" "ok v"
  for v
  by unfold_locales (rule read_write, assumption, rule read_consumes)

subsection \<open>Unsigned integers: a length byte and that many little-endian bytes\<close>

fun ilog2 :: "nat \<Rightarrow> nat" where
  "ilog2 n = (if n < 2 then 0 else Suc (ilog2 (n div 2)))"

declare ilog2.simps [simp del]

definition write_u64 :: "u64 \<Rightarrow> packet_write_command list" where
  "write_u64 w =
     (if w = 0 then [WriteByte 0]
      else let bytes = take (1 + ilog2 (unat w) div 8) (to_le 8 w)
           in [WriteByte (of_nat (length bytes)), WriteVec bytes])"

definition read_u64 :: "u32 \<Rightarrow> u64 preader" where
  "read_u64 version = bnd (take_bytes NotEnoughData 1) (\<lambda>head.
     let len_byte = hd head in
     if len_byte = 0 then ret 0
     else let len = unat len_byte in
       if 8 < len then fail (ParseFail (BadIntegerLength len))
       else bnd (take_bytes NotEnoughData len) (\<lambda>bytes.
         ret (from_le (bytes @ replicate (8 - len) 0))))"

lemma ilog2_upper: "n < 2 ^ Suc (ilog2 n)"
proof (induction n rule: ilog2.induct)
  case (1 n)
  then show ?case by (subst ilog2.simps) (auto split: if_splits)
qed

lemma ilog2_lower: "0 < n \<Longrightarrow> 2 ^ ilog2 n \<le> n"
proof (induction n rule: ilog2.induct)
  case (1 n)
  then show ?case
    by (subst ilog2.simps) (auto split: if_splits simp: not_less)
qed

lemma ilog2_u64: "ilog2 (unat (w :: u64)) \<le> 63"
proof (cases "w = 0")
  case True
  then show ?thesis by (simp add: ilog2.simps)
next
  case False
  then have "(2::nat) ^ ilog2 (unat w) \<le> unat w"
    by (intro ilog2_lower) (simp add: unat_gt_0)
  also have "unat w < 2 ^ 64" using unsigned_less [of w] by simp
  finally have "ilog2 (unat w) < 64" by (rule power_less_imp_less_exp [rotated]) simp
  then show ?thesis by simp
qed

lemma take_nat_le: "take j (nat_le k n) = nat_le (min j k) n"
  by (induction k arbitrary: j n) (auto simp: take_Cons' min_def gr0_conv_Suc)

text \<open>The bytes that are cut off are zero.\<close>

lemma le_nat_take_ilog2:
  fixes w :: u64
  assumes "k = 1 + ilog2 (unat w) div 8"
  shows "le_nat (take k (to_le 8 w)) = unat w"
proof -
  have k8: "k \<le> 8" using ilog2_u64 [of w] assms by (simp add: div_le_mono)
  have "unat w < 2 ^ Suc (ilog2 (unat w))" by (rule ilog2_upper)
  also have "\<dots> \<le> (2::nat) ^ (8 * k)"
    using assms by (intro power_increasing) auto
  finally have "unat w < 256 ^ k" by (simp add: power_mult)
  with k8 show ?thesis by (simp add: to_le_def take_nat_le le_nat_nat_le min_def)
qed

lemma reads_u64: "reads_as NotEnoughData (read_u64 v) (instr_bytes (write_u64 w)) w"
proof (cases "w = 0")
  case True
  have "reads_as NotEnoughData (read_u64 v) ([0] @ []) (0 :: u64)"
    unfolding read_u64_def by (rule reads_as_bnd [OF reads_as_take_bytes]) (auto intro: reads_intros)
  with True show ?thesis by (simp add: write_u64_def)
next
  case False
  define k where "k = 1 + ilog2 (unat w) div 8"
  have k: "0 < k" "k \<le> 8" using ilog2_u64 [of w] by (auto simp: k_def div_le_mono)
  have kb: "(of_nat k :: u8) \<noteq> 0" "unat (of_nat k :: u8) = k"
    using k by (auto simp: unat_of_nat word_unat_eq_iff)
  have val: "from_le (take k (to_le 8 w) @ replicate (8 - k) 0) = w"
    using le_nat_take_ilog2 [OF k_def] by (simp add: from_le_def le_nat_append)
  have "reads_as NotEnoughData (read_u64 v) ([of_nat k] @ take k (to_le 8 w) @ []) w"
    unfolding read_u64_def
    by (rule reads_as_bnd [OF reads_as_take_bytes])
      (use k kb in \<open>auto simp: Let_def val intro!: reads_as_if_false reads_as_bnd [where b = "[]", simplified]
         reads_as_take_bytes reads_as_ret\<close>)
  moreover have "write_u64 w = [WriteByte (of_nat k), WriteVec (take k (to_le 8 w))]"
    using False k unfolding write_u64_def k_def [symmetric] Let_def by (simp add: min_absorb2)
  ultimately show ?thesis by simp
qed

lemma consumes_u64 [consumes_intros]: "k \<le> 1 \<Longrightarrow> consumes k (read_u64 v)"
  unfolding read_u64_def Let_def by (intro consumes_intros) simp_all

interpretation u64_io: packet_io write_u64 read_u64 "\<lambda>v w. True"
  by unfold_locales (simp_all add: reads_u64 consumes_u64)

subsection \<open>Signed integers and sizes\<close>

text \<open>\<open>as\<close> between \<open>u64\<close> and \<open>i64\<close> keeps the bits.\<close>

definition write_i64 :: "i64 \<Rightarrow> packet_write_command list" where
  "write_i64 i = static_packet_write_array_references (write_u64 i)"

definition read_i64 :: "u32 \<Rightarrow> i64 preader" where
  "read_i64 version = bnd (read_u64 version) (\<lambda>i. ret i)"

definition write_usize :: "nat \<Rightarrow> packet_write_command list" where
  "write_usize n = static_packet_write_array_references (write_u64 (of_nat n))"

definition read_usize :: "u32 \<Rightarrow> nat preader" where
  "read_usize version = bnd (read_u64 version) (\<lambda>size.
     case usize_try_from size of
       None \<Rightarrow> fail (ParseFail UsizeTooLarge)
     | Some n \<Rightarrow> ret n)"

lemma reads_i64: "reads_as NotEnoughData (read_i64 v) (instr_bytes (write_i64 i)) i"
  unfolding read_i64_def write_i64_def instr_bytes_static
  by (rule reads_as_bnd_last [OF reads_u64 reads_as_ret])

lemma reads_usize:
  "n < usize_limit \<Longrightarrow> reads_as NotEnoughData (read_usize v) (instr_bytes (write_usize n)) n"
  unfolding read_usize_def write_usize_def instr_bytes_static
  by (rule reads_as_bnd_last [OF reads_u64]) (simp add: reads_as_ret del: ret_apply)

lemma consumes_i64 [consumes_intros]: "k \<le> 1 \<Longrightarrow> consumes k (read_i64 v)"
  unfolding read_i64_def by (intro consumes_intros) simp_all

lemma consumes_usize [consumes_intros]: "k \<le> 1 \<Longrightarrow> consumes k (read_usize v)"
  unfolding read_usize_def usize_try_from option.case by (intro consumes_intros) simp_all

interpretation i64_io: packet_io write_i64 read_i64 "\<lambda>v i. True"
  by unfold_locales (simp_all add: reads_i64 consumes_i64)

interpretation usize_io: packet_io write_usize read_usize "\<lambda>v n. n < usize_limit"
  by unfold_locales (simp_all add: reads_usize consumes_usize)

subsection \<open>Byte vectors and strings\<close>

definition write_byte_vec :: "bytes \<Rightarrow> packet_write_command list" where
  "write_byte_vec bs =
     static_packet_write_array_references (write_usize (length bs)) @ [WriteSlice bs]"

definition read_byte_vec :: "u32 \<Rightarrow> bytes preader" where
  "read_byte_vec version = bnd (read_usize version) (\<lambda>len. take_bytes NotEnoughData len)"

definition write_string :: "rstring \<Rightarrow> packet_write_command list" where
  "write_string s =
     static_packet_write_array_references (write_usize (length s)) @ [WriteSlice s]"

definition read_string :: "u32 \<Rightarrow> rstring preader" where
  "read_string version = bnd (read_usize version) (\<lambda>len.
     bnd (take_bytes NotEnoughData len) (\<lambda>str_bytes.
       if utf8_valid str_bytes then ret str_bytes else fail (ParseFail InvalidUtf8)))"

text \<open>
  What the types of the source guarantee of a value in memory: a vector is shorter than the
  address space, and a \<open>String\<close> is UTF-8.
\<close>

definition bytes_ok :: "bytes \<Rightarrow> bool" where
  "bytes_ok bs \<longleftrightarrow> length bs < usize_limit"

definition string_ok :: "rstring \<Rightarrow> bool" where
  "string_ok s \<longleftrightarrow> length s < usize_limit \<and> utf8_valid s"

lemma reads_byte_vec:
  "bytes_ok bs \<Longrightarrow> reads_as NotEnoughData (read_byte_vec v) (instr_bytes (write_byte_vec bs)) bs"
  unfolding read_byte_vec_def write_byte_vec_def bytes_ok_def
  by (simp add: reads_as_bnd [OF reads_usize reads_as_take_bytes])

lemma reads_string:
  assumes "string_ok s"
  shows "reads_as NotEnoughData (read_string v) (instr_bytes (write_string s)) s"
proof -
  have "reads_as NotEnoughData (bnd (take_bytes NotEnoughData (length s)) (\<lambda>str_bytes.
      if utf8_valid str_bytes then ret str_bytes else fail (ParseFail InvalidUtf8))) s s"
    using assms
    by (intro reads_as_bnd_last [OF reads_as_take_bytes]) (auto simp: string_ok_def intro: reads_intros)
  then show ?thesis
    using assms unfolding read_string_def write_string_def string_ok_def
    by (simp add: reads_as_bnd [OF reads_usize])
qed

lemma consumes_byte_vec [consumes_intros]: "k \<le> 1 \<Longrightarrow> consumes k (read_byte_vec v)"
  unfolding read_byte_vec_def by (intro consumes_intros) simp_all

lemma consumes_string [consumes_intros]: "k \<le> 1 \<Longrightarrow> consumes k (read_string v)"
  unfolding read_string_def by (intro consumes_intros) simp_all

text \<open>A string that was read is UTF-8.\<close>

lemma read_string_utf8: "read_string v s = Inr (x, s') \<Longrightarrow> utf8_valid x"
  by (auto simp: read_string_def bnd_eq_Inr split: if_splits)

interpretation byte_vec_io: packet_io write_byte_vec read_byte_vec "\<lambda>v. bytes_ok"
  by unfold_locales (simp_all add: reads_byte_vec consumes_byte_vec)

interpretation string_io: packet_io write_string read_string "\<lambda>v. string_ok"
  by unfold_locales (simp_all add: reads_string consumes_string)

subsection \<open>Vectors: the count and the items\<close>

definition write_vec :: "('a \<Rightarrow> packet_write_command list) \<Rightarrow> 'a list \<Rightarrow> packet_write_command list" where
  "write_vec write_item xs =
     static_packet_write_array_references (write_usize (length xs)) @ concat (map write_item xs)"

definition read_vec :: "(u32 \<Rightarrow> 'a preader) \<Rightarrow> u32 \<Rightarrow> 'a list preader" where
  "read_vec read_item version =
     bnd (read_usize version) (\<lambda>len. read_n (read_item version) len)"

definition vec_ok :: "('a \<Rightarrow> bool) \<Rightarrow> 'a list \<Rightarrow> bool" where
  "vec_ok item_ok xs \<longleftrightarrow> length xs < usize_limit \<and> list_all item_ok xs"

context packet_io begin

lemma reads_vec:
  assumes "vec_ok (ok v) xs"
  shows "reads_as NotEnoughData (read_vec rd v) (instr_bytes (write_vec wr xs)) xs"
proof -
  have "reads_as NotEnoughData (read_n (rd v) (length xs))
      (concat (map (\<lambda>x. instr_bytes (wr x)) xs)) xs"
    using assms by (intro item.reads_items) (simp_all add: vec_ok_def)
  moreover have "reads_as NotEnoughData (read_usize v) (instr_bytes (write_usize (length xs))) (length xs)"
    using assms by (intro reads_usize) (simp add: vec_ok_def)
  ultimately show ?thesis
    unfolding read_vec_def write_vec_def
    by (simp add: instr_bytes_concat comp_def reads_as_bnd)
qed

lemma consumes_vec: "k \<le> 1 \<Longrightarrow> consumes k (read_vec rd v)"
  unfolding read_vec_def
  by (intro consumes_intros item.dec_consumes_le) simp_all

text \<open>A vector that was read has no more items than bytes were there: the reservation
  \<open>len.min(what.len())\<close> of the source is never too small.\<close>

lemma vec_length_bound: "read_vec rd v s = Inr (xs, s') \<Longrightarrow> length xs + length s' < length s"
proof -
  assume "read_vec rd v s = Inr (xs, s')"
  then obtain n s1 where n: "read_usize v s = Inr (n, s1)" "read_n (rd v) n s1 = Inr (xs, s')"
    by (auto simp: read_vec_def bnd_eq_Inr)
  then have "length s1 < length s" by (intro usize_io.item.dec_shorter)
  moreover have "n + length s' \<le> length s1" using n(2) by (rule item.items_bounded)
  moreover have "length xs = n"
    using consumes_read_n [OF read_consumes n(2)] by auto
  ultimately show ?thesis by simp
qed

end

text \<open>A vector of an encoded type is an encoded type.\<close>

lemma packet_io_vec:
  assumes "packet_io wr rd ok"
  shows "packet_io (write_vec wr) (read_vec rd) (\<lambda>v. vec_ok (ok v))"
  using packet_io.reads_vec [OF assms] packet_io.consumes_vec [OF assms]
  by unfold_locales simp_all

interpretation u64_vec_io: packet_io "write_vec write_u64" "read_vec read_u64" "\<lambda>v. vec_ok (\<lambda>_. True)"
  by (rule packet_io_vec [OF u64_io.packet_io_axioms])

subsection \<open>Fixed-width integers\<close>

definition write_u16 :: "u16 \<Rightarrow> packet_write_command list" where
  "write_u16 w = [WriteVec (to_le 2 w)]"

definition read_u16 :: "u32 \<Rightarrow> u16 preader" where
  "read_u16 version = bnd (take_bytes NotEnoughData 2) (\<lambda>bytes. ret (from_le bytes))"

definition write_u32 :: "u32 \<Rightarrow> packet_write_command list" where
  "write_u32 w = [WriteVec (to_le 4 w)]"

definition read_u32 :: "u32 \<Rightarrow> u32 preader" where
  "read_u32 version = bnd (take_bytes NotEnoughData 4) (\<lambda>bytes. ret (from_le bytes))"

definition write_u8 :: "u8 \<Rightarrow> packet_write_command list" where
  "write_u8 b = [WriteByte b]"

definition read_u8 :: "u32 \<Rightarrow> u8 preader" where
  "read_u8 version = bnd (take_bytes NotEnoughData 1) (\<lambda>bytes. ret (hd bytes))"

text \<open>\<open>NonZeroU16\<close>: a \<open>u16\<close> that is not zero.\<close>

definition write_nonzero_u16 :: "u16 \<Rightarrow> packet_write_command list" where
  "write_nonzero_u16 w = static_packet_write_array_references (write_u16 w)"

definition read_nonzero_u16 :: "u32 \<Rightarrow> u16 preader" where
  "read_nonzero_u16 version = bnd (read_u16 version) (\<lambda>w.
     if w \<noteq> 0 then ret w else fail (ParseFail ZeroNonZeroU16))"

lemma reads_take_le:
  fixes w :: "'a::len word"
  assumes "LENGTH('a) \<le> 8 * k" and "f (to_le k w) = ret w"
  shows "reads_as e (bnd (take_bytes e k) f) (to_le k w) w"
  by (rule reads_as_bnd_last [OF reads_as_take_bytes]) (simp_all add: assms reads_as_ret del: ret_apply)

lemma reads_u16: "reads_as NotEnoughData (read_u16 v) (instr_bytes (write_u16 w)) w"
  unfolding read_u16_def write_u16_def by (simp add: reads_take_le)

lemma reads_u32: "reads_as NotEnoughData (read_u32 v) (instr_bytes (write_u32 w)) w"
  unfolding read_u32_def write_u32_def by (simp add: reads_take_le)

lemma reads_u8: "reads_as NotEnoughData (read_u8 v) (instr_bytes (write_u8 b)) b"
  unfolding read_u8_def write_u8_def
  by (simp, rule reads_as_bnd_last [OF reads_as_take_bytes]) (simp_all add: reads_as_ret del: ret_apply)

lemma reads_nonzero_u16:
  "w \<noteq> 0 \<Longrightarrow> reads_as NotEnoughData (read_nonzero_u16 v) (instr_bytes (write_nonzero_u16 w)) w"
  unfolding read_nonzero_u16_def write_nonzero_u16_def instr_bytes_static
  by (rule reads_as_bnd_last [OF reads_u16]) (simp add: reads_as_ret del: ret_apply)

lemma consumes_ints [consumes_intros]:
  "k \<le> 1 \<Longrightarrow> consumes k (read_u8 v)"
  "k \<le> 1 \<Longrightarrow> consumes k (read_u16 v)"
  "k \<le> 1 \<Longrightarrow> consumes k (read_u32 v)"
  "k \<le> 1 \<Longrightarrow> consumes k (read_nonzero_u16 v)"
  unfolding read_u8_def read_u16_def read_u32_def read_nonzero_u16_def
  by (intro consumes_intros; simp)+

interpretation u8_io: packet_io write_u8 read_u8 "\<lambda>v b. True"
  by unfold_locales (simp_all add: reads_u8 consumes_ints)

interpretation u16_io: packet_io write_u16 read_u16 "\<lambda>v w. True"
  by unfold_locales (simp_all add: reads_u16 consumes_ints)

interpretation u32_io: packet_io write_u32 read_u32 "\<lambda>v w. True"
  by unfold_locales (simp_all add: reads_u32 consumes_ints)

interpretation nonzero_u16_io: packet_io write_nonzero_u16 read_nonzero_u16 "\<lambda>v w. w \<noteq> 0"
  by unfold_locales (simp_all add: reads_nonzero_u16 consumes_ints)

text \<open>The leaves of the field-by-field proofs about records.\<close>

lemmas reads_primitives [reads_leaf] =
  reads_u64 reads_i64 reads_usize reads_byte_vec reads_string
  reads_u8 reads_u16 reads_u32 reads_nonzero_u16 u64_io.reads_vec

end
