(* ===== verification/Packet_Data.thy ===== *)
theory Packet_Data
  imports Packet_IO "HOL-Library.Product_Lexorder" "HOL-Library.List_Lexorder"
begin

text \<open>
  The values carried by packets, from \<open>supershuckie-replay-recorder/src/packet.rs\<close>, with
  their \<open>PacketIO\<close> implementations from \<open>packet/io.rs\<close>: time stamps, speeds, counters,
  keyframe and bookmark metadata.
\<close>

subsection \<open>Time stamps\<close>

datatype timestamp_millis = TimestampMillis (millis: u64)

text \<open>\<open>TimestampMillis\<close> compares as its integer.\<close>

instantiation timestamp_millis :: linorder
begin

definition less_eq_timestamp_millis :: "timestamp_millis \<Rightarrow> timestamp_millis \<Rightarrow> bool" where
  "less_eq_timestamp_millis a b \<longleftrightarrow> millis a \<le> millis b"

definition less_timestamp_millis :: "timestamp_millis \<Rightarrow> timestamp_millis \<Rightarrow> bool" where
  "less_timestamp_millis a b \<longleftrightarrow> millis a < millis b"

instance
  by standard (auto simp: less_eq_timestamp_millis_def less_timestamp_millis_def
      intro: timestamp_millis.expand)

end

definition write_timestamp :: "timestamp_millis \<Rightarrow> packet_write_command list" where
  "write_timestamp t = write_u64 (millis t)"

definition read_timestamp :: "u32 \<Rightarrow> timestamp_millis preader" where
  "read_timestamp version = bnd (read_u64 version) (\<lambda>ms. ret (TimestampMillis ms))"

lemma reads_timestamp [reads_leaf]:
  "reads_as NotEnoughData (read_timestamp v) (instr_bytes (write_timestamp t)) t"
  unfolding read_timestamp_def write_timestamp_def
  by (rule reads_as_bnd_last [OF reads_u64]) (simp add: reads_as_ret del: ret_apply)

lemma consumes_timestamp [consumes_intros]: "k \<le> 1 \<Longrightarrow> consumes k (read_timestamp v)"
  unfolding read_timestamp_def by (intro consumes_intros) simp_all

interpretation timestamp_io: packet_io write_timestamp read_timestamp "\<lambda>v t. True"
  by unfold_locales (simp_all add: reads_timestamp consumes_timestamp)

subsection \<open>Speeds\<close>

text \<open>A fixed-point multiplier over 256; the field is a \<open>NonZeroU16\<close>.\<close>

datatype speed = Speed (speed_over_256: u16)

definition speed_ok :: "speed \<Rightarrow> bool" where
  "speed_ok s \<longleftrightarrow> speed_over_256 s \<noteq> 0"

definition write_speed :: "speed \<Rightarrow> packet_write_command list" where
  "write_speed s = write_nonzero_u16 (speed_over_256 s)"

definition read_speed :: "u32 \<Rightarrow> speed preader" where
  "read_speed version = bnd (read_nonzero_u16 version) (\<lambda>w. ret (Speed w))"

lemma reads_speed [reads_leaf]:
  "speed_ok s \<Longrightarrow> reads_as NotEnoughData (read_speed v) (instr_bytes (write_speed s)) s"
  unfolding read_speed_def write_speed_def speed_ok_def
  by (rule reads_as_bnd_last [OF reads_nonzero_u16]) (simp_all add: reads_as_ret del: ret_apply)

lemma consumes_speed [consumes_intros]: "k \<le> 1 \<Longrightarrow> consumes k (read_speed v)"
  unfolding read_speed_def by (intro consumes_intros) simp_all

lemma read_speed_ok: "read_speed v s = Inr (x, s') \<Longrightarrow> speed_ok x"
  by (auto simp: read_speed_def read_nonzero_u16_def speed_ok_def bnd_eq_Inr split: if_splits)

interpretation speed_io: packet_io write_speed read_speed "\<lambda>v. speed_ok"
  by unfold_locales (simp_all add: reads_speed consumes_speed)

subsection \<open>Counters\<close>

record counter =
  counter_name :: rstring
  counter_value :: i64

definition counter_ok :: "counter \<Rightarrow> bool" where
  "counter_ok c \<longleftrightarrow> string_ok (counter_name c)"

definition write_counter :: "counter \<Rightarrow> packet_write_command list" where
  "write_counter c = write_string (counter_name c) @ write_i64 (counter_value c)"

definition read_counter :: "u32 \<Rightarrow> counter preader" where
  "read_counter version =
     bnd (read_string version) (\<lambda>name.
     bnd (read_i64 version) (\<lambda>val.
     ret \<lparr>counter_name = name, counter_value = val\<rparr>))"

lemma reads_counter [reads_leaf]:
  "counter_ok c \<Longrightarrow> reads_as NotEnoughData (read_counter v) (instr_bytes (write_counter c)) c"
  unfolding read_counter_def write_counter_def counter_ok_def instr_bytes_append
  by (rule reads_as_bnd reads_as_bnd_last reads_leaf reads_as_ret_eq | (simp; fail))+

lemma consumes_counter [consumes_intros]: "k \<le> 1 \<Longrightarrow> consumes k (read_counter v)"
  unfolding read_counter_def by (intro consumes_intros) simp_all

interpretation counter_io: packet_io write_counter read_counter "\<lambda>v. counter_ok"
  by unfold_locales (simp_all add: reads_counter consumes_counter)

subsection \<open>Keyframe metadata\<close>

record keyframe_metadata =
  km_input :: bytes
  km_speed :: speed
  km_elapsed_frames :: u64
  km_elapsed_millis :: timestamp_millis
  km_counters :: "counter list"

definition write_keyframe_metadata :: "keyframe_metadata \<Rightarrow> packet_write_command list" where
  "write_keyframe_metadata m =
     write_byte_vec (km_input m) @
     write_speed (km_speed m) @
     write_u64 (km_elapsed_frames m) @
     write_timestamp (km_elapsed_millis m) @
     write_vec write_counter (km_counters m)"

text \<open>Files before version 3 have no counters.\<close>

definition read_keyframe_metadata :: "u32 \<Rightarrow> keyframe_metadata preader" where
  "read_keyframe_metadata version =
     bnd (read_byte_vec version) (\<lambda>inp.
     bnd (read_speed version) (\<lambda>sp.
     bnd (read_u64 version) (\<lambda>frames.
     bnd (read_timestamp version) (\<lambda>ms.
     bnd (if 3 \<le> version then read_vec read_counter version else ret []) (\<lambda>cs.
     ret \<lparr>km_input = inp, km_speed = sp, km_elapsed_frames = frames,
          km_elapsed_millis = ms, km_counters = cs\<rparr>)))))"

definition keyframe_metadata_ok :: "keyframe_metadata \<Rightarrow> bool" where
  "keyframe_metadata_ok m \<longleftrightarrow>
     bytes_ok (km_input m) \<and> speed_ok (km_speed m) \<and> vec_ok counter_ok (km_counters m)"

lemma reads_keyframe_metadata [reads_leaf]:
  "3 \<le> v \<Longrightarrow> keyframe_metadata_ok m \<Longrightarrow>
   reads_as NotEnoughData (read_keyframe_metadata v) (instr_bytes (write_keyframe_metadata m)) m"
  unfolding read_keyframe_metadata_def write_keyframe_metadata_def keyframe_metadata_ok_def
    instr_bytes_append
  by (simp only: if_True simp_thms,
     (rule reads_as_bnd reads_as_bnd_last reads_leaf counter_io.reads_vec reads_as_ret_eq
       | (simp; fail))+)

text \<open>
  What a version-2 reader makes of the same fields: it stops before the counters.
\<close>

lemma read_keyframe_metadata_v2:
  assumes "v < 3" and "bytes_ok (km_input m)" and "speed_ok (km_speed m)"
  shows "read_keyframe_metadata v (instr_bytes (write_keyframe_metadata m) @ rest) =
    Inr (m\<lparr>km_counters := []\<rparr>, instr_bytes (write_vec write_counter (km_counters m)) @ rest)"
  using assms reads_asD [OF reads_byte_vec] reads_asD [OF reads_speed]
    reads_asD [OF reads_u64] reads_asD [OF reads_timestamp]
  by (simp add: read_keyframe_metadata_def write_keyframe_metadata_def not_le)

lemma consumes_keyframe_metadata [consumes_intros]:
  "k \<le> 1 \<Longrightarrow> consumes k (read_keyframe_metadata v)"
  unfolding read_keyframe_metadata_def
  by (intro consumes_intros counter_io.consumes_vec) simp_all

interpretation keyframe_metadata_io: packet_io write_keyframe_metadata read_keyframe_metadata
    "\<lambda>v m. 3 \<le> v \<and> keyframe_metadata_ok m"
  by unfold_locales (simp_all add: reads_keyframe_metadata consumes_keyframe_metadata)

subsection \<open>Bookmark metadata of the old formats\<close>

record bookmark_metadata =
  bm_name :: rstring
  bm_elapsed_frames :: u64
  bm_elapsed_millis :: timestamp_millis

definition bookmark_metadata_ok :: "bookmark_metadata \<Rightarrow> bool" where
  "bookmark_metadata_ok m \<longleftrightarrow> string_ok (bm_name m)"

definition write_bookmark_metadata :: "bookmark_metadata \<Rightarrow> packet_write_command list" where
  "write_bookmark_metadata m =
     write_string (bm_name m) @
     write_u64 (bm_elapsed_frames m) @
     write_timestamp (bm_elapsed_millis m)"

definition read_bookmark_metadata :: "u32 \<Rightarrow> bookmark_metadata preader" where
  "read_bookmark_metadata version =
     bnd (read_string version) (\<lambda>name.
     bnd (read_u64 version) (\<lambda>frames.
     bnd (read_timestamp version) (\<lambda>ms.
     ret \<lparr>bm_name = name, bm_elapsed_frames = frames, bm_elapsed_millis = ms\<rparr>)))"

lemma reads_bookmark_metadata [reads_leaf]:
  "bookmark_metadata_ok m \<Longrightarrow>
   reads_as NotEnoughData (read_bookmark_metadata v) (instr_bytes (write_bookmark_metadata m)) m"
  unfolding read_bookmark_metadata_def write_bookmark_metadata_def bookmark_metadata_ok_def
    instr_bytes_append
  by (rule reads_as_bnd reads_as_bnd_last reads_leaf reads_as_ret_eq | (simp; fail))+

lemma consumes_bookmark_metadata [consumes_intros]:
  "k \<le> 1 \<Longrightarrow> consumes k (read_bookmark_metadata v)"
  unfolding read_bookmark_metadata_def by (intro consumes_intros) simp_all

interpretation bookmark_metadata_io: packet_io write_bookmark_metadata read_bookmark_metadata
    "\<lambda>v. bookmark_metadata_ok"
  by unfold_locales (simp_all add: reads_bookmark_metadata consumes_bookmark_metadata)

end
