(* ===== verification/Slices.thy ===== *)
theory Slices
  imports Prelude
begin

text \<open>
  The slice operations of the standard library the program uses, in the form the library
  executes them: \<open>partition_point\<close> is the binary search of \<open>slice::binary_search_by\<close>, and its
  contract (the length of the prefix on which the predicate holds) is a lemma about
  partitioned slices, not part of the definition.
\<close>

function partition_loop :: "('a \<Rightarrow> bool) \<Rightarrow> 'a list \<Rightarrow> nat \<Rightarrow> nat \<Rightarrow> nat" where
  "partition_loop p xs sz base =
     (if 1 < sz then
        let half = sz div 2; mid = base + half
        in partition_loop p xs (sz - half) (if p (xs ! mid) then mid else base)
      else base)"
  by pat_completeness auto
termination
  by (relation "measure (\<lambda>(p, xs, sz, base). sz)") auto

declare partition_loop.simps [simp del]

definition partition_point :: "('a \<Rightarrow> bool) \<Rightarrow> 'a list \<Rightarrow> nat" where
  "partition_point p xs =
     (if xs = [] then 0
      else let base = partition_loop p xs (length xs) 0
           in base + (if p (xs ! base) then 1 else 0))"

lemma partition_loop_finds:
  assumes "\<And>i. i < length xs \<Longrightarrow> p (xs ! i) \<longleftrightarrow> i < k"
    and "base = 0 \<or> base < k" and "k \<le> base + sz" and "0 < sz" and "base + sz \<le> length xs"
  shows "let b = partition_loop p xs sz base
         in b < length xs \<and> (b = 0 \<or> b < k) \<and> k \<le> b + 1"
  using assms
proof (induction p xs sz base rule: partition_loop.induct)
  case (1 p xs sz base)
  show ?case
  proof (cases "1 < sz")
    case False
    with "1.prems" show ?thesis by (subst partition_loop.simps) auto
  next
    case True
    let ?mid = "base + sz div 2"
    from True have half: "0 < sz div 2" "sz div 2 < sz" by auto
    have p: "p (xs ! ?mid) \<longleftrightarrow> ?mid < k"
      using "1.prems"(1) [of ?mid] "1.prems"(5) half by simp
    have "let b = partition_loop p xs (sz - sz div 2) (if p (xs ! ?mid) then ?mid else base)
          in b < length xs \<and> (b = 0 \<or> b < k) \<and> k \<le> b + 1"
      using "1.prems" half p True
      by (intro "1.IH") auto
    with True show ?thesis by (subst partition_loop.simps) (simp add: Let_def split del: if_split)
  qed
qed

lemma partition_point_unique:
  assumes "\<And>i. i < length xs \<Longrightarrow> p (xs ! i) \<longleftrightarrow> i < k" and "k \<le> length xs"
  shows "partition_point p xs = k"
proof (cases "xs = []")
  case True
  with assms(2) show ?thesis by (simp add: partition_point_def)
next
  case False
  with assms have "let b = partition_loop p xs (length xs) 0
      in b < length xs \<and> (b = 0 \<or> b < k) \<and> k \<le> b + 1"
    by (intro partition_loop_finds) auto
  with False assms(1) show ?thesis
    by (auto simp: partition_point_def Let_def)
qed

text \<open>On a slice whose satisfying items come first, it is the length of that prefix.\<close>

lemma partition_point_takeWhile:
  assumes "\<And>i j. i < j \<Longrightarrow> j < length xs \<Longrightarrow> p (xs ! j) \<Longrightarrow> p (xs ! i)"
  shows "partition_point p xs = length (takeWhile p xs)"
proof (rule partition_point_unique)
  show "length (takeWhile p xs) \<le> length xs" by (rule length_takeWhile_le)
  fix i
  assume i: "i < length xs"
  show "p (xs ! i) \<longleftrightarrow> i < length (takeWhile p xs)"
  proof
    assume "i < length (takeWhile p xs)"
    then show "p (xs ! i)"
      by (metis nth_mem set_takeWhileD takeWhile_nth)
  next
    assume "p (xs ! i)"
    show "i < length (takeWhile p xs)"
    proof (rule ccontr)
      let ?n = "length (takeWhile p xs)"
      assume "\<not> i < ?n"
      then have n: "?n \<le> i" by simp
      with i have "\<not> p (xs ! ?n)"
        by (intro nth_length_takeWhile) simp
      moreover have "p (xs ! ?n)"
        using assms [of ?n i] \<open>p (xs ! i)\<close> i n by (cases "?n = i") auto
      ultimately show False by simp
    qed
  qed
qed

lemma sorted_partition_takeWhile:
  assumes "sorted (map f xs)"
  shows "partition_point (\<lambda>x. f x < c) xs = length (takeWhile (\<lambda>x. f x < c) xs)"
proof (rule partition_point_takeWhile)
  fix i j
  assume ij: "i < j" "j < length xs" and "f (xs ! j) < c"
  moreover from ij have "f (xs ! i) \<le> f (xs ! j)"
    using sorted_nth_mono [OF assms, of i j] by simp
  ultimately show "f (xs ! i) < c" by simp
qed

text \<open>\<open>Vec::insert\<close>.\<close>

definition insert_at :: "nat \<Rightarrow> 'a \<Rightarrow> 'a list \<Rightarrow> 'a list" where
  "insert_at n x xs = take n xs @ x # drop n xs"

lemma set_insert_at [simp]: "set (insert_at n x xs) = insert x (set xs)"
  unfolding insert_at_def by (metis Un_insert_right append_take_drop_id list.simps(15) set_append)

lemma length_insert_at [simp]: "length (insert_at n x xs) = Suc (length xs)"
  by (simp add: insert_at_def)

lemma sorted_insert_at_partition:
  assumes "sorted (map f xs)"
  shows "sorted (map f (insert_at (partition_point (\<lambda>y. f y < f x) xs) x xs))"
proof -
  let ?P = "\<lambda>y. f y < f x"
  let ?n = "length (takeWhile ?P xs)"
  have tk: "take ?n xs = takeWhile ?P xs" by (rule takeWhile_eq_take [symmetric])
  have dr: "drop ?n xs = dropWhile ?P xs" by (rule dropWhile_eq_drop [symmetric])
  have s1: "sorted (map f (takeWhile ?P xs))" and s2: "sorted (map f (dropWhile ?P xs))"
    using assms sorted_wrt_take [of "(\<le>)" "map f xs" ?n] sorted_wrt_drop [of "(\<le>)" "map f xs" ?n]
    by (simp_all add: take_map drop_map tk dr)
  have low: "\<forall>y \<in> set (takeWhile ?P xs). f y < f x" by (auto dest: set_takeWhileD)
  have high: "\<forall>y \<in> set (dropWhile ?P xs). f x \<le> f y"
  proof (cases "dropWhile ?P xs")
    case Nil
    show ?thesis unfolding Nil by simp
  next
    case (Cons z zs)
    then have "\<not> f z < f x" by (simp add: dropWhile_eq_Cons_conv)
    with s2 show ?thesis unfolding Cons by auto
  qed
  show ?thesis
    using s1 s2 low high
    unfolding sorted_partition_takeWhile [OF assms] insert_at_def tk dr
    by (fastforce simp: sorted_append)
qed

lemma map_of_insert_middle:
  assumes "f x \<notin> f ` set (as @ bs)"
  shows "map_of (map (\<lambda>y. (f y, y)) (as @ x # bs)) k =
    (if k = f x then Some x else map_of (map (\<lambda>y. (f y, y)) (as @ bs)) k)"
  using assms by (induction as) auto

lemma map_of_insert_at:
  assumes "f x \<notin> f ` set xs"
  shows "map_of (map (\<lambda>y. (f y, y)) (insert_at n x xs)) k =
    (if k = f x then Some x else map_of (map (\<lambda>y. (f y, y)) xs) k)"
  using assms map_of_insert_middle [of f x "take n xs" "drop n xs" k]
  unfolding insert_at_def append_take_drop_id by simp

text \<open>\<open>iter().find(|x| f(x) == k)\<close>.\<close>

definition find_key :: "('a \<Rightarrow> 'k) \<Rightarrow> 'k \<Rightarrow> 'a list \<Rightarrow> 'a option" where
  "find_key f k xs = List.find (\<lambda>x. f x = k) xs"

lemma find_key_map_of: "find_key f k xs = map_of (map (\<lambda>x. (f x, x)) xs) k"
  by (induction xs) (auto simp: find_key_def)

lemma find_key_None: "find_key f k xs = None \<longleftrightarrow> k \<notin> f ` set xs"
  by (simp add: find_key_map_of map_of_eq_None_iff image_image)

lemma find_key_snoc:
  "f v \<notin> f ` set xs \<Longrightarrow> find_key f k (xs @ [v]) = (if k = f v then Some v else find_key f k xs)"
  by (induction xs) (auto simp: find_key_def)

lemma find_key_filter: "find_key f k (filter (\<lambda>x. f x \<noteq> j) xs) = (if k = j then None else find_key f k xs)"
  by (induction xs) (auto simp: find_key_def)

end
