(* ===== verification/Keyed_Store.thy ===== *)
theory Keyed_Store
  imports Slices
begin

text \<open>
  The contract of a table whose entries carry their own key and where storing an entry
  replaces the one with the same key. Bookmark tables are such a table twice: for bookmarks
  and for the type records.
\<close>

locale keyed_store =
  fixes look :: "'t \<Rightarrow> 'k \<Rightarrow> 'v option"
    and put :: "'v \<Rightarrow> 't \<Rightarrow> 't"
    and key :: "'v \<Rightarrow> 'k"
    and valid :: "'v \<Rightarrow> bool"
    and inv :: "'t \<Rightarrow> bool"
  assumes look_put: "inv t \<Longrightarrow> valid v \<Longrightarrow> look (put v t) k = (if k = key v then Some v else look t k)"
    and inv_put: "inv t \<Longrightarrow> valid v \<Longrightarrow> inv (put v t)"
begin

lemma inv_puts: "inv t \<Longrightarrow> list_all valid vs \<Longrightarrow> inv (fold put vs t)"
  by (induction vs arbitrary: t) (auto simp: inv_put)

text \<open>After a sequence of stores the last one of a key counts.\<close>

lemma look_puts:
  "inv t \<Longrightarrow> list_all valid vs \<Longrightarrow>
   look (fold put vs t) k =
     (case find_key key k (rev vs) of None \<Rightarrow> look t k | Some v \<Rightarrow> Some v)"
proof (induction vs arbitrary: t)
  case Nil
  then show ?case by (simp add: find_key_def)
next
  case (Cons v vs)
  have app: "find_key key k (rev vs @ [v]) = (case find_key key k (rev vs) of
      None \<Rightarrow> if key v = k then Some v else None | Some w \<Rightarrow> Some w)"
    unfolding find_key_map_of by (simp add: map_add_def split: option.splits)
  from Cons show ?case
    by (auto simp: app look_put inv_put split: option.splits)
qed

lemma put_twice: "inv t \<Longrightarrow> valid v \<Longrightarrow> valid w \<Longrightarrow> key v = key w \<Longrightarrow> look (put w (put v t)) = look (put w t)"
  by (auto simp: fun_eq_iff look_put inv_put)

lemma put_commute:
  "inv t \<Longrightarrow> valid v \<Longrightarrow> valid w \<Longrightarrow> key v \<noteq> key w \<Longrightarrow> look (put w (put v t)) = look (put v (put w t))"
  by (auto simp: fun_eq_iff look_put inv_put)

end

end
