(* ===== verification/Bookmarks.thy ===== *)
theory Bookmarks
  imports Packet_Data Keyed_Store
begin

text \<open>
  Bookmark tables of format v5, from \<open>supershuckie-replay-recorder/src/bookmarks.rs\<close>: the
  records, the operations of \<open>BookmarkTable\<close> and its encoding. Every change of a bookmark in
  the program replaces the whole table, so the operations are functions from tables to tables.
\<close>

subsection \<open>Records\<close>

definition KEYFRAME_BOOKMARK_LEAD_FRAMES :: u64 where
  "KEYFRAME_BOOKMARK_LEAD_FRAMES = 3"

definition BOOKMARK_TABLE_FORMAT :: u32 where
  "BOOKMARK_TABLE_FORMAT = 1"

definition FLAG_HAS_OUT :: u64 where
  "FLAG_HAS_OUT = 1"

definition FLAG_KEYFRAME :: u64 where
  "FLAG_KEYFRAME = push_bit 1 1"

definition REPLAY_VERSION :: u32 where
  "REPLAY_VERSION = 7"

record bookmark =
  b_id :: u64
  b_name :: rstring
  b_type_id :: u64
  b_in_frame :: u64
  b_in_millis :: timestamp_millis
  b_out :: "(u64 \<times> timestamp_millis) option"
  b_keyframe :: bool

record bookmark_type_record =
  t_id :: u64
  t_name :: rstring
  t_color :: u32

record bookmark_table =
  next_id :: u64
  types :: "bookmark_type_record list"
  bookmarks :: "bookmark list"

definition out_frame :: "bookmark \<Rightarrow> u64 option" where
  "out_frame b = map_option fst (b_out b)"

definition keyframe_frame :: "bookmark \<Rightarrow> u64 option" where
  "keyframe_frame b =
     (if b_keyframe b then Some (saturating_sub (b_in_frame b) KEYFRAME_BOOKMARK_LEAD_FRAMES)
      else None)"

subsection \<open>Table operations\<close>

definition table_new :: bookmark_table where
  "table_new = \<lparr>next_id = 1, types = [], bookmarks = []\<rparr>"

definition table_is_empty :: "bookmark_table \<Rightarrow> bool" where
  "table_is_empty t \<longleftrightarrow> bookmarks t = []"

definition allocate_id :: "bookmark_table \<Rightarrow> u64 \<times> bookmark_table" where
  "allocate_id t = (let i = max (next_id t) 1 in (i, t\<lparr>next_id := saturating_add i 1\<rparr>))"

definition bookmark_key :: "bookmark \<Rightarrow> u64 \<times> u64" where
  "bookmark_key b = (b_in_frame b, b_id b)"

text \<open>The first part of \<open>insert\<close>: id 0 is replaced by a new id, and the next id stays fresh.\<close>

definition assign_id :: "bookmark \<Rightarrow> bookmark_table \<Rightarrow> bookmark \<times> bookmark_table" where
  "assign_id bookmark t =
     (if b_id bookmark = 0 then
        (let (i, t') = allocate_id t in (bookmark\<lparr>b_id := i\<rparr>, t'))
      else if next_id t \<le> b_id bookmark then
        (bookmark, t\<lparr>next_id := saturating_add (b_id bookmark) 1\<rparr>)
      else (bookmark, t))"

definition table_insert :: "bookmark \<Rightarrow> bookmark_table \<Rightarrow> u64 \<times> bookmark_table" where
  "table_insert bookmark t =
     (let (bookmark, t) = assign_id bookmark t;
          i = b_id bookmark;
          kept = filter (\<lambda>b. b_id b \<noteq> i) (bookmarks t);
          at = partition_point (\<lambda>b. bookmark_key b < (b_in_frame bookmark, i)) kept
      in (i, t\<lparr>bookmarks := insert_at at bookmark kept\<rparr>))"

definition table_get :: "bookmark_table \<Rightarrow> u64 \<Rightarrow> bookmark option" where
  "table_get t i = find_key b_id i (bookmarks t)"

text \<open>\<open>get_mut\<close>: the first bookmark with the id is replaced by what the caller makes of it.\<close>

fun update_first :: "('a \<Rightarrow> bool) \<Rightarrow> ('a \<Rightarrow> 'a) \<Rightarrow> 'a list \<Rightarrow> 'a list" where
  "update_first p f [] = []"
| "update_first p f (x # xs) = (if p x then f x # xs else x # update_first p f xs)"

definition table_get_mut :: "u64 \<Rightarrow> (bookmark \<Rightarrow> bookmark) \<Rightarrow> bookmark_table \<Rightarrow> bookmark_table" where
  "table_get_mut i f t = t\<lparr>bookmarks := update_first (\<lambda>b. b_id b = i) f (bookmarks t)\<rparr>"

fun remove_first :: "('a \<Rightarrow> bool) \<Rightarrow> 'a list \<Rightarrow> ('a \<times> 'a list) option" where
  "remove_first p [] = None"
| "remove_first p (x # xs) =
     (if p x then Some (x, xs) else map_option (\<lambda>(y, ys). (y, x # ys)) (remove_first p xs))"

definition table_remove :: "u64 \<Rightarrow> bookmark_table \<Rightarrow> bookmark option \<times> bookmark_table" where
  "table_remove i t =
     (case remove_first (\<lambda>b. b_id b = i) (bookmarks t) of
        None \<Rightarrow> (None, t)
      | Some (b, bs) \<Rightarrow> (Some b, t\<lparr>bookmarks := bs\<rparr>))"

definition table_sort :: "bookmark_table \<Rightarrow> bookmark_table" where
  "table_sort t = t\<lparr>bookmarks := sort_key bookmark_key (bookmarks t)\<rparr>"

definition type_record :: "bookmark_table \<Rightarrow> u64 \<Rightarrow> bookmark_type_record option" where
  "type_record t i = find_key t_id i (types t)"

definition set_type_record :: "bookmark_type_record \<Rightarrow> bookmark_table \<Rightarrow> bookmark_table" where
  "set_type_record r t =
     (if (\<exists>x \<in> set (types t). t_id x = t_id r)
      then t\<lparr>types := update_first (\<lambda>x. t_id x = t_id r) (\<lambda>_. r) (types t)\<rparr>
      else t\<lparr>types := types t @ [r]\<rparr>)"

definition prune_types :: "bookmark_table \<Rightarrow> bookmark_table" where
  "prune_types t = t\<lparr>types := sort_key t_id
     (filter (\<lambda>r. t_id r \<noteq> 0 \<and> (\<exists>b \<in> set (bookmarks t). b_type_id b = t_id r)) (types t))\<rparr>"

definition truncated_to :: "u64 \<Rightarrow> bookmark_table \<Rightarrow> bookmark_table" where
  "truncated_to frame t =
     (let kept = filter (\<lambda>b. b_in_frame b \<le> frame) (bookmarks t);
          cut = map (\<lambda>b. case out_frame b of
                  None \<Rightarrow> b
                | Some out \<Rightarrow> if frame < out then b\<lparr>b_out := None\<rparr> else b) kept
      in prune_types (t\<lparr>bookmarks := cut\<rparr>))"

definition keyframe_anchor_frames :: "bookmark_table \<Rightarrow> u64 list" where
  "keyframe_anchor_frames t = List.map_filter keyframe_frame (bookmarks t)"

fun push_legacy :: "bookmark_table \<Rightarrow> bookmark_metadata list \<Rightarrow> bookmark_table" where
  "push_legacy t [] = t"
| "push_legacy t (m # ms) =
     (let (i, t') = allocate_id t in
      push_legacy (t'\<lparr>bookmarks := bookmarks t' @
        [\<lparr>b_id = i, b_name = bm_name m, b_type_id = 0, b_in_frame = bm_elapsed_frames m,
          b_in_millis = bm_elapsed_millis m, b_out = None, b_keyframe = False\<rparr>]\<rparr>) ms)"

definition from_legacy :: "bookmark_metadata list \<Rightarrow> bookmark_table" where
  "from_legacy legacy =
     push_legacy table_new (sort_key (\<lambda>m. (bm_elapsed_frames m, bm_name m)) legacy)"

subsection \<open>Encoding\<close>

definition bookmark_flags :: "bookmark \<Rightarrow> u64" where
  "bookmark_flags b =
     or (if b_out b \<noteq> None then FLAG_HAS_OUT else 0) (if b_keyframe b then FLAG_KEYFRAME else 0)"

definition bookmark_encode :: "bookmark \<Rightarrow> bytes" where
  "bookmark_encode b =
     (let flags = bookmark_flags b;
          (out_f, out_millis) = (case b_out b of None \<Rightarrow> (0, TimestampMillis 0) | Some p \<Rightarrow> p)
      in instr_bytes (write_u64 (b_id b)) @
         instr_bytes (write_string (b_name b)) @
         instr_bytes (write_u64 (b_type_id b)) @
         instr_bytes (write_u64 (b_in_frame b)) @
         instr_bytes (write_timestamp (b_in_millis b)) @
         instr_bytes (write_u64 flags) @
         instr_bytes (write_u64 out_f) @
         instr_bytes (write_timestamp out_millis))"

definition read_bookmark_fields :: "u32 \<Rightarrow> bookmark preader" where
  "read_bookmark_fields version =
     bnd (read_u64 version) (\<lambda>i.
     bnd (read_string version) (\<lambda>name.
     bnd (read_u64 version) (\<lambda>ty.
     bnd (read_u64 version) (\<lambda>in_f.
     bnd (read_timestamp version) (\<lambda>in_ms.
     bnd (read_u64 version) (\<lambda>flags.
     bnd (read_u64 version) (\<lambda>out_f.
     bnd (read_timestamp version) (\<lambda>out_ms.
     ret \<lparr>b_id = i, b_name = name, b_type_id = ty, b_in_frame = in_f, b_in_millis = in_ms,
          b_out = (if and flags FLAG_HAS_OUT \<noteq> 0 then Some (out_f, out_ms) else None),
          b_keyframe = (and flags FLAG_KEYFRAME \<noteq> 0)\<rparr>))))))))"

text \<open>A record is parsed on its own; bytes after the known fields are ignored.\<close>

definition decode_record :: "'a preader \<Rightarrow> bytes \<Rightarrow> packet_read_error + 'a" where
  "decode_record r record = (case r record of Inl e \<Rightarrow> Inl e | Inr (x, _) \<Rightarrow> Inr x)"

definition bookmark_decode :: "u32 \<Rightarrow> bytes \<Rightarrow> packet_read_error + bookmark" where
  "bookmark_decode version = decode_record (read_bookmark_fields version)"

definition type_encode :: "bookmark_type_record \<Rightarrow> bytes" where
  "type_encode r =
     instr_bytes (write_u64 (t_id r)) @
     instr_bytes (write_string (t_name r)) @
     instr_bytes (write_u32 (t_color r))"

definition read_type_fields :: "u32 \<Rightarrow> bookmark_type_record preader" where
  "read_type_fields version =
     bnd (read_u64 version) (\<lambda>i.
     bnd (read_string version) (\<lambda>name.
     bnd (read_u32 version) (\<lambda>color.
     ret \<lparr>t_id = i, t_name = name, t_color = color\<rparr>)))"

definition type_decode :: "u32 \<Rightarrow> bytes \<Rightarrow> packet_read_error + bookmark_type_record" where
  "type_decode version = decode_record (read_type_fields version)"

text \<open>\<open>push(T::decode(ByteVec::read_all(from)?.as_slice())?)\<close>.\<close>

definition read_record :: "(bytes \<Rightarrow> packet_read_error + 'a) \<Rightarrow> u32 \<Rightarrow> 'a preader" where
  "read_record decode version = bnd (read_byte_vec version) (\<lambda>record.
     case decode record of Inl e \<Rightarrow> fail e | Inr x \<Rightarrow> ret x)"

definition table_encode :: "bookmark_table \<Rightarrow> bytes" where
  "table_encode t =
     instr_bytes (write_u32 BOOKMARK_TABLE_FORMAT) @
     instr_bytes (write_u64 (next_id t)) @
     instr_bytes (write_usize (length (types t))) @
     concat (map (\<lambda>r. instr_bytes (write_byte_vec (type_encode r))) (types t)) @
     instr_bytes (write_usize (length (bookmarks t))) @
     concat (map (\<lambda>b. instr_bytes (write_byte_vec (bookmark_encode b))) (bookmarks t))"

text \<open>What \<open>decode\<close> does with the parsed fields: sort, and make the next id a fresh one.\<close>

definition highest_id :: "bookmark list \<Rightarrow> u64" where
  "highest_id bs = foldr (\<lambda>b m. max (b_id b) m) bs 0"

definition table_normalise :: "bookmark_table \<Rightarrow> bookmark_table" where
  "table_normalise t =
     (let t = table_sort t
      in t\<lparr>next_id := max (max (next_id t) (saturating_add (highest_id (bookmarks t)) 1)) 1\<rparr>)"

definition read_table_fields :: "u32 \<Rightarrow> bookmark_table preader" where
  "read_table_fields version =
     bnd (read_u32 version) (\<lambda>format.
     if format = 0 \<or> BOOKMARK_TABLE_FORMAT < format
     then fail (ParseFail (UnsupportedBookmarkTableFormat format))
     else
       bnd (read_u64 version) (\<lambda>nid.
       bnd (read_usize version) (\<lambda>type_count.
       bnd (read_n (read_record (type_decode version) version) type_count) (\<lambda>ts.
       bnd (read_usize version) (\<lambda>bookmark_count.
       bnd (read_n (read_record (bookmark_decode version) version) bookmark_count) (\<lambda>bs.
       ret \<lparr>next_id = nid, types = ts, bookmarks = bs\<rparr>))))))"

definition table_decode :: "bytes \<Rightarrow> packet_read_error + bookmark_table" where
  "table_decode bytes =
     (case decode_record (read_table_fields REPLAY_VERSION) bytes of
        Inl e \<Rightarrow> Inl e
      | Inr t \<Rightarrow> Inr (table_normalise t))"

definition write_bookmark_table :: "bookmark_table \<Rightarrow> packet_write_command list" where
  "write_bookmark_table t =
     (let payload = table_encode t
      in [WriteVec (instr_bytes (write_usize (length payload))), WriteVec payload])"

definition read_bookmark_table :: "u32 \<Rightarrow> bookmark_table preader" where
  "read_bookmark_table version = bnd (read_byte_vec version) (\<lambda>payload.
     case table_decode payload of Inl e \<Rightarrow> fail e | Inr t \<Rightarrow> ret t)"

subsection \<open>The table invariant\<close>

text \<open>
  What the comments on the fields promise: bookmarks sorted by \<open>(in_frame, id)\<close>, ids unique
  and not 0, and the next id beyond every id until \<open>u64\<close> saturates: \<open>table_ok_ids\<close> of
  \<open>Bookmark_Edits\<close> says what the last condition amounts to. At \<open>u64::MAX\<close> the next id is in use.
\<close>

definition table_ok :: "bookmark_table \<Rightarrow> bool" where
  "table_ok t \<longleftrightarrow>
     sorted (map bookmark_key (bookmarks t)) \<and>
     distinct (map b_id (bookmarks t)) \<and>
     list_all (\<lambda>b. b_id b \<noteq> 0 \<and> saturating_add (b_id b) 1 \<le> next_id t) (bookmarks t)"

lemma unat_saturating_add_1: "unat (saturating_add (a :: u64) 1) = min (unat a + 1) (2 ^ 64 - 1)"
proof (cases "unat a + 1 < 2 ^ 64")
  case True
  then show ?thesis by (simp add: saturating_add_def unat_word_ariths)
next
  case False
  moreover have "unat a < 2 ^ 64" using unsigned_less [of a] by simp
  moreover have "unat (- 1 :: u64) = 2 ^ 64 - 1"
    by (simp add: unsigned_minus_1_eq_mask mask_eq_exp_minus_1)
  ultimately show ?thesis by (simp add: saturating_add_def)
qed

lemma saturating_add_1_ge: "(a :: u64) \<le> saturating_add a 1"
  using unat_u64_less [of a] by (simp add: word_le_nat_alt unat_saturating_add_1)

lemma saturating_add_1_mono: "(a :: u64) \<le> b \<Longrightarrow> saturating_add a 1 \<le> saturating_add b 1"
  by (simp add: word_le_nat_alt unat_saturating_add_1)

lemma saturating_add_1_pos: "saturating_add (a :: u64) 1 \<noteq> 0"
proof
  assume "saturating_add a 1 = 0"
  then have "unat (saturating_add a 1) = 0" by simp
  then show False by (simp add: unat_saturating_add_1)
qed

lemma assign_id_facts:
  assumes "assign_id b t = (b', t')"
  shows "b_id b' \<noteq> 0" and "saturating_add (b_id b') 1 \<le> next_id t'" and "next_id t \<le> next_id t'"
    and "bookmarks t' = bookmarks t" and "types t' = types t"
    and "b' = b\<lparr>b_id := b_id b'\<rparr>" and "b_id b \<noteq> 0 \<Longrightarrow> b' = b"
    and "b_id b = 0 \<Longrightarrow> b_id b' = max (next_id t) 1"
proof -
  have mx: "max (next_id t) 1 \<noteq> 0" "next_id t \<le> max (next_id t) 1"
    by (auto simp: max_def word_le_nat_alt)
  have "next_id t \<le> saturating_add (max (next_id t) 1) 1"
    using mx(2) saturating_add_1_ge order_trans by blast
  moreover have "\<not> next_id t \<le> b_id b \<Longrightarrow> saturating_add (b_id b) 1 \<le> next_id t"
    by (simp add: word_le_nat_alt unat_saturating_add_1)
  moreover have "next_id t \<le> b_id b \<Longrightarrow> next_id t \<le> saturating_add (b_id b) 1"
    using saturating_add_1_ge order_trans by blast
  ultimately show "b_id b' \<noteq> 0" and "saturating_add (b_id b') 1 \<le> next_id t'"
    and "next_id t \<le> next_id t'" and "bookmarks t' = bookmarks t" and "types t' = types t"
    and "b' = b\<lparr>b_id := b_id b'\<rparr>" and "b_id b \<noteq> 0 \<Longrightarrow> b' = b"
    and "b_id b = 0 \<Longrightarrow> b_id b' = max (next_id t) 1"
    using assms mx by (auto simp: assign_id_def allocate_id_def Let_def split: if_splits)
qed

lemma table_insert_eq:
  assumes "assign_id b t = (b', t')"
  shows "table_insert b t = (b_id b',
    t'\<lparr>bookmarks := insert_at (partition_point (\<lambda>x. bookmark_key x < bookmark_key b')
        (filter (\<lambda>x. b_id x \<noteq> b_id b') (bookmarks t))) b' (filter (\<lambda>x. b_id x \<noteq> b_id b') (bookmarks t))\<rparr>)"
  using assms assign_id_facts(4) [OF assms] by (simp add: table_insert_def bookmark_key_def Let_def)

lemma distinct_insert_at:
  "f x \<notin> f ` set xs \<Longrightarrow> distinct (map f xs) \<Longrightarrow> distinct (map f (insert_at n x xs))"
  unfolding insert_at_def
  by (subst (asm) append_take_drop_id [of n xs, symmetric], subst (asm) (2) append_take_drop_id [of n xs, symmetric])
    (auto simp del: append_take_drop_id)

lemma table_insert_ok:
  assumes "table_ok t"
  shows "table_ok (snd (table_insert b t))"
proof -
  obtain b' t' where a: "assign_id b t = (b', t')" by fastforce
  note facts = assign_id_facts [OF a]
  let ?kept = "filter (\<lambda>x. b_id x \<noteq> b_id b') (bookmarks t)"
  have "sorted (map bookmark_key ?kept)"
    using assms by (simp add: table_ok_def sorted_filter)
  then have "sorted (map bookmark_key
      (insert_at (partition_point (\<lambda>x. bookmark_key x < bookmark_key b') ?kept) b' ?kept))"
    by (rule sorted_insert_at_partition)
  moreover have "distinct (map b_id
      (insert_at (partition_point (\<lambda>x. bookmark_key x < bookmark_key b') ?kept) b' ?kept))"
    using assms by (intro distinct_insert_at) (auto simp: table_ok_def distinct_map_filter)
  ultimately show ?thesis
    using assms facts(1,2,3) unfolding table_insert_eq [OF a] table_ok_def
    by (auto simp: list_all_iff)
qed

lemma table_insert_get:
  assumes "assign_id b t = (b', t')"
  shows "table_get (snd (table_insert b t)) i = (if i = b_id b' then Some b' else table_get t i)"
proof -
  have "b_id b' \<notin> b_id ` set (filter (\<lambda>x. b_id x \<noteq> b_id b') (bookmarks t))" by auto
  note get = map_of_insert_at [where f = b_id, OF this]
  show ?thesis
    unfolding table_insert_eq [OF assms] table_get_def
    using find_key_filter [of b_id i "b_id b'" "bookmarks t"] by (simp add: find_key_map_of get)
qed

text \<open>An id handed out for a new bookmark was not in use, short of \<open>2^64 - 1\<close> of them.\<close>

lemma table_insert_fresh:
  assumes "table_ok t" and "b_id b = 0" and "next_id t < - 1"
  shows "table_get t (fst (table_insert b t)) = None"
proof -
  obtain b' t' where a: "assign_id b t = (b', t')" by fastforce
  have i: "fst (table_insert b t) = max (next_id t) 1"
    using assign_id_facts(8) [OF a assms(2)] by (simp add: table_insert_eq [OF a])
  have "max (next_id t) 1 \<notin> b_id ` set (bookmarks t)"
  proof
    assume "max (next_id t) 1 \<in> b_id ` set (bookmarks t)"
    then obtain x where "x \<in> set (bookmarks t)" "b_id x = max (next_id t) 1" by auto
    then have "saturating_add (max (next_id t) 1) 1 \<le> next_id t"
      using assms(1) by (auto simp: table_ok_def list_all_iff)
    moreover have "unat (next_id t) < 2 ^ 64 - 1"
      using assms(3) by (simp add: word_less_nat_alt unsigned_minus_1_eq_mask mask_eq_exp_minus_1)
    ultimately show False
      by (auto simp: word_le_nat_alt unat_saturating_add_1 max_def split: if_splits)
  qed
  then show ?thesis unfolding i table_get_def by (simp add: find_key_None)
qed

interpretation bookmark_store: keyed_store table_get "\<lambda>b t. snd (table_insert b t)" b_id
    "\<lambda>b. b_id b \<noteq> 0" table_ok
proof
  fix t and v :: bookmark and k
  assume "table_ok t" and "b_id v \<noteq> (0 :: u64)"
  then show "table_get (snd (table_insert v t)) k = (if k = b_id v then Some v else table_get t k)"
    using table_insert_get [of v t] assign_id_facts(7) [of v t] by (metis surj_pair)
qed (rule table_insert_ok)

lemma find_key_update_first:
  "f r = j \<Longrightarrow> find_key f k (update_first (\<lambda>x. f x = j) (\<lambda>_. r) xs) =
    (if k = j \<and> j \<in> f ` set xs then Some r else find_key f k xs)"
  by (induction xs) (auto simp: find_key_def)

interpretation type_store: keyed_store type_record set_type_record t_id "\<lambda>r. True" "\<lambda>t. distinct (map t_id (types t))"
proof
  fix t :: bookmark_table and v :: bookmark_type_record and k
  show "type_record (set_type_record v t) k = (if k = t_id v then Some v else type_record t k)"
  proof (cases "\<exists>x \<in> set (types t). t_id x = t_id v")
    case True
    then have "t_id v \<in> t_id ` set (types t)" by (metis image_eqI)
    with True show ?thesis
      by (simp add: type_record_def set_type_record_def find_key_update_first)
  next
    case False
    then have "t_id v \<notin> t_id ` set (types t)" by auto
    from find_key_snoc [of t_id, OF this] False show ?thesis
      by (auto simp: type_record_def set_type_record_def)
  qed
  have ids: "map t_id (update_first (\<lambda>x. t_id x = t_id v) (\<lambda>_. v) xs) = map t_id xs" for xs
    by (induction xs) auto
  assume "distinct (map t_id (types t))"
  then show "distinct (map t_id (types (set_type_record v t)))"
    by (auto simp: set_type_record_def ids)
qed

subsection \<open>The other operations keep the invariant\<close>

lemma table_ok_new: "table_ok table_new"
  by (simp add: table_ok_def table_new_def)

lemma remove_first_eq:
  "remove_first p xs = Some (y, ys) \<longleftrightarrow> (\<exists>as bs. xs = as @ y # bs \<and> ys = as @ bs \<and> p y \<and> (\<forall>a \<in> set as. \<not> p a))"
proof (induction xs arbitrary: ys)
  case Nil
  then show ?case by simp
next
  case (Cons x xs)
  show ?case
  proof (cases "p x")
    case True
    then show ?thesis
      by (auto simp: Cons_eq_append_conv intro: exI [of _ "[]"])
  next
    case False
    show ?thesis
    proof
      assume "remove_first p (x # xs) = Some (y, ys)"
      with False obtain zs where zs: "remove_first p xs = Some (y, zs)" "ys = x # zs" by auto
      then obtain as bs where "xs = as @ y # bs" "zs = as @ bs" "p y" "\<forall>a \<in> set as. \<not> p a"
        unfolding Cons.IH by blast
      with False zs show "\<exists>as bs. x # xs = as @ y # bs \<and> ys = as @ bs \<and> p y \<and> (\<forall>a \<in> set as. \<not> p a)"
        by (intro exI [of _ "x # as"] exI [of _ bs]) auto
    next
      assume "\<exists>as bs. x # xs = as @ y # bs \<and> ys = as @ bs \<and> p y \<and> (\<forall>a \<in> set as. \<not> p a)"
      with False obtain as bs where "xs = as @ y # bs" "ys = x # as @ bs" "p y" "\<forall>a \<in> set as. \<not> p a"
        by (auto simp: Cons_eq_append_conv)
      then have "remove_first p xs = Some (y, as @ bs)" unfolding Cons.IH by blast
      with False \<open>ys = x # as @ bs\<close> show "remove_first p (x # xs) = Some (y, ys)" by simp
    qed
  qed
qed

lemma remove_first_None: "remove_first p xs = None \<longleftrightarrow> (\<forall>x \<in> set xs. \<not> p x)"
  by (induction xs) auto

lemma table_remove_ok:
  assumes "table_ok t"
  shows "table_ok (snd (table_remove i t))"
proof (cases "remove_first (\<lambda>b. b_id b = i) (bookmarks t)")
  case None
  with assms show ?thesis by (simp add: table_remove_def)
next
  case (Some p)
  then obtain b bs as ds where "p = (b, bs)" "bookmarks t = as @ b # ds" "bs = as @ ds"
    by (cases p) (auto simp: remove_first_eq)
  with assms Some show ?thesis
    by (auto simp: table_remove_def table_ok_def sorted_append)
qed

lemma table_remove_get:
  assumes "table_ok t"
  shows "fst (table_remove i t) = table_get t i"
    and "table_get (snd (table_remove i t)) k = (if k = i then None else table_get t k)"
proof -
  have "fst (table_remove i t) = table_get t i \<and>
      table_get (snd (table_remove i t)) k = (if k = i then None else table_get t k)"
  proof (cases "remove_first (\<lambda>b. b_id b = i) (bookmarks t)")
    case None
    then have "i \<notin> b_id ` set (bookmarks t)" by (auto simp: remove_first_None)
    then have "table_get t i = None" by (simp add: table_get_def find_key_None)
    with None show ?thesis by (simp add: table_remove_def)
  next
    case (Some p)
    then obtain b as ds where p: "p = (b, as @ ds)" "bookmarks t = as @ b # ds" "b_id b = i"
      by (cases p) (auto simp: remove_first_eq)
    with assms have nin: "b_id b \<notin> b_id ` set (as @ ds)"
      by (auto simp: table_ok_def)
    then have "find_key b_id i (as @ ds) = None" using p(3) by (simp add: find_key_None)
    with Some p map_of_insert_middle [where f = b_id, OF nin] show ?thesis
      by (simp add: table_remove_def table_get_def find_key_map_of)
  qed
  then show "fst (table_remove i t) = table_get t i"
    and "table_get (snd (table_remove i t)) k = (if k = i then None else table_get t k)"
    by auto
qed

lemma sorted_sort_bookmarks: "sorted (map bookmark_key (sort_key bookmark_key bs))"
  by (rule sorted_sort_key)

lemma prune_types_bookmarks [simp]: "bookmarks (prune_types t) = bookmarks t" "next_id (prune_types t) = next_id t"
  by (simp_all add: prune_types_def)

lemma table_ok_update:
  assumes "table_ok t" and "bookmarks u = map g (filter P (bookmarks t))" and "next_id u = next_id t"
    and "\<And>b. bookmark_key (g b) = bookmark_key b"
  shows "table_ok u"
proof -
  have ids: "b_id (g b) = b_id b" for b
    using assms(4) [of b] by (simp add: bookmark_key_def)
  have keys: "map bookmark_key (bookmarks u) = map bookmark_key (filter P (bookmarks t))"
    and bids: "map b_id (bookmarks u) = map b_id (filter P (bookmarks t))"
    using assms(2,4) ids by auto
  have "sorted (map bookmark_key (filter P (bookmarks t)))"
    using assms(1) by (simp add: table_ok_def sorted_filter)
  moreover have "distinct (map b_id (filter P (bookmarks t)))"
    using assms(1) by (simp add: table_ok_def distinct_map_filter)
  moreover have "list_all (\<lambda>b. b_id b \<noteq> 0 \<and> saturating_add (b_id b) 1 \<le> next_id u) (bookmarks u)"
    using assms(1,2,3) by (auto simp: table_ok_def list_all_iff ids)
  ultimately show ?thesis
    unfolding table_ok_def keys bids by blast
qed

lemma truncated_to_ok: "table_ok t \<Longrightarrow> table_ok (truncated_to frame t)"
  by (rule table_ok_update [where P = "\<lambda>b. b_in_frame b \<le> frame" and
      g = "\<lambda>b. case out_frame b of None \<Rightarrow> b | Some out \<Rightarrow> if frame < out then b\<lparr>b_out := None\<rparr> else b"])
    (auto simp: truncated_to_def Let_def bookmark_key_def split: option.splits)

text \<open>Nothing in a truncated table lies after the cut, and every type record is used.\<close>

lemma truncated_to_bounds:
  assumes "b \<in> set (bookmarks (truncated_to frame t))"
  shows "b_in_frame b \<le> frame" and "out_frame b = Some out \<Longrightarrow> out \<le> frame"
  using assms by (auto simp: truncated_to_def out_frame_def not_less split: option.splits if_splits)

lemma truncated_to_types:
  "r \<in> set (types (truncated_to frame t)) \<longleftrightarrow>
     r \<in> set (types t) \<and> t_id r \<noteq> 0 \<and>
     (\<exists>b \<in> set (bookmarks (truncated_to frame t)). b_type_id b = t_id r)"
  by (auto simp: truncated_to_def prune_types_def Let_def)

lemma truncated_to_get:
  "table_ok t \<Longrightarrow> table_get (truncated_to frame t) i =
    (case table_get t i of
       None \<Rightarrow> None
     | Some b \<Rightarrow>
         if b_in_frame b \<le> frame then
           Some (b\<lparr>b_out := (case b_out b of None \<Rightarrow> None | Some p \<Rightarrow> if frame < fst p then None else Some p)\<rparr>)
         else None)"
proof -
  have g: "find_key b_id i (map (\<lambda>b. case out_frame b of None \<Rightarrow> b
        | Some out \<Rightarrow> if frame < out then b\<lparr>b_out := None\<rparr> else b)
      (filter (\<lambda>b. b_in_frame b \<le> frame) bs)) =
    (case find_key b_id i bs of
       None \<Rightarrow> None
     | Some b \<Rightarrow>
         if b_in_frame b \<le> frame then
           Some (b\<lparr>b_out := (case b_out b of None \<Rightarrow> None | Some p \<Rightarrow> if frame < fst p then None else Some p)\<rparr>)
         else None)" if "distinct (map b_id bs)" for bs :: "bookmark list"
    using that
  proof (induction bs)
    case Nil
    then show ?case by (simp add: find_key_def)
  next
    case (Cons b bs)
    then have "find_key b_id (b_id b) bs = None" by (simp add: find_key_None)
    with Cons show ?case
      by (auto simp: find_key_def out_frame_def split: option.splits if_splits)
  qed
  assume "table_ok t"
  then show ?thesis
    by (simp add: table_get_def truncated_to_def Let_def g table_ok_def)
qed

subsection \<open>Reading back what was written\<close>

definition bookmark_ok :: "bookmark \<Rightarrow> bool" where
  "bookmark_ok b \<longleftrightarrow> string_ok (b_name b) \<and> bytes_ok (bookmark_encode b)"

definition type_ok :: "bookmark_type_record \<Rightarrow> bool" where
  "type_ok r \<longleftrightarrow> string_ok (t_name r) \<and> bytes_ok (type_encode r)"

text \<open>A table that fits into memory in its encoded form.\<close>

definition table_wf :: "bookmark_table \<Rightarrow> bool" where
  "table_wf t \<longleftrightarrow>
     vec_ok type_ok (types t) \<and> vec_ok bookmark_ok (bookmarks t) \<and> bytes_ok (table_encode t)"

lemma bookmark_flags_bits:
  "and (bookmark_flags b) FLAG_HAS_OUT \<noteq> 0 \<longleftrightarrow> b_out b \<noteq> None"
  "and (bookmark_flags b) FLAG_KEYFRAME \<noteq> 0 \<longleftrightarrow> b_keyframe b"
  by (simp_all add: bookmark_flags_def FLAG_HAS_OUT_def FLAG_KEYFRAME_def)

lemma bookmark_encode_eq:
  "bookmark_encode b =
     instr_bytes (write_u64 (b_id b)) @
     instr_bytes (write_string (b_name b)) @
     instr_bytes (write_u64 (b_type_id b)) @
     instr_bytes (write_u64 (b_in_frame b)) @
     instr_bytes (write_timestamp (b_in_millis b)) @
     instr_bytes (write_u64 (bookmark_flags b)) @
     instr_bytes (write_u64 (case b_out b of None \<Rightarrow> 0 | Some p \<Rightarrow> fst p)) @
     instr_bytes (write_timestamp (case b_out b of None \<Rightarrow> TimestampMillis 0 | Some p \<Rightarrow> snd p))"
  by (cases "b_out b") (simp_all add: bookmark_encode_def Let_def case_prod_beta)

lemma reads_bookmark_fields:
  assumes "string_ok (b_name b)"
  shows "reads_as NotEnoughData (read_bookmark_fields v) (bookmark_encode b) b"
  unfolding read_bookmark_fields_def bookmark_encode_eq
  by ((rule reads_as_bnd reads_as_bnd_last reads_leaf assms)+,
      rule reads_as_ret_eq, cases "b_out b", simp_all add: bookmark_flags_bits)

lemma reads_type_fields:
  "string_ok (t_name r) \<Longrightarrow> reads_as NotEnoughData (read_type_fields v) (type_encode r) r"
  unfolding read_type_fields_def type_encode_def
  by (rule reads_as_bnd reads_as_bnd_last reads_leaf reads_as_ret_eq | (simp; fail))+

text \<open>Records may carry fields of a later version after the known ones.\<close>

lemma bookmark_decode_encode:
  "string_ok (b_name b) \<Longrightarrow> bookmark_decode v (bookmark_encode b @ extra) = Inr b"
  by (simp add: bookmark_decode_def decode_record_def reads_asD [OF reads_bookmark_fields])

lemma type_decode_encode:
  "string_ok (t_name r) \<Longrightarrow> type_decode v (type_encode r @ extra) = Inr r"
  by (simp add: type_decode_def decode_record_def reads_asD [OF reads_type_fields])

lemma reads_record:
  assumes "bytes_ok bs" and "decode bs = Inr x"
  shows "reads_as NotEnoughData (read_record decode v) (instr_bytes (write_byte_vec bs)) x"
  unfolding read_record_def
  by (rule reads_as_bnd_last [OF reads_byte_vec [OF assms(1)]])
    (simp add: assms(2) reads_as_ret del: ret_apply)

lemma consumes_record [consumes_intros]: "k \<le> 1 \<Longrightarrow> consumes k (read_record decode v)"
  unfolding read_record_def
  by (rule consumes_bnd_first [OF consumes_byte_vec])
    (auto simp: consumes_def split: sum.splits)

lemma reads_table_fields:
  assumes "vec_ok type_ok (types t)" and "vec_ok bookmark_ok (bookmarks t)"
  shows "reads_as NotEnoughData (read_table_fields v) (table_encode t) t"
proof -
  have ts: "reads_as NotEnoughData (read_n (read_record (type_decode v) v) (length (types t)))
      (concat (map (\<lambda>r. instr_bytes (write_byte_vec (type_encode r))) (types t))) (types t)"
    using assms(1) type_decode_encode [where extra = "[]"]
    by (intro reads_as_read_n reads_record) (auto simp: vec_ok_def list_all_iff type_ok_def)
  have bs: "reads_as NotEnoughData (read_n (read_record (bookmark_decode v) v) (length (bookmarks t)))
      (concat (map (\<lambda>b. instr_bytes (write_byte_vec (bookmark_encode b))) (bookmarks t))) (bookmarks t)"
    using assms(2) bookmark_decode_encode [where extra = "[]"]
    by (intro reads_as_read_n reads_record) (auto simp: vec_ok_def list_all_iff bookmark_ok_def)
  have lens: "length (types t) < usize_limit" "length (bookmarks t) < usize_limit"
    using assms by (simp_all add: vec_ok_def)
  show ?thesis
    unfolding read_table_fields_def table_encode_def
    by (rule reads_as_bnd [OF reads_u32], rule reads_as_if_false, simp add: BOOKMARK_TABLE_FORMAT_def)
      (rule reads_as_bnd reads_as_bnd_last reads_leaf ts bs reads_as_ret_eq | (simp add: lens; fail))+
qed

lemma table_decode_encode:
  "table_wf t \<Longrightarrow> table_decode (table_encode t @ extra) = Inr (table_normalise t)"
  by (simp add: table_decode_def decode_record_def table_wf_def reads_asD [OF reads_table_fields])

lemma table_decode_truncated:
  "table_wf t \<Longrightarrow> strict_prefix p (table_encode t) \<Longrightarrow> table_decode p = Inl NotEnoughData"
  using reads_as_prefixD [OF reads_table_fields, of t p REPLAY_VERSION]
  by (simp add: table_decode_def decode_record_def table_wf_def)

subsection \<open>Normalisation\<close>

lemma highest_id_ge: "b \<in> set bs \<Longrightarrow> b_id b \<le> highest_id bs"
  by (induction bs) (auto simp: highest_id_def le_max_iff_disj)

lemma highest_id_le: "\<forall>b \<in> set bs. b_id b \<le> m \<Longrightarrow> highest_id bs \<le> m"
  by (induction bs) (auto simp: highest_id_def)

lemma table_normalise_ok:
  assumes "distinct (map b_id (bookmarks t))" and "\<forall>b \<in> set (bookmarks t). b_id b \<noteq> 0"
  shows "table_ok (table_normalise t)"
proof -
  have ids: "distinct (map b_id (sort_key bookmark_key (bookmarks t)))"
    using assms(1) by (simp add: distinct_map)
  have "saturating_add (b_id b) 1 \<le> saturating_add (highest_id (sort_key bookmark_key (bookmarks t))) 1"
    if "b \<in> set (bookmarks t)" for b
    using that by (intro saturating_add_1_mono highest_id_ge) simp
  then show ?thesis
    using ids assms(2) by (auto simp: table_ok_def table_normalise_def table_sort_def Let_def
        list_all_iff le_max_iff_disj)
qed

lemma table_normalise_id:
  assumes "table_ok t" and "next_id t \<noteq> 0"
  shows "table_normalise t = t"
proof -
  have s: "sort_key bookmark_key (bookmarks t) = bookmarks t"
    using assms(1) by (simp add: table_ok_def sorted_sort_id sort_key_id_if_sorted)
  have "saturating_add (highest_id (bookmarks t)) 1 \<le> next_id t"
  proof (cases "bookmarks t")
    case Nil
    have "1 \<le> next_id t" using assms(2) by (simp add: word_le_nat_alt unat_gt_0 Suc_le_eq)
    with Nil show ?thesis by (simp add: highest_id_def saturating_add_def)
  next
    case (Cons b bs)
    have "\<exists>x \<in> set (b # bs). highest_id (b # bs) = b_id x" for b and bs :: "bookmark list"
      by (induction bs arbitrary: b) (auto simp: highest_id_def max_def)
    with Cons assms(1) show ?thesis by (metis (no_types, lifting) list_all_iff table_ok_def)
  qed
  then show ?thesis
    using assms(2) s
    by (simp add: table_normalise_def table_sort_def max_absorb1 word_le_nat_alt unat_gt_0 Suc_le_eq)
qed

lemma consumes_bookmark_table [consumes_intros]: "k \<le> 1 \<Longrightarrow> consumes k (read_bookmark_table v)"
  unfolding read_bookmark_table_def
  by (rule consumes_bnd_first [OF consumes_byte_vec])
    (auto simp: consumes_def split: sum.splits)

lemma reads_bookmark_table [reads_leaf]:
  assumes "table_wf t" and "table_ok t" and "next_id t \<noteq> 0"
  shows "reads_as NotEnoughData (read_bookmark_table v) (instr_bytes (write_bookmark_table t)) t"
proof -
  have "bytes_ok (table_encode t)" using assms(1) by (simp add: table_wf_def)
  from reads_byte_vec [OF this, of v]
  have "reads_as NotEnoughData (read_byte_vec v) (instr_bytes (write_bookmark_table t)) (table_encode t)"
    by (simp add: write_bookmark_table_def write_byte_vec_def Let_def)
  note payload = this
  have "table_decode (table_encode t) = Inr t"
    using table_decode_encode [OF assms(1), of "[]"] table_normalise_id [OF assms(2,3)] by simp
  then show ?thesis
    unfolding read_bookmark_table_def
    by (intro reads_as_bnd_last [OF payload]) (simp add: reads_as_ret del: ret_apply)
qed

interpretation bookmark_table_io: packet_io write_bookmark_table read_bookmark_table
    "\<lambda>v t. table_wf t \<and> table_ok t \<and> next_id t \<noteq> 0"
  by unfold_locales (simp_all add: reads_bookmark_table consumes_bookmark_table)

text \<open>Legacy bookmarks get the ids 1, 2, ... in the order they are sorted in.\<close>

definition legacy_bookmark :: "nat \<Rightarrow> bookmark_metadata \<Rightarrow> bookmark" where
  "legacy_bookmark i m =
     \<lparr>b_id = of_nat i, b_name = bm_name m, b_type_id = 0, b_in_frame = bm_elapsed_frames m,
      b_in_millis = bm_elapsed_millis m, b_out = None, b_keyframe = False\<rparr>"

lemma allocate_id_of_nat:
  assumes "next_id t = of_nat n" and "0 < n" and "Suc n < usize_limit"
  shows "allocate_id t = (of_nat n, t\<lparr>next_id := of_nat (Suc n)\<rparr>)"
proof -
  have n: "unat (of_nat n :: u64) = n" using assms(3) by simp
  have "max (of_nat n :: u64) 1 = of_nat n"
    using assms(2) n by (intro max_absorb1) (simp add: word_le_nat_alt)
  moreover have "saturating_add (of_nat n :: u64) 1 = of_nat (Suc n)"
  proof -
    have "unat (of_nat n :: u64) + unat (1 :: u64) < 2 ^ LENGTH(64)"
      using assms(3) unfolding n usize_limit_def by simp
    then have "saturating_add (of_nat n :: u64) 1 = of_nat n + 1"
      unfolding saturating_add_def by (rule if_P)
    then show ?thesis by simp
  qed
  ultimately show ?thesis
    unfolding allocate_id_def Let_def assms(1) by simp
qed

lemma push_legacy_eq:
  "next_id t = of_nat n \<Longrightarrow> 0 < n \<Longrightarrow> n + length ms < usize_limit \<Longrightarrow>
   push_legacy t ms = t\<lparr>next_id := of_nat (n + length ms),
     bookmarks := bookmarks t @ map2 legacy_bookmark [n..<n + length ms] ms\<rparr>"
proof (induction ms arbitrary: t n)
  case Nil
  then show ?case by simp
next
  case (Cons m ms)
  have "allocate_id t = (of_nat n, t\<lparr>next_id := of_nat (Suc n)\<rparr>)"
    using Cons.prems by (intro allocate_id_of_nat) auto
  then have "push_legacy t (m # ms) =
      push_legacy (t\<lparr>next_id := of_nat (Suc n), bookmarks := bookmarks t @ [legacy_bookmark n m]\<rparr>) ms"
    by (simp add: legacy_bookmark_def)
  also have "\<dots> = t\<lparr>next_id := of_nat (Suc n + length ms),
      bookmarks := (bookmarks t @ [legacy_bookmark n m]) @ map2 legacy_bookmark [Suc n..<Suc n + length ms] ms\<rparr>"
    using Cons.prems by (subst Cons.IH [of _ "Suc n"]) simp_all
  also have "[n..<n + length (m # ms)] = n # [Suc n..<Suc n + length ms]"
    by (simp add: upt_conv_Cons del: upt_Suc)
  then have "bookmarks t @ map2 legacy_bookmark [n..<n + length (m # ms)] (m # ms) =
      (bookmarks t @ [legacy_bookmark n m]) @ map2 legacy_bookmark [Suc n..<Suc n + length ms] ms"
    by simp
  moreover have "Suc n + length ms = n + length (m # ms)" by simp
  ultimately show ?case by (simp only:)
qed

lemma map_map2_snd: "length xs = length ys \<Longrightarrow> (\<And>x y. g (f x y) = h y) \<Longrightarrow> map g (map2 f xs ys) = map h ys"
  by (induction xs ys rule: list_induct2) auto

lemma map_map2_fst: "length xs = length ys \<Longrightarrow> (\<And>x y. g (f x y) = h x) \<Longrightarrow> map g (map2 f xs ys) = map h xs"
  by (induction xs ys rule: list_induct2) auto

lemma from_legacy_eq:
  assumes "Suc (length ms) < usize_limit"
  shows "from_legacy ms = \<lparr>next_id = of_nat (Suc (length ms)), types = [],
    bookmarks = map2 legacy_bookmark [1..<Suc (length ms)]
      (sort_key (\<lambda>m. (bm_elapsed_frames m, bm_name m)) ms)\<rparr>"
  unfolding from_legacy_def using assms
  by (subst push_legacy_eq [where n = 1]) (simp_all add: table_new_def)

end
