(* ===== verification/Packets.thy ===== *)
theory Packets
  imports Bookmarks
begin

text \<open>
  Replay packets, from \<open>supershuckie-replay-recorder/src/packet.rs\<close> (the \<open>Packet\<close> type)
  and \<open>packet/io.rs\<close> (its discriminators, writer and reader).
\<close>

subsection \<open>Packets and discriminators\<close>

datatype packet =
    NoOp
  | NextFrame timestamp_millis
  | WriteMemory u64 bytes
  | ChangeInput bytes
  | ChangeSpeed speed
  | ResetConsole
  | LoadSaveState bytes
  | Bookmark bookmark_metadata
  | BookmarkTable bookmark_table
  | Keyframe keyframe_metadata bytes
  | DeltaKeyframe keyframe_metadata "u64 list"
  | RegionDeltaKeyframe keyframe_metadata u64 bytes bytes
  | CompressedBlob
      (cb_keyframes: "keyframe_metadata list")
      (cb_keyframe_offsets: "u64 list")
      (cb_bookmarks: "bookmark_metadata list")
      (cb_compressed_data: bytes)
      (cb_uncompressed_size: u64)
      (cb_timestamp_start: timestamp_millis)
      (cb_timestamp_end: timestamp_millis)
      (cb_elapsed_frames_start: u64)
      (cb_elapsed_frames_end: u64)
  | IncrementCounter rstring i64
  | StoredKeyframe
      (sk_metadata: keyframe_metadata)
      (sk_level: u8)
      (sk_state_len: u64)
      (sk_uncompressed_len: u64)
      (sk_frame_len: u64)
      (sk_frame_offset: u64)
  | Thumbnail
      (th_elapsed_frames: u64)
      (th_top_width: u64)
      (th_top_height: u64)
      (th_bottom_width: u64)
      (th_bottom_height: u64)
      (th_top: bytes)
      (th_bottom: bytes)
      (th_against_previous: bool)
      (th_jpeg: bool)
  | SerialIn bytes

definition MAX_SERIAL_IN_BYTES :: nat where
  "MAX_SERIAL_IN_BYTES = 64 * 1024"

datatype packet_discriminator =
    D_NoOp | D_NextFrame
  | D_ChangeInput8 | D_ChangeInput16 | D_ChangeInput32 | D_ChangeInputVar
  | D_WriteMemory8 | D_WriteMemory16 | D_WriteMemory32 | D_WriteMemoryVar
  | D_Keyframe | D_Bookmark | D_ChangeSpeed | D_ResetConsole | D_LoadSaveState
  | D_DeltaKeyframe | D_IncrementCounter | D_RegionDeltaKeyframe | D_BookmarkTable
  | D_IndexedCompressedBlob | D_SerialIn | D_StoredKeyframe | D_Thumbnail
  | D_ThumbnailAgainstPrevious | D_ThumbnailJpeg | D_CompressedBlob

fun discriminator_byte :: "packet_discriminator \<Rightarrow> u8" where
  "discriminator_byte D_NoOp = 0x00"
| "discriminator_byte D_NextFrame = 0x80"
| "discriminator_byte D_ChangeInput8 = 0x81"
| "discriminator_byte D_ChangeInput16 = 0x82"
| "discriminator_byte D_ChangeInput32 = 0x83"
| "discriminator_byte D_ChangeInputVar = 0x84"
| "discriminator_byte D_WriteMemory8 = 0x85"
| "discriminator_byte D_WriteMemory16 = 0x86"
| "discriminator_byte D_WriteMemory32 = 0x87"
| "discriminator_byte D_WriteMemoryVar = 0x88"
| "discriminator_byte D_Keyframe = 0xF0"
| "discriminator_byte D_Bookmark = 0xF1"
| "discriminator_byte D_ChangeSpeed = 0xF2"
| "discriminator_byte D_ResetConsole = 0xF3"
| "discriminator_byte D_LoadSaveState = 0xF4"
| "discriminator_byte D_DeltaKeyframe = 0xF5"
| "discriminator_byte D_IncrementCounter = 0xF6"
| "discriminator_byte D_RegionDeltaKeyframe = 0xF7"
| "discriminator_byte D_BookmarkTable = 0xF8"
| "discriminator_byte D_IndexedCompressedBlob = 0xF9"
| "discriminator_byte D_SerialIn = 0xFA"
| "discriminator_byte D_StoredKeyframe = 0xFB"
| "discriminator_byte D_Thumbnail = 0xFC"
| "discriminator_byte D_ThumbnailAgainstPrevious = 0xFD"
| "discriminator_byte D_ThumbnailJpeg = 0xEF"
| "discriminator_byte D_CompressedBlob = 0xFE"

definition all_discriminators :: "packet_discriminator list" where
  "all_discriminators =
     [D_NoOp, D_NextFrame, D_ChangeInput8, D_ChangeInput16, D_ChangeInput32, D_ChangeInputVar,
      D_WriteMemory8, D_WriteMemory16, D_WriteMemory32, D_WriteMemoryVar,
      D_Keyframe, D_Bookmark, D_ChangeSpeed, D_ResetConsole, D_LoadSaveState,
      D_DeltaKeyframe, D_IncrementCounter, D_RegionDeltaKeyframe, D_BookmarkTable,
      D_IndexedCompressedBlob, D_SerialIn, D_StoredKeyframe, D_Thumbnail,
      D_ThumbnailAgainstPrevious, D_ThumbnailJpeg, D_CompressedBlob]"

text \<open>The derived \<open>TryFromPrimitive\<close>.\<close>

definition discriminator_try_from :: "u8 \<Rightarrow> packet_discriminator option" where
  "discriminator_try_from b = find_key discriminator_byte b all_discriminators"

lemma discriminator_try_from_byte [simp]: "discriminator_try_from (discriminator_byte d) = Some d"
  by (cases d) (simp_all add: discriminator_try_from_def all_discriminators_def find_key_def)

lemma discriminator_byte_inject [simp]: "discriminator_byte d = discriminator_byte e \<longleftrightarrow> d = e"
  by (metis discriminator_try_from_byte option.inject)

lemma discriminator_try_from_eq: "discriminator_try_from b = Some d \<longleftrightarrow> b = discriminator_byte d"
proof
  assume "discriminator_try_from b = Some d"
  then show "b = discriminator_byte d"
    by (auto simp: discriminator_try_from_def find_key_def find_Some_iff)
qed simp

definition get_discriminator :: "packet \<Rightarrow> packet_discriminator" where
  "get_discriminator p = (case p of
     NoOp \<Rightarrow> D_NoOp
   | ResetConsole \<Rightarrow> D_ResetConsole
   | LoadSaveState _ \<Rightarrow> D_LoadSaveState
   | NextFrame _ \<Rightarrow> D_NextFrame
   | WriteMemory _ data \<Rightarrow>
       (if length data = 1 then D_WriteMemory8
        else if length data = 2 then D_WriteMemory16
        else if length data = 4 then D_WriteMemory32
        else D_WriteMemoryVar)
   | ChangeInput data \<Rightarrow>
       (if length data = 1 then D_ChangeInput8
        else if length data = 2 then D_ChangeInput16
        else if length data = 4 then D_ChangeInput32
        else D_ChangeInputVar)
   | ChangeSpeed _ \<Rightarrow> D_ChangeSpeed
   | Bookmark _ \<Rightarrow> D_Bookmark
   | BookmarkTable _ \<Rightarrow> D_BookmarkTable
   | Keyframe _ _ \<Rightarrow> D_Keyframe
   | DeltaKeyframe _ _ \<Rightarrow> D_DeltaKeyframe
   | RegionDeltaKeyframe _ _ _ _ \<Rightarrow> D_RegionDeltaKeyframe
   | CompressedBlob _ offsets _ _ _ _ _ _ _ \<Rightarrow>
       (if offsets = [] then D_CompressedBlob else D_IndexedCompressedBlob)
   | IncrementCounter _ _ \<Rightarrow> D_IncrementCounter
   | SerialIn _ \<Rightarrow> D_SerialIn
   | StoredKeyframe _ _ _ _ _ _ \<Rightarrow> D_StoredKeyframe
   | Thumbnail _ _ _ _ _ _ _ against_previous jpeg \<Rightarrow>
       (if jpeg then D_ThumbnailJpeg
        else if \<not> against_previous then D_Thumbnail
        else D_ThumbnailAgainstPrevious))"

definition get_discriminator_byte :: "packet \<Rightarrow> u8" where
  "get_discriminator_byte p = discriminator_byte (get_discriminator p)"

subsection \<open>Writing\<close>

definition write_fixed_or_var :: "bytes \<Rightarrow> packet_write_command list" where
  "write_fixed_or_var data =
     (if length data = 1 \<or> length data = 2 \<or> length data = 4 then [WriteVec data]
      else write_byte_vec data)"

definition write_payload :: "packet \<Rightarrow> packet_write_command list" where
  "write_payload p = (case p of
     NoOp \<Rightarrow> []
   | ResetConsole \<Rightarrow> []
   | NextFrame timestamp_delta \<Rightarrow> write_timestamp timestamp_delta
   | ChangeInput data \<Rightarrow> write_fixed_or_var data
   | WriteMemory address data \<Rightarrow> write_u64 address @ write_fixed_or_var data
   | CompressedBlob keyframes keyframe_offsets bms compressed_data uncompressed_size
       timestamp_start timestamp_end elapsed_frames_start elapsed_frames_end \<Rightarrow>
       write_vec write_keyframe_metadata keyframes @
       (if keyframe_offsets \<noteq> [] then write_vec write_u64 keyframe_offsets else []) @
       write_vec write_bookmark_metadata bms @
       write_byte_vec compressed_data @
       write_u64 uncompressed_size @
       write_timestamp timestamp_start @
       write_timestamp timestamp_end @
       write_u64 elapsed_frames_start @
       write_u64 elapsed_frames_end
   | Keyframe metadata state \<Rightarrow> write_keyframe_metadata metadata @ write_byte_vec state
   | DeltaKeyframe metadata diff \<Rightarrow> write_keyframe_metadata metadata @ write_vec write_u64 diff
   | RegionDeltaKeyframe metadata state_len control data \<Rightarrow>
       write_keyframe_metadata metadata @ write_u64 state_len @
       write_byte_vec control @ write_byte_vec data
   | Bookmark metadata \<Rightarrow> write_bookmark_metadata metadata
   | BookmarkTable table \<Rightarrow> write_bookmark_table table
   | ChangeSpeed speed \<Rightarrow> write_speed speed
   | LoadSaveState state \<Rightarrow> write_byte_vec state
   | IncrementCounter name delta \<Rightarrow> write_string name @ write_i64 delta
   | SerialIn data \<Rightarrow> write_byte_vec data
   | StoredKeyframe metadata level state_len uncompressed_len frame_len _ \<Rightarrow>
       write_keyframe_metadata metadata @ write_u8 level @ write_u64 state_len @
       write_u64 uncompressed_len @ write_u64 frame_len
   | Thumbnail elapsed_frames top_width top_height bottom_width bottom_height top_px bottom_px _ _ \<Rightarrow>
       write_u64 elapsed_frames @ write_u64 top_width @ write_u64 top_height @
       write_u64 bottom_width @ write_u64 bottom_height @
       write_byte_vec top_px @ write_byte_vec bottom_px)"

definition write_packet :: "packet \<Rightarrow> packet_write_command list" where
  "write_packet p = WriteByte (get_discriminator_byte p) # write_payload p"

subsection \<open>Reading\<close>

text \<open>The \<open>change_input!\<close> and \<open>write_memory!\<close> macros, for each integer width.\<close>

definition read_le_bytes :: "nat \<Rightarrow> u32 \<Rightarrow> bytes preader" where
  "read_le_bytes k version =
     (if k = 1 then bnd (read_u8 version) (\<lambda>w. ret (to_le 1 w))
      else if k = 2 then bnd (read_u16 version) (\<lambda>w. ret (to_le 2 w))
      else bnd (read_u32 version) (\<lambda>w. ret (to_le 4 w)))"

definition read_blob_packet :: "bool \<Rightarrow> u32 \<Rightarrow> packet preader" where
  "read_blob_packet indexed version =
     bnd (read_vec read_keyframe_metadata version) (\<lambda>keyframes.
     bnd (if indexed then read_vec read_u64 version else ret []) (\<lambda>keyframe_offsets.
     bnd (read_vec read_bookmark_metadata version) (\<lambda>bms.
     bnd (read_byte_vec version) (\<lambda>compressed_data.
     bnd (read_u64 version) (\<lambda>uncompressed_size.
     bnd (read_timestamp version) (\<lambda>timestamp_start.
     bnd (read_timestamp version) (\<lambda>timestamp_end.
     bnd (read_u64 version) (\<lambda>elapsed_frames_start.
     bnd (read_u64 version) (\<lambda>elapsed_frames_end.
     ret (CompressedBlob keyframes keyframe_offsets bms compressed_data uncompressed_size
       timestamp_start timestamp_end elapsed_frames_start elapsed_frames_end))))))))))"

definition read_thumbnail_packet :: "bool \<Rightarrow> bool \<Rightarrow> u32 \<Rightarrow> packet preader" where
  "read_thumbnail_packet against_previous jpeg version =
     bnd (read_u64 version) (\<lambda>elapsed_frames.
     bnd (read_u64 version) (\<lambda>top_width.
     bnd (read_u64 version) (\<lambda>top_height.
     bnd (read_u64 version) (\<lambda>bottom_width.
     bnd (read_u64 version) (\<lambda>bottom_height.
     bnd (read_byte_vec version) (\<lambda>top_px.
     bnd (read_byte_vec version) (\<lambda>bottom_px.
     ret (Thumbnail elapsed_frames top_width top_height bottom_width bottom_height top_px bottom_px
       against_previous jpeg))))))))"

text \<open>The frame is skipped; where it was is for the caller to note.\<close>

definition read_stored_keyframe_packet :: "u32 \<Rightarrow> packet preader" where
  "read_stored_keyframe_packet version =
     bnd (read_keyframe_metadata version) (\<lambda>metadata.
     bnd (read_u8 version) (\<lambda>level.
     bnd (read_u64 version) (\<lambda>state_len.
     bnd (read_u64 version) (\<lambda>uncompressed_len.
     bnd (read_u64 version) (\<lambda>frame_len.
     case usize_try_from frame_len of
       None \<Rightarrow> fail NotEnoughData
     | Some skip \<Rightarrow> bnd (take_bytes NotEnoughData skip) (\<lambda>_.
         ret (StoredKeyframe metadata level state_len uncompressed_len frame_len 0)))))))"

definition read_serial_in_packet :: "u32 \<Rightarrow> packet preader" where
  "read_serial_in_packet version =
     bnd (read_usize version) (\<lambda>len.
       if MAX_SERIAL_IN_BYTES < len then fail (ParseFail (SerialInTooLong len))
       else bnd (take_bytes NotEnoughData len) (\<lambda>data. ret (SerialIn data)))"

definition read_payload :: "packet_discriminator \<Rightarrow> u32 \<Rightarrow> packet preader" where
  "read_payload t version = (case t of
     D_NoOp \<Rightarrow> fail (ParseFail Unreachable)
   | D_ResetConsole \<Rightarrow> fail (ParseFail Unreachable)
   | D_NextFrame \<Rightarrow> bnd (read_timestamp version) (\<lambda>d. ret (NextFrame d))
   | D_LoadSaveState \<Rightarrow> bnd (read_byte_vec version) (\<lambda>s. ret (LoadSaveState s))
   | D_ChangeInput8 \<Rightarrow> bnd (read_le_bytes 1 version) (\<lambda>data. ret (ChangeInput data))
   | D_ChangeInput16 \<Rightarrow> bnd (read_le_bytes 2 version) (\<lambda>data. ret (ChangeInput data))
   | D_ChangeInput32 \<Rightarrow> bnd (read_le_bytes 4 version) (\<lambda>data. ret (ChangeInput data))
   | D_ChangeInputVar \<Rightarrow> bnd (read_byte_vec version) (\<lambda>data. ret (ChangeInput data))
   | D_WriteMemory8 \<Rightarrow> bnd (read_u64 version) (\<lambda>a.
       bnd (read_le_bytes 1 version) (\<lambda>data. ret (WriteMemory a data)))
   | D_WriteMemory16 \<Rightarrow> bnd (read_u64 version) (\<lambda>a.
       bnd (read_le_bytes 2 version) (\<lambda>data. ret (WriteMemory a data)))
   | D_WriteMemory32 \<Rightarrow> bnd (read_u64 version) (\<lambda>a.
       bnd (read_le_bytes 4 version) (\<lambda>data. ret (WriteMemory a data)))
   | D_WriteMemoryVar \<Rightarrow> bnd (read_u64 version) (\<lambda>a.
       bnd (read_byte_vec version) (\<lambda>data. ret (WriteMemory a data)))
   | D_Keyframe \<Rightarrow> bnd (read_keyframe_metadata version) (\<lambda>m.
       bnd (read_byte_vec version) (\<lambda>s. ret (Keyframe m s)))
   | D_DeltaKeyframe \<Rightarrow> bnd (read_keyframe_metadata version) (\<lambda>m.
       bnd (read_vec read_u64 version) (\<lambda>diff. ret (DeltaKeyframe m diff)))
   | D_RegionDeltaKeyframe \<Rightarrow> bnd (read_keyframe_metadata version) (\<lambda>m.
       bnd (read_u64 version) (\<lambda>len.
       bnd (read_byte_vec version) (\<lambda>control.
       bnd (read_byte_vec version) (\<lambda>data. ret (RegionDeltaKeyframe m len control data)))))
   | D_StoredKeyframe \<Rightarrow> read_stored_keyframe_packet version
   | D_Thumbnail \<Rightarrow> read_thumbnail_packet False False version
   | D_ThumbnailAgainstPrevious \<Rightarrow> read_thumbnail_packet True False version
   | D_ThumbnailJpeg \<Rightarrow> read_thumbnail_packet False True version
   | D_Bookmark \<Rightarrow> bnd (read_bookmark_metadata version) (\<lambda>m. ret (Bookmark m))
   | D_BookmarkTable \<Rightarrow> bnd (read_bookmark_table version) (\<lambda>t. ret (BookmarkTable t))
   | D_ChangeSpeed \<Rightarrow> bnd (read_speed version) (\<lambda>s. ret (ChangeSpeed s))
   | D_CompressedBlob \<Rightarrow> read_blob_packet False version
   | D_IndexedCompressedBlob \<Rightarrow> read_blob_packet True version
   | D_IncrementCounter \<Rightarrow> bnd (read_string version) (\<lambda>name.
       bnd (read_i64 version) (\<lambda>delta. ret (IncrementCounter name delta)))
   | D_SerialIn \<Rightarrow> read_serial_in_packet version)"

definition read_packet :: "u32 \<Rightarrow> packet preader" where
  "read_packet version = bnd (read_u8 version) (\<lambda>b.
     if b = discriminator_byte D_NoOp then ret NoOp
     else if b = discriminator_byte D_ResetConsole then ret ResetConsole
     else case discriminator_try_from b of
       None \<Rightarrow> fail (ParseFail (UnknownDiscriminator b))
     | Some t \<Rightarrow> read_payload t version)"

subsection \<open>Reading back what was written\<close>

text \<open>
  The values a packet can have in memory. Two are not representable on the stream: a picture
  that is a JPEG and stored against the previous one, and the place of a stored keyframe's
  frame, which the reader sets to 0.
\<close>

definition packet_ok :: "u32 \<Rightarrow> packet \<Rightarrow> bool" where
  "packet_ok v p = (case p of
     NoOp \<Rightarrow> True
   | ResetConsole \<Rightarrow> True
   | NextFrame _ \<Rightarrow> True
   | WriteMemory _ data \<Rightarrow> bytes_ok data
   | ChangeInput data \<Rightarrow> bytes_ok data
   | ChangeSpeed s \<Rightarrow> speed_ok s
   | LoadSaveState s \<Rightarrow> bytes_ok s
   | Bookmark m \<Rightarrow> bookmark_metadata_ok m
   | BookmarkTable t \<Rightarrow> table_wf t \<and> table_ok t \<and> next_id t \<noteq> 0
   | Keyframe m s \<Rightarrow> 3 \<le> v \<and> keyframe_metadata_ok m \<and> bytes_ok s
   | DeltaKeyframe m diff \<Rightarrow> 3 \<le> v \<and> keyframe_metadata_ok m \<and> vec_ok (\<lambda>_. True) diff
   | RegionDeltaKeyframe m _ control data \<Rightarrow>
       3 \<le> v \<and> keyframe_metadata_ok m \<and> bytes_ok control \<and> bytes_ok data
   | CompressedBlob ks offsets bms data _ _ _ _ _ \<Rightarrow>
       3 \<le> v \<and> vec_ok keyframe_metadata_ok ks \<and> vec_ok (\<lambda>_. True) offsets \<and>
       vec_ok bookmark_metadata_ok bms \<and> bytes_ok data
   | IncrementCounter name _ \<Rightarrow> string_ok name
   | StoredKeyframe m _ _ _ _ offset \<Rightarrow> 3 \<le> v \<and> keyframe_metadata_ok m \<and> offset = 0
   | Thumbnail _ _ _ _ _ top_px bottom_px against_previous jpeg \<Rightarrow>
       bytes_ok top_px \<and> bytes_ok bottom_px \<and> \<not> (against_previous \<and> jpeg)
   | SerialIn data \<Rightarrow> length data \<le> MAX_SERIAL_IN_BYTES)"

text \<open>The bytes of a frame that follow a stored keyframe in the stream; no other packet has any.\<close>

definition trailing_ok :: "packet \<Rightarrow> bytes \<Rightarrow> bool" where
  "trailing_ok p frame = (case p of
     StoredKeyframe _ _ _ _ frame_len _ \<Rightarrow> length frame = unat frame_len
   | _ \<Rightarrow> frame = [])"

lemma to_le_1_u8 [simp]: "to_le 1 (b :: u8) = [b]" "to_le (Suc 0) (b :: u8) = [b]"
  by (simp_all add: to_le_def)

lemma reads_le_bytes:
  assumes "length data = k" and "k = 1 \<or> k = 2 \<or> k = 4"
  shows "reads_as NotEnoughData (read_le_bytes k v) data data"
proof -
  consider "k = 1" | "k = 2" | "k = 4" using assms(2) by blast
  then show ?thesis
  proof cases
    case 1
    then obtain b where "data = [b]" using assms(1) by (auto simp: length_Suc_conv)
    with 1 reads_as_bnd_last [OF reads_u8 [of v b] reads_as_ret, of "\<lambda>w. to_le 1 w"] show ?thesis
      by (simp add: read_le_bytes_def write_u8_def del: ret_apply)
  next
    case 2
    then have "to_le 2 (from_le data :: u16) = data" using assms(1) by (intro to_le_from_le) simp_all
    with 2 reads_as_bnd_last [OF reads_u16 [of v "from_le data"] reads_as_ret, of "\<lambda>w. to_le 2 w"]
    show ?thesis by (simp add: read_le_bytes_def write_u16_def del: ret_apply)
  next
    case 3
    then have "to_le 4 (from_le data :: u32) = data" using assms(1) by (intro to_le_from_le) simp_all
    with 3 reads_as_bnd_last [OF reads_u32 [of v "from_le data"] reads_as_ret, of "\<lambda>w. to_le 4 w"]
    show ?thesis by (simp add: read_le_bytes_def write_u32_def del: ret_apply)
  qed
qed

lemmas reads_packet_leaf = reads_leaf counter_io.reads_vec
  keyframe_metadata_io.reads_vec bookmark_metadata_io.reads_vec

lemma reads_blob_packet:
  assumes "3 \<le> v" and "vec_ok keyframe_metadata_ok ks" and "vec_ok (\<lambda>_. True) offsets"
    and "vec_ok bookmark_metadata_ok bms" and "bytes_ok data"
  shows "reads_as NotEnoughData (read_blob_packet (offsets \<noteq> []) v)
    (instr_bytes (write_payload (CompressedBlob ks offsets bms data us ts te fs fe)))
    (CompressedBlob ks offsets bms data us ts te fs fe)"
proof -
  have ks: "vec_ok (\<lambda>m. 3 \<le> v \<and> keyframe_metadata_ok m) ks"
    using assms(1,2) by (simp add: vec_ok_def)
  have offs: "reads_as NotEnoughData (if offsets \<noteq> [] then read_vec read_u64 v else ret [])
      (instr_bytes (if offsets \<noteq> [] then write_vec write_u64 offsets else [])) offsets"
    using assms(3) by (auto intro: u64_io.reads_vec reads_as_ret)
  show ?thesis
    unfolding read_blob_packet_def write_payload_def packet.case instr_bytes_append
    by (rule reads_as_bnd reads_as_bnd_last offs reads_packet_leaf assms ks reads_as_ret_eq
        | (simp; fail))+
qed

lemma reads_stored_keyframe_packet:
  assumes "3 \<le> v" and "keyframe_metadata_ok m" and "length frame = unat frame_len"
  shows "reads_as NotEnoughData (read_stored_keyframe_packet v)
    (instr_bytes (write_payload (StoredKeyframe m level sl ul frame_len offset)) @ frame)
    (StoredKeyframe m level sl ul frame_len 0)"
  unfolding read_stored_keyframe_packet_def write_payload_def packet.case instr_bytes_append
    append_assoc usize_try_from option.case
  by (rule reads_as_bnd reads_as_bnd_last reads_leaf reads_as_take_bytes assms reads_as_ret_eq
      | (simp add: assms; fail))+

lemma reads_serial_in_packet:
  assumes "length data \<le> MAX_SERIAL_IN_BYTES"
  shows "reads_as NotEnoughData (read_serial_in_packet v)
    (instr_bytes (write_payload (SerialIn data))) (SerialIn data)"
proof -
  have "length data < usize_limit"
    using assms by (simp add: MAX_SERIAL_IN_BYTES_def usize_limit_def)
  moreover have "reads_as NotEnoughData
     (if MAX_SERIAL_IN_BYTES < length data then fail (ParseFail (SerialInTooLong (length data)))
      else bnd (take_bytes NotEnoughData (length data)) (\<lambda>data. ret (SerialIn data))) data (SerialIn data)"
    using assms by (intro reads_as_if_false reads_as_bnd_last [OF reads_as_take_bytes] reads_as_ret) simp_all
  ultimately show ?thesis
    unfolding read_serial_in_packet_def write_payload_def packet.case write_byte_vec_def
    by (simp add: reads_as_bnd [OF reads_usize])
qed

lemma reads_fixed_or_var:
  assumes "bytes_ok data"
  shows "reads_as NotEnoughData
    (if length data = 1 then read_le_bytes 1 v else if length data = 2 then read_le_bytes 2 v
     else if length data = 4 then read_le_bytes 4 v else read_byte_vec v)
    (instr_bytes (write_fixed_or_var data)) data"
  using reads_le_bytes [of data 1 v] reads_le_bytes [of data 2 v] reads_le_bytes [of data 4 v]
    reads_byte_vec [OF assms, of v]
  by (simp add: write_fixed_or_var_def)

lemma reads_change_input:
  assumes "bytes_ok data"
  shows "reads_as NotEnoughData (read_payload (get_discriminator (ChangeInput data)) v)
    (instr_bytes (write_payload (ChangeInput data))) (ChangeInput data)"
  using reads_as_bnd_last [OF reads_fixed_or_var [OF assms, of v] reads_as_ret, of ChangeInput]
  by (simp add: write_payload_def read_payload_def get_discriminator_def del: ret_apply split: if_splits)

lemma reads_write_memory:
  assumes "bytes_ok data"
  shows "reads_as NotEnoughData (read_payload (get_discriminator (WriteMemory a data)) v)
    (instr_bytes (write_payload (WriteMemory a data))) (WriteMemory a data)"
  using reads_as_bnd [OF reads_u64 [of v a]
      reads_as_bnd_last [OF reads_fixed_or_var [OF assms, of v] reads_as_ret], of "WriteMemory"]
  by (simp add: write_payload_def read_payload_def get_discriminator_def del: ret_apply split: if_splits)

lemma reads_payload:
  assumes "packet_ok v p" and "trailing_ok p frame" and "p \<noteq> NoOp" and "p \<noteq> ResetConsole"
  shows "reads_as NotEnoughData (read_payload (get_discriminator p) v)
    (instr_bytes (write_payload p) @ frame) p"
proof (cases p)
  case (WriteMemory a data)
  with assms show ?thesis
    by (simp add: reads_write_memory packet_ok_def trailing_ok_def)
next
  case (ChangeInput data)
  with assms show ?thesis
    by (simp add: reads_change_input packet_ok_def trailing_ok_def)
next
  case (CompressedBlob ks offsets bms data us ts te fs fe)
  with assms reads_blob_packet [of v ks offsets bms data us ts te fs fe] show ?thesis
    by (cases "offsets = []") (simp_all add: packet_ok_def trailing_ok_def read_payload_def get_discriminator_def)
next
  case (StoredKeyframe m level sl ul frame_len offset)
  with assms reads_stored_keyframe_packet [of v m frame frame_len level sl ul offset] show ?thesis
    by (simp add: packet_ok_def trailing_ok_def read_payload_def get_discriminator_def)
next
  case (SerialIn data)
  with assms show ?thesis
    by (simp add: reads_serial_in_packet packet_ok_def trailing_ok_def read_payload_def get_discriminator_def)
next
  case (Thumbnail ef tw th bw bh t b ap jpeg)
  with assms(1) have ok: "bytes_ok t" "bytes_ok b" and flags: "\<not> (ap \<and> jpeg)"
    by (simp_all add: packet_ok_def)
  have "reads_as NotEnoughData (read_thumbnail_packet ap jpeg v) (instr_bytes (write_payload p)) p"
    unfolding Thumbnail read_thumbnail_packet_def write_payload_def packet.case instr_bytes_append
    by (rule reads_as_bnd reads_as_bnd_last reads_leaf ok reads_as_ret_eq | (simp; fail))+
  with assms(2) flags Thumbnail show ?thesis
    by (auto simp: trailing_ok_def read_payload_def get_discriminator_def)
next
  case (DeltaKeyframe m diff)
  with assms show ?thesis
    unfolding DeltaKeyframe write_payload_def get_discriminator_def read_payload_def packet.case
      packet_discriminator.case instr_bytes_append
    by (simp only: trailing_ok_def packet_ok_def packet.case append_Nil2,
       intro reads_as_bnd [OF reads_keyframe_metadata] reads_as_bnd_last [OF u64_io.reads_vec] reads_as_ret)
      simp_all
next
  case NoOp
  with assms show ?thesis by simp
next
  case ResetConsole
  with assms show ?thesis by simp
qed (insert assms, simp_all add: trailing_ok_def packet_ok_def write_payload_def
       get_discriminator_def read_payload_def del: ret_apply,
     (rule reads_as_bnd reads_as_bnd_last reads_leaf reads_as_ret_eq | (simp; fail))+)

lemma reads_packet_trailing:
  assumes "packet_ok v p" and "trailing_ok p frame"
  shows "reads_as NotEnoughData (read_packet v) (instr_bytes (write_packet p) @ frame) p"
proof -
  have "reads_as NotEnoughData
     (if get_discriminator_byte p = discriminator_byte D_NoOp then ret NoOp
      else if get_discriminator_byte p = discriminator_byte D_ResetConsole then ret ResetConsole
      else case discriminator_try_from (get_discriminator_byte p) of
        None \<Rightarrow> fail (ParseFail (UnknownDiscriminator (get_discriminator_byte p)))
      | Some t \<Rightarrow> read_payload t v)
     (instr_bytes (write_payload p) @ frame) p"
  proof (cases "p = NoOp \<or> p = ResetConsole")
    case True
    with assms(2) show ?thesis
      by (auto simp: get_discriminator_byte_def get_discriminator_def trailing_ok_def
          write_payload_def intro: reads_as_ret simp del: discriminator_byte.simps ret_apply)
  next
    case False
    then have "get_discriminator p \<noteq> D_NoOp" "get_discriminator p \<noteq> D_ResetConsole"
      by (cases p; simp add: get_discriminator_def)+
    with False reads_payload [OF assms] show ?thesis
      by (simp add: get_discriminator_byte_def del: discriminator_byte.simps)
  qed
  note rest = this
  have "instr_bytes (write_packet p) @ frame =
      instr_bytes (write_u8 (get_discriminator_byte p)) @ instr_bytes (write_payload p) @ frame"
    by (simp add: write_packet_def write_u8_def)
  then show ?thesis
    unfolding read_packet_def by (simp only:) (rule reads_as_bnd [OF reads_u8], rule rest)
qed

text \<open>Packets without a frame behind them obey the codec contract.\<close>

definition packet_plain :: "u32 \<Rightarrow> packet \<Rightarrow> bool" where
  "packet_plain v p \<longleftrightarrow> packet_ok v p \<and> trailing_ok p []"

lemma consumes_option [consumes_intros]:
  "(\<And>x. consumes k (f x)) \<Longrightarrow> consumes k (case m of None \<Rightarrow> fail e | Some x \<Rightarrow> f x)"
  by (cases m) (simp_all add: consumes_fail)

lemma consumes_le_bytes [consumes_intros]: "k \<le> 1 \<Longrightarrow> consumes k (read_le_bytes n v)"
  unfolding read_le_bytes_def by (intro consumes_intros) simp_all

lemma consumes_special_packets [consumes_intros]:
  "consumes 0 (read_blob_packet i v)"
  "consumes 0 (read_thumbnail_packet ap j v)"
  "consumes 0 (read_stored_keyframe_packet v)"
  "consumes 0 (read_serial_in_packet v)"
  unfolding read_blob_packet_def read_thumbnail_packet_def read_stored_keyframe_packet_def
    read_serial_in_packet_def
  by ((intro consumes_intros keyframe_metadata_io.consumes_vec bookmark_metadata_io.consumes_vec
        u64_io.consumes_vec; simp)+)

lemma consumes_payload [consumes_intros]: "consumes 0 (read_payload t v)"
  by (cases t; simp add: read_payload_def;
      intro consumes_intros keyframe_metadata_io.consumes_vec u64_io.consumes_vec; simp)

lemma consumes_packet: "consumes 1 (read_packet v)"
  unfolding read_packet_def
  by (intro consumes_intros) simp_all

interpretation packet_codec: packet_io write_packet read_packet packet_plain
  by unfold_locales (use reads_packet_trailing [of _ _ "[]"] consumes_packet in \<open>auto simp: packet_plain_def\<close>)

text \<open>The \<open>unreachable!\<close> arm is not reached: its discriminators return before.\<close>

lemma read_packet_reaches:
  "discriminator_try_from b = Some t \<Longrightarrow> b \<noteq> discriminator_byte D_NoOp \<Longrightarrow>
   b \<noteq> discriminator_byte D_ResetConsole \<Longrightarrow> t \<noteq> D_NoOp \<and> t \<noteq> D_ResetConsole"
  by (auto simp: discriminator_try_from_eq)

end
