(* ===== verification/Packet_Stream.thy ===== *)
theory Packet_Stream
  imports Packets
begin

text \<open>
  How the player reads the packet stream of a file, from \<open>ReplayFilePlayer::open\<close> in
  \<open>supershuckie-replay-recorder/src/replay_file/playback.rs\<close>: the loop over the packets, the
  check that every delta keyframe has a full keyframe before it, and the check of the first
  packet. With \<open>allow_some_corruption\<close> a broken tail is dropped instead of reported.
\<close>

datatype broken_packet =
    NotEnoughDataForPacket
  | ParseFailure parse_fail
  | DeltaWithoutKeyframe

datatype invalid_replay =
    NoPackets
  | BlobWithoutKeyframes
  | NoKeyframeFirst

datatype stream_error = BrokenPacket broken_packet | InvalidReplayFile invalid_replay

subsection \<open>The loop over the packets\<close>

text \<open>A stored keyframe's frame is the tail of what the packet consumed; \<open>at\<close> is where it ends.\<close>

definition set_frame_offset :: "nat \<Rightarrow> packet \<Rightarrow> packet" where
  "set_frame_offset at p = (case p of
     StoredKeyframe m level sl ul frame_len _ \<Rightarrow>
       StoredKeyframe m level sl ul frame_len (of_nat (at - unat frame_len))
   | _ \<Rightarrow> p)"

definition prepend_packet :: "packet \<Rightarrow> stream_error + packet list \<times> bool \<Rightarrow> stream_error + packet list \<times> bool" where
  "prepend_packet p r = (case r of Inl e \<Rightarrow> Inl e | Inr (ps, truncated) \<Rightarrow> Inr (p # ps, truncated))"

text \<open>\<open>pos\<close> is the place of \<open>data\<close> in the file. The flag says that the stream was truncated.\<close>

function read_stream :: "bool \<Rightarrow> u32 \<Rightarrow> nat \<Rightarrow> bytes \<Rightarrow> stream_error + packet list \<times> bool" where
  "read_stream allow version pos data =
     (if data = [] then Inr ([], False)
      else case read_packet version data of
          Inr (n, rest) \<Rightarrow>
            let consumed = length data - length rest
            in prepend_packet (set_frame_offset (pos + consumed) n)
                 (read_stream allow version (pos + consumed) rest)
        | Inl e \<Rightarrow>
            if allow then Inr ([], True)
            else (case e of
                NotEnoughData \<Rightarrow> Inl (BrokenPacket NotEnoughDataForPacket)
              | ParseFail why \<Rightarrow> Inl (BrokenPacket (ParseFailure why))))"
  by auto
termination
  by (relation "measure (\<lambda>(_, _, _, data). length data)")
    (auto dest: packet_codec.item.dec_shorter)

declare read_stream.simps [simp del]

subsection \<open>Delta keyframes need a full one\<close>

definition is_full_keyframe :: "packet \<Rightarrow> bool" where
  "is_full_keyframe p = (case p of
     Keyframe _ _ \<Rightarrow> True
   | StoredKeyframe _ level _ _ _ _ \<Rightarrow> level = 0
   | _ \<Rightarrow> False)"

definition is_delta_keyframe :: "packet \<Rightarrow> bool" where
  "is_delta_keyframe p = (case p of
     DeltaKeyframe _ _ \<Rightarrow> True
   | RegionDeltaKeyframe _ _ _ _ \<Rightarrow> True
   | StoredKeyframe _ level _ _ _ _ \<Rightarrow> level \<noteq> 0
   | _ \<Rightarrow> False)"

definition is_blob :: "packet \<Rightarrow> bool" where
  "is_blob p = (case p of CompressedBlob _ _ _ _ _ _ _ _ _ \<Rightarrow> True | _ \<Rightarrow> False)"

fun check_chains :: "bool \<Rightarrow> bool \<Rightarrow> packet list \<Rightarrow> stream_error + packet list \<times> bool" where
  "check_chains allow have_keyframe [] = Inr ([], False)"
| "check_chains allow have_keyframe (p # ps) =
     (if is_full_keyframe p then prepend_packet p (check_chains allow True ps)
      else if is_blob p then prepend_packet p (check_chains allow False ps)
      else if is_delta_keyframe p \<and> \<not> have_keyframe then
        (if allow then Inr ([], True) else Inl (BrokenPacket DeltaWithoutKeyframe))
      else prepend_packet p (check_chains allow have_keyframe ps))"

definition check_first :: "packet list \<Rightarrow> stream_error + unit" where
  "check_first ps = (case ps of
     [] \<Rightarrow> Inl (InvalidReplayFile NoPackets)
   | p # _ \<Rightarrow>
       if is_blob p then
         (if cb_keyframes p = [] then Inl (InvalidReplayFile BlobWithoutKeyframes) else Inr ())
       else if is_full_keyframe p then Inr ()
       else Inl (InvalidReplayFile NoKeyframeFirst))"

definition load_packets :: "bool \<Rightarrow> u32 \<Rightarrow> nat \<Rightarrow> bytes \<Rightarrow> stream_error + packet list \<times> bool" where
  "load_packets allow version patch_end data =
     (case read_stream allow version patch_end data of
        Inl e \<Rightarrow> Inl e
      | Inr (all_packets, t1) \<Rightarrow>
          (case check_chains allow False all_packets of
             Inl e \<Rightarrow> Inl e
           | Inr (kept, t2) \<Rightarrow>
               (case check_first kept of
                  Inl e \<Rightarrow> Inl e
                | Inr _ \<Rightarrow> Inr (kept, t1 \<or> t2))))"

subsection \<open>What a recording looks like on the stream\<close>

text \<open>A packet as the recorder appends it: its instructions, then its frame if it has one.\<close>

definition recorded_bytes :: "packet \<times> bytes \<Rightarrow> bytes" where
  "recorded_bytes r = instr_bytes (write_packet (fst r)) @ snd r"

definition recorded_ok :: "u32 \<Rightarrow> packet \<times> bytes \<Rightarrow> bool" where
  "recorded_ok v r \<longleftrightarrow> packet_ok v (fst r) \<and> trailing_ok (fst r) (snd r)"

definition stream_bytes :: "(packet \<times> bytes) list \<Rightarrow> bytes" where
  "stream_bytes rs = concat (map recorded_bytes rs)"

text \<open>The packets as the player has them: with the places of their frames filled in.\<close>

fun placed :: "nat \<Rightarrow> (packet \<times> bytes) list \<Rightarrow> packet list" where
  "placed pos [] = []"
| "placed pos (r # rs) =
     (let at = pos + length (recorded_bytes r) in set_frame_offset at (fst r) # placed at rs)"

lemma reads_recorded:
  "recorded_ok v r \<Longrightarrow> reads_as NotEnoughData (read_packet v) (recorded_bytes r) (fst r)"
  by (simp add: recorded_ok_def recorded_bytes_def reads_packet_trailing)

lemma read_stream_step:
  assumes "recorded_ok v r"
  shows "read_stream allow v pos (recorded_bytes r @ rest) =
    prepend_packet (set_frame_offset (pos + length (recorded_bytes r)) (fst r))
      (read_stream allow v (pos + length (recorded_bytes r)) rest)"
proof -
  have "read_packet v (recorded_bytes r @ rest) = Inr (fst r, rest)"
    by (rule reads_asD [OF reads_recorded [OF assms]])
  moreover from this have "recorded_bytes r @ rest \<noteq> []"
    using packet_codec.item.dec_shorter [of v "recorded_bytes r @ rest"] by fastforce
  ultimately show ?thesis by (subst read_stream.simps) (auto simp: Let_def)
qed

lemma read_stream_append:
  "list_all (recorded_ok v) rs \<Longrightarrow>
   read_stream allow v pos (stream_bytes rs @ rest) =
     fold prepend_packet (rev (placed pos rs))
       (read_stream allow v (pos + length (stream_bytes rs)) rest)"
  by (induction rs arbitrary: pos)
    (simp_all add: stream_bytes_def read_stream_step Let_def add.assoc)

lemma fold_prepend_Inr:
  "fold prepend_packet (rev ps) (Inr (qs, t)) = Inr (ps @ qs, t)"
  by (induction ps) (simp_all add: prepend_packet_def)

lemma fold_prepend_Inl: "fold prepend_packet ps (Inl e) = Inl e"
  by (induction ps) (simp_all add: prepend_packet_def)

text \<open>Every packet of a complete stream comes back.\<close>

lemma read_stream_complete:
  "list_all (recorded_ok v) rs \<Longrightarrow> read_stream allow v pos (stream_bytes rs) = Inr (placed pos rs, False)"
  using read_stream_append [of v rs allow pos "[]"] by (simp add: read_stream.simps fold_prepend_Inr)

text \<open>A recording that stops anywhere inside a packet: all packets before it come back.\<close>

lemma read_stream_cut:
  assumes "list_all (recorded_ok v) rs" and "recorded_ok v r" and "strict_prefix q (recorded_bytes r)"
  shows "read_stream True v pos (stream_bytes rs @ q) = Inr (placed pos rs, q \<noteq> [])"
    and "q \<noteq> [] \<Longrightarrow> read_stream False v pos (stream_bytes rs @ q) = Inl (BrokenPacket NotEnoughDataForPacket)"
proof -
  have "read_packet v q = Inl NotEnoughData"
    by (rule reads_as_prefixD [OF reads_recorded [OF assms(2)] assms(3)])
  then show "read_stream True v pos (stream_bytes rs @ q) = Inr (placed pos rs, q \<noteq> [])"
    and "q \<noteq> [] \<Longrightarrow> read_stream False v pos (stream_bytes rs @ q) = Inl (BrokenPacket NotEnoughDataForPacket)"
    by (simp_all add: read_stream_append [OF assms(1)] read_stream.simps [of _ _ _ q]
        fold_prepend_Inr fold_prepend_Inl)
qed

text \<open>The place noted for a frame is where the frame is.\<close>

lemma placed_frame:
  assumes "list_all (recorded_ok v) rs" and "i < length rs"
    and "fst (rs ! i) = StoredKeyframe m level sl ul frame_len fo"
    and "pos + length (stream_bytes rs) < usize_limit"
  shows "\<exists>at. placed pos rs ! i = StoredKeyframe m level sl ul frame_len at \<and> pos \<le> unat at \<and>
    take (unat frame_len) (drop (unat at - pos) (stream_bytes rs)) = snd (rs ! i)"
  using assms
proof (induction rs arbitrary: pos i)
  case Nil
  then show ?case by simp
next
  case (Cons r rs)
  let ?n = "length (recorded_bytes r)"
  show ?case
  proof (cases i)
    case 0
    with Cons.prems have p: "fst r = StoredKeyframe m level sl ul frame_len fo" and ok: "recorded_ok v r"
      by simp_all
    from ok p have len: "length (snd r) = unat frame_len"
      by (simp add: recorded_ok_def trailing_ok_def)
    have at: "unat (of_nat (pos + ?n - unat frame_len) :: u64) = pos + ?n - unat frame_len"
      using Cons.prems(4) by (intro unat_of_nat_u64) (simp add: stream_bytes_def)
    have n: "?n = length (instr_bytes (write_packet (fst r))) + unat frame_len"
      using len by (simp add: recorded_bytes_def)
    have "take (unat frame_len) (drop (?n - unat frame_len) (stream_bytes (r # rs))) = snd r"
      using n len by (simp add: stream_bytes_def recorded_bytes_def)
    moreover have "pos + ?n - unat frame_len - pos = ?n - unat frame_len" using n by simp
    ultimately show ?thesis
      using 0 p at n
      by (intro exI [of _ "of_nat (pos + ?n - unat frame_len)"]) (simp add: Let_def set_frame_offset_def)
  next
    case (Suc j)
    with Cons.prems have "list_all (recorded_ok v) rs" "j < length rs"
      "fst (rs ! j) = StoredKeyframe m level sl ul frame_len fo"
      "(pos + ?n) + length (stream_bytes rs) < usize_limit"
      by (simp_all add: stream_bytes_def add.assoc)
    from Cons.IH [OF this] obtain at where at: "placed (pos + ?n) rs ! j = StoredKeyframe m level sl ul frame_len at"
      "pos + ?n \<le> unat at" "take (unat frame_len) (drop (unat at - (pos + ?n)) (stream_bytes rs)) = snd (rs ! j)"
      by blast
    have "drop (unat at - pos) (stream_bytes (r # rs)) = drop (unat at - (pos + ?n)) (stream_bytes rs)"
      using at(2) by (simp add: stream_bytes_def)
    with Suc at show ?thesis
      by (intro exI [of _ at]) (simp add: Let_def)
  qed
qed

subsection \<open>Chains\<close>

text \<open>The specification: each delta keyframe has a full keyframe before it with no blob in between.\<close>

definition chained :: "packet list \<Rightarrow> nat \<Rightarrow> bool" where
  "chained ps i \<longleftrightarrow> (\<exists>k < i. is_full_keyframe (ps ! k) \<and> (\<forall>j. k < j \<and> j < i \<longrightarrow> \<not> is_blob (ps ! j)))"

definition chains_ok :: "bool \<Rightarrow> packet list \<Rightarrow> bool" where
  "chains_ok h ps \<longleftrightarrow> (\<forall>i < length ps. is_delta_keyframe (ps ! i) \<longrightarrow>
     chained ps i \<or> (h \<and> (\<forall>j < i. \<not> is_blob (ps ! j))))"

lemma keyframe_kinds:
  "is_full_keyframe p \<Longrightarrow> \<not> is_blob p" "is_full_keyframe p \<Longrightarrow> \<not> is_delta_keyframe p"
  "is_blob p \<Longrightarrow> \<not> is_delta_keyframe p"
  by (cases p; simp add: is_full_keyframe_def is_blob_def is_delta_keyframe_def)+

lemma all_less_Suc_shift: "(\<forall>i < Suc n. P i) \<longleftrightarrow> P 0 \<and> (\<forall>i < n. P (Suc i))"
  by (metis less_Suc_eq_0_disj)

lemma ex_less_Suc_shift: "(\<exists>i < Suc n. P i) \<longleftrightarrow> P 0 \<or> (\<exists>i < n. P (Suc i))"
  by (metis less_Suc_eq_0_disj)

lemma chained_Cons:
  "chained (p # ps) (Suc i) \<longleftrightarrow>
     chained ps i \<or> (is_full_keyframe p \<and> (\<forall>j < i. \<not> is_blob (ps ! j)))"
proof -
  have "(\<forall>j. Suc k < j \<and> j < Suc i \<longrightarrow> \<not> is_blob ((p # ps) ! j)) \<longleftrightarrow>
      (\<forall>j. k < j \<and> j < i \<longrightarrow> \<not> is_blob (ps ! j))" for k
    by (metis Suc_less_eq Suc_less_eq2 nth_Cons_Suc)
  moreover have "(\<forall>j. 0 < j \<and> j < Suc i \<longrightarrow> \<not> is_blob ((p # ps) ! j)) \<longleftrightarrow> (\<forall>j < i. \<not> is_blob (ps ! j))"
    by (metis Suc_less_eq gr0_conv_Suc nth_Cons_Suc zero_less_Suc)
  ultimately show ?thesis
    by (auto simp: chained_def ex_less_Suc_shift)
qed

lemma chained_0 [simp]: "\<not> chained ps 0"
  by (simp add: chained_def)

lemma chains_ok_Cons:
  "chains_ok h (p # ps) \<longleftrightarrow>
     (is_delta_keyframe p \<longrightarrow> h) \<and>
     chains_ok (is_full_keyframe p \<or> (h \<and> \<not> is_blob p)) ps"
  unfolding chains_ok_def length_Cons all_less_Suc_shift
  by (simp only: chained_Cons all_less_Suc_shift chained_0 nth_Cons_0 nth_Cons_Suc) blast

lemma check_chains_complete:
  "chains_ok h ps \<Longrightarrow> check_chains allow h ps = Inr (ps, False)"
  by (induction ps arbitrary: h) (auto simp: chains_ok_Cons prepend_packet_def keyframe_kinds)

lemma check_chains_sound:
  "check_chains allow h ps = Inr (qs, t) \<Longrightarrow>
   chains_ok h qs \<and> prefix qs ps \<and> (t \<longleftrightarrow> qs \<noteq> ps) \<and> (t \<longrightarrow> allow \<and> is_delta_keyframe (ps ! length qs))"
proof (induction ps arbitrary: h qs)
  case Nil
  then show ?case by (simp add: chains_ok_def)
next
  case (Cons p ps)
  then show ?case
    by (auto simp: chains_ok_Cons prepend_packet_def keyframe_kinds
        split: if_splits sum.splits prod.splits)
      (auto simp: chains_ok_def keyframe_kinds)
qed

lemma load_packets_sound:
  assumes "load_packets allow v pos data = Inr (ps, t)"
  shows "chains_ok False ps" and "ps \<noteq> []"
    and "is_full_keyframe (hd ps) \<or> is_blob (hd ps) \<and> cb_keyframes (hd ps) \<noteq> []"
proof -
  from assms obtain all where "check_chains allow False all = Inr (ps, t) \<or> (\<exists>t'. check_chains allow False all = Inr (ps, t'))"
    and first: "check_first ps = Inr ()"
    by (auto simp: load_packets_def split: sum.splits prod.splits)
  then show "chains_ok False ps" using check_chains_sound by blast
  from first show "ps \<noteq> []" and "is_full_keyframe (hd ps) \<or> is_blob (hd ps) \<and> cb_keyframes (hd ps) \<noteq> []"
    by (auto simp: check_first_def split: list.splits if_splits)
qed

end
