(* ===== verification/Leb128.thy ===== *)
theory Leb128
  imports Prelude
begin

text \<open>
  The unsigned LEB128 integers of the keyframe deltas, from
  \<open>supershuckie-replay-recorder/src/util.rs\<close> (\<open>write_leb128\<close>, \<open>read_leb128\<close>): seven bits
  a byte, low bits first, the top bit of a byte says that more follow.
\<close>

unbundle bit_operations_syntax

function write_leb128 :: "u64 \<Rightarrow> bytes" where
  "write_leb128 v =
     (let byte = ucast (v AND 0x7F) :: u8;
          v' = drop_bit 7 v
      in if v' = 0 then [byte] else (byte OR 0x80) # write_leb128 v')"
  by auto

lemma unat_drop_bit_7: "unat (drop_bit 7 v :: u64) = unat v div 128"
  by (simp add: drop_bit_eq_div unat_div)

termination write_leb128
  by (relation "measure unat") (auto simp: unat_drop_bit_7 word_unat_eq_iff)

declare write_leb128.simps [simp del]

text \<open>
  The loop of \<open>read_leb128\<close>: at most ten bytes, and the tenth may only carry the top bit.
\<close>

fun read_leb128_loop :: "u64 \<Rightarrow> nat \<Rightarrow> bytes \<Rightarrow> (u64 \<times> bytes) option" where
  "read_leb128_loop r shift [] = None"
| "read_leb128_loop r shift (byte # rest) =
     (let bits = ucast (byte AND 0x7F) :: u64
      in if 63 < shift \<or> (shift = 63 \<and> 1 < bits) then None
         else let r' = r OR push_bit shift bits
           in if byte AND 0x80 = 0 then Some (r', rest) else read_leb128_loop r' (shift + 7) rest)"

definition read_leb128 :: "bytes \<Rightarrow> (u64 \<times> bytes) option" where
  "read_leb128 inp = read_leb128_loop 0 0 inp"

lemma mask_7: "(0x7F :: 64 word) = mask 7" "(0x7F :: 8 word) = mask 7"
  by (simp_all add: mask_eq_exp_minus_1)

lemma bit_0x80: "bit (0x80 :: nat) n \<longleftrightarrow> n = 7" "bit (0x80 :: int) n \<longleftrightarrow> n = 7"
proof -
  have "(0x80 :: nat) = 2 ^ 7" and "(0x80 :: int) = 2 ^ 7" by simp_all
  then show "bit (0x80 :: nat) n \<longleftrightarrow> n = 7" and "bit (0x80 :: int) n \<longleftrightarrow> n = 7"
    by (simp_all only: bit_exp_iff) auto
qed

lemma and_0x80: "(b :: u8) AND 0x80 = 0 \<longleftrightarrow> \<not> bit b 7"
proof
  assume "b AND 0x80 = 0"
  then have "\<not> bit (b AND 0x80) 7" by simp
  then show "\<not> bit b 7" by (simp add: bit_and_iff bit_0x80)
next
  assume "\<not> bit b 7"
  then show "b AND 0x80 = 0" by (intro bit_word_eqI) (auto simp: bit_and_iff bit_0x80)
qed

lemma leb_low: "(ucast ((ucast (v AND 0x7F) :: u8) AND 0x7F) :: u64) = v AND 0x7F"
  by (rule bit_word_eqI) (auto simp: bit_simps mask_7)

lemma leb_low_marked: "(ucast (((ucast (v AND 0x7F) :: u8) OR 0x80) AND 0x7F) :: u64) = v AND 0x7F"
  by (rule bit_word_eqI) (auto simp: bit_simps mask_7 bit_0x80)

lemma leb_mark: "((ucast ((v :: u64) AND 0x7F) :: u8) OR 0x80) AND 0x80 \<noteq> 0"
  "(ucast ((v :: u64) AND 0x7F) :: u8) AND 0x80 = 0"
  by (simp_all add: and_0x80 bit_or_iff bit_0x80) (simp add: bit_simps mask_7)

lemma leb_join: "(r OR push_bit s ((v :: u64) AND 0x7F)) OR push_bit (s + 7) (drop_bit 7 v) = r OR push_bit s v"
proof (rule bit_word_eqI)
  fix n
  assume "n < LENGTH(64)"
  show "bit ((r OR push_bit s (v AND 0x7F)) OR push_bit (s + 7) (drop_bit 7 v)) n = bit (r OR push_bit s v) n"
  proof (cases "s + 7 \<le> n")
    case True
    then have "7 + (n - (s + 7)) = n - s" by simp
    with True \<open>n < LENGTH(64)\<close> show ?thesis by (auto simp: bit_simps mask_7)
  next
    case False
    with \<open>n < LENGTH(64)\<close> show ?thesis by (auto simp: bit_simps mask_7)
  qed
qed

lemma leb_last: "drop_bit 7 (v :: u64) = 0 \<Longrightarrow> v AND 0x7F = v"
  using take_bit_eq_self_iff_drop_bit_eq_0 by (simp only: mask_7 flip: take_bit_eq_mask) blast

lemma unat_and_0x7F: "unat ((v :: u64) AND 0x7F) \<le> unat v"
  by (metis word_and_le2 word_le_nat_alt)

lemma read_leb128_loop_write:
  "unat v * 2 ^ shift < 2 ^ 64 \<Longrightarrow> v \<noteq> 0 \<or> shift = 0 \<Longrightarrow>
   read_leb128_loop r shift (write_leb128 v @ rest) = Some (r OR push_bit shift v, rest)"
proof (induction v arbitrary: r shift rule: write_leb128.induct)
  case (1 v)
  have s: "shift \<le> 63"
  proof (rule ccontr)
    assume "\<not> shift \<le> 63"
    then have "(2::nat) ^ 64 \<le> 2 ^ shift" by (intro power_increasing) auto
    moreover from \<open>\<not> shift \<le> 63\<close> "1.prems"(2) have "1 \<le> unat v"
      by (simp add: unat_gt_0 Suc_le_eq)
    ultimately have "2 ^ 64 \<le> unat v * 2 ^ shift"
      by (metis mult_le_mono mult_1)
    with "1.prems"(1) show False by linarith
  qed
  have top: "shift = 63 \<Longrightarrow> \<not> 1 < v AND 0x7F"
    using "1.prems"(1) unat_and_0x7F [of v] by (auto simp: word_less_nat_alt)
  show ?case
  proof (cases "drop_bit 7 v = 0")
    case True
    then have "write_leb128 v = [ucast (v AND 0x7F)]" by (subst write_leb128.simps) (simp add: Let_def)
    moreover have "ucast ((ucast (v AND 0x7F) :: u8) AND 0x7F) = v"
      unfolding leb_low by (rule leb_last [OF True])
    moreover have "shift = 63 \<Longrightarrow> \<not> 1 < v"
      using top leb_last [OF True] by simp
    ultimately show ?thesis
      using s leb_mark(2) [of v] by (simp only: append.simps read_leb128_loop.simps Let_def) simp
  next
    case False
    have "unat v div 128 * 128 \<le> unat v" by simp
    then have "unat v div 128 * 2 ^ (shift + 7) \<le> unat v * 2 ^ shift"
      by (simp add: power_add algebra_simps mult_le_mono)
    then have "unat (drop_bit 7 v) * 2 ^ (shift + 7) < 2 ^ 64"
      using "1.prems"(1) unfolding unat_drop_bit_7 by linarith
    with False "1.IH" [OF refl refl False, of "shift + 7"] s top show ?thesis
      by (subst write_leb128.simps) (auto simp add: Let_def leb_low_marked leb_mark leb_join simp del: push_bit_and)
  qed
qed

lemma read_write_leb128: "read_leb128 (write_leb128 v @ rest) = Some (v, rest)"
  using read_leb128_loop_write [of v 0 0 rest] unsigned_less [of v] by (simp add: read_leb128_def)

lemma read_leb128_loop_shorter: "read_leb128_loop r shift s = Some (v, rest) \<Longrightarrow> length rest < length s"
  by (induction r shift s rule: read_leb128_loop.induct)
    (auto simp: Let_def less_SucI split: if_splits)

lemma read_leb128_shorter [simp]: "read_leb128 s = Some (v, rest) \<Longrightarrow> length rest < length s"
  by (simp add: read_leb128_def read_leb128_loop_shorter)

lemma read_leb128_Nil [simp]: "read_leb128 [] = None"
  by (simp add: read_leb128_def)

lemma write_leb128_nonempty [simp]: "write_leb128 v \<noteq> []"
  by (subst write_leb128.simps) (simp add: Let_def)

end
