(* ===== verification/Region_Diff.thy ===== *)
theory Region_Diff
  imports Leb128
begin

text \<open>
  The keyframe delta codec, from \<open>supershuckie-replay-recorder/src/util.rs\<close>: the run-length
  region diff at 4-byte granularity, the variant for states of different lengths, validation,
  application in place and the test which ranges a diff touches.
\<close>

subsection \<open>Words and slices\<close>

text \<open>\<open>as_chunks::<4>\<close>: the whole words and what is left over.\<close>

fun as_chunks4 :: "bytes \<Rightarrow> bytes list \<times> bytes" where
  "as_chunks4 (a # b # c # d # rest) = (let (ws, extra) = as_chunks4 rest in ([a, b, c, d] # ws, extra))"
| "as_chunks4 extra = ([], extra)"

definition slice :: "bytes \<Rightarrow> nat \<Rightarrow> nat \<Rightarrow> bytes" where
  "slice xs a b = take (b - a) (drop a xs)"

definition pad_word :: "bytes \<Rightarrow> bytes" where
  "pad_word extra = extra @ replicate (4 - length extra) 0"

definition div_ceil4 :: "nat \<Rightarrow> nat" where
  "div_ceil4 n = (n + 3) div 4"

subsection \<open>Computing a diff\<close>

record region_diff =
  rd_control :: bytes
  rd_data :: bytes
  rd_runs :: nat

record diff_state =
  ds_control :: bytes
  ds_data :: bytes
  ds_runs :: nat
  ds_gap :: nat
  ds_run_len :: nat

definition diff_init :: diff_state where
  "diff_init = \<lparr>ds_control = [], ds_data = [], ds_runs = 0, ds_gap = 0, ds_run_len = 0\<rparr>"

definition BLOCKS :: "nat list" where
  "BLOCKS = [1024, 16]"

definition find_block :: "bytes \<Rightarrow> bytes \<Rightarrow> nat \<Rightarrow> nat \<Rightarrow> nat option" where
  "find_block prev cur full_words i =
     List.find (\<lambda>block. i + block \<le> full_words \<and>
       slice prev (i * 4) ((i + block) * 4) = slice cur (i * 4) ((i + block) * 4)) BLOCKS"

text \<open>One word: it starts or continues a run, or ends one.\<close>

definition diff_word :: "bytes \<times> bytes \<Rightarrow> diff_state \<Rightarrow> diff_state" where
  "diff_word w st =
     (if fst w \<noteq> snd w then
        (let st = (if ds_run_len st = 0 then
            st\<lparr>ds_control := ds_control st @ write_leb128 (of_nat (ds_gap st)),
               ds_gap := 0, ds_runs := ds_runs st + 1\<rparr> else st)
         in st\<lparr>ds_run_len := ds_run_len st + 1, ds_data := ds_data st @ snd w\<rparr>)
      else
        (let st = (if 0 < ds_run_len st then
            st\<lparr>ds_control := ds_control st @ write_leb128 (of_nat (ds_run_len st)),
               ds_run_len := 0\<rparr> else st)
         in st\<lparr>ds_gap := ds_gap st + 1\<rparr>))"

function diff_loop :: "bytes \<Rightarrow> bytes \<Rightarrow> nat \<Rightarrow> diff_state \<Rightarrow> diff_state" where
  "diff_loop prev cur i st =
     (let prev_words = fst (as_chunks4 prev); cur_words = fst (as_chunks4 cur)
      in if i < length prev_words then
           (case (if ds_run_len st = 0 then find_block prev cur (length prev_words) i else None) of
              Some block \<Rightarrow> diff_loop prev cur (i + block) (st\<lparr>ds_gap := ds_gap st + block\<rparr>)
            | None \<Rightarrow> diff_loop prev cur (i + 1) (diff_word (prev_words ! i, cur_words ! i) st))
         else st)"
  by auto
termination
  by (relation "measure (\<lambda>(prev, cur, i, st). length (fst (as_chunks4 prev)) - i)")
    (auto simp: find_block_def BLOCKS_def split: if_splits)

declare diff_loop.simps [simp del]

definition diff_extra :: "bytes \<Rightarrow> bytes \<Rightarrow> diff_state \<Rightarrow> diff_state" where
  "diff_extra prev_extra cur_extra st =
     (if cur_extra \<noteq> [] \<and> pad_word prev_extra \<noteq> pad_word cur_extra then
        (let st = (if ds_run_len st = 0 then
            st\<lparr>ds_control := ds_control st @ write_leb128 (of_nat (ds_gap st)),
               ds_runs := ds_runs st + 1\<rparr> else st)
         in st\<lparr>ds_run_len := ds_run_len st + 1, ds_data := ds_data st @ pad_word cur_extra\<rparr>)
      else st)"

definition diff_finish :: "diff_state \<Rightarrow> region_diff" where
  "diff_finish st =
     \<lparr>rd_control = (if 0 < ds_run_len st then ds_control st @ write_leb128 (of_nat (ds_run_len st))
                   else ds_control st),
      rd_data = ds_data st, rd_runs = ds_runs st\<rparr>"

definition compute_region_diff :: "bytes \<Rightarrow> bytes \<Rightarrow> region_diff option" where
  "compute_region_diff prev cur =
     (if length prev \<noteq> length cur then None
      else Some (diff_finish (diff_extra (snd (as_chunks4 prev)) (snd (as_chunks4 cur))
        (diff_loop prev cur 0 diff_init))))"

function control_end_loop :: "nat \<Rightarrow> bytes \<Rightarrow> nat" where
  "control_end_loop pos ctl =
     (case read_leb128 ctl of
        None \<Rightarrow> pos
      | Some (gap, c1) \<Rightarrow>
          (case read_leb128 c1 of
             None \<Rightarrow> pos
           | Some (len, c2) \<Rightarrow> control_end_loop (pos + unat gap + unat len) c2))"
  by auto
termination
  by (relation "measure (length o snd)") (auto dest!: read_leb128_shorter)

declare control_end_loop.simps [simp del]

definition control_end :: "bytes \<Rightarrow> nat" where
  "control_end control = control_end_loop 0 control"

text \<open>The \<open>expect("equal lengths")\<close> of the source is the \<open>the\<close> here: the lengths are equal.\<close>

definition region_diff_resizing :: "bytes \<Rightarrow> bytes \<Rightarrow> region_diff" where
  "region_diff_resizing prev cur =
     (if length prev = length cur then the (compute_region_diff prev cur)
      else
        let common_words = min (length prev) (length cur) div 4;
            common = common_words * 4;
            diff = the (compute_region_diff (take common prev) (take common cur));
            tail = drop common cur
        in if tail = [] then diff
           else
             let (tail_words, tail_extra) = as_chunks4 tail;
                 gap = common_words - control_end (rd_control diff);
                 len = length tail_words + (if tail_extra \<noteq> [] then 1 else 0)
             in \<lparr>rd_control = rd_control diff @ write_leb128 (of_nat gap) @ write_leb128 (of_nat len),
                 rd_data = rd_data diff @ concat tail_words @
                   (if tail_extra \<noteq> [] then pad_word tail_extra else []),
                 rd_runs = rd_runs diff + 1\<rparr>)"

definition encoded_len :: "region_diff \<Rightarrow> nat" where
  "encoded_len d = length (rd_control d) + length (rd_data d)"

subsection \<open>Validating and applying\<close>

function validate_loop :: "nat \<Rightarrow> nat \<Rightarrow> nat \<Rightarrow> nat \<Rightarrow> bytes \<Rightarrow> unit option" where
  "validate_loop words data_len pos data_pos ctl =
     (if ctl = [] then (if data_pos = data_len then Some () else None)
      else case read_leb128 ctl of
          None \<Rightarrow> None
        | Some (gap_word, c1) \<Rightarrow>
            (case usize_try_from gap_word of
               None \<Rightarrow> None
             | Some gap \<Rightarrow>
                 (case read_leb128 c1 of
                    None \<Rightarrow> None
                  | Some (len_word, c2) \<Rightarrow>
                      (case usize_try_from len_word of
                         None \<Rightarrow> None
                       | Some len \<Rightarrow>
                           if len = 0 then None
                           else case checked_add pos gap of
                               None \<Rightarrow> None
                             | Some pos' \<Rightarrow>
                                 (case checked_add pos' len of
                                    None \<Rightarrow> None
                                  | Some end' \<Rightarrow>
                                      if words < end' then None
                                      else case checked_mul len 4 of
                                          None \<Rightarrow> None
                                        | Some n \<Rightarrow>
                                            (case checked_add data_pos n of
                                               None \<Rightarrow> None
                                             | Some data_pos' \<Rightarrow>
                                                 validate_loop words data_len end' data_pos' c2))))))"
  by auto
termination
  by (relation "measure (\<lambda>(_, _, _, _, ctl). length ctl)") (auto dest!: read_leb128_shorter)

declare validate_loop.simps [simp del]

definition validate_region_diff :: "nat \<Rightarrow> bytes \<Rightarrow> nat \<Rightarrow> unit option" where
  "validate_region_diff words control data_len = validate_loop words data_len 0 0 control"

text \<open>
  \<open>state[start..start + n].copy_from_slice(bytes)\<close>: None is the panic of a slice out of range
  or of a length mismatch.
\<close>

definition copy_slice :: "nat \<Rightarrow> bytes \<Rightarrow> bytes \<Rightarrow> bytes option" where
  "copy_slice start bs state =
     (if start + length bs \<le> length state
      then Some (take start state @ bs @ drop (start + length bs) state) else None)"

text \<open>The loop that applies a diff. None is a panic: \<open>expect("validated")\<close> or a bad slice.\<close>

function apply_loop :: "bytes \<Rightarrow> nat \<Rightarrow> nat \<Rightarrow> bytes \<Rightarrow> bytes \<Rightarrow> bytes option" where
  "apply_loop data pos data_pos ctl state =
     (if ctl = [] then Some state
      else case read_leb128 ctl of
          None \<Rightarrow> None
        | Some (gap, c1) \<Rightarrow>
            (case read_leb128 c1 of
               None \<Rightarrow> None
             | Some (len_word, c2) \<Rightarrow>
                 (let len = unat len_word;
                      pos = pos + unat gap;
                      start = pos * 4;
                      end' = start + len * 4
                  in if length data < data_pos + len * 4 then None
                     else
                       (let bs = slice data data_pos (data_pos + len * 4) in
                        if end' \<le> length state then
                          (case copy_slice start bs state of
                             None \<Rightarrow> None
                           | Some state' \<Rightarrow> apply_loop data (pos + len) (data_pos + len * 4) c2 state')
                        else if length state < start then None
                        else
                          (case copy_slice start (take (length state - start) bs) state of
                             None \<Rightarrow> None
                           | Some state' \<Rightarrow> apply_loop data (pos + len) (data_pos + len * 4) c2 state')))))"
  by auto
termination
  by (relation "measure (\<lambda>(_, _, _, ctl, _). length ctl)") (auto dest!: read_leb128_shorter)

declare apply_loop.simps [simp del]

text \<open>The result and the state afterwards; None is a panic.\<close>

definition apply_region_diff_in_place :: "bytes \<Rightarrow> bytes \<Rightarrow> bytes \<Rightarrow> (bool \<times> bytes) option" where
  "apply_region_diff_in_place state control data =
     (case validate_region_diff (div_ceil4 (length state)) control (length data) of
        None \<Rightarrow> Some (False, state)
      | Some _ \<Rightarrow> map_option (Pair True) (apply_loop data 0 0 control state))"

definition apply_region_diff :: "bytes \<Rightarrow> bytes \<Rightarrow> bytes \<Rightarrow> bytes option option" where
  "apply_region_diff prev control data =
     map_option (\<lambda>(done, out). if done then Some out else None)
       (apply_region_diff_in_place prev control data)"

function touches_loop :: "nat \<Rightarrow> nat \<Rightarrow> nat \<Rightarrow> bytes \<Rightarrow> bool" where
  "touches_loop first_word end_word pos ctl =
     (if ctl = [] then False
      else case read_leb128 ctl of
          None \<Rightarrow> True
        | Some (gap, c1) \<Rightarrow>
            (case read_leb128 c1 of
               None \<Rightarrow> True
             | Some (len, c2) \<Rightarrow>
                 (case checked_add pos (unat gap) of
                    None \<Rightarrow> True
                  | Some run_start \<Rightarrow>
                      if end_word \<le> run_start then False
                      else case checked_add run_start (unat len) of
                          None \<Rightarrow> True
                        | Some run_end \<Rightarrow>
                            if first_word < run_end then True
                            else touches_loop first_word end_word run_end c2)))"
  by auto
termination
  by (relation "measure (\<lambda>(_, _, _, ctl). length ctl)") (auto dest!: read_leb128_shorter)

declare touches_loop.simps [simp del]

definition region_diff_touches :: "bytes \<Rightarrow> nat \<Rightarrow> nat \<Rightarrow> bool" where
  "region_diff_touches control start end' =
     (let first_word = div_ceil4 start; end_word = end' div 4
      in if end_word \<le> first_word then False else touches_loop first_word end_word 0 control)"

end
