(* ===== verification/Region_Diff_Correct.thy ===== *)
theory Region_Diff_Correct
  imports Region_Diff
begin

text \<open>
  Correctness of the keyframe delta codec. The run structure of a diff is specified on lists of
  word pairs (\<open>word_runs\<close>); the loop with its block skipping computes exactly that. A control
  stream denotes a list of \<open>(gap, len)\<close> pairs (\<open>parse_control\<close>); validation and application are
  characterised on those pairs for arbitrary input, and both halves meet in the round trips.
\<close>

subsection \<open>Words\<close>

definition words_of :: "bytes \<Rightarrow> bytes list" where
  "words_of xs = fst (as_chunks4 xs)"

definition padded_words :: "bytes \<Rightarrow> bytes list" where
  "padded_words xs = words_of xs @ (if snd (as_chunks4 xs) = [] then [] else [pad_word (snd (as_chunks4 xs))])"

lemma as_chunks4_Cons [simp]:
  "as_chunks4 (a # b # c # d # r) = ([a, b, c, d] # fst (as_chunks4 r), snd (as_chunks4 r))"
  by (simp split: prod.splits)

declare as_chunks4.simps(1) [simp del]

lemma four_Suc: "4 + n = Suc (Suc (Suc (Suc n)))"
  by simp

lemma words_of_simps [simp]:
  "words_of (a # b # c # d # r) = [a, b, c, d] # words_of r"
  "words_of [] = []" "words_of [a] = []" "words_of [a, b] = []" "words_of [a, b, c] = []"
  by (simp_all add: words_of_def)

lemma concat_words: "concat (words_of xs) @ snd (as_chunks4 xs) = xs"
  by (induction xs rule: as_chunks4.induct) simp_all

lemma length_words_of [simp]: "length (words_of xs) = length xs div 4"
  by (induction xs rule: as_chunks4.induct) simp_all

lemma length_extra [simp]: "length (snd (as_chunks4 xs)) = length xs mod 4"
  by (induction xs rule: as_chunks4.induct) simp_all

lemma words_of_len: "w \<in> set (words_of xs) \<Longrightarrow> length w = 4"
  by (induction xs rule: as_chunks4.induct) auto

lemma padded_words_len: "w \<in> set (padded_words xs) \<Longrightarrow> length w = 4"
  by (auto simp: padded_words_def pad_word_def words_of_len split: if_splits)

lemma take_drop_4:
  "take (4 + k) (a # b # c # d # r) = a # b # c # d # take k r"
  "drop (4 + k) (a # b # c # d # r) = drop k r"
  by (subst four_Suc, simp)+

lemma words_of_drop: "words_of (drop (4 * i) xs) = drop i (words_of xs)"
proof (induction i arbitrary: xs)
  case 0
  then show ?case by simp
next
  case (Suc i)
  show ?case
    by (cases xs rule: as_chunks4.cases) (simp_all add: take_drop_4 Suc.IH)
qed

lemma words_of_take: "i \<le> length xs div 4 \<Longrightarrow> words_of (take (4 * i) xs) = take i (words_of xs)"
proof (induction i arbitrary: xs)
  case 0
  then show ?case by simp
next
  case (Suc i)
  then show ?case
    by (cases xs rule: as_chunks4.cases) (simp_all add: take_drop_4 Suc.IH)
qed

lemma words_of_slice:
  assumes "i + b \<le> length xs div 4"
  shows "words_of (slice xs (i * 4) ((i + b) * 4)) = take b (drop i (words_of xs))"
proof -
  have "slice xs (i * 4) ((i + b) * 4) = take (4 * b) (drop (4 * i) xs)"
    by (simp add: slice_def mult.commute add_mult_distrib2)
  moreover have "b \<le> length (drop (4 * i) xs) div 4" using assms by simp
  ultimately show ?thesis by (simp add: words_of_take words_of_drop)
qed

lemma length_padded_words: "length (padded_words xs) = div_ceil4 (length xs)"
proof -
  have "snd (as_chunks4 xs) = [] \<longleftrightarrow> length xs mod 4 = 0"
    using length_extra [of xs] by (metis length_0_conv)
  moreover have "(length xs + 3) div 4 = length xs div 4 + (if length xs mod 4 = 0 then 0 else 1)"
    by presburger
  ultimately show ?thesis by (simp add: padded_words_def div_ceil4_def)
qed

lemma take_padded_words: "take (length xs) (concat (padded_words xs)) = xs"
proof (cases "snd (as_chunks4 xs) = []")
  case True
  then show ?thesis using concat_words [of xs] by (simp add: padded_words_def)
next
  case False
  then have "concat (padded_words xs) = xs @ replicate (4 - length xs mod 4) 0"
    using concat_words [of xs] by (simp add: padded_words_def pad_word_def flip: append_assoc)
  then show ?thesis by simp
qed

subsection \<open>The runs of a pair of states\<close>

function word_runs :: "nat \<Rightarrow> (bytes \<times> bytes) list \<Rightarrow> (nat \<times> bytes list) list" where
  "word_runs g [] = []"
| "p = c \<Longrightarrow> word_runs g ((p, c) # ws) = word_runs (g + 1) ws"
| "p \<noteq> c \<Longrightarrow> word_runs g ((p, c) # ws) =
     (g, c # map snd (takeWhile (\<lambda>(p, c). p \<noteq> c) ws)) # word_runs 0 (dropWhile (\<lambda>(p, c). p \<noteq> c) ws)"
  by (auto) (metis list.exhaust surj_pair)
termination
  by (relation "measure (length o snd)") (auto simp: le_imp_less_Suc length_dropWhile_le)

definition enc_runs :: "(nat \<times> bytes list) list \<Rightarrow> bytes" where
  "enc_runs rs = concat (map (\<lambda>(g, ws). write_leb128 (of_nat g) @ write_leb128 (of_nat (length ws))) rs)"

definition runs_data :: "(nat \<times> bytes list) list \<Rightarrow> bytes" where
  "runs_data rs = concat (map (concat o snd) rs)"

lemma enc_runs_simps [simp]:
  "enc_runs [] = []"
  "enc_runs ((g, ws) # rs) = write_leb128 (of_nat g) @ write_leb128 (of_nat (length ws)) @ enc_runs rs"
  by (simp_all add: enc_runs_def)

lemma runs_data_simps [simp]:
  "runs_data [] = []" "runs_data ((g, ws) # rs) = concat ws @ runs_data rs"
  by (simp_all add: runs_data_def)

lemma enc_runs_append: "enc_runs (rs @ rs') = enc_runs rs @ enc_runs rs'"
  by (simp add: enc_runs_def)

lemma runs_data_append: "runs_data (rs @ rs') = runs_data rs @ runs_data rs'"
  by (simp add: runs_data_def)

text \<open>What is left to emit after the words \<open>ws\<close>, from a state inside or outside a run.\<close>

lemma fold_diff_word:
  "ds_run_len st = 0 \<Longrightarrow>
     diff_finish (fold diff_word ws st) =
       \<lparr>rd_control = ds_control st @ enc_runs (word_runs (ds_gap st) ws),
        rd_data = ds_data st @ runs_data (word_runs (ds_gap st) ws),
        rd_runs = ds_runs st + length (word_runs (ds_gap st) ws)\<rparr>"
  "0 < ds_run_len st \<Longrightarrow> ds_gap st = 0 \<Longrightarrow>
     diff_finish (fold diff_word ws st) =
       (let run = map snd (takeWhile (\<lambda>(p, c). p \<noteq> c) ws);
            rs = word_runs 0 (dropWhile (\<lambda>(p, c). p \<noteq> c) ws)
        in \<lparr>rd_control = ds_control st @ write_leb128 (of_nat (ds_run_len st + length run)) @ enc_runs rs,
            rd_data = ds_data st @ concat run @ runs_data rs,
            rd_runs = ds_runs st + length rs\<rparr>)"
proof (induction ws arbitrary: st)
  case Nil
  { case 1 then show ?case by (simp add: diff_finish_def) next
    case 2 then show ?case by (simp add: diff_finish_def) }
next
  case (Cons w ws)
  obtain p c where w: "w = (p, c)" by (cases w)
  { case 1
    then show ?case
    proof (cases "p = c")
      case True
      with 1 w Cons.IH(1) [of "st\<lparr>ds_gap := ds_gap st + 1\<rparr>"] show ?thesis
        by (simp add: diff_word_def)
    next
      case False
      with 1 w Cons.IH(2) [of "diff_word w st"] show ?thesis
        by (simp add: diff_word_def Let_def)
    qed
  next
    case 2
    then show ?case
    proof (cases "p = c")
      case True
      with 2 w Cons.IH(1) [of "diff_word w st"] show ?thesis
        by (simp add: diff_word_def Let_def)
    next
      case False
      with 2 w Cons.IH(2) [of "diff_word w st"] show ?thesis
        by (simp add: diff_word_def Let_def ac_simps)
    qed }
qed

subsection \<open>The loop with block skipping\<close>

lemma fold_diff_word_same:
  "ds_run_len st = 0 \<Longrightarrow> \<forall>w \<in> set ws. fst w = snd w \<Longrightarrow>
   fold diff_word ws st = st\<lparr>ds_gap := ds_gap st + length ws\<rparr>"
  by (induction ws arbitrary: st) (simp_all add: diff_word_def)

lemma find_block_same:
  assumes "length prev = length cur" and "find_block prev cur (length prev div 4) i = Some block"
  shows "\<forall>w \<in> set (take block (drop i (zip (words_of prev) (words_of cur)))). fst w = snd w"
    and "i + block \<le> length prev div 4"
proof -
  from assms(2) have b: "i + block \<le> length prev div 4"
    "slice prev (i * 4) ((i + block) * 4) = slice cur (i * 4) ((i + block) * 4)"
    by (auto simp: find_block_def find_Some_iff)
  then have "take block (drop i (words_of prev)) = take block (drop i (words_of cur))"
    using words_of_slice [of i block prev] words_of_slice [of i block cur] assms(1) by simp
  then show "\<forall>w \<in> set (take block (drop i (zip (words_of prev) (words_of cur)))). fst w = snd w"
    by (auto simp: drop_zip take_zip in_set_zip)
  show "i + block \<le> length prev div 4" by (rule b(1))
qed

lemma diff_loop_fold:
  "length prev = length cur \<Longrightarrow>
   diff_loop prev cur i st = fold diff_word (drop i (zip (words_of prev) (words_of cur))) st"
proof (induction prev cur i st rule: diff_loop.induct)
  case (1 prev cur i st)
  let ?ws = "zip (words_of prev) (words_of cur)"
  have len: "length (fst (as_chunks4 prev)) = length prev div 4" "length ?ws = length prev div 4"
    using length_words_of [of prev] length_words_of [of cur] "1.prems" by (simp_all add: words_of_def)
  show ?case
  proof (cases "i < length prev div 4")
    case False
    then show ?thesis by (subst diff_loop.simps) (simp add: len)
  next
    case True
    let ?blk = "if ds_run_len st = 0 then find_block prev cur (length prev div 4) i else None"
    have unfold_loop: "diff_loop prev cur i st = (case ?blk of
          Some block \<Rightarrow> diff_loop prev cur (i + block) (st\<lparr>ds_gap := ds_gap st + block\<rparr>)
        | None \<Rightarrow> diff_loop prev cur (i + 1) (diff_word (words_of prev ! i, words_of cur ! i) st))"
      using True by (subst diff_loop.simps) (simp add: Let_def flip: words_of_def)
    show ?thesis
    proof (cases ?blk)
      case None
      have "drop i ?ws = (words_of prev ! i, words_of cur ! i) # drop (Suc i) ?ws"
        using True len "1.prems" by (subst Cons_nth_drop_Suc [symmetric]) simp_all
      with None "1.IH"(1) [OF refl refl, unfolded len(1), OF True None "1.prems"] show ?thesis
        unfolding unfold_loop by (simp add: words_of_def)
    next
      case (Some block)
      then have r: "ds_run_len st = 0" and f: "find_block prev cur (length prev div 4) i = Some block"
        by (simp_all split: if_splits)
      note same = find_block_same [OF "1.prems" f]
      have "drop i ?ws = take block (drop i ?ws) @ drop (i + block) ?ws"
        by (simp add: add.commute flip: drop_drop)
      then have "fold diff_word (drop i ?ws) st =
          fold diff_word (drop (i + block) ?ws) (fold diff_word (take block (drop i ?ws)) st)"
        by (metis fold_append comp_apply)
      also have "fold diff_word (take block (drop i ?ws)) st = st\<lparr>ds_gap := ds_gap st + block\<rparr>"
        using same len by (simp add: fold_diff_word_same [OF r])
      finally show ?thesis
        using Some "1.IH"(2) [OF refl refl, unfolded len(1), OF True Some "1.prems"]
        unfolding unfold_loop by simp
    qed
  qed
qed

lemma pad_word_inject: "length a = length b \<Longrightarrow> pad_word a = pad_word b \<longleftrightarrow> a = b"
  by (simp add: pad_word_def)

text \<open>The trailing partial word counts as one more word.\<close>

lemma diff_extra_finish:
  "cur_extra \<noteq> [] \<Longrightarrow>
   diff_finish (diff_extra prev_extra cur_extra st) =
   diff_finish (diff_word (pad_word prev_extra, pad_word cur_extra) st)"
  by (simp add: diff_extra_def diff_word_def diff_finish_def Let_def)

theorem compute_region_diff_runs:
  assumes "length prev = length cur"
  shows "compute_region_diff prev cur = Some
    (let rs = word_runs 0 (zip (padded_words prev) (padded_words cur))
     in \<lparr>rd_control = enc_runs rs, rd_data = runs_data rs, rd_runs = length rs\<rparr>)"
proof -
  let ?pe = "snd (as_chunks4 prev)" and ?ce = "snd (as_chunks4 cur)"
  let ?ws = "zip (words_of prev) (words_of cur)"
  have e: "?pe = [] \<longleftrightarrow> ?ce = []"
    using length_extra [of prev] length_extra [of cur] assms by (metis length_0_conv)
  have z: "zip (padded_words prev) (padded_words cur) =
      ?ws @ (if ?ce = [] then [] else [(pad_word ?pe, pad_word ?ce)])"
    using assms e by (simp add: padded_words_def zip_append)
  have "diff_finish (diff_extra ?pe ?ce (diff_loop prev cur 0 diff_init)) =
      diff_finish (fold diff_word (zip (padded_words prev) (padded_words cur)) diff_init)"
  proof (cases "?ce = []")
    case True
    then show ?thesis by (simp add: z diff_loop_fold [OF assms] diff_extra_def)
  next
    case False
    then show ?thesis by (simp add: z diff_loop_fold [OF assms] diff_extra_finish)
  qed
  then show ?thesis
    using assms by (simp add: compute_region_diff_def fold_diff_word(1) diff_init_def Let_def)
qed

end
