(* ===== verification/Region_Diff_Apply.thy ===== *)
theory Region_Diff_Apply
  imports Region_Diff_Correct
begin

text \<open>
  What applying a region diff does, for any control stream: the stream denotes a list of
  \<open>(gap, len)\<close> pairs, it is accepted exactly when the pairs are well formed and fit the state
  and the data, and then the new state is \<open>apply_pairs\<close> of them. No input makes the code
  panic. From there: the round trips of both ways to compute a diff, and the meaning of
  \<open>region_diff_touches\<close>.
\<close>

subsection \<open>What a control stream denotes\<close>

function parse_control :: "bytes \<Rightarrow> (nat \<times> nat) list option" where
  "parse_control ctl =
     (if ctl = [] then Some []
      else case read_leb128 ctl of
          None \<Rightarrow> None
        | Some (gap, c1) \<Rightarrow>
            (case read_leb128 c1 of
               None \<Rightarrow> None
             | Some (len, c2) \<Rightarrow> map_option (Cons (unat gap, unat len)) (parse_control c2)))"
  by auto
termination
  by (relation "measure length") (auto dest!: read_leb128_shorter)

declare parse_control.simps [simp del]

fun pairs_end :: "nat \<Rightarrow> (nat \<times> nat) list \<Rightarrow> nat" where
  "pairs_end pos [] = pos"
| "pairs_end pos ((g, l) # ps) = pairs_end (pos + g + l) ps"

definition pairs_len :: "(nat \<times> nat) list \<Rightarrow> nat" where
  "pairs_len ps = sum_list (map snd ps)"

definition pairs_fit :: "nat \<Rightarrow> nat \<Rightarrow> (nat \<times> nat) list \<Rightarrow> bool" where
  "pairs_fit words pos ps \<longleftrightarrow> (\<forall>(g, l) \<in> set ps. 0 < l) \<and> pairs_end pos ps \<le> words"

lemma pairs_end_ge: "pos + pairs_len ps \<le> pairs_end pos ps"
  by (induction pos ps rule: pairs_end.induct) (auto simp: pairs_len_def)

lemma pairs_end_append: "pairs_end pos (ps @ qs) = pairs_end (pairs_end pos ps) qs"
  by (induction pos ps rule: pairs_end.induct) auto

lemma pairs_fit_Cons [simp]:
  "pairs_fit words pos ((g, l) # ps) \<longleftrightarrow> 0 < l \<and> pairs_fit words (pos + g + l) ps"
  by (auto simp: pairs_fit_def)

lemma pairs_fit_le: "pairs_fit words pos ps \<Longrightarrow> pos \<le> words"
  using pairs_end_ge [of pos ps] by (simp add: pairs_fit_def)

lemma pairs_len_simps [simp]: "pairs_len [] = 0" "pairs_len ((g, l) # ps) = l + pairs_len ps"
  by (simp_all add: pairs_len_def)

text \<open>Streams shorter than the address space: no check of an addition ever fails by overflow.\<close>

lemma validate_loop_iff:
  assumes "4 * words < usize_limit" and "pos \<le> words" and "data_pos \<le> 4 * pos"
  shows "validate_loop words data_len pos data_pos ctl = Some () \<longleftrightarrow>
    (\<exists>ps. parse_control ctl = Some ps \<and> pairs_fit words pos ps \<and> data_pos + 4 * pairs_len ps = data_len)"
  using assms
proof (induction ctl arbitrary: pos data_pos rule: parse_control.induct)
  case (1 ctl)
  show ?case
  proof (cases "ctl = []")
    case True
    with "1.prems" show ?thesis
      by (simp add: validate_loop.simps [of _ _ _ _ "[]"] parse_control.simps [of "[]"] pairs_fit_def)
  next
    case ctl: False
    show ?thesis
    proof (cases "read_leb128 ctl")
      case None
      with ctl show ?thesis
        by (simp add: validate_loop.simps [of _ _ _ _ ctl] parse_control.simps [of ctl])
    next
      case gap: (Some p)
      obtain g c1 where p: "p = (g, c1)" by (cases p)
      show ?thesis
      proof (cases "read_leb128 c1")
        case None
        with ctl gap p show ?thesis
          by (simp add: validate_loop.simps [of _ _ _ _ ctl] parse_control.simps [of ctl])
      next
        case len: (Some q)
        obtain l c2 where q: "q = (l, c2)" by (cases q)
        have parse: "parse_control ctl = map_option (Cons (unat g, unat l)) (parse_control c2)"
          using ctl gap p len q by (simp add: parse_control.simps [of ctl])
        show ?thesis
        proof (cases "0 < unat l \<and> pos + unat g + unat l \<le> words")
          case True
          then have "checked_add pos (unat g) = Some (pos + unat g)"
            "checked_add (pos + unat g) (unat l) = Some (pos + unat g + unat l)"
            "checked_mul (unat l) 4 = Some (unat l * 4)"
            "checked_add data_pos (unat l * 4) = Some (data_pos + unat l * 4)"
            using "1.prems" by (auto simp: checked_add_def checked_mul_def)
          then have "validate_loop words data_len pos data_pos ctl =
              validate_loop words data_len (pos + unat g + unat l) (data_pos + unat l * 4) c2"
            using True ctl gap p len q by (subst validate_loop.simps) auto
          also have "\<dots> = Some () \<longleftrightarrow> (\<exists>ps. parse_control c2 = Some ps \<and>
              pairs_fit words (pos + unat g + unat l) ps \<and> data_pos + unat l * 4 + 4 * pairs_len ps = data_len)"
            using True "1.prems" by (intro "1.IH" [OF ctl gap p [symmetric] len q [symmetric]]) auto
          finally show ?thesis
            using True unfolding parse by (auto simp: algebra_simps)
        next
          case False
          have "\<not> pairs_fit words pos ((unat g, unat l) # ps)" for ps
            using False pairs_fit_le [of words "pos + unat g + unat l" ps] by auto
          moreover have "validate_loop words data_len pos data_pos ctl = None"
            using False ctl gap p len q
            by (subst validate_loop.simps)
              (auto simp: checked_add_def split: option.splits if_splits)
          ultimately show ?thesis unfolding parse by auto
        qed
      qed
    qed
  qed
qed

subsection \<open>What applying does\<close>

fun apply_pairs :: "(nat \<times> nat) list \<Rightarrow> bytes \<Rightarrow> bytes \<Rightarrow> bytes" where
  "apply_pairs [] data state = state"
| "apply_pairs ((g, l) # ps) data state =
     take (4 * g) state @ take (length state - 4 * g) (take (4 * l) data) @
     apply_pairs ps (drop (4 * l) data) (drop (4 * (g + l)) state)"

lemma apply_pairs_length:
  "4 * pairs_len ps \<le> length data \<Longrightarrow> length (apply_pairs ps data state) = length state"
  by (induction ps data state rule: apply_pairs.induct) auto

lemma apply_loop_pairs:
  assumes "parse_control ctl = Some ps" and "pairs_fit (div_ceil4 (length state)) pos ps"
    and "data_pos + 4 * pairs_len ps \<le> length data"
  shows "apply_loop data pos data_pos ctl state =
    Some (take (4 * pos) state @ apply_pairs ps (drop data_pos data) (drop (4 * pos) state))"
  using assms
proof (induction ctl arbitrary: pos data_pos state ps rule: parse_control.induct)
  case (1 ctl)
  show ?case
  proof (cases "ctl = []")
    case True
    with "1.prems"(1) show ?thesis
      by (simp add: apply_loop.simps [of _ _ _ "[]"] parse_control.simps [of "[]"])
  next
    case ctl: False
    with "1.prems"(1) obtain g c1 l c2 qs where rd: "read_leb128 ctl = Some (g, c1)"
      "read_leb128 c1 = Some (l, c2)" "parse_control c2 = Some qs" "ps = (unat g, unat l) # qs"
      by (auto simp: parse_control.simps [of ctl] split: option.splits)
    define G L where "G = unat g" and "L = unat l"
    have fit: "0 < L" "pairs_fit (div_ceil4 (length state)) (pos + G + L) qs"
      and room: "data_pos + 4 * L + 4 * pairs_len qs \<le> length data"
      using "1.prems" rd(4) by (simp_all add: G_def L_def)
    have le: "pos + G + L \<le> div_ceil4 (length state)" using pairs_fit_le [OF fit(2)] .
    define start where "start = (pos + G) * 4"
    have start: "start < length state"
      using le fit(1) by (simp add: start_def div_ceil4_def)
    define bs where "bs = take (4 * L) (drop data_pos data)"
    have bs: "slice data data_pos (data_pos + L * 4) = bs" "length bs = 4 * L"
      using room by (simp_all add: slice_def bs_def mult.commute)
    define fits where "fits = take (length state - start) bs"
    define state' where "state' = take start state @ fits @ drop (start + length fits) state"
    have len': "length state' = length state"
      using start by (simp add: state'_def fits_def)
    have step: "apply_loop data pos data_pos ctl state =
        apply_loop data (pos + G + L) (data_pos + L * 4) c2 state'"
    proof (cases "start + L * 4 \<le> length state")
      case True
      then have "fits = bs" using bs(2) by (simp add: fits_def)
      then have "copy_slice start bs state = Some state'"
        using True bs(2) by (simp add: copy_slice_def state'_def)
      with True ctl rd room bs(1) show ?thesis
        unfolding start_def G_def L_def
        by (subst apply_loop.simps) (simp add: Let_def mult.commute)
    next
      case False
      have "copy_slice start fits state = Some state'"
        using start by (simp add: copy_slice_def state'_def fits_def)
      with False ctl rd room bs(1) start show ?thesis
        unfolding start_def G_def L_def fits_def
        by (subst apply_loop.simps) (simp add: Let_def mult.commute)
    qed
    have "apply_loop data (pos + G + L) (data_pos + L * 4) c2 state' =
        Some (take (4 * (pos + G + L)) state' @
          apply_pairs qs (drop (data_pos + L * 4) data) (drop (4 * (pos + G + L)) state'))"
      using fit(2) room len' by (intro "1.IH" [OF ctl rd(1) refl rd(2) refl rd(3)]) (simp_all add: mult.commute)
    also have "drop (4 * (pos + G + L)) state' = drop (4 * (pos + G + L)) state"
      using start bs(2) by (auto simp: state'_def fits_def start_def algebra_simps)
    also have "take (4 * (pos + G + L)) state' = take (4 * pos) state @ take (4 * G) (drop (4 * pos) state) @ fits"
    proof -
      have "take start state = take (4 * pos) state @ take (4 * G) (drop (4 * pos) state)"
        unfolding start_def by (simp add: algebra_simps flip: take_add)
      moreover have "take (4 * (pos + G + L)) state' = take start state @ fits"
        using start bs(2)
        by (cases "start + 4 * L \<le> length state")
          (auto simp: state'_def fits_def start_def algebra_simps min_def)
      ultimately show ?thesis by simp
    qed
    finally show ?thesis
      using step unfolding rd(4)
      by (simp add: G_def L_def fits_def bs_def start_def algebra_simps)
  qed
qed

theorem apply_region_diff_in_place_spec:
  assumes "length state + 3 < usize_limit"
  shows "apply_region_diff_in_place state control data =
    (case parse_control control of
       None \<Rightarrow> Some (False, state)
     | Some ps \<Rightarrow>
         if pairs_fit (div_ceil4 (length state)) 0 ps \<and> 4 * pairs_len ps = length data
         then Some (True, apply_pairs ps data state)
         else Some (False, state))"
proof -
  have lim: "4 * div_ceil4 (length state) < usize_limit"
    using assms by (simp add: div_ceil4_def)
  have v: "validate_region_diff (div_ceil4 (length state)) control (length data) = Some () \<longleftrightarrow>
      (\<exists>ps. parse_control control = Some ps \<and> pairs_fit (div_ceil4 (length state)) 0 ps \<and>
        4 * pairs_len ps = length data)"
    unfolding validate_region_diff_def using validate_loop_iff [OF lim, of 0 0] by simp
  show ?thesis
  proof (cases "validate_region_diff (div_ceil4 (length state)) control (length data)")
    case None
    with v show ?thesis
      by (auto simp: apply_region_diff_in_place_def split: option.splits)
  next
    case (Some u)
    then obtain ps where ps: "parse_control control = Some ps"
      "pairs_fit (div_ceil4 (length state)) 0 ps" "4 * pairs_len ps = length data"
      using v by auto
    with Some apply_loop_pairs [OF ps(1,2), of 0 data] show ?thesis
      by (simp add: apply_region_diff_in_place_def)
  qed
qed

subsection \<open>Runs and words\<close>

definition lens :: "(nat \<times> bytes list) list \<Rightarrow> (nat \<times> nat) list" where
  "lens rs = map (\<lambda>(g, ws). (g, length ws)) rs"

fun apply_runs :: "(nat \<times> bytes list) list \<Rightarrow> bytes list \<Rightarrow> bytes list" where
  "apply_runs [] W = W"
| "apply_runs ((g, ws) # rs) W = take g W @ ws @ apply_runs rs (drop (g + length ws) W)"

definition all_words :: "bytes list \<Rightarrow> bool" where
  "all_words W \<longleftrightarrow> (\<forall>w \<in> set W. length w = 4)"

lemma lens_simps [simp]: "lens [] = []" "lens ((g, ws) # rs) = (g, length ws) # lens rs"
  "lens (rs @ rs') = lens rs @ lens rs'"
  by (simp_all add: lens_def)

lemma all_words_simps [simp]:
  "all_words []" "all_words (w # W) \<longleftrightarrow> length w = 4 \<and> all_words W"
  "all_words (W @ V) \<longleftrightarrow> all_words W \<and> all_words V"
  by (auto simp: all_words_def)

lemma all_words_take [simp]: "all_words W \<Longrightarrow> all_words (take n W)"
  "all_words W \<Longrightarrow> all_words (drop n W)"
  by (auto simp: all_words_def dest: in_set_takeD in_set_dropD)

lemma all_words_of [simp]: "all_words (words_of xs)" "all_words (padded_words xs)"
  by (auto simp: all_words_def words_of_len padded_words_len)

lemma length_concat_words [simp]: "all_words W \<Longrightarrow> length (concat W) = 4 * length W"
  by (induction W) auto

lemma take_concat_words: "all_words W \<Longrightarrow> take (4 * g) (concat W) = concat (take g W)"
proof (induction W arbitrary: g)
  case (Cons w W)
  then show ?case by (cases g) simp_all
qed simp

lemma drop_concat_words: "all_words W \<Longrightarrow> drop (4 * g) (concat W) = concat (drop g W)"
proof (induction W arbitrary: g)
  case (Cons w W)
  then show ?case by (cases g) simp_all
qed simp

lemma pairs_end_shift: "pairs_end (pos + n) ps = pos + pairs_end n ps"
  by (induction n ps rule: pairs_end.induct) (simp_all add: add.assoc)

lemma pairs_end_from_0: "pairs_end n ps = n + pairs_end 0 ps"
  using pairs_end_shift [of n 0 ps] by simp

lemma pairs_fit_shift: "pairs_fit words n ps \<longleftrightarrow> n \<le> words \<and> pairs_fit (words - n) 0 ps"
  unfolding pairs_fit_def pairs_end_from_0 [of n] by auto

lemma pairs_fit_mem:
  "pairs_fit words pos ps \<Longrightarrow> (g, l) \<in> set ps \<Longrightarrow> g \<le> words \<and> l \<le> words"
proof (induction ps arbitrary: pos)
  case (Cons p ps)
  obtain g' l' where p: "p = (g', l')" by (cases p)
  with Cons pairs_fit_le [of words "pos + g' + l'" ps] show ?case by auto
qed simp

lemma parse_control_runs:
  "\<forall>(g, l) \<in> set (lens rs). g < usize_limit \<and> l < usize_limit \<Longrightarrow> parse_control (enc_runs rs) = Some (lens rs)"
proof (induction rs)
  case Nil
  then show ?case by (simp add: parse_control.simps)
next
  case (Cons r rs)
  obtain g ws where r: "r = (g, ws)" by (cases r)
  with Cons show ?case
    by (subst parse_control.simps) (simp add: read_write_leb128)
qed

lemma control_end_runs:
  "\<forall>(g, l) \<in> set (lens rs). g < usize_limit \<and> l < usize_limit \<Longrightarrow>
   control_end_loop pos (enc_runs rs) = pairs_end pos (lens rs)"
proof (induction rs arbitrary: pos)
  case Nil
  then show ?case by (simp add: control_end_loop.simps)
next
  case (Cons r rs)
  obtain g ws where r: "r = (g, ws)" by (cases r)
  with Cons show ?case
    by (subst control_end_loop.simps) (simp add: read_write_leb128)
qed

lemma word_runs_fit: "pairs_fit (pos + g + length ws) pos (lens (word_runs g ws))"
proof (induction g ws arbitrary: pos rule: word_runs.induct)
  case (1 g)
  then show ?case by (simp add: pairs_fit_def)
next
  case (2 p c g ws)
  then show ?case using "2.IH" [of pos] by simp
next
  case (3 p c g ws)
  let ?T = "takeWhile (\<lambda>(p, c). p \<noteq> c) ws" and ?D = "dropWhile (\<lambda>(p, c). p \<noteq> c) ws"
  have "length ws = length ?T + length ?D" by (metis length_append takeWhile_dropWhile_id)
  with 3 "3.IH" [of "pos + g + Suc (length ?T)"] show ?case
    by (simp add: add.assoc)
qed

lemma runs_data_len:
  "\<forall>(g, ws) \<in> set rs. all_words ws \<Longrightarrow> length (runs_data rs) = 4 * pairs_len (lens rs)"
  by (induction rs) auto

lemma word_runs_words:
  "all_words (map snd ws) \<Longrightarrow> \<forall>(g, vs) \<in> set (word_runs g ws). all_words vs"
proof (induction g ws rule: word_runs.induct)
  case (3 p c g ws)
  let ?T = "takeWhile (\<lambda>(p, c). p \<noteq> c) ws" and ?D = "dropWhile (\<lambda>(p, c). p \<noteq> c) ws"
  have "map snd ws = map snd ?T @ map snd ?D" by (metis map_append takeWhile_dropWhile_id)
  with 3 show ?case by simp
qed simp_all

lemma apply_pairs_runs:
  "all_words W \<Longrightarrow> \<forall>(g, ws) \<in> set rs. all_words ws \<Longrightarrow> pairs_fit (length W) 0 (lens rs) \<Longrightarrow>
   n \<le> 4 * length W \<Longrightarrow> (W \<noteq> [] \<Longrightarrow> 4 * length W < n + 4) \<Longrightarrow>
   apply_pairs (lens rs) (runs_data rs) (take n (concat W)) = take n (concat (apply_runs rs W))"
proof (induction rs arbitrary: W n)
  case Nil
  then show ?case by simp
next
  case (Cons r rs)
  obtain g ws where r: "r = (g, ws)" by (cases r)
  let ?l = "length ws" and ?W = "drop (g + length ws) W" and ?n = "n - 4 * (g + length ws)"
  from Cons.prems r have ws: "all_words ws" "\<forall>(g, ws) \<in> set rs. all_words ws" "0 < ?l"
    and fit: "pairs_fit (length W) (g + ?l) (lens rs)" by simp_all
  have le: "g + ?l \<le> length W" using pairs_fit_le [OF fit] .
  then have "W \<noteq> []" using ws(3) by auto
  then have n: "4 * length W < n + 4" by (rule Cons.prems(5))
  have g: "4 * g < n" using le ws(3) n by linarith
  have "apply_pairs (lens rs) (runs_data rs) (take ?n (concat ?W)) = take ?n (concat (apply_runs rs ?W))"
  proof (rule Cons.IH)
    show "pairs_fit (length ?W) 0 (lens rs)" using fit by (simp add: pairs_fit_shift [of _ "g + ?l"])
    assume "?W \<noteq> []"
    then show "4 * length ?W < ?n + 4" using n by simp
  qed (use Cons.prems ws in simp_all)
  moreover have "take ?n (concat ?W) = drop (4 * (g + ?l)) (take n (concat W))"
    using Cons.prems(1) by (simp only: drop_take drop_concat_words)
  moreover have "take (4 * g) (take n (concat W)) = concat (take g W)"
    using g Cons.prems(1) by (simp add: take_concat_words min_def)
  moreover have "take (length (take n (concat W)) - 4 * g) (take (4 * ?l) (runs_data (r # rs))) =
      take (n - 4 * g) (concat ws)"
    using Cons.prems(1,4) ws(1) r by (simp add: min_def)
  moreover have "drop (4 * ?l) (runs_data (r # rs)) = runs_data rs"
    using ws(1) r by simp
  moreover have "take n (concat (apply_runs (r # rs) W)) =
      concat (take g W) @ take (n - 4 * g) (concat ws) @ take ?n (concat (apply_runs rs ?W))"
    using g le r Cons.prems(1) ws(1) by (simp add: min_absorb2)
  ultimately show ?case using r by simp
qed

lemma apply_runs_append:
  "pairs_fit (length P) 0 (lens rs) \<Longrightarrow> apply_runs rs (P @ Y) = apply_runs rs P @ Y"
proof (induction rs arbitrary: P)
  case (Cons r rs)
  obtain g ws where r: "r = (g, ws)" by (cases r)
  with Cons.prems have fit: "pairs_fit (length P) (g + length ws) (lens rs)" by simp
  have le: "g + length ws \<le> length P" using pairs_fit_le [OF fit] .
  moreover have "apply_runs rs (drop (g + length ws) P @ Y) = apply_runs rs (drop (g + length ws) P) @ Y"
    using fit by (intro Cons.IH) (simp add: pairs_fit_shift [of _ "g + length ws"])
  ultimately show ?case using r by simp
qed simp

lemma apply_runs_snoc:
  "pairs_end 0 (lens rs) + k + length T = length W \<Longrightarrow>
   apply_runs (rs @ [(k, T)]) W = take (pairs_end 0 (lens rs) + k) (apply_runs rs W) @ T"
proof (induction rs arbitrary: W)
  case (Cons r rs)
  obtain g ws where r: "r = (g, ws)" by (cases r)
  let ?m = "g + length ws"
  have e: "pairs_end 0 (lens (r # rs)) = ?m + pairs_end 0 (lens rs)"
    using r pairs_end_from_0 [of ?m "lens rs"] by simp
  with Cons.prems have len: "?m + pairs_end 0 (lens rs) + k + length T = length W" by simp
  then have "apply_runs (rs @ [(k, T)]) (drop ?m W) = take (pairs_end 0 (lens rs) + k) (apply_runs rs (drop ?m W)) @ T"
    by (intro Cons.IH) simp
  moreover have "take (?m + pairs_end 0 (lens rs) + k) (take g W @ ws @ V) =
      take g W @ ws @ take (pairs_end 0 (lens rs) + k) V" for V
    using len by (simp add: min_absorb2)
  ultimately show ?case unfolding e unfolding r by simp
qed simp

lemma apply_word_runs:
  "length X = g \<Longrightarrow> apply_runs (word_runs g ws) (X @ map fst ws) = X @ map snd ws"
proof (induction g ws arbitrary: X rule: word_runs.induct)
  case (1 g)
  then show ?case by simp
next
  case (2 p c g ws)
  then show ?case using "2.IH" [of "X @ [p]"] by simp
next
  case (3 p c g ws)
  let ?T = "takeWhile (\<lambda>(p, c). p \<noteq> c) ws" and ?D = "dropWhile (\<lambda>(p, c). p \<noteq> c) ws"
  have split: "map f ws = map f ?T @ map f ?D" for f :: "bytes \<times> bytes \<Rightarrow> bytes"
    by (metis map_append takeWhile_dropWhile_id)
  have "apply_runs (word_runs 0 ?D) (map fst ?D) = map snd ?D"
    using "3.IH" [of "[]"] by simp
  with 3 show ?case
    by (simp add: split [of fst] split [of snd])
qed

subsection \<open>Round trips\<close>

lemma zip_words:
  assumes "length prev = length cur"
  shows "map fst (zip (padded_words prev) (padded_words cur)) = padded_words prev"
    and "map snd (zip (padded_words prev) (padded_words cur)) = padded_words cur"
    and "length (zip (padded_words prev) (padded_words cur)) = div_ceil4 (length cur)"
  using assms by (simp_all add: length_padded_words)

text \<open>Runs that fit a state, given as words, applied through the encoded streams.\<close>

lemma apply_encoded_runs:
  assumes "length state + 3 < usize_limit"
    and "pairs_fit (length (padded_words state)) 0 (lens rs)"
    and "\<forall>(g, ws) \<in> set rs. all_words ws"
  shows "apply_region_diff_in_place state (enc_runs rs) (runs_data rs) =
    Some (True, take (length state) (concat (apply_runs rs (padded_words state))))"
proof -
  let ?W = "padded_words state"
  have W: "length ?W = div_ceil4 (length state)" by (rule length_padded_words)
  have small: "length ?W < usize_limit" using assms(1) by (simp add: W div_ceil4_def)
  have bound: "g < usize_limit \<and> l < usize_limit" if "(g, l) \<in> set (lens rs)" for g l
    using pairs_fit_mem [OF assms(2) that] small by auto
  have "parse_control (enc_runs rs) = Some (lens rs)"
    by (rule parse_control_runs) (use bound in blast)
  moreover have "4 * pairs_len (lens rs) = length (runs_data rs)"
    using runs_data_len [OF assms(3)] by simp
  moreover have "apply_pairs (lens rs) (runs_data rs) (take (length state) (concat ?W)) =
      take (length state) (concat (apply_runs rs ?W))"
    using assms(2,3) by (intro apply_pairs_runs) (simp_all add: W div_ceil4_def)
  ultimately show ?thesis
    using assms(2) by (simp add: apply_region_diff_in_place_spec [OF assms(1)] take_padded_words W)
qed

theorem region_diff_roundtrip:
  assumes "length prev = length cur" and "length cur + 3 < usize_limit"
  shows "\<exists>d. compute_region_diff prev cur = Some d \<and>
    apply_region_diff_in_place prev (rd_control d) (rd_data d) = Some (True, cur)"
proof -
  let ?ws = "zip (padded_words prev) (padded_words cur)"
  let ?rs = "word_runs 0 ?ws"
  note zw = zip_words [OF assms(1)]
  have "pairs_fit (length (padded_words prev)) 0 (lens ?rs)"
    using word_runs_fit [of 0 0 ?ws] zw(3) assms(1) by (simp add: length_padded_words)
  moreover have "\<forall>(g, ws) \<in> set ?rs. all_words ws"
    by (rule word_runs_words) (simp only: zw all_words_of)
  ultimately have "apply_region_diff_in_place prev (enc_runs ?rs) (runs_data ?rs) =
      Some (True, take (length prev) (concat (apply_runs ?rs (padded_words prev))))"
    using assms by (intro apply_encoded_runs) simp_all
  moreover have "apply_runs ?rs (padded_words prev) = padded_words cur"
    using apply_word_runs [of "[]" 0 ?ws] by (simp only: zw) simp
  ultimately show ?thesis
    using assms(1) take_padded_words [of cur]
    by (simp add: compute_region_diff_runs [OF assms(1)] Let_def)
qed

text \<open>The player resizes its state before it applies a diff of a keyframe with another length.\<close>

definition resize_state :: "nat \<Rightarrow> bytes \<Rightarrow> bytes" where
  "resize_state n xs = take n xs @ replicate (n - length xs) 0"

lemma length_resize_state [simp]: "length (resize_state n xs) = n"
  by (simp add: resize_state_def)

lemma padded_words_prefix:
  assumes "4 * k \<le> length xs"
  shows "take k (padded_words xs) = words_of (take (4 * k) xs)"
  using assms by (simp add: padded_words_def words_of_take)

lemma padded_words_whole:
  assumes "length xs mod 4 = 0"
  shows "padded_words xs = words_of xs"
proof -
  have "length (snd (as_chunks4 xs)) = 0" using assms by simp
  then have "snd (as_chunks4 xs) = []" by (simp only: length_0_conv)
  then show ?thesis by (simp add: padded_words_def)
qed

lemma div_ceil4_add: "div_ceil4 (4 * k + n) = k + div_ceil4 n"
  by (simp add: div_ceil4_def)

theorem region_diff_resizing_roundtrip:
  assumes "length cur + 3 < usize_limit"
  shows "apply_region_diff_in_place (resize_state (length cur) prev)
      (rd_control (region_diff_resizing prev cur)) (rd_data (region_diff_resizing prev cur)) =
    Some (True, cur)"
proof (cases "length prev = length cur")
  case True
  with region_diff_roundtrip [OF True assms] show ?thesis
    by (auto simp: region_diff_resizing_def resize_state_def)
next
  case False
  define k where "k = min (length prev) (length cur) div 4"
  define p c t where parts: "p = take (k * 4) prev" "c = take (k * 4) cur" "t = drop (k * 4) cur"
  then have p_def: "p = take (4 * k) prev" and c_def: "c = take (4 * k) cur" and t_def: "t = drop (4 * k) cur"
    by (simp_all add: mult.commute)
  have code: "region_diff_resizing prev cur =
      (let diff = the (compute_region_diff p c) in if t = [] then diff
       else let gap = k - control_end (rd_control diff);
                len = length (fst (as_chunks4 t)) + (if snd (as_chunks4 t) \<noteq> [] then 1 else 0)
            in \<lparr>rd_control = rd_control diff @ write_leb128 (of_nat gap) @ write_leb128 (of_nat len),
                rd_data = rd_data diff @ concat (fst (as_chunks4 t)) @
                  (if snd (as_chunks4 t) \<noteq> [] then pad_word (snd (as_chunks4 t)) else []),
                rd_runs = rd_runs diff + 1\<rparr>)"
    using False by (simp only: region_diff_resizing_def Let_def case_prod_beta parts if_False flip: k_def)
  have k: "4 * k \<le> length prev" "4 * k \<le> length cur" by (simp_all add: k_def)
  have len: "length p = 4 * k" "length c = 4 * k" using k by (simp_all add: p_def c_def)
  have pc: "length p = length c" using len by simp
  let ?ws = "zip (padded_words p) (padded_words c)"
  define rs where "rs = word_runs 0 ?ws"
  have whole: "padded_words p = words_of p" "padded_words c = words_of c"
    using len by (simp_all add: padded_words_whole)
  have d: "compute_region_diff p c = Some \<lparr>rd_control = enc_runs rs, rd_data = runs_data rs, rd_runs = length rs\<rparr>"
    using compute_region_diff_runs [OF pc] by (simp add: rs_def Let_def)
  have n: "length ?ws = k" using len by (simp add: whole)
  have fit: "pairs_fit k 0 (lens rs)" using word_runs_fit [of 0 0 ?ws] n by (simp add: rs_def)
  have words: "\<forall>(g, ws) \<in> set rs. all_words ws"
    unfolding rs_def by (rule word_runs_words) (simp only: zip_words [OF pc] all_words_of)
  have pw: "apply_runs rs (words_of p) = words_of c"
    using apply_word_runs [of "[]" 0 ?ws] unfolding rs_def
    by (simp only: zip_words [OF pc, unfolded whole] whole append_Nil list.size)
  let ?S = "resize_state (length cur) prev"
  have S: "take (4 * k) ?S = p" using k by (simp add: resize_state_def p_def)
  show ?thesis
  proof (cases "t = []")
    case True
    then have "length cur = 4 * k" "cur = c" using k by (simp_all add: t_def c_def)
    then have "?S = p" using S by (metis length_resize_state order_refl take_all)
    moreover have "region_diff_resizing prev cur = \<lparr>rd_control = enc_runs rs, rd_data = runs_data rs, rd_runs = length rs\<rparr>"
      using True d by (simp add: code)
    ultimately show ?thesis
      using region_diff_roundtrip [OF pc] d assms len \<open>cur = c\<close> by auto
  next
    case t: False
    define T where "T = padded_words t"
    define gap where "gap = k - pairs_end 0 (lens rs)"
    have end_le: "pairs_end 0 (lens rs) \<le> k" using fit by (simp add: pairs_fit_def)
    have T: "0 < length T" "4 * length T < usize_limit"
      using t assms by (auto simp: T_def length_padded_words div_ceil4_def t_def)
    have k_lim: "4 * k < usize_limit" using k(2) assms by linarith
    have bound: "g < usize_limit \<and> l < usize_limit" if "(g, l) \<in> set (lens rs)" for g l
      using pairs_fit_mem [OF fit that] k_lim by auto
    have ce: "control_end (enc_runs rs) = pairs_end 0 (lens rs)"
      unfolding control_end_def by (rule control_end_runs) (use bound in blast)
    have Tparts: "length T = length (fst (as_chunks4 t)) + (if snd (as_chunks4 t) \<noteq> [] then 1 else 0)"
      "concat T = concat (fst (as_chunks4 t)) @ (if snd (as_chunks4 t) \<noteq> [] then pad_word (snd (as_chunks4 t)) else [])"
      by (simp_all add: T_def padded_words_def words_of_def)
    have enc: "rd_control (region_diff_resizing prev cur) = enc_runs (rs @ [(gap, T)])"
      "rd_data (region_diff_resizing prev cur) = runs_data (rs @ [(gap, T)])"
      using t d Tparts ce
      by (simp_all add: code Let_def enc_runs_append runs_data_append gap_def)
    have Slen: "length (padded_words ?S) = k + length T"
      using k by (simp add: length_padded_words T_def t_def flip: div_ceil4_add)
    have tot: "pairs_end 0 (lens rs) + gap = k" using end_le by (simp add: gap_def)
    have "pairs_fit (length (padded_words ?S)) 0 (lens (rs @ [(gap, T)]))"
      using fit T(1) tot Slen by (auto simp: pairs_fit_def pairs_end_append)
    moreover have "\<forall>(g, ws) \<in> set (rs @ [(gap, T)]). all_words ws"
      using words by (auto simp: T_def)
    ultimately have "apply_region_diff_in_place ?S (enc_runs (rs @ [(gap, T)])) (runs_data (rs @ [(gap, T)])) =
        Some (True, take (length ?S) (concat (apply_runs (rs @ [(gap, T)]) (padded_words ?S))))"
      using assms by (intro apply_encoded_runs) simp_all
    also have "apply_runs (rs @ [(gap, T)]) (padded_words ?S) = words_of c @ T"
    proof -
      have "padded_words ?S = words_of p @ drop k (padded_words ?S)"
        using padded_words_prefix [of k ?S] k(2) S by (metis append_take_drop_id length_resize_state)
      then have "apply_runs rs (padded_words ?S) = words_of c @ drop k (padded_words ?S)"
        using apply_runs_append [of "words_of p" rs] fit len(1) pw by simp metis
      then show ?thesis
        using apply_runs_snoc [of rs gap T "padded_words ?S"] tot Slen len(2) by simp
    qed
    also have "take (length ?S) (concat (words_of c @ T)) = cur"
    proof -
      have "concat (words_of c) = c" using take_padded_words [of c] len(2) whole by simp
      moreover have "take (length t) (concat T) = t" unfolding T_def by (rule take_padded_words)
      moreover have "length cur = 4 * k + length t" using k(2) by (simp add: t_def)
      moreover have "c @ t = cur" by (simp add: c_def t_def)
      ultimately show ?thesis using len(2) by (simp del: length_concat_words)
    qed
    finally show ?thesis unfolding enc .
  qed
qed

subsection \<open>What a diff touches\<close>

fun run_ranges :: "nat \<Rightarrow> (nat \<times> nat) list \<Rightarrow> (nat \<times> nat) list" where
  "run_ranges pos [] = []"
| "run_ranges pos ((g, l) # ps) = (pos + g, pos + g + l) # run_ranges (pos + g + l) ps"

lemma run_ranges_ge: "(a, b) \<in> set (run_ranges pos ps) \<Longrightarrow> pos \<le> a"
  by (induction pos ps rule: run_ranges.induct) auto

lemma touches_loop_iff:
  assumes "parse_control ctl = Some ps" and "pairs_fit words pos ps" and "words < usize_limit"
  shows "touches_loop first_word end_word pos ctl \<longleftrightarrow>
    (\<exists>(a, b) \<in> set (run_ranges pos ps). a < end_word \<and> first_word < b)"
  using assms(1,2)
proof (induction ctl arbitrary: pos ps rule: parse_control.induct)
  case (1 ctl)
  show ?case
  proof (cases "ctl = []")
    case True
    with "1.prems"(1) show ?thesis
      by (simp add: touches_loop.simps [of _ _ _ "[]"] parse_control.simps [of "[]"])
  next
    case ctl: False
    with "1.prems"(1) obtain g c1 l c2 qs where rd: "read_leb128 ctl = Some (g, c1)"
      "read_leb128 c1 = Some (l, c2)" "parse_control c2 = Some qs" "ps = (unat g, unat l) # qs"
      by (auto simp: parse_control.simps [of ctl] split: option.splits)
    from "1.prems"(2) rd(4) have fit: "pairs_fit words (pos + unat g + unat l) qs" by simp
    have "pos + unat g + unat l < usize_limit" using pairs_fit_le [OF fit] assms(3) by simp
    then have "touches_loop first_word end_word pos ctl \<longleftrightarrow>
        pos + unat g < end_word \<and> (first_word < pos + unat g + unat l \<or>
          touches_loop first_word end_word (pos + unat g + unat l) c2)"
      using ctl rd by (subst touches_loop.simps) (simp add: checked_add_def not_le)
    also have "touches_loop first_word end_word (pos + unat g + unat l) c2 \<longleftrightarrow>
        (\<exists>(a, b) \<in> set (run_ranges (pos + unat g + unat l) qs). a < end_word \<and> first_word < b)"
      by (rule "1.IH" [OF ctl rd(1) refl rd(2) refl rd(3) fit])
    finally show ?thesis
      using rd(4) run_ranges_ge [of _ _ "pos + unat g + unat l" qs] by fastforce
  qed
qed

theorem region_diff_touches_iff:
  assumes "parse_control control = Some ps" and "pairs_fit words 0 ps" and "words < usize_limit"
  shows "region_diff_touches control start end' \<longleftrightarrow>
    div_ceil4 start < end' div 4 \<and>
    (\<exists>(a, b) \<in> set (run_ranges 0 ps). a < end' div 4 \<and> div_ceil4 start < b)"
  using touches_loop_iff [OF assms] by (simp add: region_diff_touches_def Let_def not_le)

text \<open>Words outside every run keep their bytes.\<close>

lemma apply_pairs_outside:
  "pairs_fit (div_ceil4 n) pos ps \<Longrightarrow> 4 * pairs_len ps \<le> length data \<Longrightarrow> length state = n - 4 * pos \<Longrightarrow>
   j < length state \<Longrightarrow> \<forall>(a, b) \<in> set (run_ranges pos ps). \<not> (a \<le> pos + j div 4 \<and> pos + j div 4 < b) \<Longrightarrow>
   apply_pairs ps data state ! j = state ! j"
proof (induction ps arbitrary: pos data state j)
  case Nil
  then show ?case by simp
next
  case (Cons p ps)
  obtain g l where p: "p = (g, l)" by (cases p)
  let ?rest = "drop (4 * (g + l)) state"
  from Cons.prems(1) p have fit: "pairs_fit (div_ceil4 n) (pos + g + l) ps" by simp
  consider "j < 4 * g" | "4 * g \<le> j" "j < 4 * (g + l)" | "4 * (g + l) \<le> j" by linarith
  then show ?case
  proof cases
    case 1
    with Cons.prems(4) p show ?thesis by (simp add: nth_append)
  next
    case 2
    then have "pos + g \<le> pos + j div 4" "pos + j div 4 < pos + g + l" by auto
    with Cons.prems(5) p show ?thesis by auto
  next
    case 3
    then obtain i where i: "j = 4 * (g + l) + i" using le_iff_add by blast
    have "apply_pairs ps (drop (4 * l) data) ?rest ! i = ?rest ! i"
    proof (rule Cons.IH [OF fit])
      show "length ?rest = n - 4 * (pos + g + l)" using Cons.prems(3) by simp
      have "(4 * (g + l) + i) div 4 = g + l + i div 4" by simp
      then show "\<forall>(a, b) \<in> set (run_ranges (pos + g + l) ps).
          \<not> (a \<le> pos + g + l + i div 4 \<and> pos + g + l + i div 4 < b)"
        using Cons.prems(5) p i by (auto simp: add.assoc)
    qed (use Cons.prems p i in auto)
    moreover have "length (take (4 * g) state @ take (length state - 4 * g) (take (4 * l) data)) = 4 * (g + l)"
      using Cons.prems(2,4) p i by simp
    ultimately show ?thesis
      using p i Cons.prems(4) by (simp only: apply_pairs.simps append_assoc [symmetric] nth_append) simp
  qed
qed

end
