(* ===== verification/Word_Diff.thy ===== *)
theory Word_Diff
  imports Region_Diff_Correct
begin

text \<open>
  The word diff of format versions 2 and 3, from
  \<open>supershuckie-replay-recorder/src/util.rs\<close> (\<open>fast_diff\<close>, \<open>apply_diff\<close>): a list of
  64-bit entries, the byte offset of a changed word in the upper half and its new value in
  the lower half.
\<close>

subsection \<open>The code\<close>

definition U32_MAX :: nat where
  "U32_MAX = 2 ^ 32 - 1"

definition diff_entry :: "nat \<Rightarrow> u32 \<Rightarrow> u64" where
  "diff_entry offset w = push_bit 32 (of_nat offset) OR ucast w"

fun fast_diff_loop :: "nat \<Rightarrow> nat \<Rightarrow> u64 list \<Rightarrow> (bytes \<times> bytes) list \<Rightarrow> (u64 list \<times> nat) option" where
  "fast_diff_loop limit offset diff [] = Some (diff, offset)"
| "fast_diff_loop limit offset diff ((a, b) # ws) =
     (let a_int = from_le a :: u32; b_int = from_le b :: u32
      in if a_int \<noteq> b_int then
           (let diff = diff @ [diff_entry offset b_int]
            in if limit < length diff then None
               else fast_diff_loop limit (offset + length a) diff ws)
         else fast_diff_loop limit (offset + length a) diff ws)"

definition get_or_0 :: "bytes \<Rightarrow> nat \<Rightarrow> u8" where
  "get_or_0 xs i = (if i < length xs then xs ! i else 0)"

definition fast_diff :: "bytes \<Rightarrow> bytes \<Rightarrow> u64 list option" where
  "fast_diff a_buf b_buf =
     (if length a_buf \<noteq> length b_buf \<or> U32_MAX < length a_buf then None
      else
        let (a_chunks, a_extra) = as_chunks4 a_buf;
            (b_chunks, b_extra) = as_chunks4 b_buf
        in case fast_diff_loop (length a_buf div 4 div 2 div 4) 0 [] (zip a_chunks b_chunks) of
            None \<Rightarrow> None
          | Some (diff, offset) \<Rightarrow>
              if b_extra \<noteq> [] \<and> a_extra \<noteq> b_extra then
                (let b_int = from_le [b_extra ! 0, get_or_0 b_extra 1, get_or_0 b_extra 2, 0] :: u32
                 in Some (diff @ [diff_entry offset b_int]))
              else Some diff)"

fun write_entries :: "bytes \<Rightarrow> u64 list \<Rightarrow> bytes option" where
  "write_entries state [] = Some state"
| "write_entries state (d # ds) =
     (case copy_slice (unat (drop_bit 32 d)) (to_le 4 (ucast d :: u32)) state of
        None \<Rightarrow> None
      | Some state' \<Rightarrow> write_entries state' ds)"

text \<open>The result and the state afterwards; None is the panic of a slice out of range.\<close>

definition apply_diff_in_place :: "bytes \<Rightarrow> u64 list \<Rightarrow> (bool \<times> bytes) option" where
  "apply_diff_in_place state diff =
     (let len = length state; padded_len = div_ceil4 len * 4
      in if (\<exists>d \<in> set diff. padded_len < unat (drop_bit 32 d) + 4) then Some (False, state)
         else map_option (\<lambda>st. (True, take len st))
           (write_entries (state @ replicate (padded_len - len) 0) diff))"

definition apply_diff :: "bytes \<Rightarrow> u64 list \<Rightarrow> bytes option option" where
  "apply_diff buff diff =
     map_option (\<lambda>(done, out). if done then Some out else None) (apply_diff_in_place buff diff)"

subsection \<open>Entries\<close>

lemma diff_entry_low: "(ucast (diff_entry offset w) :: u32) = w"
  unfolding diff_entry_def by (rule bit_word_eqI) (auto simp: bit_simps)

lemma diff_entry_high:
  assumes "offset < 2 ^ 32"
  shows "unat (drop_bit 32 (diff_entry offset w)) = offset"
proof -
  have "drop_bit 32 (diff_entry offset w) = take_bit 32 (of_nat offset)"
    unfolding diff_entry_def
    by (rule bit_word_eqI) (auto simp: bit_simps dest: bit_imp_le_length)
  also have "\<dots> = (of_nat (take_bit 32 offset) :: u64)" by (simp add: take_bit_of_nat)
  also have "take_bit 32 offset = offset" using assms by (simp add: take_bit_nat_eq_self)
  finally show ?thesis
    using assms by (simp add: unat_of_nat_u64 usize_limit_def)
qed

lemma word_le_inject:
  assumes "length a = 4" and "length b = 4"
  shows "(from_le a :: u32) = from_le b \<longleftrightarrow> a = b"
proof -
  have "to_le 4 (from_le a :: u32) = a" and "to_le 4 (from_le b :: u32) = b"
    using assms by (simp_all add: to_le_from_le)
  then show ?thesis by metis
qed

text \<open>The entries of a list of word pairs that starts at a byte offset.\<close>

fun diff_entries :: "nat \<Rightarrow> (bytes \<times> bytes) list \<Rightarrow> u64 list" where
  "diff_entries offset [] = []"
| "diff_entries offset ((a, b) # ws) =
     (if a \<noteq> b then [diff_entry offset (from_le b)] else []) @ diff_entries (offset + 4) ws"

lemma diff_entries_append:
  "diff_entries offset (ws @ vs) = diff_entries offset ws @ diff_entries (offset + 4 * length ws) vs"
  by (induction offset ws rule: diff_entries.induct) (auto simp: algebra_simps)

lemma fast_diff_loop_entries:
  "fast_diff_loop limit offset diff ws = Some (diff', offset') \<Longrightarrow>
   \<forall>(a, b) \<in> set ws. length a = 4 \<and> length b = 4 \<Longrightarrow>
   diff' = diff @ diff_entries offset ws \<and> offset' = offset + 4 * length ws"
  by (induction limit offset diff ws rule: fast_diff_loop.induct)
    (auto simp: Let_def word_le_inject split: if_splits)

lemma padded_extra:
  assumes "b_extra \<noteq> []" and "length b_extra < 4"
  shows "pad_word b_extra = [b_extra ! 0, get_or_0 b_extra 1, get_or_0 b_extra 2, 0]"
proof -
  consider a where "b_extra = [a]" | a b where "b_extra = [a, b]" | a b c where "b_extra = [a, b, c]"
    using assms by (cases b_extra rule: as_chunks4.cases) auto
  then show ?thesis by cases (simp_all add: pad_word_def get_or_0_def numeral_eq_Suc)
qed

lemma fast_diff_entries:
  assumes "fast_diff a b = Some d"
  shows "d = diff_entries 0 (zip (padded_words a) (padded_words b))"
    and "length a = length b" and "length a < 2 ^ 32"
proof -
  from assms have len: "length a = length b" "\<not> U32_MAX < length a"
    by (auto simp: fast_diff_def split: if_splits)
  let ?ae = "snd (as_chunks4 a)" and ?be = "snd (as_chunks4 b)"
  let ?ws = "zip (words_of a) (words_of b)"
  from assms len obtain d0 off where loop: "fast_diff_loop (length a div 4 div 2 div 4) 0 [] ?ws = Some (d0, off)"
    and d: "d = (if ?be \<noteq> [] \<and> ?ae \<noteq> ?be
        then d0 @ [diff_entry off (from_le [?be ! 0, get_or_0 ?be 1, get_or_0 ?be 2, 0])] else d0)"
    by (auto simp: fast_diff_def Let_def words_of_def split: option.splits prod.splits if_splits)
  have "\<forall>(x, y) \<in> set ?ws. length x = 4 \<and> length y = 4"
    by (auto dest: set_zip_leftD set_zip_rightD simp: words_of_len)
  with fast_diff_loop_entries [OF loop]
  have d0: "d0 = diff_entries 0 ?ws" "off = 4 * length ?ws" by auto
  have ext: "length ?ae = length ?be" "length ?be < 4" using len by simp_all
  then have e: "?ae = [] \<longleftrightarrow> ?be = []" by (metis length_0_conv)
  have z: "zip (padded_words a) (padded_words b) =
      ?ws @ (if ?be = [] then [] else [(pad_word ?ae, pad_word ?be)])"
    using len(1) e by (simp add: padded_words_def zip_append)
  show "d = diff_entries 0 (zip (padded_words a) (padded_words b))"
  proof (cases "?be = []")
    case True
    then show ?thesis using d d0 by (simp add: z)
  next
    case False
    then show ?thesis
      using d d0 padded_extra [OF False ext(2)] pad_word_inject [OF ext(1)]
      by (simp add: z diff_entries_append)
  qed
  show "length a = length b" and "length a < 2 ^ 32" using len by (simp_all add: U32_MAX_def)
qed

lemma write_entries_diff:
  "\<forall>(a, b) \<in> set ws. length a = 4 \<and> length b = 4 \<Longrightarrow> length X + 4 * length ws \<le> 2 ^ 32 \<Longrightarrow>
   write_entries (X @ concat (map fst ws)) (diff_entries (length X) ws) =
     Some (X @ concat (map snd ws))"
proof (induction ws arbitrary: X)
  case Nil
  then show ?case by simp
next
  case (Cons w ws)
  obtain a b where w: "w = (a, b)" by (cases w)
  have ab: "length a = 4" "length b = 4" using Cons.prems(1) w by simp_all
  have hi: "unat (drop_bit 32 (diff_entry (length X) (from_le b))) = length X"
    using Cons.prems(2) by (intro diff_entry_high) simp
  have lo: "to_le 4 (from_le b :: u32) = b"
    using ab by (intro to_le_from_le) simp_all
  have IH: "write_entries ((X @ b) @ concat (map fst ws)) (diff_entries (length (X @ b)) ws) =
      Some ((X @ b) @ concat (map snd ws))"
    using Cons.prems ab by (intro Cons.IH) auto
  show ?case
    using IH ab by (auto simp: w hi lo diff_entry_low copy_slice_def)
qed

theorem fast_diff_roundtrip:
  assumes "fast_diff a b = Some d"
  shows "apply_diff_in_place a d = Some (True, b)"
proof -
  note f = fast_diff_entries [OF assms]
  let ?ws = "zip (padded_words a) (padded_words b)"
  have lens: "length (padded_words a) = div_ceil4 (length a)" "length (padded_words b) = div_ceil4 (length a)"
    by (simp_all add: length_padded_words f(2))
  have len4: "\<forall>(x, y) \<in> set ?ws. length x = 4 \<and> length y = 4"
    by (auto dest: set_zip_leftD set_zip_rightD simp: padded_words_len)
  have small: "4 * length ?ws \<le> 2 ^ 32" using f(3) lens by (simp add: div_ceil4_def)
  have pad: "concat (padded_words a) = a @ replicate (div_ceil4 (length a) * 4 - length a) 0"
  proof (cases "snd (as_chunks4 a) = []")
    case True
    then have "length a mod 4 = 0" using length_extra [of a] by simp
    then have "div_ceil4 (length a) * 4 - length a = 0" by (auto simp: div_ceil4_def elim!: dvdE)
    then show ?thesis using True concat_words [of a] by (simp add: padded_words_def)
  next
    case False
    then have "length a mod 4 \<noteq> 0" using length_extra [of a] by (metis length_0_conv)
    then have "div_ceil4 (length a) * 4 - length a = 4 - length a mod 4"
      unfolding div_ceil4_def by presburger
    then show ?thesis
      using False concat_words [of a] by (simp add: padded_words_def pad_word_def flip: append_assoc)
  qed
  have bound: "unat (drop_bit 32 e) + 4 \<le> offset + 4 * length ws"
    if "e \<in> set (diff_entries offset ws)" "offset + 4 * length ws \<le> 2 ^ 32" for e offset ws
    using that by (induction offset ws rule: diff_entries.induct)
      (auto simp: diff_entry_high split: if_splits)
  have "write_entries (concat (map fst ?ws)) (diff_entries 0 ?ws) = Some (concat (map snd ?ws))"
    using write_entries_diff [OF len4, of "[]"] small by simp
  then have "write_entries (a @ replicate (div_ceil4 (length a) * 4 - length a) 0) d =
      Some (concat (padded_words b))"
    using lens by (simp add: f(1) pad)
  moreover have "\<not> div_ceil4 (length a) * 4 < unat (drop_bit 32 e) + 4" if "e \<in> set d" for e
    using bound [of e 0 ?ws] that small lens by (simp add: f(1))
  ultimately show ?thesis
    using take_padded_words [of b] f(2) by (auto simp: apply_diff_in_place_def Let_def)
qed

text \<open>No diff makes the code panic, and a wrong one leaves the state as it was.\<close>

lemma write_entries_total:
  "\<forall>d \<in> set ds. unat (drop_bit 32 d) + 4 \<le> length state \<Longrightarrow>
   \<exists>out. write_entries state ds = Some out \<and> length out = length state"
proof (induction ds arbitrary: state)
  case (Cons d ds)
  define st where "st = take (unat (drop_bit 32 d)) state @ to_le 4 (ucast d :: u32) @
    drop (unat (drop_bit 32 d) + 4) state"
  have "copy_slice (unat (drop_bit 32 d)) (to_le 4 (ucast d :: u32)) state = Some st"
    and "length st = length state"
    using Cons.prems by (auto simp: copy_slice_def st_def)
  with Cons.IH [of st] Cons.prems show ?case by simp
qed simp

theorem apply_diff_in_place_total:
  "\<exists>ok out. apply_diff_in_place state diff = Some (ok, out) \<and> length out = length state \<and>
    (\<not> ok \<longrightarrow> out = state)"
proof (cases "\<exists>d \<in> set diff. div_ceil4 (length state) * 4 < unat (drop_bit 32 d) + 4")
  case True
  then have "apply_diff_in_place state diff = Some (False, state)" by (simp add: apply_diff_in_place_def)
  then show ?thesis by blast
next
  case False
  have pad: "length state \<le> div_ceil4 (length state) * 4" by (simp add: div_ceil4_def)
  let ?st = "state @ replicate (div_ceil4 (length state) * 4 - length state) 0"
  have "length ?st = div_ceil4 (length state) * 4" using pad by simp
  with False write_entries_total [of diff ?st] obtain out
    where "write_entries ?st diff = Some out" "length out = div_ceil4 (length state) * 4"
    by (auto simp: not_less)
  with False pad show ?thesis by (auto simp: apply_diff_in_place_def Let_def)
qed

end
