(* ===== verification/Header.thy ===== *)
theory Header
  imports Region_Diff Bookmarks
begin

text \<open>
  The replay file header, from \<open>supershuckie-replay-recorder/src/replay_file/header.rs\<close>: the
  raw 2048-byte layout, parsing, building a raw header from metadata, and the helpers the
  bookmark section and resuming use. Integers are little-endian: the source transmutes the
  packed struct, and every supported target is little-endian.
\<close>

subsection \<open>Constants and enums\<close>

definition SIGNATURE_START :: bytes where
  "SIGNATURE_START = [0x4E, 0x49, 0x44, 0x4F]"

definition SIGNATURE_END :: bytes where
  "SIGNATURE_END = [0x52, 0x49, 0x4E, 0x41]"

definition REPLAY_VERSION_MINIMUM_SUPPORTED :: u32 where
  "REPLAY_VERSION_MINIMUM_SUPPORTED = 2"

definition REPLAY_VERSION_NINTENDO_3DS :: u32 where
  "REPLAY_VERSION_NINTENDO_3DS = 10"

definition REPLAY_VERSION_NINTENDO_3DS_ROM_REFERENCES :: u32 where
  "REPLAY_VERSION_NINTENDO_3DS_ROM_REFERENCES = 9"

definition REPLAY_VERSION_MAX_SUPPORTED :: u32 where
  "REPLAY_VERSION_MAX_SUPPORTED = REPLAY_VERSION_NINTENDO_3DS"

definition REPLAY_VERSION_BOOKMARK_SECTION :: u32 where
  "REPLAY_VERSION_BOOKMARK_SECTION = 5"

datatype replay_console_type =
    UnknownConsole | GameBoy | SuperGameBoy2 | GameBoyColor | GameBoyAdvance | NintendoDS | Nintendo3DS

datatype replay_patch_format = Unpatched | BPS

definition all_consoles :: "replay_console_type list" where
  "all_consoles = [UnknownConsole, GameBoy, SuperGameBoy2, GameBoyColor, GameBoyAdvance, NintendoDS, Nintendo3DS]"

fun console_primitive :: "replay_console_type \<Rightarrow> u32" where
  "console_primitive UnknownConsole = 0"
| "console_primitive GameBoy = 1"
| "console_primitive SuperGameBoy2 = 2"
| "console_primitive GameBoyColor = 3"
| "console_primitive GameBoyAdvance = 4"
| "console_primitive NintendoDS = 5"
| "console_primitive Nintendo3DS = 6"

fun console_name :: "replay_console_type \<Rightarrow> string" where
  "console_name UnknownConsole = ''Unknown''"
| "console_name GameBoy = ''Game Boy''"
| "console_name SuperGameBoy2 = ''Super Game Boy 2''"
| "console_name GameBoyColor = ''Game Boy Color''"
| "console_name GameBoyAdvance = ''Game Boy Advance''"
| "console_name NintendoDS = ''Nintendo DS''"
| "console_name Nintendo3DS = ''Nintendo 3DS''"

fun patch_format_primitive :: "replay_patch_format \<Rightarrow> u32" where
  "patch_format_primitive Unpatched = 0"
| "patch_format_primitive BPS = 1"

text \<open>\<open>MaybeEnum::get\<close>: the enum value of a primitive, or the primitive when there is none.\<close>

definition get_console :: "u32 \<Rightarrow> u32 + replay_console_type" where
  "get_console w = (case find_key console_primitive w all_consoles of None \<Rightarrow> Inl w | Some c \<Rightarrow> Inr c)"

definition get_patch_format :: "u32 \<Rightarrow> u32 + replay_patch_format" where
  "get_patch_format w =
     (case find_key patch_format_primitive w [Unpatched, BPS] of None \<Rightarrow> Inl w | Some c \<Rightarrow> Inr c)"

lemma get_console_primitive [simp]: "get_console (console_primitive c) = Inr c"
  by (cases c) (simp_all add: get_console_def all_consoles_def find_key_def)

lemma get_patch_format_primitive [simp]: "get_patch_format (patch_format_primitive p) = Inr p"
  by (cases p) (simp_all add: get_patch_format_def find_key_def)

subsection \<open>The raw header\<close>

record raw_header =
  signature_start :: bytes
  replay_version :: u32
  console_type :: u32
  crop_start :: u8
  crop_end :: u8
  padding_0 :: bytes
  emulator_core_name :: bytes
  patch_data_length :: u64
  patch_format :: u32
  padding_1 :: bytes
  patch_target_checksum :: bytes
  rom_name :: bytes
  rom_filename :: bytes
  rom_checksum :: bytes
  bios_checksum :: bytes
  crop_start_frame :: u64
  crop_start_millis :: timestamp_millis
  crop_end_frame :: u64
  crop_end_millis :: timestamp_millis
  crop_timer_offset :: timestamp_millis
  stream_end_field :: u64
  padding_2 :: bytes
  signature_end :: bytes

text \<open>The lengths of the arrays, which the types of the source fix.\<close>

definition raw_header_ok :: "raw_header \<Rightarrow> bool" where
  "raw_header_ok h \<longleftrightarrow>
     length (signature_start h) = 4 \<and> length (padding_0 h) = 2 \<and>
     length (emulator_core_name h) = 256 \<and> length (padding_1 h) = 4 \<and>
     length (patch_target_checksum h) = 32 \<and> length (rom_name h) = 256 \<and>
     length (rom_filename h) = 256 \<and> length (rom_checksum h) = 32 \<and>
     length (bios_checksum h) = 32 \<and> length (padding_2 h) = 1100 \<and> length (signature_end h) = 4"

definition header_as_bytes :: "raw_header \<Rightarrow> bytes" where
  "header_as_bytes h =
     signature_start h @ to_le 4 (replay_version h) @ to_le 4 (console_type h) @
     [crop_start h] @ [crop_end h] @ padding_0 h @ emulator_core_name h @
     to_le 8 (patch_data_length h) @ to_le 4 (patch_format h) @ padding_1 h @
     patch_target_checksum h @ rom_name h @ rom_filename h @ rom_checksum h @ bios_checksum h @
     to_le 8 (crop_start_frame h) @ to_le 8 (millis (crop_start_millis h)) @
     to_le 8 (crop_end_frame h) @ to_le 8 (millis (crop_end_millis h)) @
     to_le 8 (millis (crop_timer_offset h)) @ to_le 8 (stream_end_field h) @
     padding_2 h @ signature_end h"

definition header_from_bytes :: "bytes \<Rightarrow> raw_header" where
  "header_from_bytes bs =
     \<lparr>signature_start = slice bs 0x000 0x004,
      replay_version = from_le (slice bs 0x004 0x008),
      console_type = from_le (slice bs 0x008 0x00C),
      crop_start = hd (slice bs 0x00C 0x00D),
      crop_end = hd (slice bs 0x00D 0x00E),
      padding_0 = slice bs 0x00E 0x010,
      emulator_core_name = slice bs 0x010 0x110,
      patch_data_length = from_le (slice bs 0x110 0x118),
      patch_format = from_le (slice bs 0x118 0x11C),
      padding_1 = slice bs 0x11C 0x120,
      patch_target_checksum = slice bs 0x120 0x140,
      rom_name = slice bs 0x140 0x240,
      rom_filename = slice bs 0x240 0x340,
      rom_checksum = slice bs 0x340 0x360,
      bios_checksum = slice bs 0x360 0x380,
      crop_start_frame = from_le (slice bs 0x380 0x388),
      crop_start_millis = TimestampMillis (from_le (slice bs 0x388 0x390)),
      crop_end_frame = from_le (slice bs 0x390 0x398),
      crop_end_millis = TimestampMillis (from_le (slice bs 0x398 0x3A0)),
      crop_timer_offset = TimestampMillis (from_le (slice bs 0x3A0 0x3A8)),
      stream_end_field = from_le (slice bs 0x3A8 0x3B0),
      padding_2 = slice bs 0x3B0 0x7FC,
      signature_end = slice bs 0x7FC 0x800\<rparr>"

definition packet_stream_end :: "raw_header \<Rightarrow> u64 option" where
  "packet_stream_end h =
     (if REPLAY_VERSION_BOOKMARK_SECTION \<le> replay_version h \<and> stream_end_field h \<noteq> 0
      then Some (stream_end_field h) else None)"

definition same_replay_as :: "raw_header \<Rightarrow> raw_header \<Rightarrow> bool" where
  "same_replay_as h other \<longleftrightarrow>
     header_as_bytes (h\<lparr>replay_version := 0, stream_end_field := 0\<rparr>) =
     header_as_bytes (other\<lparr>replay_version := 0, stream_end_field := 0\<rparr>)"

subsection \<open>Metadata\<close>

record replay_file_metadata =
  m_console_type :: replay_console_type
  m_rom_name :: rstring
  m_rom_filename :: rstring
  m_rom_checksum :: bytes
  m_bios_checksum :: bytes
  m_emulator_core_name :: rstring
  m_patch_format :: replay_patch_format
  m_patch_target_checksum :: bytes
  m_crop_start :: "(u64 \<times> timestamp_millis) option"
  m_crop_end :: "(u64 \<times> timestamp_millis) option"
  m_timer_offset :: "timestamp_millis option"

datatype header_error =
    BadSignatureStart
  | BadSignatureEnd
  | UnrecognizedVersion u32
  | UnrecognizedConsole u32
  | UnrecognizedPatchFormat u32
  | StringTooLong string
  | StringNotUtf8 string

text \<open>\<open>CStr::from_bytes_until_nul\<close> and \<open>to_str\<close>.\<close>

definition parse_string_buffer :: "bytes \<Rightarrow> string \<Rightarrow> header_error + rstring" where
  "parse_string_buffer what name =
     (if 0 \<notin> set what then Inl (StringTooLong name)
      else let s = takeWhile (\<lambda>b. b \<noteq> 0) what
        in if utf8_valid s then Inr s else Inl (StringNotUtf8 name))"

definition header_parse :: "raw_header \<Rightarrow> header_error + replay_file_metadata" where
  "header_parse h =
     (if signature_start h \<noteq> SIGNATURE_START then Inl BadSignatureStart
      else if signature_end h \<noteq> SIGNATURE_END then Inl BadSignatureEnd
      else if replay_version h < REPLAY_VERSION_MINIMUM_SUPPORTED \<or>
          REPLAY_VERSION_MAX_SUPPORTED < replay_version h
        then Inl (UnrecognizedVersion (replay_version h))
      else
        and_then (map_err UnrecognizedConsole (get_console (console_type h))) (\<lambda>console.
        and_then (map_err UnrecognizedPatchFormat (get_patch_format (patch_format h))) (\<lambda>patch.
        and_then (parse_string_buffer (rom_name h) ''rom_name'') (\<lambda>name.
        and_then (parse_string_buffer (rom_filename h) ''rom_filename'') (\<lambda>filename.
        and_then (parse_string_buffer (emulator_core_name h) ''emulator_core_name'') (\<lambda>core.
        Inr \<lparr>m_console_type = console,
             m_rom_name = name,
             m_rom_filename = filename,
             m_rom_checksum = rom_checksum h,
             m_bios_checksum = bios_checksum h,
             m_emulator_core_name = core,
             m_patch_format = patch,
             m_patch_target_checksum = patch_target_checksum h,
             m_crop_start = then_some (crop_start h \<noteq> 0) (crop_start_frame h, crop_start_millis h),
             m_crop_end = then_some (crop_end h \<noteq> 0) (crop_end_frame h, crop_end_millis h),
             m_timer_offset = then_some (crop_start h \<noteq> 0) (crop_timer_offset h)\<rparr>))))))"

definition into_str_bytes :: "rstring \<Rightarrow> string \<Rightarrow> header_error + bytes" where
  "into_str_bytes what name =
     (if 255 < length what then Inl (StringTooLong name)
      else Inr (what @ replicate (256 - length what) 0))"

definition as_raw_header :: "replay_file_metadata \<Rightarrow> header_error + raw_header" where
  "as_raw_header m =
     and_then (into_str_bytes (m_rom_name m) ''rom_name'') (\<lambda>name.
     and_then (into_str_bytes (m_rom_filename m) ''rom_filename'') (\<lambda>filename.
     and_then (into_str_bytes (m_emulator_core_name m) ''emulator_core_name'') (\<lambda>core.
     Inr \<lparr>signature_start = SIGNATURE_START,
          replay_version = (if m_console_type m = Nintendo3DS then REPLAY_VERSION_NINTENDO_3DS
                            else REPLAY_VERSION),
          console_type = console_primitive (m_console_type m),
          crop_start = (if m_crop_start m \<noteq> None then 1 else 0),
          crop_end = (if m_crop_end m \<noteq> None then 1 else 0),
          padding_0 = replicate 2 0,
          emulator_core_name = core,
          patch_data_length = 0,
          patch_format = patch_format_primitive (m_patch_format m),
          padding_1 = replicate 4 0,
          patch_target_checksum = m_patch_target_checksum m,
          rom_name = name,
          rom_filename = filename,
          rom_checksum = m_rom_checksum m,
          bios_checksum = m_bios_checksum m,
          crop_start_frame = unwrap_or (map_option fst (m_crop_start m)) 0,
          crop_start_millis = unwrap_or (map_option snd (m_crop_start m)) (TimestampMillis 0),
          crop_end_frame = unwrap_or (map_option fst (m_crop_end m)) 0,
          crop_end_millis = unwrap_or (map_option snd (m_crop_end m)) (TimestampMillis 0),
          crop_timer_offset = unwrap_or (m_timer_offset m) (TimestampMillis 0),
          stream_end_field = 0,
          padding_2 = replicate 1100 0,
          signature_end = SIGNATURE_END\<rparr>)))"

datatype resume_crop_policy = PreserveStartDropEnd | DropAll | PreserveAll

definition with_resume_crop :: "u64 \<Rightarrow> resume_crop_policy \<Rightarrow> replay_file_metadata \<Rightarrow> replay_file_metadata" where
  "with_resume_crop resume_frame policy m = (case policy of
     PreserveStartDropEnd \<Rightarrow>
       (let keep_start = (case m_crop_start m of None \<Rightarrow> False | Some (frame, _) \<Rightarrow> frame \<le> resume_frame);
            m = (if keep_start then m else m\<lparr>m_crop_start := None, m_timer_offset := None\<rparr>)
        in m\<lparr>m_crop_end := None\<rparr>)
   | DropAll \<Rightarrow> m\<lparr>m_crop_start := None, m_crop_end := None, m_timer_offset := None\<rparr>
   | PreserveAll \<Rightarrow> m)"

definition hex_char :: "u8 \<Rightarrow> u8" where
  "hex_char b = (if b \<le> 9 then 0x30 + b else 0x41 + (b - 0xA))"

definition blake3_hash_to_ascii :: "bytes \<Rightarrow> rstring" where
  "blake3_hash_to_ascii hash = concat (map (\<lambda>b. [hex_char (drop_bit 4 b), hex_char (and b 0xF)]) hash)"

subsection \<open>The layout\<close>

lemma slice_skip [simp]: "length xs \<le> a \<Longrightarrow> slice (xs @ ys) a b = slice ys (a - length xs) (b - length xs)"
  by (simp add: slice_def)

lemma slice_0_append [simp]: "b = length xs \<Longrightarrow> slice (xs @ ys) 0 b = xs"
  by (simp add: slice_def)

lemma slice_all [simp]: "b = length xs \<Longrightarrow> slice xs 0 b = xs"
  by (simp add: slice_def)

lemma slice_join: "a \<le> b \<Longrightarrow> b \<le> c \<Longrightarrow> slice xs a b @ slice xs b c = slice xs a c"
proof -
  assume "a \<le> b" "b \<le> c"
  then have "take (c - a) (drop a xs) = take ((b - a) + (c - b)) (drop a xs)" by simp
  also have "\<dots> = take (b - a) (drop a xs) @ take (c - b) (drop (b - a) (drop a xs))"
    by (rule take_add)
  finally show ?thesis using \<open>a \<le> b\<close> by (simp add: slice_def)
qed

lemma slice_join': "a \<le> b \<Longrightarrow> b \<le> c \<Longrightarrow> slice xs a b @ slice xs b c @ r = slice xs a c @ r"
  by (simp add: slice_join flip: append_assoc)

lemma length_slice [simp]: "b \<le> length xs \<Longrightarrow> length (slice xs a b) = b - a"
  by (simp add: slice_def)

lemma slice_single: "b = Suc a \<Longrightarrow> b \<le> length xs \<Longrightarrow> [hd (slice xs a b)] = slice xs a b"
  by (cases "slice xs a b") (auto dest: arg_cong [where f = length])

lemma header_as_bytes_length: "raw_header_ok h \<Longrightarrow> length (header_as_bytes h) = 2048"
  by (simp add: header_as_bytes_def raw_header_ok_def)

lemma header_from_as_bytes:
  assumes "raw_header_ok h"
  shows "header_from_bytes (header_as_bytes h) = h"
  using assms unfolding raw_header_ok_def
  by (intro raw_header.equality) (simp_all add: header_from_bytes_def header_as_bytes_def del: append.simps append_Cons)

lemma header_as_from_bytes:
  assumes "length bs = 2048"
  shows "header_as_bytes (header_from_bytes bs) = bs"
  using assms
  by (simp add: header_as_bytes_def header_from_bytes_def slice_single slice_join slice_join'
      del: append.simps)

lemma header_from_bytes_ok: "length bs = 2048 \<Longrightarrow> raw_header_ok (header_from_bytes bs)"
  by (simp add: raw_header_ok_def header_from_bytes_def)

lemma same_replay_as_iff:
  assumes "raw_header_ok h" and "raw_header_ok other"
  shows "same_replay_as h other \<longleftrightarrow>
    h\<lparr>replay_version := replay_version other, stream_end_field := stream_end_field other\<rparr> = other"
proof -
  let ?z = "\<lambda>h. h\<lparr>replay_version := 0, stream_end_field := 0\<rparr> :: raw_header"
  have ok: "raw_header_ok (?z h)" "raw_header_ok (?z other)"
    using assms by (simp_all add: raw_header_ok_def)
  have "same_replay_as h other \<longleftrightarrow> ?z h = ?z other"
    unfolding same_replay_as_def
    by (metis header_from_as_bytes [OF ok(1)] header_from_as_bytes [OF ok(2)])
  also have "\<dots> \<longleftrightarrow> h\<lparr>replay_version := replay_version other, stream_end_field := stream_end_field other\<rparr> = other"
    by (cases h; cases other) simp
  finally show ?thesis .
qed

subsection \<open>Metadata and back\<close>

text \<open>What a header can hold: short names without a zero byte, and a timer offset exactly when the
  start of the crop is marked.\<close>

definition name_ok :: "rstring \<Rightarrow> bool" where
  "name_ok s \<longleftrightarrow> length s \<le> 255 \<and> 0 \<notin> set s \<and> utf8_valid s"

definition metadata_ok :: "replay_file_metadata \<Rightarrow> bool" where
  "metadata_ok m \<longleftrightarrow>
     name_ok (m_rom_name m) \<and> name_ok (m_rom_filename m) \<and> name_ok (m_emulator_core_name m) \<and>
     (m_timer_offset m = None \<longleftrightarrow> m_crop_start m = None)"

lemma parse_padded_string:
  assumes "length s \<le> 255" and "utf8_valid (takeWhile (\<lambda>b. b \<noteq> 0) s)"
  shows "parse_string_buffer (s @ replicate (256 - length s) 0) name = Inr (takeWhile (\<lambda>b. b \<noteq> 0) s)"
proof -
  have "0 \<in> set (s @ replicate (256 - length s) 0)" using assms(1) by simp
  moreover have "takeWhile (\<lambda>b. b \<noteq> 0) (s @ replicate n 0) = takeWhile (\<lambda>b. b \<noteq> 0) s" for n
    by (induction s) (auto simp: takeWhile_replicate)
  ultimately show ?thesis using assms(2) by (simp add: parse_string_buffer_def)
qed

lemma name_ok_takeWhile: "name_ok s \<Longrightarrow> takeWhile (\<lambda>b. b \<noteq> 0) s = s"
  unfolding name_ok_def takeWhile_eq_all_conv by auto

text \<open>The zero byte is the one thing \<open>into_str_bytes\<close> lets through that the parser cuts at.\<close>

theorem parse_as_raw_header:
  assumes "metadata_ok m"
  shows "\<exists>h. as_raw_header m = Inr h \<and> header_parse h = Inr m"
proof -
  note names = assms [unfolded metadata_ok_def]
  have s: "into_str_bytes s name = Inr (s @ replicate (256 - length s) 0)"
    "parse_string_buffer (s @ replicate (256 - length s) 0) nm = Inr s" if "name_ok s" for s name nm
    using that parse_padded_string [of s nm] name_ok_takeWhile [OF that]
    by (auto simp: into_str_bytes_def name_ok_def)
  have v: "\<not> (if c then REPLAY_VERSION_NINTENDO_3DS else REPLAY_VERSION) < REPLAY_VERSION_MINIMUM_SUPPORTED"
    "\<not> REPLAY_VERSION_MAX_SUPPORTED < (if c then REPLAY_VERSION_NINTENDO_3DS else REPLAY_VERSION)" for c
    by (simp_all add: REPLAY_VERSION_NINTENDO_3DS_def REPLAY_VERSION_def REPLAY_VERSION_MINIMUM_SUPPORTED_def
        REPLAY_VERSION_MAX_SUPPORTED_def)
  have crop: "then_some ((if c \<noteq> None then 1 else 0 :: u8) \<noteq> 0)
      (unwrap_or (map_option fst c) 0, unwrap_or (map_option snd c) (TimestampMillis 0)) = c"
    for c :: "(u64 \<times> timestamp_millis) option"
    by (cases c) (simp_all add: then_some_def)
  have timer: "then_some ((if m_crop_start m \<noteq> None then 1 else 0 :: u8) \<noteq> 0)
      (unwrap_or (m_timer_offset m) (TimestampMillis 0)) = m_timer_offset m"
    using names by (cases "m_timer_offset m") (auto simp: then_some_def)
  show ?thesis
    using names
    by (simp add: as_raw_header_def header_parse_def s v crop timer del: not_None_eq split del: if_split)
qed

lemma as_raw_header_ok:
  assumes "as_raw_header m = Inr h" and "length (m_rom_checksum m) = 32"
    and "length (m_bios_checksum m) = 32" and "length (m_patch_target_checksum m) = 32"
  shows "raw_header_ok h" and "packet_stream_end h = None"
  using assms
  by (auto simp: as_raw_header_def and_then_eq_Inr into_str_bytes_def raw_header_ok_def
      SIGNATURE_START_def SIGNATURE_END_def packet_stream_end_def split: if_splits)

lemma header_parse_version:
  "header_parse h = Inr m \<Longrightarrow> 2 \<le> replay_version h \<and> replay_version h \<le> 10"
  by (auto simp: header_parse_def REPLAY_VERSION_MINIMUM_SUPPORTED_def REPLAY_VERSION_MAX_SUPPORTED_def
      REPLAY_VERSION_NINTENDO_3DS_def not_less split: if_splits)

subsection \<open>Hashes\<close>

lemma unat_hex_char:
  assumes "b \<le> 0xF"
  shows "unat (hex_char b) = (if unat b \<le> 9 then 48 + unat b else 55 + unat b)"
proof -
  have b: "unat b \<le> 15" using assms by (simp add: word_le_nat_alt)
  show ?thesis
  proof (cases "b \<le> 9")
    case True
    then have "unat b \<le> 9" by (simp add: word_le_nat_alt)
    with True b show ?thesis by (simp add: hex_char_def unat_word_ariths)
  next
    case False
    then have "\<not> unat b \<le> 9" by (simp add: word_le_nat_alt)
    moreover from this have "unat (b - 10) = unat b - 10"
      by (simp add: unat_sub word_le_nat_alt)
    ultimately show ?thesis using False b by (simp add: hex_char_def unat_word_ariths)
  qed
qed

lemma hex_char_inject:
  assumes "a \<le> 0xF" and "b \<le> 0xF" and "hex_char a = hex_char b"
  shows "a = b"
proof -
  have "unat (hex_char a) = unat (hex_char b)" using assms(3) by simp
  then have "unat a = unat b"
    using assms(1,2) by (auto simp: unat_hex_char word_le_nat_alt split: if_splits)
  then show ?thesis by (simp add: word_unat_eq_iff)
qed

lemma byte_nibbles: "drop_bit 4 a = drop_bit 4 b \<Longrightarrow> and a 0xF = and b (0xF :: u8) \<Longrightarrow> a = b"
proof -
  assume d: "drop_bit 4 a = drop_bit 4 b" and l: "and a 0xF = and b (0xF :: u8)"
  have m: "(0xF :: u8) = mask 4" by (simp add: mask_eq_exp_minus_1)
  have "take_bit 4 a = take_bit 4 b" using l unfolding m by (simp add: take_bit_eq_mask)
  then have "push_bit 4 (drop_bit 4 a) + take_bit 4 a = push_bit 4 (drop_bit 4 b) + take_bit 4 b"
    using d by simp
  then show "a = b" by (simp only: bits_ident)
qed

lemma nibble_le: "drop_bit 4 (a :: u8) \<le> 0xF" "and a (0xF :: u8) \<le> 0xF"
proof -
  have "unat (drop_bit 4 a) = unat a div 16" by (simp add: drop_bit_eq_div unat_div)
  moreover have "unat a < 256" using unsigned_less [of a] by simp
  ultimately show "drop_bit 4 a \<le> 0xF" by (simp add: word_le_nat_alt)
  show "and a (0xF :: u8) \<le> 0xF" by (rule word_and_le1)
qed

theorem blake3_hash_to_ascii_inject:
  "length a = length b \<Longrightarrow> blake3_hash_to_ascii a = blake3_hash_to_ascii b \<Longrightarrow> a = b"
proof (induction a b rule: list_induct2)
  case (Cons x xs y ys)
  then have "hex_char (drop_bit 4 x) = hex_char (drop_bit 4 y)"
    "hex_char (and x 0xF) = hex_char (and y 0xF)" "xs = ys"
    by (simp_all add: blake3_hash_to_ascii_def)
  then have "drop_bit 4 x = drop_bit 4 y" "and x 0xF = and y 0xF"
    using hex_char_inject nibble_le by simp_all
  then have "x = y" by (rule byte_nibbles)
  with \<open>xs = ys\<close> show ?case by simp
qed simp

end
