(* ===== verification/Bookmark_Section.thy ===== *)
theory Bookmark_Section
  imports Header
begin

text \<open>
  The bookmark section at the end of a closed replay, from
  \<open>supershuckie-replay-recorder/src/replay_file/bookmark_section.rs\<close>: its encoding, and
  rewriting it in a file. The file is its bytes; reading and writing succeed (the \<open>Io\<close> errors
  are the operating system's). The hash is the \<open>blake3\<close> crate's: a parameter.
\<close>

subsection \<open>Encoding\<close>

definition BOOKMARK_SECTION_MAGIC :: bytes where
  "BOOKMARK_SECTION_MAGIC = [0x53, 0x53, 0x42, 0x4D]"

definition BOOKMARK_SECTION_FORMAT :: u32 where
  "BOOKMARK_SECTION_FORMAT = 1"

definition BOOKMARK_SECTION_HEADER_LEN :: nat where
  "BOOKMARK_SECTION_HEADER_LEN = 0x30"

datatype bookmark_section_error =
    Truncated
  | BadMagic
  | UnsupportedFormat u32
  | LengthMismatch u64 u64
  | HashMismatch
  | BadPayload packet_read_error

definition encode_bookmark_section :: "(bytes \<Rightarrow> bytes) \<Rightarrow> bookmark_table \<Rightarrow> bytes" where
  "encode_bookmark_section hash table =
     (let payload = table_encode table
      in BOOKMARK_SECTION_MAGIC @ to_le 4 BOOKMARK_SECTION_FORMAT @
         to_le 8 (of_nat (length payload) :: u64) @ hash payload @ payload)"

definition decode_bookmark_section :: "(bytes \<Rightarrow> bytes) \<Rightarrow> bytes \<Rightarrow> bookmark_section_error + bookmark_table" where
  "decode_bookmark_section hash section =
     (case split_at_checked BOOKMARK_SECTION_HEADER_LEN section of
        None \<Rightarrow> Inl Truncated
      | Some (header, payload) \<Rightarrow>
          if slice header 0x00 0x04 \<noteq> BOOKMARK_SECTION_MAGIC then Inl BadMagic
          else
            let format = from_le (slice header 0x04 0x08);
                recorded = from_le (slice header 0x08 0x10);
                present = of_nat (length payload)
            in if format \<noteq> BOOKMARK_SECTION_FORMAT then Inl (UnsupportedFormat format)
               else if recorded \<noteq> present then Inl (LengthMismatch recorded present)
               else if slice header 0x10 0x30 \<noteq> hash payload then Inl HashMismatch
               else map_err BadPayload (table_decode payload))"

subsection \<open>Rewriting the section of a file\<close>

definition BOOKMARK_UPGRADE_MINIMUM_VERSION :: u32 where
  "BOOKMARK_UPGRADE_MINIMUM_VERSION = 3"

record bookmark_section_write_outcome =
  outcome_header :: bytes
  upgraded_from :: "u32 option"

datatype invalid_replay_file =
    FileTooShort
  | BadHeader header_error
  | PatchLengthOverflows
  | StreamEndOutsideFile u64 nat
  | EndsInsidePatchData

datatype bookmark_section_write_error =
    HeaderChanged
  | NeedsConversion u32
  | InvalidReplayFor invalid_replay_file

text \<open>\<open>seek\<close> and \<open>write_all\<close>, and \<open>set_len\<close>.\<close>

definition write_at :: "nat \<Rightarrow> bytes \<Rightarrow> bytes \<Rightarrow> bytes" where
  "write_at pos bs file =
     take pos file @ replicate (pos - length file) 0 @ bs @ drop (pos + length bs) file"

definition set_len :: "nat \<Rightarrow> bytes \<Rightarrow> bytes" where
  "set_len n file = take n file @ replicate (n - length file) 0"

text \<open>Where the stream ends, and the header to write first if the file is not sealed yet.\<close>

definition seal_header :: "bytes \<Rightarrow> raw_header \<Rightarrow> nat \<Rightarrow>
    bookmark_section_write_error + nat \<times> raw_header option" where
  "seal_header file header packets_start =
     (case packet_stream_end header of
        Some end' \<Rightarrow>
          if unat end' < packets_start \<or> length file < unat end'
          then Inl (InvalidReplayFor (StreamEndOutsideFile end' (length file)))
          else Inr (unat end', None)
      | None \<Rightarrow>
          if length file < packets_start then Inl (InvalidReplayFor EndsInsidePatchData)
          else Inr (length file,
            Some (header\<lparr>replay_version := REPLAY_VERSION_BOOKMARK_SECTION,
                        stream_end_field := of_nat (length file)\<rparr>)))"

definition write_bookmark_section :: "(bytes \<Rightarrow> bytes) \<Rightarrow> bytes \<Rightarrow> bytes option \<Rightarrow> bookmark_table \<Rightarrow>
    bookmark_section_write_error + bookmark_section_write_outcome \<times> bytes" where
  "write_bookmark_section hash file expected_header table =
     (if length file < 2048 then Inl (InvalidReplayFor FileTooShort)
      else
        let header_bytes = take 2048 file;
            header = header_from_bytes header_bytes
        in if (case expected_header of None \<Rightarrow> False
               | Some expected \<Rightarrow> \<not> same_replay_as header (header_from_bytes expected))
           then Inl HeaderChanged
           else
             and_then (map_err (InvalidReplayFor \<circ> BadHeader) (header_parse header)) (\<lambda>_.
             let version = replay_version header
             in if version < BOOKMARK_UPGRADE_MINIMUM_VERSION then Inl (NeedsConversion version)
                else case checked_add 2048 (unat (patch_data_length header)) of
                    None \<Rightarrow> Inl (InvalidReplayFor PatchLengthOverflows)
                  | Some packets_start \<Rightarrow>
                      and_then (seal_header file header packets_start) (\<lambda>(stream_end, new_header).
                      let file = (case new_header of None \<Rightarrow> file | Some h \<Rightarrow> write_at 0 (header_as_bytes h) file);
                          section = encode_bookmark_section hash table;
                          file = write_at stream_end section file;
                          file = set_len (stream_end + length section) file
                      in Inr (\<lparr>outcome_header = (case new_header of None \<Rightarrow> header_bytes | Some h \<Rightarrow> header_as_bytes h),
                               upgraded_from = then_some (version < REPLAY_VERSION_BOOKMARK_SECTION) version\<rparr>,
                              file))))"

subsection \<open>The section\<close>

definition hash_ok :: "(bytes \<Rightarrow> bytes) \<Rightarrow> bool" where
  "hash_ok hash \<longleftrightarrow> (\<forall>x. length (hash x) = 32)"

lemma section_parts:
  assumes "hash_ok hash"
  shows "split_at_checked BOOKMARK_SECTION_HEADER_LEN (encode_bookmark_section hash t) =
    Some (BOOKMARK_SECTION_MAGIC @ to_le 4 BOOKMARK_SECTION_FORMAT @
      to_le 8 (of_nat (length (table_encode t)) :: u64) @ hash (table_encode t), table_encode t)"
  using assms
  by (simp add: split_at_checked_eq_Some encode_bookmark_section_def Let_def hash_ok_def
      BOOKMARK_SECTION_HEADER_LEN_def BOOKMARK_SECTION_MAGIC_def)

lemma magic_len [simp]: "length BOOKMARK_SECTION_MAGIC = 4"
  by (simp add: BOOKMARK_SECTION_MAGIC_def)

text \<open>A section header with any payload behind it.\<close>

lemma decode_with_payload:
  assumes "hash_ok hash" and "length h = 32"
  shows "decode_bookmark_section hash (BOOKMARK_SECTION_MAGIC @ to_le 4 BOOKMARK_SECTION_FORMAT @
      to_le 8 (n :: u64) @ h @ payload) =
    (if n \<noteq> of_nat (length payload) then Inl (LengthMismatch n (of_nat (length payload)))
     else if h \<noteq> hash payload then Inl HashMismatch
     else map_err BadPayload (table_decode payload))"
proof -
  have "split_at_checked BOOKMARK_SECTION_HEADER_LEN (BOOKMARK_SECTION_MAGIC @ to_le 4 BOOKMARK_SECTION_FORMAT @
      to_le 8 n @ h @ payload) =
      Some (BOOKMARK_SECTION_MAGIC @ to_le 4 BOOKMARK_SECTION_FORMAT @ to_le 8 n @ h, payload)"
    using assms by (simp add: split_at_checked_eq_Some BOOKMARK_SECTION_HEADER_LEN_def)
  then show ?thesis
    using assms by (simp add: decode_bookmark_section_def Let_def del: append.simps append_Cons)
qed

theorem bookmark_section_roundtrip:
  assumes "hash_ok hash" and "table_wf t"
  shows "decode_bookmark_section hash (encode_bookmark_section hash t) = Inr (table_normalise t)"
  using assms decode_with_payload [OF assms(1), of "hash (table_encode t)"]
    table_decode_encode [OF assms(2), of "[]"]
  by (simp add: encode_bookmark_section_def Let_def hash_ok_def del: append.simps append_Cons)

text \<open>A section that was cut short, or that something was appended to, is refused.\<close>

theorem bookmark_section_cut:
  assumes "hash_ok hash" and "bytes_ok (table_encode t)"
    and "strict_prefix p (encode_bookmark_section hash t)"
  shows "\<exists>e. decode_bookmark_section hash p = Inl e \<and>
    (e = Truncated \<or> e = LengthMismatch (of_nat (length (table_encode t))) (of_nat (length p - 0x30)))"
proof (cases "length p < 0x30")
  case True
  then show ?thesis
    by (simp add: decode_bookmark_section_def split_at_checked_def BOOKMARK_SECTION_HEADER_LEN_def)
next
  case False
  let ?pre = "BOOKMARK_SECTION_MAGIC @ to_le 4 BOOKMARK_SECTION_FORMAT @
      to_le 8 (of_nat (length (table_encode t)) :: u64) @ hash (table_encode t)"
  have h: "length (hash (table_encode t)) = 32" using assms(1) by (simp add: hash_ok_def)
  have enc: "encode_bookmark_section hash t = ?pre @ table_encode t"
    by (simp add: encode_bookmark_section_def Let_def)
  have "length ?pre = 0x30" using h by simp
  with assms(3) False obtain q where q: "p = ?pre @ q" "strict_prefix q (table_encode t)"
    unfolding enc strict_prefix_append_iff by (auto dest: prefix_length_less)
  have "length q < length (table_encode t)" using q(2) by (rule prefix_length_less)
  then have "(of_nat (length (table_encode t)) :: u64) \<noteq> of_nat (length q)"
    using assms(2) by (metis bytes_ok_def less_trans nat_neq_iff unat_of_nat_u64)
  then have "decode_bookmark_section hash p =
      Inl (LengthMismatch (of_nat (length (table_encode t))) (of_nat (length q)))"
    unfolding q(1) using decode_with_payload [OF assms(1) h, of "of_nat (length (table_encode t))" q] by simp
  moreover have "length p - 0x30 = length q" using q(1) h by simp
  ultimately show ?thesis by simp
qed

subsection \<open>What a rewrite leaves in the file\<close>

lemma take_2048_ok: "2048 \<le> length file \<Longrightarrow> raw_header_ok (header_from_bytes (take 2048 file))"
  by (intro header_from_bytes_ok) simp

lemma seal_header_bounds:
  assumes "seal_header file header start = Inr (e, nh)" and "raw_header_ok header"
  shows "start \<le> e" and "e \<le> length file"
    and "nh = Some h \<Longrightarrow> raw_header_ok h \<and> length (header_as_bytes h) = 2048"
  using assms header_as_bytes_length
  by (auto simp: seal_header_def raw_header_ok_def split: option.splits if_splits)

lemma set_len_write_at:
  assumes "e \<le> length file"
  shows "set_len (e + length s) (write_at e s file) = take e file @ s"
  using assms by (simp add: set_len_def write_at_def)

text \<open>The file afterwards: the header, the patch data and packets as they were, the section.\<close>

lemma write_bookmark_section_file:
  assumes "write_bookmark_section hash file expected t = Inr (out, file')"
  obtains e nh where "seal_header file (header_from_bytes (take 2048 file))
      (2048 + unat (patch_data_length (header_from_bytes (take 2048 file)))) = Inr (e, nh)"
    and "2048 + unat (patch_data_length (header_from_bytes (take 2048 file))) \<le> e" and "e \<le> length file"
    and "outcome_header out = (case nh of None \<Rightarrow> take 2048 file | Some h \<Rightarrow> header_as_bytes h)"
    and "length (outcome_header out) = 2048"
    and "file' = outcome_header out @ drop 2048 (take e file) @ encode_bookmark_section hash t"
    and "2048 \<le> length file"
    and "3 \<le> replay_version (header_from_bytes (take 2048 file))"
    and "\<exists>m. header_parse (header_from_bytes (take 2048 file)) = Inr m"
proof -
  let ?h = "header_from_bytes (take 2048 file)"
  let ?sec = "encode_bookmark_section hash t"
  let ?start = "2048 + unat (patch_data_length ?h)"
  from assms have len: "2048 \<le> length file"
    by (auto simp: write_bookmark_section_def split: if_splits)
  from assms len obtain e nh where seal: "seal_header file ?h ?start = Inr (e, nh)"
    and ver: "\<not> replay_version ?h < BOOKMARK_UPGRADE_MINIMUM_VERSION"
    and parse: "\<exists>m. header_parse ?h = Inr m"
    and out: "outcome_header out = (case nh of None \<Rightarrow> take 2048 file | Some h \<Rightarrow> header_as_bytes h)"
    and f: "file' = set_len (e + length ?sec) (write_at e ?sec
        (case nh of None \<Rightarrow> file | Some h \<Rightarrow> write_at 0 (header_as_bytes h) file))"
    by (auto simp: write_bookmark_section_def Let_def and_then_eq_Inr map_err_eq_Inr checked_add_def
        split: if_splits option.splits)
  note bounds = seal_header_bounds [OF seal take_2048_ok [OF len]]
  have hlen: "length (outcome_header out) = 2048"
    using bounds(3) len unfolding out by (auto split: option.splits)
  have f1: "(case nh of None \<Rightarrow> file | Some h \<Rightarrow> write_at 0 (header_as_bytes h) file) =
      outcome_header out @ drop 2048 file"
    using bounds(3) unfolding out by (auto simp: write_at_def split: option.splits)
  have e: "2048 \<le> e" "e \<le> length file" using bounds by simp_all
  have "take e (outcome_header out @ drop 2048 file) = outcome_header out @ drop 2048 (take e file)"
    using e hlen by (simp add: drop_take)
  then have "file' = outcome_header out @ drop 2048 (take e file) @ ?sec"
    using e hlen len set_len_write_at [of e "outcome_header out @ drop 2048 file" ?sec]
    unfolding f f1 by simp
  with seal bounds(1,2) out hlen len ver parse show ?thesis
    by (intro that) (simp_all add: BOOKMARK_UPGRADE_MINIMUM_VERSION_def not_less)
qed

lemma sealed_header:
  assumes "seal_header file header start = Inr (e, nh)" and "0 < e" and "length file < usize_limit"
  shows "packet_stream_end (case nh of None \<Rightarrow> header | Some h \<Rightarrow> h) = Some (of_nat e)"
    and "same_replay_as header (case nh of None \<Rightarrow> header | Some h \<Rightarrow> h)"
    and "replay_version (case nh of None \<Rightarrow> header | Some h \<Rightarrow> h) =
      (if packet_stream_end header = None then REPLAY_VERSION_BOOKMARK_SECTION else replay_version header)"
proof -
  have "(of_nat (length file) :: u64) \<noteq> 0" if "0 < length file"
    using that assms(3) by (metis less_numeral_extra(3) unat_0 unat_of_nat_u64)
  with assms show "packet_stream_end (case nh of None \<Rightarrow> header | Some h \<Rightarrow> h) = Some (of_nat e)"
    and "replay_version (case nh of None \<Rightarrow> header | Some h \<Rightarrow> h) =
      (if packet_stream_end header = None then REPLAY_VERSION_BOOKMARK_SECTION else replay_version header)"
    by (auto simp: seal_header_def packet_stream_end_def [of "_\<lparr>stream_end_field := _\<rparr>"]
        split: option.splits if_splits)
  show "same_replay_as header (case nh of None \<Rightarrow> header | Some h \<Rightarrow> h)"
    using assms by (auto simp: seal_header_def same_replay_as_def split: option.splits if_splits)
qed

theorem write_bookmark_section_correct:
  assumes "write_bookmark_section hash file expected t = Inr (out, file')"
    and "hash_ok hash" and "table_wf t" and "length file < usize_limit"
  shows "\<exists>e. packet_stream_end (header_from_bytes (take 2048 file')) = Some (of_nat e) \<and>
      2048 \<le> e \<and> e \<le> length file \<and>
      drop 2048 (take e file') = drop 2048 (take e file) \<and>
      decode_bookmark_section hash (drop e file') = Inr (table_normalise t) \<and>
      take 2048 file' = outcome_header out \<and>
      same_replay_as (header_from_bytes (take 2048 file)) (header_from_bytes (take 2048 file'))"
proof -
  obtain e nh where w: "seal_header file (header_from_bytes (take 2048 file))
      (2048 + unat (patch_data_length (header_from_bytes (take 2048 file)))) = Inr (e, nh)"
    "2048 + unat (patch_data_length (header_from_bytes (take 2048 file))) \<le> e" "e \<le> length file"
    "outcome_header out = (case nh of None \<Rightarrow> take 2048 file | Some h \<Rightarrow> header_as_bytes h)"
    "length (outcome_header out) = 2048"
    "file' = outcome_header out @ drop 2048 (take e file) @ encode_bookmark_section hash t"
    "2048 \<le> length file"
    using write_bookmark_section_file [OF assms(1)] by metis
  note h_ok = take_2048_ok [OF w(7)]
  have e: "0 < e" "2048 \<le> e" using w(2) by simp_all
  have hd: "take 2048 file' = outcome_header out" using w(5) unfolding w(6) by simp
  have new: "header_from_bytes (outcome_header out) =
      (case nh of None \<Rightarrow> header_from_bytes (take 2048 file) | Some h \<Rightarrow> h)"
    using seal_header_bounds(3) [OF w(1) h_ok] header_from_as_bytes
    unfolding w(4) by (auto split: option.splits)
  have cut: "length (outcome_header out @ drop 2048 (take e file)) = e"
    using e w(3,5) by simp
  have "file' = (outcome_header out @ drop 2048 (take e file)) @ encode_bookmark_section hash t"
    unfolding w(6) by simp
  then have "take e file' = outcome_header out @ drop 2048 (take e file)"
    and sec: "drop e file' = encode_bookmark_section hash t"
    using cut by (metis append_eq_conv_conj)+
  then have "drop 2048 (take e file') = drop 2048 (take e file)" using w(5) by simp
  then show ?thesis
    using hd new e w(3) sealed_header [OF w(1) e(1) assms(4)] sec
      bookmark_section_roundtrip [OF assms(2,3)]
    by (intro exI [of _ e]) simp
qed

text \<open>
  A file whose recording was never closed gets version 5, whatever version it had before: for
  a file of version 6 or newer this is a step back.
\<close>

theorem write_bookmark_section_version:
  assumes "write_bookmark_section hash file expected t = Inr (out, file')"
    and "length file < usize_limit"
  shows "replay_version (header_from_bytes (outcome_header out)) =
    (if packet_stream_end (header_from_bytes (take 2048 file)) = None then 5
     else replay_version (header_from_bytes (take 2048 file)))"
proof -
  obtain e nh where w: "seal_header file (header_from_bytes (take 2048 file))
      (2048 + unat (patch_data_length (header_from_bytes (take 2048 file)))) = Inr (e, nh)"
    "2048 + unat (patch_data_length (header_from_bytes (take 2048 file))) \<le> e"
    "outcome_header out = (case nh of None \<Rightarrow> take 2048 file | Some h \<Rightarrow> header_as_bytes h)"
    "2048 \<le> length file"
    using write_bookmark_section_file [OF assms(1)] by metis
  have new: "header_from_bytes (outcome_header out) =
      (case nh of None \<Rightarrow> header_from_bytes (take 2048 file) | Some h \<Rightarrow> h)"
    using seal_header_bounds(3) [OF w(1) take_2048_ok [OF w(4)]] header_from_as_bytes
    unfolding w(3) by (auto split: option.splits)
  show ?thesis
    using sealed_header(3) [OF w(1) _ assms(2)] w(2)
    by (simp add: new REPLAY_VERSION_BOOKMARK_SECTION_def)
qed

end
