(* ===== verification/Keyframe_Masks.thy ===== *)
theory Keyframe_Masks
  imports Header
begin

text \<open>
  The transient-buffer masks of delta keyframes, from
  \<open>supershuckie-replay-recorder/src/keyframe_masks.rs\<close>: where the output-only buffers of a
  save state are, and copying them forward from the previous keyframe.
\<close>

subsection \<open>Layout constants\<close>

definition MELN_MAGIC :: bytes where "MELN_MAGIC = [0x4D, 0x45, 0x4C, 0x4E]"
definition MELN_MAJOR :: u16 where "MELN_MAJOR = 13"
definition MELN_HEADER_LEN :: nat where "MELN_HEADER_LEN = 16"
definition MELN_SECTION_HEADER_LEN :: nat where "MELN_SECTION_HEADER_LEN = 16"
definition GP3D_MAGIC :: bytes where "GP3D_MAGIC = [0x47, 0x50, 0x33, 0x44]"
definition GP3D_SECTION_LEN :: nat where "GP3D_SECTION_LEN = 1572864"
definition GP3D_VERTEX_RAM_OFFSET :: nat where "GP3D_VERTEX_RAM_OFFSET = 7409"
definition GP3D_TRANSIENT_LEN :: nat where "GP3D_TRANSIENT_LEN = 12288 * 64 + 4096 * 188"
definition GBA_STATE_LEN :: nat where "GBA_STATE_LEN = 0x61000"
definition GBA_MAGIC :: u32 where "GBA_MAGIC = 0x01000000"
definition GBA_IWRAM_OFFSET :: nat where "GBA_IWRAM_OFFSET = 0x19000"
definition GBA_IWRAM_BASE :: u32 where "GBA_IWRAM_BASE = 0x03000000"
definition GBA_IWRAM_SIZE :: u32 where "GBA_IWRAM_SIZE = 0x8000"
definition M4A_SOUND_INFO_POINTER :: u32 where "M4A_SOUND_INFO_POINTER = 0x03007FF0"
definition M4A_SOUND_INFO_IDENT :: u32 where "M4A_SOUND_INFO_IDENT = 0x68736D53"
definition M4A_SOUND_INFO_SIZE :: u32 where "M4A_SOUND_INFO_SIZE = 0xFB0"
definition M4A_PCM_BUFFER_OFFSET :: nat where "M4A_PCM_BUFFER_OFFSET = 0x350"
definition M4A_PCM_BUFFER_LEN :: nat where "M4A_PCM_BUFFER_LEN = 0xC60"

lemmas mask_constants =
  MELN_HEADER_LEN_def MELN_SECTION_HEADER_LEN_def GP3D_SECTION_LEN_def GP3D_VERTEX_RAM_OFFSET_def
  GP3D_TRANSIENT_LEN_def GBA_STATE_LEN_def GBA_IWRAM_OFFSET_def GBA_IWRAM_BASE_def GBA_IWRAM_SIZE_def
  M4A_SOUND_INFO_POINTER_def M4A_SOUND_INFO_SIZE_def M4A_PCM_BUFFER_OFFSET_def M4A_PCM_BUFFER_LEN_def

subsection \<open>Finding the buffers\<close>

text \<open>\<open>state.get(a..b)\<close>.\<close>

definition get_range :: "bytes \<Rightarrow> nat \<Rightarrow> nat \<Rightarrow> bytes option" where
  "get_range state a b = (if a \<le> b \<and> b \<le> length state then Some (slice state a b) else None)"

definition u32_le :: "bytes \<Rightarrow> nat \<Rightarrow> u32 option" where
  "u32_le state offset = map_option from_le (get_range state offset (offset + 4))"

function nds_sections :: "bytes \<Rightarrow> nat \<Rightarrow> (nat \<times> nat) option" where
  "nds_sections state offset =
     (case get_range state offset (offset + MELN_SECTION_HEADER_LEN) of
        None \<Rightarrow> None
      | Some header \<Rightarrow>
          let section_len = unat (from_le (slice header 4 8) :: u32)
          in if section_len < MELN_SECTION_HEADER_LEN then None
             else if slice header 0 4 = GP3D_MAGIC then
               (if section_len \<noteq> GP3D_SECTION_LEN then None
                else case checked_add offset section_len of
                    None \<Rightarrow> None
                  | Some end' \<Rightarrow>
                      if length state < end' then None
                      else let start = offset + GP3D_VERTEX_RAM_OFFSET
                        in Some (start, start + GP3D_TRANSIENT_LEN))
             else (case checked_add offset section_len of
                 None \<Rightarrow> None
               | Some offset' \<Rightarrow> nds_sections state offset'))"
  by auto
termination
  by (relation "measure (\<lambda>(state, offset). length state - offset)")
    (auto simp: get_range_def checked_add_def MELN_SECTION_HEADER_LEN_def split: if_splits)

declare nds_sections.simps [simp del]

definition nds_transient_range :: "bytes \<Rightarrow> (nat \<times> nat) option" where
  "nds_transient_range state =
     (case get_range state 0 4 of
        None \<Rightarrow> None
      | Some magic \<Rightarrow>
          if magic \<noteq> MELN_MAGIC then None
          else case get_range state 4 6 of
              None \<Rightarrow> None
            | Some major \<Rightarrow>
                if from_le major \<noteq> MELN_MAJOR then None
                else nds_sections state MELN_HEADER_LEN)"

text \<open>\<open>u32::checked_add\<close>.\<close>

definition checked_add_u32 :: "u32 \<Rightarrow> u32 \<Rightarrow> u32 option" where
  "checked_add_u32 a b = (if unat a + unat b < 2 ^ 32 then Some (a + b) else None)"

definition gba_transient_range :: "bytes \<Rightarrow> (nat \<times> nat) option" where
  "gba_transient_range state =
     (if length state < GBA_STATE_LEN then None
      else case u32_le state 0 of
          None \<Rightarrow> None
        | Some magic \<Rightarrow>
            if and magic 0xFFFF0000 \<noteq> GBA_MAGIC then None
            else case u32_le state (GBA_IWRAM_OFFSET + unat (M4A_SOUND_INFO_POINTER - GBA_IWRAM_BASE)) of
                None \<Rightarrow> None
              | Some pointer \<Rightarrow>
                  if pointer < GBA_IWRAM_BASE then None
                  else case checked_add_u32 pointer M4A_SOUND_INFO_SIZE of
                      None \<Rightarrow> None
                    | Some end' \<Rightarrow>
                        if GBA_IWRAM_BASE + GBA_IWRAM_SIZE < end' then None
                        else
                          let sound_info = GBA_IWRAM_OFFSET + unat (pointer - GBA_IWRAM_BASE)
                          in case u32_le state sound_info of
                              None \<Rightarrow> None
                            | Some ident \<Rightarrow>
                                if ident \<noteq> M4A_SOUND_INFO_IDENT then None
                                else let start = sound_info + M4A_PCM_BUFFER_OFFSET
                                  in Some (start, start + M4A_PCM_BUFFER_LEN))"

definition transient_ranges :: "replay_console_type \<Rightarrow> bytes \<Rightarrow> (nat \<times> nat) list" where
  "transient_ranges console state =
     (case (case console of
         NintendoDS \<Rightarrow> nds_transient_range state
       | GameBoyAdvance \<Rightarrow> gba_transient_range state
       | _ \<Rightarrow> None) of
        None \<Rightarrow> []
      | Some r \<Rightarrow> [r])"

subsection \<open>Masking\<close>

text \<open>The loop over the ranges. None is the panic of a slice out of bounds.\<close>

fun mask_ranges :: "bytes \<Rightarrow> bytes \<Rightarrow> (nat \<times> nat) list \<Rightarrow> (((nat \<times> nat) \<times> bytes) list \<times> bytes) option" where
  "mask_ranges prev cur [] = Some ([], cur)"
| "mask_ranges prev cur ((a, b) # ranges) =
     (case get_range cur a b of
        None \<Rightarrow> None
      | Some original \<Rightarrow>
          (case get_range prev a b of
             None \<Rightarrow> None
           | Some replacement \<Rightarrow>
               (case copy_slice a replacement cur of
                  None \<Rightarrow> None
                | Some cur' \<Rightarrow>
                    map_option (\<lambda>(overwritten, out). (((a, b), original) # overwritten, out))
                      (mask_ranges prev cur' ranges))))"

text \<open>What was overwritten, and the state afterwards.\<close>

definition apply_masks :: "replay_console_type \<Rightarrow> bytes \<Rightarrow> bytes \<Rightarrow> (((nat \<times> nat) \<times> bytes) list \<times> bytes) option" where
  "apply_masks console prev cur =
     (if length prev \<noteq> length cur then Some ([], cur)
      else
        let ranges = transient_ranges console cur
        in if ranges = [] \<or> ranges \<noteq> transient_ranges console prev then Some ([], cur)
           else mask_ranges prev cur ranges)"

text \<open>What the recorder does before it stores a full keyframe after all.\<close>

fun restore_masks :: "((nat \<times> nat) \<times> bytes) list \<Rightarrow> bytes \<Rightarrow> bytes" where
  "restore_masks [] cur = cur"
| "restore_masks (((a, b), original) # rest) cur = restore_masks rest (take a cur @ original @ drop b cur)"

subsection \<open>Correctness\<close>

lemma nds_sections_bounds:
  "nds_sections state offset = Some (a, b) \<Longrightarrow> offset \<le> a \<and> a \<le> b \<and> b \<le> length state \<and> b - a = 1556480"
proof (induction "length state - offset" arbitrary: offset rule: less_induct)
  case less
  let ?n = "\<lambda>header. unat (from_le (slice header 4 8) :: u32)"
  from less.prems [unfolded nds_sections.simps [of state offset]] obtain header where
    "get_range state offset (offset + 16) = Some header" and n: "16 \<le> ?n header" and
    step: "(?n header = 1572864 \<and> offset + ?n header \<le> length state \<and> a = offset + 7409 \<and> b = a + 1556480) \<or>
      nds_sections state (offset + ?n header) = Some (a, b)"
    by (auto simp: Let_def checked_add_def mask_constants not_less split: option.splits if_splits)
  then have "offset + 16 \<le> length state" by (simp add: get_range_def split: if_splits)
  with n have "length state - (offset + ?n header) < length state - offset" by simp
  with step less.hyps [of "offset + ?n header"] show ?case by fastforce
qed

lemma gba_transient_bounds:
  assumes "gba_transient_range state = Some (a, b)"
  shows "a \<le> b \<and> b \<le> length state \<and> b - a = 0xC60"
proof -
  from assms obtain pointer :: u32 where p: "GBA_IWRAM_BASE \<le> pointer"
    "unat pointer + unat M4A_SOUND_INFO_SIZE < 2 ^ 32"
    "pointer + M4A_SOUND_INFO_SIZE \<le> GBA_IWRAM_BASE + GBA_IWRAM_SIZE"
    and len: "GBA_STATE_LEN \<le> length state"
    and a: "a = GBA_IWRAM_OFFSET + unat (pointer - GBA_IWRAM_BASE) + M4A_PCM_BUFFER_OFFSET"
    and b: "b = a + M4A_PCM_BUFFER_LEN"
    by (auto simp: gba_transient_range_def Let_def checked_add_u32_def not_less
        split: option.splits if_splits)
  have "unat (pointer + M4A_SOUND_INFO_SIZE) = unat pointer + unat M4A_SOUND_INFO_SIZE"
    using p(2) by (simp add: unat_word_ariths)
  moreover have "unat (pointer - GBA_IWRAM_BASE) = unat pointer - unat GBA_IWRAM_BASE"
    using p(1) by (simp add: unat_sub)
  moreover obtain d where d: "unat pointer = unat GBA_IWRAM_BASE + d"
    using p(1) le_Suc_ex unfolding word_le_nat_alt by blast
  ultimately show ?thesis
    using p(3) len unfolding a b
    by (simp add: word_le_nat_alt mask_constants)
qed

lemma nds_transient_bounds:
  "nds_transient_range state = Some (a, b) \<Longrightarrow> a \<le> b \<and> b \<le> length state"
  by (auto simp: nds_transient_range_def dest: nds_sections_bounds split: option.splits if_splits)

theorem transient_ranges_bounds:
  assumes "(a, b) \<in> set (transient_ranges console state)"
  shows "a \<le> b \<and> b \<le> length state"
proof (cases console)
  case NintendoDS
  with assms nds_transient_bounds [of state a b] show ?thesis
    by (auto simp: transient_ranges_def split: option.splits)
next
  case GameBoyAdvance
  with assms gba_transient_bounds [of state a b] show ?thesis
    by (auto simp: transient_ranges_def split: option.splits)
qed (use assms in \<open>simp_all add: transient_ranges_def\<close>)

lemma apply_masks_cases:
  obtains "apply_masks console prev cur = Some ([], cur)"
  | a b where "length prev = length cur" and "a \<le> b" and "b \<le> length cur"
    and "transient_ranges console cur = [(a, b)]"
    and "apply_masks console prev cur =
      Some ([((a, b), slice cur a b)], take a cur @ slice prev a b @ drop b cur)"
proof (cases "length prev \<noteq> length cur \<or> transient_ranges console cur = [] \<or>
    transient_ranges console cur \<noteq> transient_ranges console prev")
  case True
  then show ?thesis by (intro that(1)) (auto simp: apply_masks_def Let_def)
next
  case False
  then obtain a b where r: "transient_ranges console cur = [(a, b)]"
    by (auto simp: transient_ranges_def split: option.splits)
  with transient_ranges_bounds [of a b console cur] have ab: "a \<le> b" "b \<le> length cur" by simp_all
  have "mask_ranges prev cur [(a, b)] = Some ([((a, b), slice cur a b)], take a cur @ slice prev a b @ drop b cur)"
    using False ab by (simp add: get_range_def copy_slice_def)
  then have "apply_masks console prev cur =
      Some ([((a, b), slice cur a b)], take a cur @ slice prev a b @ drop b cur)"
    using False r unfolding apply_masks_def Let_def by (metis (no_types, lifting))
  with False r ab show ?thesis by (intro that(2) [of a b]) simp_all
qed

lemma slice_middle:
  assumes "a \<le> b" and "b \<le> length cur"
  shows "take a cur @ slice cur a b @ drop b cur = cur"
proof -
  have "slice cur 0 a @ slice cur a b @ slice cur b (length cur) = slice cur 0 (length cur)"
    using assms by (simp add: slice_join slice_join')
  then show ?thesis by (simp add: slice_def)
qed

text \<open>Masking never panics, keeps the length, and restoring gives back the exact state.\<close>

theorem apply_masks_restore:
  "\<exists>overwritten out. apply_masks console prev cur = Some (overwritten, out) \<and>
     length out = length cur \<and> restore_masks overwritten out = cur"
proof (cases rule: apply_masks_cases [of console prev cur])
  case 1
  then show ?thesis by simp
next
  case (2 a b)
  then have "length (take a cur @ slice prev a b @ drop b cur) = length cur"
    and "restore_masks [((a, b), slice cur a b)] (take a cur @ slice prev a b @ drop b cur) = cur"
    using slice_middle [of a b cur] by simp_all
  with 2 show ?thesis by blast
qed

end
