(* ===== verification/Stored_Keyframe.thy ===== *)
theory Stored_Keyframe
  imports Region_Diff Slices "HOL-Library.Product_Lexorder"
begin

text \<open>
  Payloads of Nintendo 3DS delta keyframes, from
  \<open>supershuckie-replay-recorder/src/replay_file/stored_keyframe.rs\<close>: the v8 and v9 layouts,
  the ROM copies spliced into the data stream, and merging of ROM ranges.
\<close>

unbundle bit_operations_syntax

subsection \<open>Zigzag integers\<close>

definition zigzag :: "u64 \<Rightarrow> u64" where
  "zigzag value = push_bit 1 value XOR signed_drop_bit 63 value"

definition unzigzag :: "u64 \<Rightarrow> u64" where
  "unzigzag value = drop_bit 1 value XOR - (value AND 1)"

lemma zigzag_sign: "signed_drop_bit 63 (v :: u64) = (if bit v 63 then - 1 else 0)"
proof (rule bit_word_eqI)
  fix n
  assume "n < LENGTH(64)"
  then show "bit (signed_drop_bit 63 v) n = bit (if bit v 63 then - 1 else 0 :: u64) n"
    by (cases n) (auto simp: bit_signed_drop_bit_iff)
qed

lemma unzigzag_zigzag [simp]: "unzigzag (zigzag v) = v"
proof -
  have b0: "bit (zigzag v) 0 = bit v 63"
    by (simp only: zigzag_def zigzag_sign bit_xor_iff bit_push_bit_iff) simp
  have low: "zigzag v AND 1 = (if bit v 63 then 1 else 0)"
    using b0 by (simp add: and_one_eq mod_2_eq_odd bit_0)
  show ?thesis
  proof (rule bit_word_eqI)
    fix n
    assume n: "n < LENGTH(64)"
    have "bit (unzigzag (zigzag v)) n =
        ((Suc n < 64 \<and> bit (zigzag v) (Suc n)) \<noteq> bit v 63)"
      using n unfolding unzigzag_def low
      by (auto simp: bit_xor_iff bit_drop_bit_eq dest: bit_imp_le_length)
    also have "\<dots> = bit v n"
    proof (cases "n = 63")
      case False
      with n show ?thesis
        by (simp only: zigzag_def zigzag_sign bit_xor_iff bit_push_bit_iff) auto
    qed simp
    finally show "bit (unzigzag (zigzag v)) n = bit v n" .
  qed
qed

subsection \<open>Payloads\<close>

record rom_copy =
  data_offset :: nat
  rom_offset :: u64
  copy_len :: nat

datatype payload_error =
    PayloadTooShort
  | ControlTruncated
  | ControlLengthTooLarge
  | RefsTruncated
  | RefsLengthTooLarge
  | RomMissing
  | RefsMalformed
  | RefsTooLarge
  | RefPastLiteral
  | CopyOutsideRom

definition encode_payload_v8 :: "bytes \<Rightarrow> bytes \<Rightarrow> bytes" where
  "encode_payload_v8 control data = to_le 8 (of_nat (length control) :: u64) @ control @ data"

definition split_payload_v8 :: "bytes \<Rightarrow> payload_error + bytes \<times> bytes" where
  "split_payload_v8 payload =
     (case split_at_checked 8 payload of
        None \<Rightarrow> Inl PayloadTooShort
      | Some (len_bytes, rest) \<Rightarrow>
          (case usize_try_from (from_le len_bytes) of
             None \<Rightarrow> Inl ControlLengthTooLarge
           | Some control_len \<Rightarrow>
               (case split_at_checked control_len rest of
                  None \<Rightarrow> Inl ControlTruncated
                | Some (control, data) \<Rightarrow> Inr (control, data))))"

text \<open>The loop over the copies: the reference stream and the literal bytes.\<close>

fun encode_refs :: "bytes \<Rightarrow> nat \<Rightarrow> u64 \<Rightarrow> rom_copy list \<Rightarrow> bytes \<times> bytes" where
  "encode_refs data data_pos rom_pos [] = ([], drop data_pos data)"
| "encode_refs data data_pos rom_pos (c # cs) =
     (let (refs, literal) = encode_refs data (data_offset c + copy_len c)
            (rom_offset c + of_nat (copy_len c)) cs
      in (write_leb128 (of_nat (data_offset c - data_pos)) @
          write_leb128 (zigzag (rom_offset c - rom_pos)) @
          write_leb128 (of_nat (copy_len c)) @ refs,
          slice data data_pos (data_offset c) @ literal))"

definition encode_payload_v9 :: "bytes \<Rightarrow> bytes \<Rightarrow> rom_copy list \<Rightarrow> bytes" where
  "encode_payload_v9 control data copies =
     (let (refs, literal) = encode_refs data 0 0 copies
      in to_le 8 (of_nat (length control) :: u64) @ to_le 8 (of_nat (length refs) :: u64) @
         control @ refs @ literal)"

record payload_v9 =
  p9_control :: bytes
  p9_refs :: bytes
  p9_literal :: bytes

definition split_payload_v9 :: "bytes \<Rightarrow> payload_error + payload_v9" where
  "split_payload_v9 payload =
     (case split_at_checked 16 payload of
        None \<Rightarrow> Inl PayloadTooShort
      | Some (lens, rest) \<Rightarrow>
          (case usize_try_from (from_le (take 8 lens)) of
             None \<Rightarrow> Inl ControlLengthTooLarge
           | Some control_len \<Rightarrow>
               (case usize_try_from (from_le (drop 8 lens)) of
                  None \<Rightarrow> Inl RefsLengthTooLarge
                | Some refs_len \<Rightarrow>
                    (case split_at_checked control_len rest of
                       None \<Rightarrow> Inl ControlTruncated
                     | Some (control, rest) \<Rightarrow>
                         (case split_at_checked refs_len rest of
                            None \<Rightarrow> Inl RefsTruncated
                          | Some (refs, literal) \<Rightarrow>
                              Inr \<lparr>p9_control = control, p9_refs = refs, p9_literal = literal\<rparr>)))))"

definition read_triple :: "bytes \<Rightarrow> ((u64 \<times> u64 \<times> u64) \<times> bytes) option" where
  "read_triple refs =
     (case read_leb128 refs of
        None \<Rightarrow> None
      | Some (gap, r1) \<Rightarrow>
          (case read_leb128 r1 of
             None \<Rightarrow> None
           | Some (delta, r2) \<Rightarrow>
               (case read_leb128 r2 of
                  None \<Rightarrow> None
                | Some (len, r3) \<Rightarrow> Some ((gap, delta, len), r3))))"

lemma read_triple_shorter [simp]: "read_triple refs = Some (t, rest) \<Longrightarrow> length rest < length refs"
  by (auto simp: read_triple_def dest!: read_leb128_shorter split: option.splits)

text \<open>The bytes \<open>start .. start + len\<close> of the ROM.\<close>

definition rom_bytes :: "bytes \<Rightarrow> u64 \<Rightarrow> nat \<Rightarrow> bytes option" where
  "rom_bytes rom start len =
     (case usize_try_from start of
        None \<Rightarrow> None
      | Some s \<Rightarrow>
          (case checked_add s len of
             None \<Rightarrow> None
           | Some e \<Rightarrow> if e \<le> length rom then Some (slice rom s e) else None))"

function data_loop :: "bytes \<Rightarrow> u64 \<Rightarrow> bytes \<Rightarrow> bytes \<Rightarrow> payload_error + bytes" where
  "data_loop rom rom_pos refs literal =
     (if refs = [] then Inr literal
      else case read_triple refs of
          None \<Rightarrow> Inl RefsMalformed
        | Some ((gap_w, delta, len_w), refs') \<Rightarrow>
            (case usize_try_from gap_w of
               None \<Rightarrow> Inl RefsTooLarge
             | Some gap \<Rightarrow>
                 (case usize_try_from len_w of
                    None \<Rightarrow> Inl RefsTooLarge
                  | Some len \<Rightarrow>
                      (case split_at_checked gap literal of
                         None \<Rightarrow> Inl RefPastLiteral
                       | Some (before, rest) \<Rightarrow>
                           let start = rom_pos + unzigzag delta
                           in case rom_bytes rom start len of
                               None \<Rightarrow> Inl CopyOutsideRom
                             | Some copied \<Rightarrow>
                                 (case data_loop rom (start + len_w) refs' rest of
                                    Inl e \<Rightarrow> Inl e
                                  | Inr out \<Rightarrow> Inr (before @ copied @ out))))))"
  by auto
termination
  by (relation "measure (\<lambda>(_, _, refs, _). length refs)") auto

declare data_loop.simps [simp del]

definition data_into :: "payload_v9 \<Rightarrow> bytes option \<Rightarrow> payload_error + bytes" where
  "data_into p rom =
     (if p9_refs p = [] then Inr (p9_literal p)
      else case rom of
          None \<Rightarrow> Inl RomMissing
        | Some rom \<Rightarrow> data_loop rom 0 (p9_refs p) (p9_literal p))"

subsection \<open>Merging ROM ranges\<close>

fun merge_sorted :: "(u64 \<times> u64) list \<Rightarrow> (u64 \<times> u64) list \<Rightarrow> (u64 \<times> u64) list" where
  "merge_sorted merged [] = rev merged"
| "merge_sorted merged ((start, len) # rs) =
     (let end' = saturating_add start len
      in case merged of
          (last_start, last_len) # before \<Rightarrow>
            if start \<le> last_start + last_len
            then merge_sorted ((last_start, max last_len (end' - last_start)) # before) rs
            else merge_sorted ((start, len) # merged) rs
        | [] \<Rightarrow> merge_sorted ((start, len) # merged) rs)"

definition merge_ranges :: "(u64 \<times> u64) list \<Rightarrow> (u64 \<times> u64) list" where
  "merge_ranges ranges = merge_sorted [] (sort (filter (\<lambda>(_, len). 0 < len) ranges))"

subsection \<open>Reading back what was written\<close>

lemma split_encode_v8:
  "length control < usize_limit \<Longrightarrow> split_payload_v8 (encode_payload_v8 control data) = Inr (control, data)"
  by (simp add: split_payload_v8_def encode_payload_v8_def)

text \<open>What the recorder guarantees of the copies it passes.\<close>

fun copies_ok :: "bytes \<Rightarrow> bytes \<Rightarrow> nat \<Rightarrow> rom_copy list \<Rightarrow> bool" where
  "copies_ok data rom pos [] \<longleftrightarrow> pos \<le> length data"
| "copies_ok data rom pos (c # cs) \<longleftrightarrow>
     pos \<le> data_offset c \<and> data_offset c + copy_len c \<le> length data \<and>
     unat (rom_offset c) + copy_len c \<le> length rom \<and>
     slice data (data_offset c) (data_offset c + copy_len c) =
       slice rom (unat (rom_offset c)) (unat (rom_offset c) + copy_len c) \<and>
     copies_ok data rom (data_offset c + copy_len c) cs"

lemma copies_ok_le: "copies_ok data rom pos cs \<Longrightarrow> pos \<le> length data"
  by (induction cs arbitrary: pos) auto

lemma read_triple_write:
  "read_triple (write_leb128 a @ write_leb128 b @ write_leb128 c @ rest) = Some ((a, b, c), rest)"
  by (simp add: read_triple_def read_write_leb128)

lemma slice_drop_join:
  assumes "pos \<le> a" and "a \<le> length data"
  shows "slice data pos a @ drop a data = drop pos data"
  using assms by (metis append_take_drop_id drop_drop le_add_diff_inverse2 slice_def)

lemma data_loop_refs:
  assumes "copies_ok data rom pos cs" and "length data < usize_limit" and "length rom < usize_limit"
    and "encode_refs data pos rom_pos cs = (refs, literal)"
  shows "data_loop rom rom_pos refs literal = Inr (drop pos data)"
  using assms(1,4)
proof (induction cs arbitrary: pos rom_pos refs literal)
  case Nil
  then show ?case by (simp add: data_loop.simps)
next
  case (Cons c cs)
  let ?pos = "data_offset c + copy_len c" and ?rom = "rom_offset c + of_nat (copy_len c)"
  obtain refs' literal' where rec: "encode_refs data ?pos ?rom cs = (refs', literal')" by fastforce
  with Cons.prems(2) have r: "refs = write_leb128 (of_nat (data_offset c - pos)) @
        write_leb128 (zigzag (rom_offset c - rom_pos)) @ write_leb128 (of_nat (copy_len c)) @ refs'"
    and l: "literal = slice data pos (data_offset c) @ literal'" by auto
  from Cons.prems(1) have ok: "pos \<le> data_offset c" "?pos \<le> length data"
    "unat (rom_offset c) + copy_len c \<le> length rom"
    "slice data (data_offset c) ?pos = slice rom (unat (rom_offset c)) (unat (rom_offset c) + copy_len c)"
    "copies_ok data rom ?pos cs" by simp_all
  have small: "unat (of_nat (data_offset c - pos) :: u64) = data_offset c - pos"
    "unat (of_nat (copy_len c) :: u64) = copy_len c"
    using ok assms(2) by (intro unat_of_nat_u64; linarith)+
  have gap: "split_at_checked (data_offset c - pos) literal = Some (slice data pos (data_offset c), literal')"
    using ok unfolding l by (intro split_at_checked_append) (simp add: slice_def)
  have rb: "rom_bytes rom (rom_offset c) (copy_len c) = Some (slice data (data_offset c) ?pos)"
    using ok assms(3) by (simp add: rom_bytes_def checked_add_def)
  have IH: "data_loop rom ?rom refs' literal' = Inr (drop ?pos data)"
    by (rule Cons.IH [OF ok(5) rec])
  have "data_loop rom rom_pos refs literal =
      Inr (slice data pos (data_offset c) @ slice data (data_offset c) ?pos @ drop ?pos data)"
    using small gap rb IH unfolding r
    by (subst data_loop.simps) (simp add: read_triple_write Let_def)
  also have "slice data (data_offset c) ?pos @ drop ?pos data = drop (data_offset c) data"
    using ok by (intro slice_drop_join) simp_all
  also have "slice data pos (data_offset c) @ drop (data_offset c) data = drop pos data"
    using ok by (intro slice_drop_join) simp_all
  finally show ?case .
qed

theorem payload_v9_roundtrip:
  assumes "copies_ok data rom 0 copies" and "length control < usize_limit"
    and "length data < usize_limit" and "length rom < usize_limit"
    and "length (fst (encode_refs data 0 0 copies)) < usize_limit"
  shows "\<exists>p. split_payload_v9 (encode_payload_v9 control data copies) = Inr p \<and>
    p9_control p = control \<and> data_into p (Some rom) = Inr data"
proof -
  obtain refs literal where e: "encode_refs data 0 0 copies = (refs, literal)" by fastforce
  have "split_at_checked 16 (encode_payload_v9 control data copies) =
      Some (to_le 8 (of_nat (length control) :: u64) @ to_le 8 (of_nat (length refs) :: u64), control @ refs @ literal)"
    by (simp add: encode_payload_v9_def e split_at_checked_eq_Some)
  then have "split_payload_v9 (encode_payload_v9 control data copies) =
      Inr \<lparr>p9_control = control, p9_refs = refs, p9_literal = literal\<rparr>"
    using assms(2,5) e by (simp add: split_payload_v9_def)
  moreover have "data_into \<lparr>p9_control = control, p9_refs = refs, p9_literal = literal\<rparr> (Some rom) = Inr data"
    using data_loop_refs [OF assms(1,3,4) e] by (auto simp: data_into_def data_loop.simps)
  ultimately show ?thesis by simp
qed

subsection \<open>Merged ranges\<close>

definition range_set :: "u64 \<times> u64 \<Rightarrow> nat set" where
  "range_set r = {unat (fst r) ..< unat (fst r) + unat (snd r)}"

definition range_ok :: "u64 \<times> u64 \<Rightarrow> bool" where
  "range_ok r \<longleftrightarrow> 0 < unat (snd r) \<and> unat (fst r) + unat (snd r) < 2 ^ 64"

text \<open>Sorted, and with a gap between each range and the next.\<close>

fun separated :: "(u64 \<times> u64) list \<Rightarrow> bool" where
  "separated [] = True"
| "separated [r] = True"
| "separated (r # r' # rs) \<longleftrightarrow> unat (fst r) + unat (snd r) < unat (fst r') \<and> separated (r' # rs)"

lemma separated_append:
  "separated (xs @ [r]) \<Longrightarrow> separated (r # ys) \<Longrightarrow> separated (xs @ r # ys)"
  by (induction xs rule: separated.induct) auto

lemma separated_snocD: "separated (xs @ [r]) \<Longrightarrow> separated xs"
  by (induction xs rule: separated.induct) auto

lemma separated_snoc_change:
  "separated (xs @ [r]) \<Longrightarrow> fst r' = fst r \<Longrightarrow> separated (xs @ [r'])"
  by (induction xs rule: separated.induct) auto

lemma separated_snoc2:
  "separated (xs @ [r]) \<Longrightarrow> unat (fst r) + unat (snd r) < unat (fst q) \<Longrightarrow> separated (xs @ [r, q])"
  by (induction xs rule: separated.induct) auto

lemma unat_add_no_overflow: "unat (a :: u64) + unat b < 2 ^ 64 \<Longrightarrow> unat (a + b) = unat a + unat b"
  by (simp add: unat_word_ariths)

lemma unat_max: "unat (max (a :: u64) b) = max (unat a) (unat b)"
  by (simp add: max_def word_le_nat_alt)

lemma merge_sorted_correct:
  "\<forall>r \<in> set merged \<union> set rs. range_ok r \<Longrightarrow> separated (rev merged) \<Longrightarrow>
   sorted (map fst (rev (take 1 merged)) @ map fst rs) \<Longrightarrow>
   separated (merge_sorted merged rs) \<and>
   \<Union> (range_set ` set (merge_sorted merged rs)) = \<Union> (range_set ` (set merged \<union> set rs))"
proof (induction merged rs rule: merge_sorted.induct)
  case (1 merged)
  then show ?case by simp
next
  case (2 merged start len rs)
  have ok: "range_ok (start, len)" using "2.prems"(1) by simp
  then have fin: "saturating_add start len = start + len" "unat (start + len) = unat start + unat len"
    by (simp_all add: range_ok_def saturating_add_def unat_add_no_overflow)
  show ?case
  proof (cases merged)
    case Nil
    with "2.IH"(1) [OF refl Nil] "2.prems" show ?thesis by (simp add: Let_def)
  next
    case (Cons m before)
    obtain ls ll where m: "m = (ls, ll)" by (cases m)
    have mok: "range_ok (ls, ll)" using "2.prems"(1) Cons m by simp
    have le: "ls \<le> start" using "2.prems"(3) Cons m by simp
    have sum: "unat (ls + ll) = unat ls + unat ll"
      using mok by (simp add: range_ok_def unat_add_no_overflow)
    show ?thesis
    proof (cases "start \<le> ls + ll")
      case True
      let ?e = "start + len"
      let ?l = "max ll (?e - ls)"
      have d: "unat (?e - ls) = unat start + unat len - unat ls"
        using le fin by (subst unat_sub) (auto simp: word_le_nat_alt)
      have nle: "unat ls \<le> unat start" "unat start \<le> unat ls + unat ll"
        using le True sum by (simp_all add: word_le_nat_alt)
      have lok: "range_ok (ls, ?l)"
        using mok ok nle by (auto simp: range_ok_def unat_max d)
      have set: "range_set (ls, ?l) = range_set (ls, ll) \<union> range_set (start, len)"
        using nle by (auto simp: range_set_def unat_max d)
      have "separated (rev ((ls, ?l) # before))"
        using "2.prems"(2) Cons m separated_snoc_change [of "rev before" "(ls, ll)" "(ls, ?l)"] by simp
      moreover have "sorted (map fst (rev (take 1 ((ls, ?l) # before))) @ map fst rs)"
        using "2.prems"(3) Cons m by simp
      ultimately have "separated (merge_sorted ((ls, ?l) # before) rs) \<and>
          \<Union> (range_set ` set (merge_sorted ((ls, ?l) # before) rs)) =
          \<Union> (range_set ` (set ((ls, ?l) # before) \<union> set rs))"
        using True Cons m fin lok "2.prems"(1) by (intro "2.IH"(2)) auto
      with True Cons m fin set show ?thesis by (auto simp: Let_def)
    next
      case False
      have "separated (rev merged @ [(start, len)])"
        using "2.prems"(2) Cons m False sum separated_snoc2 [of "rev before" "(ls, ll)" "(start, len)"]
        by (simp add: word_le_nat_alt not_le)
      then have "separated (merge_sorted ((start, len) # merged) rs) \<and>
          \<Union> (range_set ` set (merge_sorted ((start, len) # merged) rs)) =
          \<Union> (range_set ` (set ((start, len) # merged) \<union> set rs))"
        using False Cons m "2.prems" by (intro "2.IH"(3)) auto
      with False Cons m show ?thesis by (auto simp: Let_def)
    qed
  qed
qed

theorem merge_ranges_correct:
  assumes "\<forall>(start, len) \<in> set ranges. unat start + unat len < 2 ^ 64"
  shows "separated (merge_ranges ranges)"
    and "\<Union> (range_set ` set (merge_ranges ranges)) = \<Union> (range_set ` set ranges)"
proof -
  let ?rs = "sort (filter (\<lambda>(_, len). 0 < len) ranges)"
  have "sorted (map fst ?rs)"
    by (rule sorted_map_mono [of _ fst, unfolded mono_on_def]) auto
  then have "separated (merge_sorted [] ?rs) \<and>
      \<Union> (range_set ` set (merge_sorted [] ?rs)) = \<Union> (range_set ` (set [] \<union> set ?rs))"
    using assms by (intro merge_sorted_correct) (auto simp: range_ok_def word_less_nat_alt)
  moreover have "\<Union> (range_set ` set ?rs) = \<Union> (range_set ` set ranges)"
    by (force simp: range_set_def word_less_nat_alt)
  ultimately show "separated (merge_ranges ranges)"
    and "\<Union> (range_set ` set (merge_ranges ranges)) = \<Union> (range_set ` set ranges)"
    by (simp_all add: merge_ranges_def)
qed

end
