(* ===== verification/Wire.thy ===== *)
theory Wire
  imports Packet_IO
begin

text \<open>
  Framing and the primitive encoder and decoder of the play-together protocol, from
  \<open>supershuckie-play-together/src/protocol/wire.rs\<close> and the \<open>DecodeError\<close> of
  \<open>src/error.rs\<close> of that crate.

  A socket is the list of what its reads will find: arrived bytes, interruptions, timeouts,
  failures; the list's end is the end of input. \<open>parse_frame\<close> says what frame a plain byte
  string starts with, and \<open>read_frame_chunks\<close> that the reader on a socket computes exactly
  that however the bytes are cut up and whatever timeouts come between.
\<close>

named_theorems wire_leaf \<open>reads_as facts of the protocol's fields\<close>

subsection \<open>Errors\<close>

datatype bad_state = RawStateLength nat u64 | DecompressFailed string

datatype decode_error =
    Truncated
  | UnknownTag u8
  | BadString
  | TrailingBytes nat
  | TooLong u32
  | BadBool u8
  | ZeroPeerId
  | BadSpeed
  | BadColor u8
  | BadEnum string u32
  | TooMany string u32 nat
  | FieldTooLong string u32 nat
  | ForbiddenPacket string
  | BadPacket packet_read_error
  | StateTooLarge u64
  | BadState bad_state

type_synonym 'a wreader = "(decode_error, 'a) reader"

subsection \<open>Limits\<close>

definition MAX_MESSAGE_LENGTH :: u32 where
  "MAX_MESSAGE_LENGTH = 50331648"

definition MAX_SMALL_MESSAGE_LENGTH :: u32 where
  "MAX_SMALL_MESSAGE_LENGTH = 65536"

definition READ_CHUNK :: nat where
  "READ_CHUNK = 65536"

text \<open>\<open>Stream\<close>, \<open>Snapshot\<close> and \<open>StartState\<close>.\<close>

definition LARGE_TAGS :: "u8 list" where
  "LARGE_TAGS = [0x10, 0x11, 0x14]"

definition max_message_length :: "u8 \<Rightarrow> u32" where
  "max_message_length tag =
     (if tag \<in> set LARGE_TAGS then MAX_MESSAGE_LENGTH else MAX_SMALL_MESSAGE_LENGTH)"

subsection \<open>Writing\<close>

definition enc_u8 :: "u8 \<Rightarrow> bytes" where
  "enc_u8 v = [v]"

definition enc_u16 :: "u16 \<Rightarrow> bytes" where
  "enc_u16 v = to_le 2 v"

definition enc_u32 :: "u32 \<Rightarrow> bytes" where
  "enc_u32 v = to_le 4 v"

definition enc_u64 :: "u64 \<Rightarrow> bytes" where
  "enc_u64 v = to_le 8 v"

definition enc_i64 :: "i64 \<Rightarrow> bytes" where
  "enc_i64 v = to_le 8 v"

definition enc_bool :: "bool \<Rightarrow> bytes" where
  "enc_bool v = [if v then 1 else 0]"

text \<open>The length is cut to 32 bits, as by \<open>as u32\<close>.\<close>

definition enc_bytes :: "bytes \<Rightarrow> bytes" where
  "enc_bytes b = enc_u32 (of_nat (length b)) @ b"

definition enc_string :: "rstring \<Rightarrow> bytes" where
  "enc_string s = enc_bytes s"

definition enc_hash :: "bytes \<Rightarrow> bytes" where
  "enc_hash h = h"

definition frame :: "bytes \<Rightarrow> bytes \<Rightarrow> bytes" where
  "frame out body = out @ to_le 4 (of_nat (length body) :: u32) @ body"

subsection \<open>Reading fields\<close>

definition dec_u8 :: "u8 wreader" where
  "dec_u8 = bnd (take_bytes Truncated 1) (\<lambda>b. ret (hd b))"

definition dec_u16 :: "u16 wreader" where
  "dec_u16 = bnd (take_bytes Truncated 2) (\<lambda>b. ret (from_le b))"

definition dec_u32 :: "u32 wreader" where
  "dec_u32 = bnd (take_bytes Truncated 4) (\<lambda>b. ret (from_le b))"

definition dec_u64 :: "u64 wreader" where
  "dec_u64 = bnd (take_bytes Truncated 8) (\<lambda>b. ret (from_le b))"

definition dec_i64 :: "i64 wreader" where
  "dec_i64 = bnd (take_bytes Truncated 8) (\<lambda>b. ret (from_le b))"

definition dec_bool :: "bool wreader" where
  "dec_bool = bnd dec_u8 (\<lambda>b. if b = 0 then ret False else if b = 1 then ret True else fail (BadBool b))"

definition dec_hash :: "bytes wreader" where
  "dec_hash = take_bytes Truncated 32"

definition dec_bytes :: "string \<Rightarrow> nat \<Rightarrow> bytes wreader" where
  "dec_bytes what cap = bnd dec_u32 (\<lambda>len.
     if cap < unat len then fail (FieldTooLong what len cap) else take_bytes Truncated (unat len))"

definition dec_string :: "string \<Rightarrow> nat \<Rightarrow> rstring wreader" where
  "dec_string what cap = bnd (dec_bytes what cap) (\<lambda>b.
     if utf8_valid b then ret b else fail BadString)"

text \<open>A count is checked against the bytes that are left; the product saturates.\<close>

definition dec_count :: "string \<Rightarrow> nat \<Rightarrow> nat \<Rightarrow> nat wreader" where
  "dec_count what cap min_item_size = bnd dec_u32 (\<lambda>count s.
     if cap < unat count then Inl (TooMany what count cap)
     else if length s < min (unat count * min_item_size) (usize_limit - 1) then Inl Truncated
     else Inr (unat count, s))"

definition finish :: "bytes \<Rightarrow> decode_error + unit" where
  "finish s = (if s = [] then Inr () else Inl (TrailingBytes (length s)))"

lemma length_enc [simp]:
  "length (enc_u8 a) = 1" "length (enc_u16 b) = 2" "length (enc_u32 c) = 4" "length (enc_u64 d) = 8"
  "length (enc_i64 e) = 8" "length (enc_bool f) = 1" "length (enc_bytes g) = 4 + length g"
  "length (enc_string g) = 4 + length g" "length (enc_hash h) = length h"
  by (simp_all add: enc_u8_def enc_u16_def enc_u32_def enc_u64_def enc_i64_def enc_bool_def
      enc_bytes_def enc_string_def enc_hash_def)

lemma reads_dec_u8 [wire_leaf]: "reads_as Truncated dec_u8 (enc_u8 v) v"
  unfolding dec_u8_def enc_u8_def
  by (rule reads_as_bnd_last [OF reads_as_take_bytes reads_as_ret_eq]) simp_all

lemma reads_dec_u16 [wire_leaf]: "reads_as Truncated dec_u16 (enc_u16 v) v"
  unfolding dec_u16_def enc_u16_def
  by (rule reads_as_bnd_last [OF reads_as_take_bytes reads_as_ret_eq]) simp_all

lemma reads_dec_u32 [wire_leaf]: "reads_as Truncated dec_u32 (enc_u32 v) v"
  unfolding dec_u32_def enc_u32_def
  by (rule reads_as_bnd_last [OF reads_as_take_bytes reads_as_ret_eq]) simp_all

lemma reads_dec_u64 [wire_leaf]: "reads_as Truncated dec_u64 (enc_u64 v) v"
  unfolding dec_u64_def enc_u64_def
  by (rule reads_as_bnd_last [OF reads_as_take_bytes reads_as_ret_eq]) simp_all

lemma reads_dec_i64 [wire_leaf]: "reads_as Truncated dec_i64 (enc_i64 v) v"
  unfolding dec_i64_def enc_i64_def
  by (rule reads_as_bnd_last [OF reads_as_take_bytes reads_as_ret_eq]) simp_all

lemma reads_dec_bool [wire_leaf]: "reads_as Truncated dec_bool (enc_bool v) v"
  unfolding dec_bool_def enc_bool_def enc_u8_def [symmetric]
  by (rule reads_as_bnd_last [OF reads_dec_u8]) (simp add: reads_as_ret del: ret_apply)

lemma reads_dec_hash [wire_leaf]: "length h = 32 \<Longrightarrow> reads_as Truncated dec_hash (enc_hash h) h"
  unfolding dec_hash_def enc_hash_def by (rule reads_as_take_bytes) simp

lemma unat_of_nat_u32: "n < 4294967296 \<Longrightarrow> unat (of_nat n :: u32) = n"
  by (simp add: unat_of_nat)

lemma reads_dec_bytes:
  assumes "length b \<le> cap" and "cap < 4294967296"
  shows "reads_as Truncated (dec_bytes what cap) (enc_bytes b) b"
proof -
  have "unat (of_nat (length b) :: u32) = length b" using assms by (intro unat_of_nat_u32) linarith
  with assms have "reads_as Truncated
     (if cap < unat (of_nat (length b) :: u32) then fail (FieldTooLong what (of_nat (length b)) cap)
      else take_bytes Truncated (unat (of_nat (length b) :: u32))) b b"
    by (simp add: reads_as_take_bytes del: fail_apply)
  then show ?thesis
    unfolding dec_bytes_def enc_bytes_def by (rule reads_as_bnd [OF reads_dec_u32])
qed

lemma reads_dec_string:
  assumes "length b \<le> cap" and "cap < 4294967296" and "utf8_valid b"
  shows "reads_as Truncated (dec_string what cap) (enc_string b) b"
  unfolding dec_string_def enc_string_def
  by (rule reads_as_bnd_last [OF reads_dec_bytes [OF assms(1,2)]])
    (simp add: assms(3) reads_as_ret del: ret_apply)

lemma consumes_wire [consumes_intros]:
  "k \<le> 1 \<Longrightarrow> consumes k dec_u8" "k \<le> 2 \<Longrightarrow> consumes k dec_u16" "k \<le> 4 \<Longrightarrow> consumes k dec_u32"
  "k \<le> 8 \<Longrightarrow> consumes k dec_u64" "k \<le> 8 \<Longrightarrow> consumes k dec_i64" "k \<le> 1 \<Longrightarrow> consumes k dec_bool"
  "k \<le> 32 \<Longrightarrow> consumes k dec_hash" "k \<le> 4 \<Longrightarrow> consumes k (dec_bytes what cap)"
  "k \<le> 4 \<Longrightarrow> consumes k (dec_string what cap)"
  unfolding dec_u8_def dec_u16_def dec_u32_def dec_u64_def dec_i64_def dec_bool_def dec_hash_def
    dec_bytes_def dec_string_def
  by (intro consumes_intros; simp)+

lemma consumes_dec_count [consumes_intros]: "k \<le> 4 \<Longrightarrow> consumes k (dec_count what cap sz)"
  unfolding dec_count_def
  by (rule consumes_bnd_first [OF consumes_wire(3)]) (auto simp: consumes_def split: if_splits)

text \<open>
  What a reader can return: \<open>yields P r\<close> says that every value read has \<open>P\<close>. It composes along
  \<open>bnd\<close>, so what is known of the fields is known of the record.
\<close>

definition yields :: "('a \<Rightarrow> bool) \<Rightarrow> 'a wreader \<Rightarrow> bool" where
  "yields P r \<longleftrightarrow> (\<forall>s x s'. r s = Inr (x, s') \<longrightarrow> P x)"

lemma yieldsI: "(\<And>s x s'. r s = Inr (x, s') \<Longrightarrow> P x) \<Longrightarrow> yields P r"
  by (simp add: yields_def)

lemma yieldsD: "yields P r \<Longrightarrow> r s = Inr (x, s') \<Longrightarrow> P x"
  unfolding yields_def by blast

lemma yields_ret: "P x \<Longrightarrow> yields P (ret x)"
  by (simp add: yields_def)

lemma yields_fail: "yields P (fail e)"
  by (simp add: yields_def)

lemma yields_bnd: "yields P r \<Longrightarrow> (\<And>x. P x \<Longrightarrow> yields Q (f x)) \<Longrightarrow> yields Q (bnd r f)"
  by (rule yieldsI) (auto simp: bnd_eq_Inr dest: yieldsD)

lemma yields_if: "(c \<Longrightarrow> yields P r) \<Longrightarrow> (\<not> c \<Longrightarrow> yields P r') \<Longrightarrow> yields P (if c then r else r')"
  by simp

lemma yields_any: "yields (\<lambda>_. True) r"
  by (simp add: yields_def)

lemma yields_read_n: "yields P r \<Longrightarrow> yields (list_all P) (read_n r n)"
proof (induction n)
  case (Suc n)
  then show ?case
    unfolding read_n.simps by (intro yields_bnd [of P] yields_bnd [of "list_all P"] yields_ret) simp_all
qed (simp add: yields_ret del: ret_apply)

text \<open>The length-limited fields.\<close>

lemma dec_bytes_bounded: "dec_bytes what cap s = Inr (b, s') \<Longrightarrow> length b \<le> cap"
  by (auto simp: dec_bytes_def bnd_eq_Inr take_bytes_def split_at_checked_eq_Some
      split: if_splits option.splits)

lemma dec_string_bounded: "dec_string what cap s = Inr (b, s') \<Longrightarrow> length b \<le> cap \<and> utf8_valid b"
  by (auto simp: dec_string_def bnd_eq_Inr dest: dec_bytes_bounded split: if_splits)

lemma dec_hash_bounded: "dec_hash s = Inr (b, s') \<Longrightarrow> length b = 32"
  by (auto simp: dec_hash_def take_bytes_def split_at_checked_eq_Some split: option.splits)

lemma dec_count_bounded:
  "dec_count what cap sz s = Inr (n, s') \<Longrightarrow> n \<le> cap \<and> (n * sz < usize_limit \<longrightarrow> n * sz \<le> length s')"
  by (auto simp: dec_count_def bnd_eq_Inr min_def split: if_splits)

lemma yields_wire:
  "yields (\<lambda>b. length b \<le> cap) (dec_bytes what cap)"
  "yields (\<lambda>b. length b \<le> cap \<and> utf8_valid b) (dec_string what cap)"
  "yields (\<lambda>h. length h = 32) dec_hash"
  by (auto intro!: yieldsI dest: dec_bytes_bounded dec_string_bounded dec_hash_bounded)

lemma dec_count_written:
  assumes "n \<le> cap" and "cap < 4294967296"
  shows "dec_count what cap sz (enc_u32 (of_nat n) @ q) =
    (if length q < min (n * sz) (usize_limit - 1) then Inl Truncated else Inr (n, q))"
proof -
  have "unat (of_nat n :: u32) = n" using assms by (intro unat_of_nat_u32) linarith
  then show ?thesis
    using assms(1) reads_asD [OF reads_dec_u32, of "of_nat n" q] by (simp add: dec_count_def)
qed

subsection \<open>Counted lists\<close>

text \<open>
  The contract of an item type whose lists carry a count: its encodings are never shorter than
  the size the count is checked against, so the check refuses no list that was written.
\<close>

locale counted_codec = byte_codec Truncated enc dec ok
  for enc :: "'a \<Rightarrow> bytes" and dec :: "'a wreader" and ok :: "'a \<Rightarrow> bool" +
  fixes min_size :: nat
  assumes min_size: "ok x \<Longrightarrow> min_size \<le> length (enc x)"
begin

lemma min_size_list: "list_all ok xs \<Longrightarrow> length xs * min_size \<le> length (concat (map enc xs))"
proof (induction xs)
  case (Cons x xs)
  with min_size [of x] show ?case by simp
qed simp

lemma reads_counted:
  assumes "list_all ok xs" and "length xs \<le> cap" and "cap < 4294967296"
  shows "reads_as Truncated (bnd (dec_count what cap min_size) (read_n dec))
    (enc_u32 (of_nat (length xs)) @ concat (map enc xs)) xs"
proof (rule reads_asI)
  have items: "reads_as Truncated (read_n dec (length xs)) (concat (map enc xs)) xs"
    by (rule reads_items [OF refl assms(1)])
  have len: "min (length xs * min_size) (usize_limit - 1) \<le> length (concat (map enc xs) @ rest)" for rest
    using min_size_list [OF assms(1)] by simp
  note count = dec_count_written [OF assms(2,3), of what min_size]
  show "bnd (dec_count what cap min_size) (read_n dec)
      ((enc_u32 (of_nat (length xs)) @ concat (map enc xs)) @ rest) = Inr (xs, rest)" for rest
    using len [of rest] reads_asD [OF items, of rest] by (auto simp: bnd_def count)
  fix p
  assume "strict_prefix p (enc_u32 (of_nat (length xs)) @ concat (map enc xs))"
  then consider "strict_prefix p (enc_u32 (of_nat (length xs)))"
    | q where "p = enc_u32 (of_nat (length xs)) @ q" "strict_prefix q (concat (map enc xs))"
    by (auto simp: strict_prefix_append_iff)
  then show "bnd (dec_count what cap min_size) (read_n dec) p = Inl Truncated"
  proof cases
    case 1
    then have "dec_u32 p = Inl Truncated" by (rule reads_as_prefixD [OF reads_dec_u32])
    then show ?thesis by (simp add: dec_count_def)
  next
    case 2
    then show ?thesis
      using reads_as_prefixD [OF items 2(2)] by (simp add: bnd_def count)
  qed
qed

lemma counted_bounded:
  assumes "bnd (dec_count what cap min_size) (read_n dec) s = Inr (xs, s')"
  shows "length xs \<le> cap"
proof -
  from assms obtain n s1 where "dec_count what cap min_size s = Inr (n, s1)" "read_n dec n s1 = Inr (xs, s')"
    by (rule bnd_cases)
  then show ?thesis using dec_count_bounded consumes_read_n [OF dec_consumes] by metis
qed

end

subsection \<open>Sockets\<close>

text \<open>
  What the successive reads of a socket find. An arrived chunk is taken in pieces as small as
  the reader's buffer asks for; after the last event the input has ended. An empty chunk is a
  read of 0 bytes, which means the end of input too.
\<close>

datatype socket_event = Chunk bytes | Interrupted | TimedOut | Failed

type_synonym socket = "socket_event list"

datatype 's read_error = IoUnexpectedEof | IoFailed | Decode decode_error | Stopped 's

text \<open>
  \<open>filled\<close> is the part of the buffer that has arrived, \<open>n\<close> the buffer's length, \<open>got\<close> how much
  of the whole frame has. The callback has a state of its own. The result \<open>None\<close> is the
  source's \<open>Ok(false)\<close>.
\<close>

function read_fully ::
    "(nat \<Rightarrow> 'c \<Rightarrow> 's + 'c) \<Rightarrow> bool \<Rightarrow> nat \<Rightarrow> bytes \<Rightarrow> nat \<Rightarrow> 'c \<Rightarrow> socket
     \<Rightarrow> 's read_error + bytes option \<times> nat \<times> 'c \<times> socket" where
  "read_fully poll clean_eof_ok n filled got c es =
     (if n \<le> length filled then Inr (Some filled, got, c, es)
      else let eof = (if filled = [] \<and> clean_eof_ok \<and> got = 0 then Inr (None, got, c, tl es)
                      else Inl IoUnexpectedEof)
      in case es of
          [] \<Rightarrow> eof
        | Chunk b # es' \<Rightarrow>
            if b = [] then eof
            else let k = n - length filled; a = take k b;
                   rest = (if length b \<le> k then es' else Chunk (drop k b) # es')
                 in read_fully poll clean_eof_ok n (filled @ a) (got + length a) c rest
        | Interrupted # es' \<Rightarrow> read_fully poll clean_eof_ok n filled got c es'
        | TimedOut # es' \<Rightarrow>
            (case poll got c of
               Inl s \<Rightarrow> Inl (Stopped s)
             | Inr c' \<Rightarrow> read_fully poll clean_eof_ok n filled got c' es')
        | Failed # es' \<Rightarrow> Inl IoFailed)"
  by auto
termination
proof (relation "inv_image (less_than <*lex*> less_than)
    (\<lambda>(_, _, n, filled, _, _, es). (n - length filled, length es))", goal_cases)
  case (2 poll clean n filled got c es eof e es' b k a rest)
  then have "length filled < n" "0 < length a" by (auto simp: not_le)
  then have "n - length (filled @ a) < n - length filled" using length_append [of filled a] by linarith
  then show ?case by simp
qed auto

declare read_fully.simps [simp del]

text \<open>The body, in pieces of at most \<open>READ_CHUNK\<close> bytes.\<close>

function read_body ::
    "(nat \<Rightarrow> 'c \<Rightarrow> 's + 'c) \<Rightarrow> nat \<Rightarrow> bytes \<Rightarrow> nat \<Rightarrow> 'c \<Rightarrow> socket
     \<Rightarrow> 's read_error + bytes \<times> 'c \<times> socket" where
  "read_body poll remaining buf got c es =
     (if remaining = 0 then Inr (buf, c, es)
      else let step = min remaining READ_CHUNK in
        and_then (read_fully poll False step [] got c es) (\<lambda>(piece, got', c', es').
          read_body poll (remaining - step) (buf @ unwrap_or piece []) got' c' es'))"
  by auto
termination
  by (relation "measure (\<lambda>(_, remaining, _). remaining)") (auto simp: READ_CHUNK_def)

declare read_body.simps [simp del]

definition read_frame ::
    "(nat \<Rightarrow> 'c \<Rightarrow> 's + 'c) \<Rightarrow> 'c \<Rightarrow> socket \<Rightarrow> 's read_error + bytes option \<times> 'c \<times> socket" where
  "read_frame poll c es =
     and_then (read_fully poll True 4 [] 0 c es) (\<lambda>(head, got, c, es).
     case head of
       None \<Rightarrow> Inr (None, c, es)
     | Some head \<Rightarrow>
         let len = from_le head :: u32 in
         if len = 0 then Inl (Decode (TooLong len))
         else and_then (read_fully poll False 1 [] got c es) (\<lambda>(tag, got, c, es).
           let tag = unwrap_or tag [] in
           if max_message_length (hd tag) < len then Inl (Decode (TooLong len))
           else and_then (read_body poll (unat len - 1) (head @ tag) got c es) (\<lambda>(buf, c, es).
             Inr (Some buf, c, es))))"

definition read_frame_blocking :: "socket \<Rightarrow> unit read_error + bytes option \<times> unit \<times> socket" where
  "read_frame_blocking es = read_frame (\<lambda>_. Inr) () es"

subsection \<open>What the bytes of a socket say\<close>

text \<open>The specification: the frame a byte string starts with.\<close>

datatype frame_outcome =
    NoFrame
  | CutFrame
  | BadLength u32
  | Frame bytes bytes

definition parse_frame :: "bytes \<Rightarrow> frame_outcome" where
  "parse_frame bs =
     (let len = from_le (take 4 bs) :: u32 in
      if bs = [] then NoFrame
      else if length bs < 4 then CutFrame
      else if len = 0 then BadLength len
      else if length bs < 5 then CutFrame
      else if max_message_length (bs ! 4) < len then BadLength len
      else if length bs < 4 + unat len then CutFrame
      else Frame (take (4 + unat len) bs) (drop (4 + unat len) bs))"

text \<open>The bytes that arrive, in order; a socket that never fails; a callback that never stops.\<close>

fun arrived :: "socket \<Rightarrow> bytes" where
  "arrived [] = []"
| "arrived (Chunk b # es) = b @ arrived es"
| "arrived (_ # es) = arrived es"

definition healthy :: "socket \<Rightarrow> bool" where
  "healthy es \<longleftrightarrow> Failed \<notin> set es \<and> Chunk [] \<notin> set es"

definition patient :: "(nat \<Rightarrow> 'c \<Rightarrow> 's + 'c) \<Rightarrow> bool" where
  "patient poll \<longleftrightarrow> (\<forall>got c. \<exists>c'. poll got c = Inr c')"

lemma healthy_Cons: "healthy (e # es) \<longleftrightarrow> e \<noteq> Failed \<and> e \<noteq> Chunk [] \<and> healthy es"
  by (auto simp: healthy_def)

lemma healthy_Nil [simp]: "healthy []"
  by (simp add: healthy_def)

lemma read_fully_simps:
  assumes "\<not> n \<le> length filled"
  shows "read_fully poll ok n filled got c [] =
      (if filled = [] \<and> ok \<and> got = 0 then Inr (None, got, c, []) else Inl IoUnexpectedEof)"
    and "b \<noteq> [] \<Longrightarrow> read_fully poll ok n filled got c (Chunk b # es) =
      read_fully poll ok n (filled @ take (n - length filled) b) (got + length (take (n - length filled) b)) c
        (if length b \<le> n - length filled then es else Chunk (drop (n - length filled) b) # es)"
    and "read_fully poll ok n filled got c (Interrupted # es) = read_fully poll ok n filled got c es"
    and "poll got c = Inr c' \<Longrightarrow>
      read_fully poll ok n filled got c (TimedOut # es) = read_fully poll ok n filled got c' es"
  using assms by (subst read_fully.simps, simp add: Let_def)+

lemma read_fully_enough:
  assumes "healthy es" and "patient poll" and "n - length filled \<le> length (arrived es)" and "length filled \<le> n"
  shows "\<exists>c' es'. read_fully poll ok n filled got c es =
      Inr (Some (filled @ take (n - length filled) (arrived es)), got + (n - length filled), c', es') \<and>
    healthy es' \<and> arrived es' = drop (n - length filled) (arrived es)"
  using assms
proof (induction poll ok n filled got c es rule: read_fully.induct)
  case (1 poll ok n filled got c es)
  show ?case
  proof (cases "n = length filled")
    case True
    with "1.prems" show ?thesis by (subst read_fully.simps) simp
  next
    case False
    with "1.prems" have less: "\<not> n \<le> length filled" by simp
    with "1.prems" obtain e es0 where es: "es = e # es0" by (cases es) auto
    show ?thesis
    proof (cases e)
      case (Chunk b)
      define k where "k = n - length filled"
      define rest where "rest = (if length b \<le> k then es0 else Chunk (drop k b) # es0)"
      have b: "b \<noteq> []" "healthy es0" using "1.prems"(1) by (simp_all add: es Chunk healthy_Cons)
      have rest: "arrived rest = drop (length (take k b)) (arrived es)" "healthy rest"
        using b by (auto simp: rest_def es Chunk healthy_Cons)
      have ih: "\<exists>c' es'. read_fully poll ok n (filled @ take k b) (got + length (take k b)) c rest =
          Inr (Some ((filled @ take k b) @ take (n - length (filled @ take k b)) (arrived rest)),
            got + length (take k b) + (n - length (filled @ take k b)), c', es') \<and>
        healthy es' \<and> arrived es' = drop (n - length (filled @ take k b)) (arrived rest)"
      proof (rule "1.IH" (1) [OF less refl es Chunk b(1) k_def refl rest_def])
        show "healthy rest" by (rule rest)
        show "patient poll" by fact
        show "n - length (filled @ take k b) \<le> length (arrived rest)"
          using "1.prems"(3) less by (simp add: rest(1) k_def)
        show "length (filled @ take k b) \<le> n" using less by (simp add: k_def)
      qed
      have split: "take k (arrived es) = take k b @ take (n - length (filled @ take k b)) (arrived rest)"
        "drop k (arrived es) = drop (n - length (filled @ take k b)) (arrived rest)"
        "got + length (take k b) + (n - length (filled @ take k b)) = got + k"
        using less by (auto simp: rest_def es Chunk k_def min_def)
      have step: "read_fully poll ok n filled got c es =
          read_fully poll ok n (filled @ take k b) (got + length (take k b)) c rest"
        by (simp only: es Chunk read_fully_simps(2) [OF less b(1)] k_def rest_def)
      from ih show ?thesis
        unfolding step append_assoc split(3) split(1,2) [symmetric] k_def [symmetric] .
    next
      case Interrupted
      with 1 less es show ?thesis by (simp add: healthy_Cons read_fully_simps(3))
    next
      case TimedOut
      obtain c1 where "poll got c = Inr c1" using "1.prems"(2) by (auto simp: patient_def)
      with TimedOut 1 less es show ?thesis by (simp add: healthy_Cons read_fully_simps(4))
    next
      case Failed
      with "1.prems"(1) es show ?thesis by (simp add: healthy_Cons)
    qed
  qed
qed

lemma read_fully_short:
  assumes "healthy es" and "patient poll" and "length filled + length (arrived es) < n"
  shows "if filled = [] \<and> ok \<and> got = 0 \<and> arrived es = []
    then \<exists>c'. read_fully poll ok n filled got c es = Inr (None, got, c', [])
    else read_fully poll ok n filled got c es = Inl IoUnexpectedEof"
  using assms
proof (induction poll ok n filled got c es rule: read_fully.induct)
  case (1 poll ok n filled got c es)
  then have less: "\<not> n \<le> length filled" by simp
  show ?case
  proof (cases es)
    case Nil
    with less show ?thesis by (simp add: read_fully_simps(1))
  next
    case (Cons e es0)
    show ?thesis
    proof (cases e)
      case (Chunk b)
      have b: "b \<noteq> []" "healthy es0" using "1.prems"(1) by (simp_all add: Cons Chunk healthy_Cons)
      have k: "length b \<le> n - length filled" "arrived es = b @ arrived es0"
        using "1.prems"(3) by (simp_all add: Cons Chunk)
      have "healthy (if length b \<le> n - length filled then es0 else Chunk (drop (n - length filled) b) # es0)"
        using b k by simp
      moreover have "length (filled @ take (n - length filled) b) +
          length (arrived (if length b \<le> n - length filled then es0 else Chunk (drop (n - length filled) b) # es0)) < n"
        using "1.prems"(3) k by simp
      ultimately have "read_fully poll ok n (filled @ take (n - length filled) b)
          (got + length (take (n - length filled) b)) c
          (if length b \<le> n - length filled then es0 else Chunk (drop (n - length filled) b) # es0) = Inl IoUnexpectedEof"
        using "1.IH"(1) [OF less refl Cons Chunk b(1) refl refl refl _ "1.prems"(2)] b k less by simp
      then show ?thesis
        using b k by (simp add: Cons Chunk read_fully_simps(2) [OF less])
    next
      case Interrupted
      have prems: "healthy es0" "length filled + length (arrived es0) < n"
        using "1.prems" by (simp_all add: Cons Interrupted healthy_Cons)
      from "1.IH"(2) [OF less refl Cons Interrupted prems(1) "1.prems"(2) prems(2)]
      show ?thesis unfolding Cons Interrupted arrived.simps read_fully_simps(3) [OF less] .
    next
      case TimedOut
      obtain c1 where c1: "poll got c = Inr c1" using "1.prems"(2) by (auto simp: patient_def)
      have prems: "healthy es0" "length filled + length (arrived es0) < n"
        using "1.prems" by (simp_all add: Cons TimedOut healthy_Cons)
      from "1.IH"(3) [OF less refl Cons TimedOut c1 prems(1) "1.prems"(2) prems(2)]
      show ?thesis unfolding Cons TimedOut arrived.simps read_fully_simps(4) [where poll = poll, OF less c1] .
    next
      case Failed
      with "1.prems"(1) Cons show ?thesis by (simp add: healthy_Cons)
    qed
  qed
qed

lemma READ_CHUNK_pos [simp]: "0 < READ_CHUNK"
  by (simp add: READ_CHUNK_def)

lemma read_body_enough:
  assumes "healthy es" and "patient poll" and "n \<le> length (arrived es)"
  shows "\<exists>c' es'. read_body poll n buf got c es = Inr (buf @ take n (arrived es), c', es') \<and>
    healthy es' \<and> arrived es' = drop n (arrived es)"
  using assms
proof (induction n arbitrary: buf got c es rule: less_induct)
  case (less n)
  show ?case
  proof (cases "n = 0")
    case True
    with less show ?thesis by (subst read_body.simps) simp
  next
    case False
    let ?m = "min n READ_CHUNK"
    obtain c1 es1 where read: "read_fully poll False ?m [] got c es =
        Inr (Some (take ?m (arrived es)), got + ?m, c1, es1)"
      and es1: "healthy es1" "arrived es1 = drop ?m (arrived es)"
      using read_fully_enough [OF less.prems(1,2), of ?m "[]" False got c] less.prems(3)
      by (auto simp: min.coboundedI1)
    have "\<exists>c' es'. read_body poll (n - ?m) (buf @ take ?m (arrived es)) (got + ?m) c1 es1 =
        Inr ((buf @ take ?m (arrived es)) @ take (n - ?m) (arrived es1), c', es') \<and>
        healthy es' \<and> arrived es' = drop (n - ?m) (arrived es1)"
      by (rule less.IH) (use False less.prems es1 in \<open>auto simp: min_def\<close>)
    moreover have "take ?m (arrived es) @ take (n - ?m) (arrived es1) = take n (arrived es)"
      "drop (n - ?m) (arrived es1) = drop n (arrived es)"
      using es1 by (simp_all flip: take_add)
    ultimately show ?thesis
      using False read by (subst read_body.simps) (simp add: Let_def)
  qed
qed

lemma read_body_short:
  assumes "healthy es" and "patient poll" and "length (arrived es) < n"
  shows "read_body poll n buf got c es = Inl IoUnexpectedEof"
  using assms
proof (induction n arbitrary: buf got c es rule: less_induct)
  case (less n)
  let ?m = "min n READ_CHUNK"
  show ?case
  proof (cases "?m \<le> length (arrived es)")
    case True
    obtain c1 es1 where read: "read_fully poll False ?m [] got c es =
        Inr (Some (take ?m (arrived es)), got + ?m, c1, es1)"
      and es1: "healthy es1" "arrived es1 = drop ?m (arrived es)"
      using read_fully_enough [OF less.prems(1,2), of ?m "[]" False got c] True by auto
    have "read_body poll (n - ?m) (buf @ take ?m (arrived es)) (got + ?m) c1 es1 = Inl IoUnexpectedEof"
      by (rule less.IH) (use less.prems es1 True in \<open>auto simp: min_def split: if_splits\<close>)
    with read less.prems show ?thesis by (subst read_body.simps) (simp add: Let_def)
  next
    case False
    with read_fully_short [OF less.prems(1,2), of "[]" ?m False got c] less.prems
    show ?thesis by (subst read_body.simps) (simp add: Let_def)
  qed
qed

text \<open>The reader against the specification.\<close>

lemma length_4_from_le_take: "4 \<le> length bs \<Longrightarrow> length (take 4 bs) = 4"
  by simp

theorem read_frame_chunks:
  assumes "healthy es" and "patient poll"
  shows "case parse_frame (arrived es) of
      NoFrame \<Rightarrow> (\<exists>c'. read_frame poll c es = Inr (None, c', []))
    | CutFrame \<Rightarrow> read_frame poll c es = Inl IoUnexpectedEof
    | BadLength len \<Rightarrow> read_frame poll c es = Inl (Decode (TooLong len))
    | Frame f rest \<Rightarrow> (\<exists>c' es'. read_frame poll c es = Inr (Some f, c', es') \<and>
        healthy es' \<and> arrived es' = rest)"
proof (cases "4 \<le> length (arrived es)")
  case False
  then show ?thesis
    using read_fully_short [OF assms, of "[]" 4 True 0 c]
    by (auto simp: parse_frame_def read_frame_def Let_def)
next
  case four: True
  let ?bs = "arrived es" and ?len = "from_le (take 4 (arrived es)) :: u32"
  obtain c1 es1 where head: "read_fully poll True 4 [] 0 c es = Inr (Some (take 4 ?bs), 4, c1, es1)"
    and es1: "healthy es1" "arrived es1 = drop 4 ?bs"
    using read_fully_enough [OF assms, of 4 "[]" True 0 c] four by auto
  have ne: "?bs \<noteq> []" using four by auto
  show ?thesis
  proof (cases "?len = 0 \<or> length ?bs < 5")
    case True
    then show ?thesis
      using four ne head es1 read_fully_short [OF es1(1) assms(2), of "[]" 1 False 4 c1]
      by (auto simp: parse_frame_def read_frame_def Let_def)
  next
    case False
    then have five: "?len \<noteq> 0" "5 \<le> length ?bs" by auto
    have tag: "take 1 (drop 4 ?bs) = [?bs ! 4]"
      using five(2) by (simp add: take_Suc_conv_app_nth)
    obtain c2 es2 where tg: "read_fully poll False 1 [] 4 c1 es1 = Inr (Some [?bs ! 4], 5, c2, es2)"
      and es2: "healthy es2" "arrived es2 = drop 5 ?bs"
      using read_fully_enough [OF es1(1) assms(2), of 1 "[]" False 4 c1] five es1(2) tag
      by (auto simp: Suc_le_eq)
    have pos: "0 < unat ?len" using five(1) by (simp add: unat_gt_0)
    show ?thesis
    proof (cases "max_message_length (?bs ! 4) < ?len")
      case True
      with five ne head tg show ?thesis
        by (auto simp: parse_frame_def read_frame_def Let_def)
    next
      case fits: False
      show ?thesis
      proof (cases "4 + unat ?len \<le> length ?bs")
        case True
        then have "unat ?len - 1 \<le> length (arrived es2)" using es2 by simp
        from read_body_enough [OF es2(1) assms(2) this, of "take 4 ?bs @ [?bs ! 4]" 5 c2]
        obtain c3 es3 where body: "read_body poll (unat ?len - 1) (take 4 ?bs @ [?bs ! 4]) 5 c2 es2 =
            Inr ((take 4 ?bs @ [?bs ! 4]) @ take (unat ?len - 1) (drop 5 ?bs), c3, es3)"
          and es3: "healthy es3" "arrived es3 = drop (unat ?len - 1) (drop 5 ?bs)"
          using es2(2) by auto
        have whole: "(take 4 ?bs @ [?bs ! 4]) @ take (unat ?len - 1) (drop 5 ?bs) = take (4 + unat ?len) ?bs"
          using pos five(2) take_add [of 4 1 ?bs] take_add [of 5 "unat ?len - 1" ?bs] tag by simp
        have "drop (unat ?len - 1) (drop 5 ?bs) = drop (4 + unat ?len) ?bs"
          using pos by (simp add: add.commute)
        with True five ne fits head tg body whole es3 show ?thesis
          by (simp add: parse_frame_def read_frame_def Let_def)
      next
        case False
        then have "length (arrived es2) < unat ?len - 1" using es2 five(2) pos by auto
        from read_body_short [OF es2(1) assms(2) this, of "take 4 ?bs @ [?bs ! 4]" 5 c2]
        show ?thesis using False five ne fits head tg
          by (simp add: parse_frame_def read_frame_def Let_def)
      qed
    qed
  qed
qed

lemma parse_frame_frame:
  assumes "body \<noteq> []" and "length body \<le> unat (max_message_length (hd body))"
  shows "parse_frame (frame [] body @ rest) = Frame (frame [] body) rest"
proof -
  have "length body < 4294967296"
    using assms(2) unsigned_less [of "max_message_length (hd body)", where 'a = nat] by simp
  then have len: "unat (of_nat (length body) :: u32) = length body" by (rule unat_of_nat_u32)
  have "\<not> max_message_length (hd body) < of_nat (length body)"
    using assms(2) len by (simp add: word_less_nat_alt)
  moreover have "(of_nat (length body) :: u32) \<noteq> 0"
    using len assms(1) by (metis length_0_conv unsigned_0)
  moreover have "(frame [] body @ rest) ! 4 = hd body"
    using assms(1) by (simp add: frame_def nth_append hd_conv_nth)
  moreover have "1 \<le> length body" using assms(1) by (cases body) auto
  ultimately show ?thesis
    using len assms(1) by (simp add: parse_frame_def frame_def Let_def)
qed

end
