(* ===== verification/Color.thy ===== *)
theory Color
  imports Prelude
begin

text \<open>
  Player colours, from \<open>supershuckie-play-together/src/color.rs\<close>: the palette, which wire
  values name a colour, and how the host gives a joining player one nobody else has.
\<close>

type_synonym player_color = u8

definition COLOR_RANDOM :: player_color where
  "COLOR_RANDOM = 0"

record palette_entry =
  pe_name :: string
  pe_rgb :: u32

definition PALETTE :: "palette_entry list" where
  "PALETTE =
    [\<lparr>pe_name = ''Pink'', pe_rgb = 0xF27FBC\<rparr>,
     \<lparr>pe_name = ''Red'', pe_rgb = 0xE02020\<rparr>,
     \<lparr>pe_name = ''Tan'', pe_rgb = 0xD2A56D\<rparr>,
     \<lparr>pe_name = ''Orange'', pe_rgb = 0xFF8A0E\<rparr>,
     \<lparr>pe_name = ''Brown'', pe_rgb = 0x8B5A2B\<rparr>,
     \<lparr>pe_name = ''Pale Yellow'', pe_rgb = 0xF5F0A0\<rparr>,
     \<lparr>pe_name = ''Yellow'', pe_rgb = 0xEBE129\<rparr>,
     \<lparr>pe_name = ''Olive'', pe_rgb = 0x8F9E2E\<rparr>,
     \<lparr>pe_name = ''Lime'', pe_rgb = 0x7CFC00\<rparr>,
     \<lparr>pe_name = ''Pale Green'', pe_rgb = 0x9BFF95\<rparr>,
     \<lparr>pe_name = ''Green'', pe_rgb = 0x1E9E3A\<rparr>,
     \<lparr>pe_name = ''Cyan'', pe_rgb = 0x1CD3EA\<rparr>,
     \<lparr>pe_name = ''Teal'', pe_rgb = 0x1CA7EA\<rparr>,
     \<lparr>pe_name = ''Blue'', pe_rgb = 0x4C7BFF\<rparr>,
     \<lparr>pe_name = ''Navy'', pe_rgb = 0x2038C8\<rparr>,
     \<lparr>pe_name = ''Dark Aqua'', pe_rgb = 0x3E6DB0\<rparr>,
     \<lparr>pe_name = ''Bluish Grey'', pe_rgb = 0x6E7B9B\<rparr>,
     \<lparr>pe_name = ''Purple'', pe_rgb = 0x8A2BE2\<rparr>,
     \<lparr>pe_name = ''Magenta'', pe_rgb = 0xE040FB\<rparr>,
     \<lparr>pe_name = ''White'', pe_rgb = 0xF2F2F2\<rparr>,
     \<lparr>pe_name = ''Grey'', pe_rgb = 0x8C8C8C\<rparr>,
     \<lparr>pe_name = ''Black'', pe_rgb = 0x1A1A1A\<rparr>]"

definition COLOR_COUNT :: u8 where
  "COLOR_COUNT = of_nat (length PALETTE)"

definition color_entry :: "player_color \<Rightarrow> palette_entry option" where
  "color_entry color =
     (if color = COLOR_RANDOM then None
      else if unat color - 1 < length PALETTE then Some (PALETTE ! (unat color - 1)) else None)"

definition is_valid_color :: "player_color \<Rightarrow> bool" where
  "is_valid_color color \<longleftrightarrow> color_entry color \<noteq> None"

definition free_colors :: "player_color list \<Rightarrow> player_color list" where
  "free_colors taken = filter (\<lambda>c. c \<notin> set taken) (map of_nat [1..<Suc (unat COLOR_COUNT)])"

definition assign_color :: "player_color \<Rightarrow> player_color list \<Rightarrow> u64 \<Rightarrow> player_color" where
  "assign_color requested taken seed =
     (if is_valid_color requested \<and> requested \<notin> set taken then requested
      else let free = free_colors taken in
        if free = [] then 1
        else free ! unat (seed mod of_nat (length free)))"

lemma length_PALETTE [simp]: "length PALETTE = 22"
  by (simp add: PALETTE_def)

lemma COLOR_COUNT_eq [simp]: "COLOR_COUNT = 22"
  by (simp add: COLOR_COUNT_def)

lemma is_valid_color_iff: "is_valid_color c \<longleftrightarrow> 1 \<le> unat c \<and> unat c \<le> 22"
proof (cases "c = 0")
  case False
  then have "0 < unat c" by (simp add: unat_gt_0)
  with False show ?thesis by (auto simp: is_valid_color_def color_entry_def COLOR_RANDOM_def)
qed (simp add: is_valid_color_def color_entry_def COLOR_RANDOM_def)

lemma set_free_colors: "set (free_colors taken) = {c. is_valid_color c} - set taken"
proof -
  have "of_nat ` set [1..<Suc (unat COLOR_COUNT)] = {c :: u8. is_valid_color c}"
  proof (intro set_eqI iffI)
    fix c :: u8
    assume "c \<in> of_nat ` set [1..<Suc (unat COLOR_COUNT)]"
    then obtain n where "c = of_nat n" "1 \<le> n" "n \<le> 22" by auto
    then show "c \<in> {c. is_valid_color c}" by (simp add: is_valid_color_iff)
  next
    fix c :: u8
    assume "c \<in> {c. is_valid_color c}"
    then show "c \<in> of_nat ` set [1..<Suc (unat COLOR_COUNT)]"
      by (intro image_eqI [of _ _ "unat c"]) (auto simp: is_valid_color_iff)
  qed
  then show ?thesis by (auto simp: free_colors_def)
qed

lemma length_free_colors: "length (free_colors taken) \<le> 22"
  unfolding free_colors_def by (rule order_trans [OF length_filter_le]) simp

lemma nth_free_color:
  assumes "free_colors taken \<noteq> []"
  shows "free_colors taken ! unat (seed mod of_nat (length (free_colors taken)) :: u64) \<in> set (free_colors taken)"
proof (rule nth_mem)
  let ?n = "length (free_colors taken)"
  have "?n < usize_limit" using length_free_colors [of taken] by (simp add: usize_limit_def)
  then have "unat (of_nat ?n :: u64) = ?n" by (rule unat_of_nat_u64)
  then show "unat (seed mod of_nat ?n) < ?n"
    using assms by (simp add: unat_mod)
qed

lemma assign_color_valid: "is_valid_color (assign_color requested taken seed)"
proof (cases "is_valid_color requested \<and> requested \<notin> set taken \<or> free_colors taken = []")
  case True
  then show ?thesis by (auto simp: assign_color_def is_valid_color_iff)
next
  case False
  then show ?thesis
    using nth_free_color [of taken seed] set_free_colors [of taken] by (auto simp: assign_color_def Let_def)
qed

lemma assign_color_requested:
  "is_valid_color requested \<Longrightarrow> requested \<notin> set taken \<Longrightarrow> assign_color requested taken seed = requested"
  by (simp add: assign_color_def)

lemma free_colors_exist: "length taken < 22 \<Longrightarrow> free_colors taken \<noteq> []"
proof
  assume few: "length taken < 22" and "free_colors taken = []"
  then have "{c :: u8. is_valid_color c} \<subseteq> set taken" using set_free_colors [of taken] by auto
  moreover have "{c :: u8. is_valid_color c} = of_nat ` {1..<23}"
    using set_free_colors [of "[]"] by (auto simp: free_colors_def simp del: upt_Suc)
  moreover have "card (of_nat ` {1..<23} :: u8 set) = 22"
  proof -
    have "inj_on (of_nat :: nat \<Rightarrow> u8) {1..<23}"
      by (intro inj_onI) (use unat_of_nat_u8 in \<open>auto dest!: arg_cong [where f = unat]\<close>)
    then show ?thesis by (simp add: card_image)
  qed
  ultimately have "22 \<le> card (set taken)" by (metis List.finite_set card_mono)
  with few card_length [of taken] show False by simp
qed

lemma assign_color_free:
  assumes "length taken < unat COLOR_COUNT"
  shows "assign_color requested taken seed \<notin> set taken"
proof (cases "is_valid_color requested \<and> requested \<notin> set taken")
  case False
  have "free_colors taken \<noteq> []" using assms by (intro free_colors_exist) simp
  with False nth_free_color [of taken seed] set_free_colors [of taken] show ?thesis
    by (auto simp: assign_color_def Let_def)
qed (simp add: assign_color_def)

end
