(* ===== verification/Protocol.thy ===== *)
theory Protocol
  imports Wire Color Header
begin

text \<open>
  The messages of the play-together protocol, from
  \<open>supershuckie-play-together/src/protocol/mod.rs\<close> with the reason codes of
  \<open>protocol/link.rs\<close> and the wire forms of \<open>protocol/snapshot.rs\<close>: encoding, decoding of
  one message body, and what a decoded message is guaranteed to be.
\<close>

type_synonym peer_id = u16
type_synonym session_id = u64

subsection \<open>Limits and tags\<close>

definition PROTOCOL_VERSION :: u32 where "PROTOCOL_VERSION = 6"
definition MAX_DISPLAY_NAME_BYTES :: nat where "MAX_DISPLAY_NAME_BYTES = 32"
definition MAX_METADATA_STRING_BYTES :: nat where "MAX_METADATA_STRING_BYTES = 255"
definition MAX_APP_VERSION_BYTES :: nat where "MAX_APP_VERSION_BYTES = 64"
definition MAX_TEXT_BYTES :: nat where "MAX_TEXT_BYTES = 1024"
definition MAX_INPUT_BYTES :: nat where "MAX_INPUT_BYTES = 64"
definition MAX_COUNTERS :: nat where "MAX_COUNTERS = 256"
definition MAX_COUNTER_NAME_BYTES :: nat where "MAX_COUNTER_NAME_BYTES = 255"
definition MAX_PARTICIPANTS :: nat where "MAX_PARTICIPANTS = 8"
definition MAX_STATE_LENGTH :: u64 where "MAX_STATE_LENGTH = 50331648"
definition MAX_LINK_EVENT_BYTES :: nat where "MAX_LINK_EVENT_BYTES = 32768"
definition MAX_LINK_DELAY :: u8 where "MAX_LINK_DELAY = 15"

text \<open>\<open>MAX_MESSAGE_LENGTH as usize\<close>.\<close>

definition MAX_MESSAGE_BYTES :: nat where "MAX_MESSAGE_BYTES = unat MAX_MESSAGE_LENGTH"

definition TAG_HELLO :: u8 where "TAG_HELLO = 0x01"
definition TAG_WELCOME :: u8 where "TAG_WELCOME = 0x02"
definition TAG_REFUSED :: u8 where "TAG_REFUSED = 0x03"
definition TAG_PEER_JOINED :: u8 where "TAG_PEER_JOINED = 0x04"
definition TAG_PEER_LEFT :: u8 where "TAG_PEER_LEFT = 0x05"
definition TAG_RESET_ALL :: u8 where "TAG_RESET_ALL = 0x06"
definition TAG_SYNC_PAUSE :: u8 where "TAG_SYNC_PAUSE = 0x07"
definition TAG_PAUSE :: u8 where "TAG_PAUSE = 0x08"
definition TAG_STREAM :: u8 where "TAG_STREAM = 0x10"
definition TAG_SNAPSHOT :: u8 where "TAG_SNAPSHOT = 0x11"
definition TAG_SYNC_HASH :: u8 where "TAG_SYNC_HASH = 0x12"
definition TAG_REQUEST_SNAPSHOT :: u8 where "TAG_REQUEST_SNAPSHOT = 0x13"
definition TAG_START_STATE :: u8 where "TAG_START_STATE = 0x14"
definition TAG_PING :: u8 where "TAG_PING = 0x20"
definition TAG_PONG :: u8 where "TAG_PONG = 0x21"
definition TAG_GOODBYE :: u8 where "TAG_GOODBYE = 0x22"
definition TAG_ERROR :: u8 where "TAG_ERROR = 0x2F"
definition TAG_LINK_REQUEST :: u8 where "TAG_LINK_REQUEST = 0x30"
definition TAG_LINK_ACCEPT :: u8 where "TAG_LINK_ACCEPT = 0x31"
definition TAG_LINK_DECLINE :: u8 where "TAG_LINK_DECLINE = 0x32"
definition TAG_LINK_START :: u8 where "TAG_LINK_START = 0x33"
definition TAG_LINK_FRAME :: u8 where "TAG_LINK_FRAME = 0x34"
definition TAG_UNLINK :: u8 where "TAG_UNLINK = 0x35"
definition TAG_PEER_LINKED :: u8 where "TAG_PEER_LINKED = 0x36"
definition TAG_PEER_UNLINKED :: u8 where "TAG_PEER_UNLINKED = 0x37"
definition TAG_LINK_SPEED :: u8 where "TAG_LINK_SPEED = 0x38"

lemmas cap_defs = MAX_DISPLAY_NAME_BYTES_def MAX_METADATA_STRING_BYTES_def MAX_APP_VERSION_BYTES_def
  MAX_TEXT_BYTES_def MAX_INPUT_BYTES_def MAX_COUNTERS_def MAX_COUNTER_NAME_BYTES_def
  MAX_PARTICIPANTS_def MAX_LINK_EVENT_BYTES_def MAX_MESSAGE_BYTES_def MAX_MESSAGE_LENGTH_def

lemmas tag_defs = TAG_HELLO_def TAG_WELCOME_def TAG_REFUSED_def TAG_PEER_JOINED_def
  TAG_PEER_LEFT_def TAG_RESET_ALL_def TAG_SYNC_PAUSE_def TAG_PAUSE_def TAG_STREAM_def
  TAG_SNAPSHOT_def TAG_SYNC_HASH_def TAG_REQUEST_SNAPSHOT_def TAG_START_STATE_def TAG_PING_def
  TAG_PONG_def TAG_GOODBYE_def TAG_ERROR_def TAG_LINK_REQUEST_def TAG_LINK_ACCEPT_def
  TAG_LINK_DECLINE_def TAG_LINK_START_def TAG_LINK_FRAME_def TAG_UNLINK_def TAG_PEER_LINKED_def
  TAG_PEER_UNLINKED_def TAG_LINK_SPEED_def

subsection \<open>Reason codes and encodings\<close>

datatype refusal_reason =
    RR_ProtocolVersion | RR_ReplayVersion | RR_SessionFull | RR_ConsoleUnsupported
  | RR_PatchedRomUnsupported | RR_BadHello | RR_HostShuttingDown | RR_StartStateMismatch

fun refusal_code :: "refusal_reason \<Rightarrow> u32" where
  "refusal_code RR_ProtocolVersion = 0"
| "refusal_code RR_ReplayVersion = 1"
| "refusal_code RR_SessionFull = 2"
| "refusal_code RR_ConsoleUnsupported = 3"
| "refusal_code RR_PatchedRomUnsupported = 4"
| "refusal_code RR_BadHello = 5"
| "refusal_code RR_HostShuttingDown = 6"
| "refusal_code RR_StartStateMismatch = 7"

definition refusal_try_from :: "u32 \<Rightarrow> decode_error + refusal_reason" where
  "refusal_try_from v =
     (if v = 0 then Inr RR_ProtocolVersion
      else if v = 1 then Inr RR_ReplayVersion
      else if v = 2 then Inr RR_SessionFull
      else if v = 3 then Inr RR_ConsoleUnsupported
      else if v = 4 then Inr RR_PatchedRomUnsupported
      else if v = 5 then Inr RR_BadHello
      else if v = 6 then Inr RR_HostShuttingDown
      else if v = 7 then Inr RR_StartStateMismatch
      else Inl (BadEnum ''refusal reason'' v))"

datatype leave_reason =
    LR_Left | LR_Timeout | LR_TooSlow | LR_ProtocolError | LR_IoError | LR_Kicked | LR_HostLeft

fun leave_code :: "leave_reason \<Rightarrow> u32" where
  "leave_code LR_Left = 0"
| "leave_code LR_Timeout = 1"
| "leave_code LR_TooSlow = 2"
| "leave_code LR_ProtocolError = 3"
| "leave_code LR_IoError = 4"
| "leave_code LR_Kicked = 5"
| "leave_code LR_HostLeft = 6"

definition leave_try_from :: "u32 \<Rightarrow> decode_error + leave_reason" where
  "leave_try_from v =
     (if v = 0 then Inr LR_Left
      else if v = 1 then Inr LR_Timeout
      else if v = 2 then Inr LR_TooSlow
      else if v = 3 then Inr LR_ProtocolError
      else if v = 4 then Inr LR_IoError
      else if v = 5 then Inr LR_Kicked
      else if v = 6 then Inr LR_HostLeft
      else Inl (BadEnum ''leave reason'' v))"

text \<open>The link reasons are open: an unknown code is \<open>Other\<close>, written as \<open>u32::MAX\<close>.\<close>

datatype link_decline_reason =
    LD_Declined | LD_Busy | LD_ConsoleMismatch | LD_NotFollowing | LD_Timeout | LD_Unavailable | LD_Other

fun decline_code :: "link_decline_reason \<Rightarrow> u32" where
  "decline_code LD_Declined = 0"
| "decline_code LD_Busy = 1"
| "decline_code LD_ConsoleMismatch = 2"
| "decline_code LD_NotFollowing = 3"
| "decline_code LD_Timeout = 4"
| "decline_code LD_Unavailable = 5"
| "decline_code LD_Other = 0xFFFFFFFF"

definition decline_from :: "u32 \<Rightarrow> link_decline_reason" where
  "decline_from v =
     (if v = 0 then LD_Declined
      else if v = 1 then LD_Busy
      else if v = 2 then LD_ConsoleMismatch
      else if v = 3 then LD_NotFollowing
      else if v = 4 then LD_Timeout
      else if v = 5 then LD_Unavailable
      else LD_Other)"

datatype unlink_reason =
    UR_Unplugged | UR_Desync | UR_Timeout | UR_PeerLeft | UR_Failed | UR_Busy | UR_Other

fun unlink_code :: "unlink_reason \<Rightarrow> u32" where
  "unlink_code UR_Unplugged = 0"
| "unlink_code UR_Desync = 1"
| "unlink_code UR_Timeout = 2"
| "unlink_code UR_PeerLeft = 3"
| "unlink_code UR_Failed = 4"
| "unlink_code UR_Busy = 5"
| "unlink_code UR_Other = 0xFFFFFFFF"

definition unlink_from :: "u32 \<Rightarrow> unlink_reason" where
  "unlink_from v =
     (if v = 0 then UR_Unplugged
      else if v = 1 then UR_Desync
      else if v = 2 then UR_Timeout
      else if v = 3 then UR_PeerLeft
      else if v = 4 then UR_Failed
      else if v = 5 then UR_Busy
      else UR_Other)"

datatype state_encoding = Raw | Zstd

fun encoding_code :: "state_encoding \<Rightarrow> u8" where
  "encoding_code Raw = 0"
| "encoding_code Zstd = 1"

definition encoding_try_from :: "u8 \<Rightarrow> decode_error + state_encoding" where
  "encoding_try_from v =
     (if v = 0 then Inr Raw else if v = 1 then Inr Zstd
      else Inl (BadEnum ''state encoding'' (ucast v)))"

lemma reason_codes [simp]:
  "refusal_try_from (refusal_code rr) = Inr rr" "leave_try_from (leave_code lr) = Inr lr"
  "decline_from (decline_code ld) = ld" "unlink_from (unlink_code ur) = ur"
  "encoding_try_from (encoding_code se) = Inr se"
proof -
  show "refusal_try_from (refusal_code rr) = Inr rr"
    by (cases rr) (simp_all add: refusal_try_from_def)
  show "leave_try_from (leave_code lr) = Inr lr"
    by (cases lr) (simp_all add: leave_try_from_def)
  show "decline_from (decline_code ld) = ld"
    by (cases ld) (simp_all add: decline_from_def)
  show "unlink_from (unlink_code ur) = ur"
    by (cases ur) (simp_all add: unlink_from_def)
  show "encoding_try_from (encoding_code se) = Inr se"
    by (cases se) (simp_all add: encoding_try_from_def)
qed

subsection \<open>Participants\<close>

record publisher_info =
  pi_metadata :: replay_file_metadata
  pi_initial_input :: bytes
  pi_speed :: speed
  pi_frame :: u64

record participant_info =
  pa_peer_id :: peer_id
  pa_display_name :: rstring
  pa_color :: player_color
  pa_app_version :: rstring
  pa_publisher :: publisher_info

record wire_snapshot =
  ws_from :: peer_id
  ws_target :: peer_id
  ws_frame :: u64
  ws_elapsed_millis :: u64
  ws_input :: bytes
  ws_speed :: speed
  ws_counters :: "counter list"
  ws_encoding :: state_encoding
  ws_state_len :: u64
  ws_state :: bytes

record wire_start_state =
  ss_rom_checksum :: bytes
  ss_encoding :: state_encoding
  ss_state_len :: u64
  ss_state :: bytes

text \<open>A fallible conversion of a value that was read.\<close>

definition checked :: "decode_error + 'a \<Rightarrow> 'a wreader" where
  "checked r = (case r of Inl e \<Rightarrow> fail e | Inr x \<Rightarrow> ret x)"

definition assigned_color :: "player_color wreader" where
  "assigned_color = bnd dec_u8 (\<lambda>color.
     if is_valid_color color then ret color else fail (BadColor color))"

definition dec_peer_id :: "peer_id wreader" where
  "dec_peer_id = bnd dec_u16 (\<lambda>id. if id = 0 then fail ZeroPeerId else ret id)"

definition dec_speed :: "speed wreader" where
  "dec_speed = bnd dec_u16 (\<lambda>s. if s = 0 then fail BadSpeed else ret (Speed s))"

definition dec_input_buffer :: "bytes wreader" where
  "dec_input_buffer = dec_bytes ''input'' MAX_INPUT_BYTES"

definition enc_speed :: "speed \<Rightarrow> bytes" where
  "enc_speed s = enc_u16 (speed_over_256 s)"

definition enc_counter :: "counter \<Rightarrow> bytes" where
  "enc_counter c = enc_string (counter_name c) @ enc_i64 (counter_value c)"

definition dec_counter :: "counter wreader" where
  "dec_counter =
     bnd (dec_string ''counter name'' MAX_COUNTER_NAME_BYTES) (\<lambda>name.
     bnd dec_i64 (\<lambda>val. ret \<lparr>counter_name = name, counter_value = val\<rparr>))"

definition dec_counters :: "counter list wreader" where
  "dec_counters = bnd (dec_count ''counters'' MAX_COUNTERS (4 + 8)) (read_n dec_counter)"

definition PUBLISHER_MIN_BYTES :: nat where
  "PUBLISHER_MIN_BYTES = 4 + 4 + 4 + 32 + 32 + 4 + 4 + 32 + 4 + 2 + 8"

definition PARTICIPANT_MIN_BYTES :: nat where
  "PARTICIPANT_MIN_BYTES = 2 + 4 + 1 + 4 + PUBLISHER_MIN_BYTES"

definition encode_publisher :: "publisher_info \<Rightarrow> bytes" where
  "encode_publisher p = (let m = pi_metadata p in
     enc_u32 (console_primitive (m_console_type m)) @
     enc_string (m_rom_name m) @
     enc_string (m_rom_filename m) @
     enc_hash (m_rom_checksum m) @
     enc_hash (m_bios_checksum m) @
     enc_string (m_emulator_core_name m) @
     enc_u32 (patch_format_primitive (m_patch_format m)) @
     enc_hash (m_patch_target_checksum m) @
     enc_bytes (pi_initial_input p) @
     enc_speed (pi_speed p) @
     enc_u64 (pi_frame p))"

definition decode_publisher :: "publisher_info wreader" where
  "decode_publisher =
     bnd dec_u32 (\<lambda>console.
     bnd (checked (map_err (\<lambda>_. BadEnum ''console type'' console) (get_console console))) (\<lambda>console_type.
     bnd (dec_string ''rom_name'' MAX_METADATA_STRING_BYTES) (\<lambda>rom_name.
     bnd (dec_string ''rom_filename'' MAX_METADATA_STRING_BYTES) (\<lambda>rom_filename.
     bnd dec_hash (\<lambda>rom_checksum.
     bnd dec_hash (\<lambda>bios_checksum.
     bnd (dec_string ''emulator_core_name'' MAX_METADATA_STRING_BYTES) (\<lambda>emulator_core_name.
     bnd dec_u32 (\<lambda>patch.
     bnd (checked (map_err (\<lambda>_. BadEnum ''patch format'' patch) (get_patch_format patch))) (\<lambda>patch_format.
     bnd dec_hash (\<lambda>patch_target_checksum.
     bnd dec_input_buffer (\<lambda>initial_input.
     bnd dec_speed (\<lambda>sp.
     bnd dec_u64 (\<lambda>frame_no.
     ret \<lparr>pi_metadata =
            \<lparr>m_console_type = console_type, m_rom_name = rom_name, m_rom_filename = rom_filename,
             m_rom_checksum = rom_checksum, m_bios_checksum = bios_checksum,
             m_emulator_core_name = emulator_core_name, m_patch_format = patch_format,
             m_patch_target_checksum = patch_target_checksum,
             m_crop_start = None, m_crop_end = None, m_timer_offset = None\<rparr>,
          pi_initial_input = initial_input, pi_speed = sp, pi_frame = frame_no\<rparr>)))))))))))))"

definition encode_participant :: "participant_info \<Rightarrow> bytes" where
  "encode_participant p =
     enc_u16 (pa_peer_id p) @
     enc_string (pa_display_name p) @
     enc_u8 (pa_color p) @
     enc_string (pa_app_version p) @
     encode_publisher (pa_publisher p)"

definition decode_participant :: "participant_info wreader" where
  "decode_participant =
     bnd dec_peer_id (\<lambda>id.
     bnd (dec_string ''display_name'' MAX_DISPLAY_NAME_BYTES) (\<lambda>display_name.
     bnd assigned_color (\<lambda>color.
     bnd (dec_string ''app_version'' MAX_APP_VERSION_BYTES) (\<lambda>app_version.
     bnd decode_publisher (\<lambda>publisher.
     ret \<lparr>pa_peer_id = id, pa_display_name = display_name, pa_color = color,
          pa_app_version = app_version, pa_publisher = publisher\<rparr>)))))"

subsection \<open>Well-formed values\<close>

definition text_ok :: "nat \<Rightarrow> rstring \<Rightarrow> bool" where
  "text_ok cap s \<longleftrightarrow> length s \<le> cap \<and> utf8_valid s"

definition hash_wf :: "bytes \<Rightarrow> bool" where
  "hash_wf h \<longleftrightarrow> length h = 32"

definition wire_counter_ok :: "counter \<Rightarrow> bool" where
  "wire_counter_ok c \<longleftrightarrow> text_ok MAX_COUNTER_NAME_BYTES (counter_name c)"

definition publisher_ok :: "publisher_info \<Rightarrow> bool" where
  "publisher_ok p \<longleftrightarrow> (let m = pi_metadata p in
     text_ok MAX_METADATA_STRING_BYTES (m_rom_name m) \<and>
     text_ok MAX_METADATA_STRING_BYTES (m_rom_filename m) \<and>
     text_ok MAX_METADATA_STRING_BYTES (m_emulator_core_name m) \<and>
     hash_wf (m_rom_checksum m) \<and> hash_wf (m_bios_checksum m) \<and> hash_wf (m_patch_target_checksum m) \<and>
     m_crop_start m = None \<and> m_crop_end m = None \<and> m_timer_offset m = None \<and>
     length (pi_initial_input p) \<le> MAX_INPUT_BYTES \<and> speed_ok (pi_speed p))"

definition participant_ok :: "participant_info \<Rightarrow> bool" where
  "participant_ok p \<longleftrightarrow>
     pa_peer_id p \<noteq> 0 \<and> text_ok MAX_DISPLAY_NAME_BYTES (pa_display_name p) \<and>
     is_valid_color (pa_color p) \<and> text_ok MAX_APP_VERSION_BYTES (pa_app_version p) \<and>
     publisher_ok (pa_publisher p)"

lemma reads_checked: "r = Inr x \<Longrightarrow> reads_as e (checked r) [] x"
  by (simp add: checked_def reads_as_ret del: ret_apply)

text \<open>A conversion directly after the field it converts.\<close>

lemma reads_as_bnd_checked [wire_leaf]:
  assumes "reads_as Truncated r a v" and "c v = Inr x" and "reads_as Truncated (f v x) b y"
  shows "reads_as Truncated (bnd r (\<lambda>v. bnd (checked (c v)) (f v))) (a @ b) y"
proof -
  have "reads_as Truncated (bnd (checked (c v)) (f v)) ([] @ b) y"
    by (rule reads_as_bnd, rule reads_checked [OF assms(2)], rule assms(3))
  with reads_as_bnd [OF assms(1), of "\<lambda>v. bnd (checked (c v)) (f v)" b y] show ?thesis by simp
qed

lemma reads_text [wire_leaf]:
  "text_ok cap s \<Longrightarrow> cap < 4294967296 \<Longrightarrow> reads_as Truncated (dec_string what cap) (enc_string s) s"
  by (rule reads_dec_string) (simp_all add: text_ok_def)

lemma reads_hash_wf [wire_leaf]: "hash_wf h \<Longrightarrow> reads_as Truncated dec_hash (enc_hash h) h"
  by (rule reads_dec_hash) (simp add: hash_wf_def)

lemma reads_peer_id [wire_leaf]: "i \<noteq> 0 \<Longrightarrow> reads_as Truncated dec_peer_id (enc_u16 i) i"
  unfolding dec_peer_id_def
  by (rule reads_as_bnd_last [OF reads_dec_u16]) (simp add: reads_as_ret del: ret_apply)

lemma reads_wire_speed [wire_leaf]: "speed_ok s \<Longrightarrow> reads_as Truncated dec_speed (enc_speed s) s"
  unfolding dec_speed_def enc_speed_def
  by (rule reads_as_bnd_last [OF reads_dec_u16]) (simp add: speed_ok_def reads_as_ret del: ret_apply)

lemma reads_color [wire_leaf]: "is_valid_color c \<Longrightarrow> reads_as Truncated assigned_color (enc_u8 c) c"
  unfolding assigned_color_def
  by (rule reads_as_bnd_last [OF reads_dec_u8]) (simp add: reads_as_ret del: ret_apply)

lemma reads_input [wire_leaf]:
  "length b \<le> MAX_INPUT_BYTES \<Longrightarrow> reads_as Truncated dec_input_buffer (enc_bytes b) b"
  unfolding dec_input_buffer_def by (rule reads_dec_bytes) (simp_all add: MAX_INPUT_BYTES_def)

lemma reads_wire_counter:
  "wire_counter_ok c \<Longrightarrow> reads_as Truncated dec_counter (enc_counter c) c"
  unfolding dec_counter_def enc_counter_def wire_counter_ok_def
  by (rule reads_as_bnd reads_as_bnd_last wire_leaf reads_as_ret_eq
      | (simp add: MAX_COUNTER_NAME_BYTES_def; fail))+

lemma reads_publisher [wire_leaf]:
  assumes "publisher_ok p"
  shows "reads_as Truncated decode_publisher (encode_publisher p) p"
  using assms unfolding publisher_ok_def Let_def
  by (elim conjE, unfold decode_publisher_def encode_publisher_def Let_def)
    (rule reads_as_bnd_checked reads_as_bnd reads_as_bnd_last wire_leaf reads_as_ret_eq
      | assumption | (simp add: MAX_METADATA_STRING_BYTES_def; fail))+

lemma reads_participant [wire_leaf]:
  assumes "participant_ok p"
  shows "reads_as Truncated decode_participant (encode_participant p) p"
  using assms unfolding participant_ok_def
  by (elim conjE, unfold decode_participant_def encode_participant_def)
    (rule reads_as_bnd reads_as_bnd_last wire_leaf reads_as_ret_eq
      | assumption | (simp add: MAX_DISPLAY_NAME_BYTES_def MAX_APP_VERSION_BYTES_def; fail))+

lemma consumes_protocol [consumes_intros]:
  "k \<le> 4 \<Longrightarrow> consumes k dec_counter" "k \<le> 2 \<Longrightarrow> consumes k dec_peer_id" "k \<le> 2 \<Longrightarrow> consumes k dec_speed"
  unfolding dec_counter_def dec_peer_id_def dec_speed_def
  by (intro consumes_intros; simp)+

lemma consumes_checked [consumes_intros]: "k \<le> 0 \<Longrightarrow> consumes k (checked r)"
  by (cases r) (simp_all add: checked_def consumes_ret consumes_fail)

lemma consumes_parts [consumes_intros]:
  "k \<le> 0 \<Longrightarrow> consumes k assigned_color" "k \<le> 0 \<Longrightarrow> consumes k dec_input_buffer"
  unfolding assigned_color_def dec_input_buffer_def
  by (intro consumes_intros; simp)+

lemma consumes_publisher [consumes_intros]: "k \<le> 4 \<Longrightarrow> consumes k decode_publisher"
  unfolding decode_publisher_def by (intro consumes_intros) simp_all

lemma consumes_participant [consumes_intros]: "k \<le> 2 \<Longrightarrow> consumes k decode_participant"
  unfolding decode_participant_def by (intro consumes_intros) simp_all

text \<open>What the readers of participants return is well-formed.\<close>

lemma yields_checked: "(\<And>x. r = Inr x \<Longrightarrow> P x) \<Longrightarrow> yields P (checked r)"
  by (cases r) (simp_all add: checked_def yields_ret yields_fail del: ret_apply fail_apply)

lemma yields_text: "yields (text_ok cap) (dec_string what cap)"
  using yields_wire(2) [of cap what] by (simp add: yields_def text_ok_def)

lemma yields_hash: "yields hash_wf dec_hash"
  using yields_wire(3) by (simp add: yields_def hash_wf_def)

lemma yields_input: "yields (\<lambda>b. length b \<le> MAX_INPUT_BYTES) dec_input_buffer"
  unfolding dec_input_buffer_def by (rule yields_wire)

lemma yields_peer_id: "yields (\<lambda>i. i \<noteq> 0) dec_peer_id"
  unfolding dec_peer_id_def by (rule yields_bnd [OF yields_any]) (auto simp: yields_def)

lemma yields_speed: "yields speed_ok dec_speed"
  unfolding dec_speed_def by (rule yields_bnd [OF yields_any]) (auto simp: yields_def speed_ok_def)

lemma yields_color: "yields is_valid_color assigned_color"
  unfolding assigned_color_def by (rule yields_bnd [OF yields_any]) (auto simp: yields_def)

lemmas yields_fields = yields_text yields_hash yields_input yields_peer_id yields_speed yields_color

lemma yields_counter: "yields wire_counter_ok dec_counter"
  unfolding dec_counter_def
  by (intro yields_bnd [OF yields_text] yields_bnd [OF yields_any] yields_ret) (simp add: wire_counter_ok_def)

lemma yields_publisher: "yields publisher_ok decode_publisher"
  unfolding decode_publisher_def
  by (intro yields_bnd [OF yields_text] yields_bnd [OF yields_hash] yields_bnd [OF yields_input]
      yields_bnd [OF yields_speed] yields_bnd [OF yields_any] yields_ret)
    (simp add: publisher_ok_def)

lemma yields_participant: "yields participant_ok decode_participant"
  unfolding decode_participant_def
  by (intro yields_bnd [OF yields_peer_id] yields_bnd [OF yields_text] yields_bnd [OF yields_color]
      yields_bnd [OF yields_publisher] yields_bnd [OF yields_any] yields_ret)
    (simp add: participant_ok_def)

subsection \<open>Lists of counters and of participants\<close>

lemma length_enc_counter: "length (enc_counter c) = 12 + length (counter_name c)"
  by (simp add: enc_counter_def)

interpretation wire_counters: counted_codec enc_counter dec_counter wire_counter_ok "4 + 8"
  by unfold_locales (auto intro: reads_wire_counter consumes_protocol simp: length_enc_counter)

lemma participant_min: "participant_ok p \<Longrightarrow> PARTICIPANT_MIN_BYTES \<le> length (encode_participant p)"
  by (simp add: participant_ok_def publisher_ok_def hash_wf_def encode_participant_def
      encode_publisher_def enc_speed_def PARTICIPANT_MIN_BYTES_def PUBLISHER_MIN_BYTES_def Let_def)

interpretation wire_participants:
  counted_codec encode_participant decode_participant participant_ok PARTICIPANT_MIN_BYTES
  by unfold_locales (simp_all add: reads_participant consumes_participant participant_min)

lemma yields_counted:
  assumes "yields P r"
  shows "yields (list_all P) (bnd (dec_count what cap sz) (read_n r))"
  by (rule yields_bnd [OF yields_any]) (rule yields_read_n [OF assms])

end
