(* ===== verification/Messages.thy ===== *)
theory Messages
  imports Protocol
begin

text \<open>
  The \<open>Message\<close> type of \<open>supershuckie-play-together/src/protocol/mod.rs\<close>: its tags, its
  encoding as a framed message, and the decoder of one message body. A message that decodes is
  well-formed (\<open>decode_sound\<close>) and a well-formed message decodes from its encoding
  (\<open>decode_body\<close>), so \<open>message_ok\<close> is exactly what can arrive.
\<close>

subsection \<open>Messages\<close>

datatype message =
    Hello (he_protocol_version: u32) (he_replay_version: u32) (he_app_version: rstring)
      (he_display_name: rstring) (he_color: player_color) (he_publisher: publisher_info)
  | Welcome (we_your_peer_id: peer_id) (we_session_id: session_id) (we_your_display_name: rstring)
      (we_your_color: player_color) (we_participants: "participant_info list")
  | Refused refusal_reason rstring
  | PeerJoined participant_info
  | PeerLeft peer_id leave_reason
  | ResetAll u32 u32
  | SyncPause bool bool bool
  | Pause peer_id bool
  | Stream peer_id u64 bytes
  | Snapshot wire_snapshot
  | SyncHash peer_id u64 bytes
  | RequestSnapshot peer_id peer_id
  | StartState wire_start_state
  | Ping u32 u64
  | Pong u32 u64
  | Goodbye
  | ErrorText rstring
  | LinkRequest peer_id peer_id u32 u32
  | LinkAccept peer_id peer_id u32
  | LinkDecline peer_id peer_id u32 link_decline_reason
  | LinkStart (ls_from: peer_id) (ls_target: peer_id) (ls_nonce: u32) (ls_frame: u64)
      (ls_input: bytes) (ls_rtt_millis: u32) (ls_delay_setting: u8) (ls_speed: speed)
  | LinkFrame (lf_from: peer_id) (lf_target: peer_id) (lf_frame: u64) (lf_elapsed_millis: u64)
      (lf_events: bytes) (lf_pair_hash_frame: u64) (lf_pair_hash: bytes)
  | Unlink peer_id peer_id unlink_reason
  | PeerLinked peer_id peer_id
  | PeerUnlinked peer_id peer_id
  | LinkSpeed speed

fun tag :: "message \<Rightarrow> u8" where
  "tag (Hello _ _ _ _ _ _) = TAG_HELLO"
| "tag (Welcome _ _ _ _ _) = TAG_WELCOME"
| "tag (Refused _ _) = TAG_REFUSED"
| "tag (PeerJoined _) = TAG_PEER_JOINED"
| "tag (PeerLeft _ _) = TAG_PEER_LEFT"
| "tag (ResetAll _ _) = TAG_RESET_ALL"
| "tag (SyncPause _ _ _) = TAG_SYNC_PAUSE"
| "tag (Pause _ _) = TAG_PAUSE"
| "tag (Stream _ _ _) = TAG_STREAM"
| "tag (Snapshot _) = TAG_SNAPSHOT"
| "tag (SyncHash _ _ _) = TAG_SYNC_HASH"
| "tag (RequestSnapshot _ _) = TAG_REQUEST_SNAPSHOT"
| "tag (StartState _) = TAG_START_STATE"
| "tag (Ping _ _) = TAG_PING"
| "tag (Pong _ _) = TAG_PONG"
| "tag Goodbye = TAG_GOODBYE"
| "tag (ErrorText _) = TAG_ERROR"
| "tag (LinkRequest _ _ _ _) = TAG_LINK_REQUEST"
| "tag (LinkAccept _ _ _) = TAG_LINK_ACCEPT"
| "tag (LinkDecline _ _ _ _) = TAG_LINK_DECLINE"
| "tag (LinkStart _ _ _ _ _ _ _ _) = TAG_LINK_START"
| "tag (LinkFrame _ _ _ _ _ _ _) = TAG_LINK_FRAME"
| "tag (Unlink _ _ _) = TAG_UNLINK"
| "tag (PeerLinked _ _) = TAG_PEER_LINKED"
| "tag (PeerUnlinked _ _) = TAG_PEER_UNLINKED"
| "tag (LinkSpeed _) = TAG_LINK_SPEED"

fun link_endpoints :: "message \<Rightarrow> (peer_id \<times> peer_id) option" where
  "link_endpoints (LinkRequest from target _ _) = Some (from, target)"
| "link_endpoints (LinkAccept from target _) = Some (from, target)"
| "link_endpoints (LinkDecline from target _ _) = Some (from, target)"
| "link_endpoints (LinkStart from target _ _ _ _ _ _) = Some (from, target)"
| "link_endpoints (LinkFrame from target _ _ _ _ _) = Some (from, target)"
| "link_endpoints (Unlink from target _) = Some (from, target)"
| "link_endpoints _ = None"

fun is_link_relay :: "message \<Rightarrow> bool" where
  "is_link_relay (LinkRequest _ _ _ _) = True"
| "is_link_relay (LinkAccept _ _ _) = True"
| "is_link_relay (LinkDecline _ _ _ _) = True"
| "is_link_relay (LinkStart _ _ _ _ _ _ _ _) = True"
| "is_link_relay (LinkFrame _ _ _ _ _ _ _) = True"
| "is_link_relay (Unlink _ _ _) = True"
| "is_link_relay _ = False"

lemma link_endpoints_relay: "link_endpoints m \<noteq> None \<longleftrightarrow> is_link_relay m"
  by (cases m) simp_all

subsection \<open>Encoding\<close>

fun encode_payload :: "message \<Rightarrow> bytes" where
  "encode_payload (Hello protocol_version rversion app_version display_name color publisher) =
     enc_u32 protocol_version @ enc_u32 rversion @ enc_string app_version @
     enc_string display_name @ enc_u8 color @ encode_publisher publisher"
| "encode_payload (Welcome your_peer_id session_id your_display_name your_color participants) =
     enc_u16 your_peer_id @ enc_u64 session_id @ enc_string your_display_name @
     enc_u8 your_color @ enc_u32 (of_nat (length participants)) @
     concat (map encode_participant participants)"
| "encode_payload (Refused reason text) = enc_u32 (refusal_code reason) @ enc_string text"
| "encode_payload (PeerJoined participant) = encode_participant participant"
| "encode_payload (PeerLeft peer reason) = enc_u16 peer @ enc_u32 (leave_code reason)"
| "encode_payload (ResetAll race_id countdown_millis) = enc_u32 race_id @ enc_u32 countdown_millis"
| "encode_payload (SyncPause enabled paused host_only) =
     enc_bool enabled @ enc_bool paused @ enc_bool host_only"
| "encode_payload (Pause from paused) = enc_u16 from @ enc_bool paused"
| "encode_payload (Stream from first_frame bytes) = enc_u16 from @ enc_u64 first_frame @ enc_bytes bytes"
| "encode_payload (Snapshot s) =
     enc_u16 (ws_from s) @ enc_u16 (ws_target s) @ enc_u64 (ws_frame s) @
     enc_u64 (ws_elapsed_millis s) @ enc_bytes (ws_input s) @ enc_speed (ws_speed s) @
     (enc_u32 (of_nat (length (ws_counters s))) @ concat (map enc_counter (ws_counters s))) @
     enc_u8 (encoding_code (ws_encoding s)) @ enc_u64 (ws_state_len s) @ enc_bytes (ws_state s)"
| "encode_payload (SyncHash from frame_no hash) = enc_u16 from @ enc_u64 frame_no @ enc_hash hash"
| "encode_payload (RequestSnapshot requester target) = enc_u16 requester @ enc_u16 target"
| "encode_payload (StartState s) =
     enc_hash (ss_rom_checksum s) @ enc_u8 (encoding_code (ss_encoding s)) @
     enc_u64 (ss_state_len s) @ enc_bytes (ss_state s)"
| "encode_payload (Ping nonce sent_unix_millis) = enc_u32 nonce @ enc_u64 sent_unix_millis"
| "encode_payload (Pong nonce sent_unix_millis) = enc_u32 nonce @ enc_u64 sent_unix_millis"
| "encode_payload Goodbye = []"
| "encode_payload (ErrorText text) = enc_string text"
| "encode_payload (LinkRequest from target nonce console) =
     enc_u16 from @ enc_u16 target @ enc_u32 nonce @ enc_u32 console"
| "encode_payload (LinkAccept from target nonce) = enc_u16 from @ enc_u16 target @ enc_u32 nonce"
| "encode_payload (LinkDecline from target nonce reason) =
     enc_u16 from @ enc_u16 target @ enc_u32 nonce @ enc_u32 (decline_code reason)"
| "encode_payload (LinkStart from target nonce frame_no input rtt_millis delay_setting speed) =
     enc_u16 from @ enc_u16 target @ enc_u32 nonce @ enc_u64 frame_no @ enc_bytes input @
     enc_u32 rtt_millis @ enc_u8 delay_setting @ enc_speed speed"
| "encode_payload (LinkFrame from target frame_no elapsed_millis events pair_hash_frame pair_hash) =
     enc_u16 from @ enc_u16 target @ enc_u64 frame_no @ enc_u64 elapsed_millis @ enc_bytes events @
     enc_u64 pair_hash_frame @ enc_hash pair_hash"
| "encode_payload (Unlink from target reason) =
     enc_u16 from @ enc_u16 target @ enc_u32 (unlink_code reason)"
| "encode_payload (PeerLinked a b) = enc_u16 a @ enc_u16 b"
| "encode_payload (PeerUnlinked a b) = enc_u16 a @ enc_u16 b"
| "encode_payload (LinkSpeed speed) = enc_speed speed"

definition encode_body :: "message \<Rightarrow> bytes" where
  "encode_body m = enc_u8 (tag m) @ encode_payload m"

definition encode :: "message \<Rightarrow> bytes \<Rightarrow> bytes" where
  "encode m out = frame out (encode_body m)"

definition encoded :: "message \<Rightarrow> bytes" where
  "encoded m = encode m []"

subsection \<open>Decoding\<close>

definition dec_state_len :: "u64 wreader" where
  "dec_state_len = bnd dec_u64 (\<lambda>state_len.
     if MAX_STATE_LENGTH < state_len then fail (StateTooLarge state_len) else ret state_len)"

definition dec_delay_setting :: "u8 wreader" where
  "dec_delay_setting = bnd dec_u8 (\<lambda>d.
     if MAX_LINK_DELAY < d then fail (BadEnum ''link delay setting'' (ucast d)) else ret d)"

definition read_hello :: "message wreader" where
  "read_hello =
     bnd dec_u32 (\<lambda>protocol_version.
     bnd dec_u32 (\<lambda>rversion.
     bnd (dec_string ''app_version'' MAX_APP_VERSION_BYTES) (\<lambda>app_version.
     bnd (dec_string ''display_name'' MAX_DISPLAY_NAME_BYTES) (\<lambda>display_name.
     bnd dec_u8 (\<lambda>color.
     bnd decode_publisher (\<lambda>publisher.
     ret (Hello protocol_version rversion app_version display_name color publisher)))))))"

definition read_welcome :: "message wreader" where
  "read_welcome =
     bnd dec_peer_id (\<lambda>your_peer_id.
     bnd dec_u64 (\<lambda>session_id.
     bnd (dec_string ''display_name'' MAX_DISPLAY_NAME_BYTES) (\<lambda>your_display_name.
     bnd assigned_color (\<lambda>your_color.
     bnd (bnd (dec_count ''participants'' MAX_PARTICIPANTS PARTICIPANT_MIN_BYTES)
            (read_n decode_participant)) (\<lambda>participants.
     ret (Welcome your_peer_id session_id your_display_name your_color participants))))))"

definition read_snapshot :: "message wreader" where
  "read_snapshot =
     bnd dec_peer_id (\<lambda>from.
     bnd dec_u16 (\<lambda>target.
     bnd dec_u64 (\<lambda>frame_no.
     bnd dec_u64 (\<lambda>elapsed_millis.
     bnd dec_input_buffer (\<lambda>inp.
     bnd dec_speed (\<lambda>sp.
     bnd dec_counters (\<lambda>cs.
     bnd dec_u8 (\<lambda>enc.
     bnd (checked (encoding_try_from enc)) (\<lambda>encoding.
     bnd dec_state_len (\<lambda>state_len.
     bnd (dec_bytes ''state'' MAX_MESSAGE_BYTES) (\<lambda>state.
     ret (Snapshot \<lparr>ws_from = from, ws_target = target, ws_frame = frame_no,
       ws_elapsed_millis = elapsed_millis, ws_input = inp, ws_speed = sp, ws_counters = cs,
       ws_encoding = encoding, ws_state_len = state_len, ws_state = state\<rparr>))))))))))))"

definition read_start_state :: "message wreader" where
  "read_start_state =
     bnd dec_hash (\<lambda>rom_checksum.
     bnd dec_u8 (\<lambda>enc.
     bnd (checked (encoding_try_from enc)) (\<lambda>encoding.
     bnd dec_state_len (\<lambda>state_len.
     bnd (dec_bytes ''state'' MAX_MESSAGE_BYTES) (\<lambda>state.
     ret (StartState \<lparr>ss_rom_checksum = rom_checksum, ss_encoding = encoding,
       ss_state_len = state_len, ss_state = state\<rparr>))))))"

definition read_link_start :: "message wreader" where
  "read_link_start =
     bnd dec_u16 (\<lambda>from.
     bnd dec_peer_id (\<lambda>target.
     bnd dec_u32 (\<lambda>nonce.
     bnd dec_u64 (\<lambda>frame_no.
     bnd dec_input_buffer (\<lambda>inp.
     bnd dec_u32 (\<lambda>rtt_millis.
     bnd dec_delay_setting (\<lambda>delay_setting.
     bnd dec_speed (\<lambda>sp.
     ret (LinkStart from target nonce frame_no inp rtt_millis delay_setting sp)))))))))"

definition read_link_frame :: "message wreader" where
  "read_link_frame =
     bnd dec_u16 (\<lambda>from.
     bnd dec_peer_id (\<lambda>target.
     bnd dec_u64 (\<lambda>frame_no.
     bnd dec_u64 (\<lambda>elapsed_millis.
     bnd (dec_bytes ''link events'' MAX_LINK_EVENT_BYTES) (\<lambda>events.
     bnd dec_u64 (\<lambda>pair_hash_frame.
     bnd dec_hash (\<lambda>pair_hash.
     ret (LinkFrame from target frame_no elapsed_millis events pair_hash_frame pair_hash))))))))"

text \<open>The arms of the match on the tag.\<close>

definition read_message :: "u8 \<Rightarrow> message wreader" where
  "read_message t =
     (if t = TAG_HELLO then read_hello
      else if t = TAG_WELCOME then read_welcome
      else if t = TAG_REFUSED then
        bnd dec_u32 (\<lambda>r. bnd (checked (refusal_try_from r)) (\<lambda>reason.
        bnd (dec_string ''text'' MAX_TEXT_BYTES) (\<lambda>text. ret (Refused reason text))))
      else if t = TAG_PEER_JOINED then bnd decode_participant (\<lambda>p. ret (PeerJoined p))
      else if t = TAG_PEER_LEFT then
        bnd dec_peer_id (\<lambda>p. bnd dec_u32 (\<lambda>r. bnd (checked (leave_try_from r)) (\<lambda>reason.
        ret (PeerLeft p reason))))
      else if t = TAG_RESET_ALL then bnd dec_u32 (\<lambda>a. bnd dec_u32 (\<lambda>b. ret (ResetAll a b)))
      else if t = TAG_SYNC_PAUSE then
        bnd dec_bool (\<lambda>a. bnd dec_bool (\<lambda>b. bnd dec_bool (\<lambda>c. ret (SyncPause a b c))))
      else if t = TAG_PAUSE then bnd dec_u16 (\<lambda>from. bnd dec_bool (\<lambda>p. ret (Pause from p)))
      else if t = TAG_STREAM then
        bnd dec_peer_id (\<lambda>from. bnd dec_u64 (\<lambda>first_frame.
        bnd (dec_bytes ''stream'' MAX_MESSAGE_BYTES) (\<lambda>b. ret (Stream from first_frame b))))
      else if t = TAG_SNAPSHOT then read_snapshot
      else if t = TAG_SYNC_HASH then
        bnd dec_peer_id (\<lambda>from. bnd dec_u64 (\<lambda>f. bnd dec_hash (\<lambda>h. ret (SyncHash from f h))))
      else if t = TAG_REQUEST_SNAPSHOT then
        bnd dec_u16 (\<lambda>requester. bnd dec_u16 (\<lambda>target. ret (RequestSnapshot requester target)))
      else if t = TAG_START_STATE then read_start_state
      else if t = TAG_PING then bnd dec_u32 (\<lambda>nonce. bnd dec_u64 (\<lambda>sent. ret (Ping nonce sent)))
      else if t = TAG_PONG then bnd dec_u32 (\<lambda>nonce. bnd dec_u64 (\<lambda>sent. ret (Pong nonce sent)))
      else if t = TAG_GOODBYE then ret Goodbye
      else if t = TAG_ERROR then bnd (dec_string ''text'' MAX_TEXT_BYTES) (\<lambda>text. ret (ErrorText text))
      else if t = TAG_LINK_REQUEST then
        bnd dec_u16 (\<lambda>from. bnd dec_peer_id (\<lambda>target. bnd dec_u32 (\<lambda>nonce. bnd dec_u32 (\<lambda>console.
        ret (LinkRequest from target nonce console)))))
      else if t = TAG_LINK_ACCEPT then
        bnd dec_u16 (\<lambda>from. bnd dec_peer_id (\<lambda>target. bnd dec_u32 (\<lambda>nonce.
        ret (LinkAccept from target nonce))))
      else if t = TAG_LINK_DECLINE then
        bnd dec_u16 (\<lambda>from. bnd dec_peer_id (\<lambda>target. bnd dec_u32 (\<lambda>nonce. bnd dec_u32 (\<lambda>r.
        ret (LinkDecline from target nonce (decline_from r))))))
      else if t = TAG_LINK_START then read_link_start
      else if t = TAG_LINK_FRAME then read_link_frame
      else if t = TAG_UNLINK then
        bnd dec_u16 (\<lambda>from. bnd dec_peer_id (\<lambda>target. bnd dec_u32 (\<lambda>r.
        ret (Unlink from target (unlink_from r)))))
      else if t = TAG_PEER_LINKED then
        bnd dec_peer_id (\<lambda>a. bnd dec_peer_id (\<lambda>b. ret (PeerLinked a b)))
      else if t = TAG_PEER_UNLINKED then
        bnd dec_peer_id (\<lambda>a. bnd dec_peer_id (\<lambda>b. ret (PeerUnlinked a b)))
      else if t = TAG_LINK_SPEED then bnd dec_speed (\<lambda>s. ret (LinkSpeed s))
      else fail (UnknownTag t))"

definition decode :: "bytes \<Rightarrow> decode_error + message" where
  "decode body =
     and_then (bnd dec_u8 read_message body) (\<lambda>(m, rest). and_then (finish rest) (\<lambda>_. Inr m))"

definition decode_frame :: "bytes \<Rightarrow> decode_error + message" where
  "decode_frame f = (if 4 \<le> length f then decode (drop 4 f) else Inl Truncated)"

text \<open>
  \<open>Message::read\<close> from a source that does not time out: the outer result is the input's, the
  inner one the message's. After a bad length the input is unusable; no socket is returned.
\<close>

definition read_one ::
    "socket \<Rightarrow> unit read_error + ((decode_error + message) \<times> socket option) option" where
  "read_one es = (case read_frame_blocking es of
     Inr (None, _, _) \<Rightarrow> Inr None
   | Inr (Some f, _, es') \<Rightarrow> Inr (Some (decode_frame f, Some es'))
   | Inl (Decode e) \<Rightarrow> Inr (Some (Inl e, None))
   | Inl e \<Rightarrow> Inl e)"

subsection \<open>Well-formed messages\<close>

text \<open>
  The caps and non-zero ids a receiver insists on. The \<open>from\<close> of a link message may be 0: the
  host overwrites it.
\<close>

definition snapshot_ok :: "wire_snapshot \<Rightarrow> bool" where
  "snapshot_ok s \<longleftrightarrow>
     ws_from s \<noteq> 0 \<and> length (ws_input s) \<le> MAX_INPUT_BYTES \<and> speed_ok (ws_speed s) \<and>
     length (ws_counters s) \<le> MAX_COUNTERS \<and> list_all wire_counter_ok (ws_counters s) \<and>
     \<not> MAX_STATE_LENGTH < ws_state_len s \<and> length (ws_state s) \<le> MAX_MESSAGE_BYTES"

definition start_state_ok :: "wire_start_state \<Rightarrow> bool" where
  "start_state_ok s \<longleftrightarrow>
     hash_wf (ss_rom_checksum s) \<and> \<not> MAX_STATE_LENGTH < ss_state_len s \<and>
     length (ss_state s) \<le> MAX_MESSAGE_BYTES"

fun message_ok :: "message \<Rightarrow> bool" where
  "message_ok (Hello _ _ app_version display_name _ publisher) \<longleftrightarrow>
     text_ok MAX_APP_VERSION_BYTES app_version \<and> text_ok MAX_DISPLAY_NAME_BYTES display_name \<and>
     publisher_ok publisher"
| "message_ok (Welcome your_peer_id _ your_display_name your_color participants) \<longleftrightarrow>
     your_peer_id \<noteq> 0 \<and> text_ok MAX_DISPLAY_NAME_BYTES your_display_name \<and>
     is_valid_color your_color \<and> length participants \<le> MAX_PARTICIPANTS \<and>
     list_all participant_ok participants"
| "message_ok (Refused _ text) \<longleftrightarrow> text_ok MAX_TEXT_BYTES text"
| "message_ok (PeerJoined participant) \<longleftrightarrow> participant_ok participant"
| "message_ok (PeerLeft peer _) \<longleftrightarrow> peer \<noteq> 0"
| "message_ok (Stream from _ b) \<longleftrightarrow> from \<noteq> 0 \<and> length b \<le> MAX_MESSAGE_BYTES"
| "message_ok (Snapshot s) \<longleftrightarrow> snapshot_ok s"
| "message_ok (SyncHash from _ hash) \<longleftrightarrow> from \<noteq> 0 \<and> hash_wf hash"
| "message_ok (StartState s) \<longleftrightarrow> start_state_ok s"
| "message_ok (ErrorText text) \<longleftrightarrow> text_ok MAX_TEXT_BYTES text"
| "message_ok (LinkRequest _ target _ _) \<longleftrightarrow> target \<noteq> 0"
| "message_ok (LinkAccept _ target _) \<longleftrightarrow> target \<noteq> 0"
| "message_ok (LinkDecline _ target _ _) \<longleftrightarrow> target \<noteq> 0"
| "message_ok (LinkStart _ target _ _ inp _ delay_setting sp) \<longleftrightarrow>
     target \<noteq> 0 \<and> length inp \<le> MAX_INPUT_BYTES \<and> \<not> MAX_LINK_DELAY < delay_setting \<and> speed_ok sp"
| "message_ok (LinkFrame _ target _ _ events _ pair_hash) \<longleftrightarrow>
     target \<noteq> 0 \<and> length events \<le> MAX_LINK_EVENT_BYTES \<and> hash_wf pair_hash"
| "message_ok (Unlink _ target _) \<longleftrightarrow> target \<noteq> 0"
| "message_ok (PeerLinked a b) \<longleftrightarrow> a \<noteq> 0 \<and> b \<noteq> 0"
| "message_ok (PeerUnlinked a b) \<longleftrightarrow> a \<noteq> 0 \<and> b \<noteq> 0"
| "message_ok (LinkSpeed sp) \<longleftrightarrow> speed_ok sp"
| "message_ok _ \<longleftrightarrow> True"

subsection \<open>Decoding what was encoded\<close>

lemma small_caps [simp]:
  "MAX_DISPLAY_NAME_BYTES < 4294967296" "MAX_APP_VERSION_BYTES < 4294967296"
  "MAX_TEXT_BYTES < 4294967296" "MAX_COUNTERS < 4294967296" "MAX_PARTICIPANTS < 4294967296"
  "MAX_LINK_EVENT_BYTES < 4294967296" "MAX_MESSAGE_BYTES < 4294967296"
  by (simp_all add: cap_defs)

lemma reads_as_map_last:
  "reads_as e r a x \<Longrightarrow> g x = y \<Longrightarrow> reads_as e (bnd r (\<lambda>x. ret (g x))) a y"
  by (rule reads_as_bnd_last, assumption, rule reads_as_ret_eq, assumption)

lemma reads_as_bnd_checked_last:
  assumes "reads_as Truncated r a v" and "c v = Inr x" and "reads_as Truncated (f v x) [] y"
  shows "reads_as Truncated (bnd r (\<lambda>v. bnd (checked (c v)) (f v))) a y"
proof -
  have "reads_as Truncated (bnd r (\<lambda>v. bnd (checked (c v)) (f v))) (a @ []) y"
    by (rule reads_as_bnd_checked, rule assms(1), rule assms(2), rule assms(3))
  then show ?thesis by simp
qed

lemma reads_state_len [wire_leaf]:
  "\<not> MAX_STATE_LENGTH < n \<Longrightarrow> reads_as Truncated dec_state_len (enc_u64 n) n"
  unfolding dec_state_len_def
  by (rule reads_as_bnd_last [OF reads_dec_u64]) (simp add: reads_as_ret del: ret_apply)

lemma reads_delay_setting [wire_leaf]:
  "\<not> MAX_LINK_DELAY < n \<Longrightarrow> reads_as Truncated dec_delay_setting (enc_u8 n) n"
  unfolding dec_delay_setting_def
  by (rule reads_as_bnd_last [OF reads_dec_u8]) (simp add: reads_as_ret del: ret_apply)

lemma reads_counters [wire_leaf]:
  "list_all wire_counter_ok cs \<Longrightarrow> length cs \<le> MAX_COUNTERS \<Longrightarrow>
   reads_as Truncated dec_counters (enc_u32 (of_nat (length cs)) @ concat (map enc_counter cs)) cs"
  unfolding dec_counters_def by (rule wire_counters.reads_counted) simp_all

lemma read_message_tag:
  "read_message TAG_HELLO = read_hello"
  "read_message TAG_WELCOME = read_welcome"
  "read_message TAG_SNAPSHOT = read_snapshot"
  "read_message TAG_START_STATE = read_start_state"
  "read_message TAG_LINK_START = read_link_start"
  "read_message TAG_LINK_FRAME = read_link_frame"
  by (simp_all add: read_message_def tag_defs)

lemma reads_hello:
  "message_ok (Hello pv rv av dn c p) \<Longrightarrow>
   reads_as Truncated read_hello (encode_payload (Hello pv rv av dn c p)) (Hello pv rv av dn c p)"
  unfolding message_ok.simps encode_payload.simps read_hello_def
  by (elim conjE) (rule reads_as_bnd reads_as_bnd_last wire_leaf reads_as_ret_eq | assumption | (simp; fail))+

lemma reads_welcome:
  assumes "message_ok (Welcome i sid n c ps)"
  shows "reads_as Truncated read_welcome (encode_payload (Welcome i sid n c ps)) (Welcome i sid n c ps)"
proof -
  from assms have ps: "list_all participant_ok ps" "length ps \<le> MAX_PARTICIPANTS" by simp_all
  note list = wire_participants.reads_counted [OF ps small_caps(5), of "''participants''"]
  from assms show ?thesis
    unfolding message_ok.simps encode_payload.simps read_welcome_def
    by (elim conjE) (rule reads_as_bnd reads_as_map_last list wire_leaf | assumption | (simp; fail))+
qed

lemma reads_snapshot:
  "message_ok (Snapshot s) \<Longrightarrow> reads_as Truncated read_snapshot (encode_payload (Snapshot s)) (Snapshot s)"
  unfolding message_ok.simps snapshot_ok_def encode_payload.simps read_snapshot_def
  by (elim conjE)
    (rule reads_as_bnd_checked reads_as_bnd reads_as_bnd_last reads_counters wire_leaf reads_dec_bytes
      reads_as_ret_eq | assumption | (simp; fail))+

lemma reads_start_state:
  "message_ok (StartState s) \<Longrightarrow>
   reads_as Truncated read_start_state (encode_payload (StartState s)) (StartState s)"
  unfolding message_ok.simps start_state_ok_def encode_payload.simps read_start_state_def
  by (elim conjE)
    (rule reads_as_bnd_checked reads_as_bnd reads_as_bnd_last wire_leaf reads_dec_bytes
      reads_as_ret_eq | assumption | (simp; fail))+

lemma reads_link_start:
  "message_ok (LinkStart f t n fr i r d s) \<Longrightarrow>
   reads_as Truncated read_link_start (encode_payload (LinkStart f t n fr i r d s)) (LinkStart f t n fr i r d s)"
  unfolding message_ok.simps encode_payload.simps read_link_start_def
  by (elim conjE) (rule reads_as_bnd reads_as_bnd_last wire_leaf reads_as_ret_eq | assumption | (simp; fail))+

lemma reads_link_frame:
  "message_ok (LinkFrame f t fr e ev hf h) \<Longrightarrow>
   reads_as Truncated read_link_frame (encode_payload (LinkFrame f t fr e ev hf h)) (LinkFrame f t fr e ev hf h)"
  unfolding message_ok.simps encode_payload.simps read_link_frame_def
  by (elim conjE)
    (rule reads_as_bnd reads_as_bnd_last wire_leaf reads_dec_bytes reads_as_ret_eq | assumption | (simp; fail))+

lemmas reads_messages = reads_hello reads_welcome reads_snapshot reads_start_state reads_link_start reads_link_frame

lemma reads_message:
  "message_ok m \<Longrightarrow> reads_as Truncated (read_message (tag m)) (encode_payload m) m"
proof (cases m)
  case (Hello x11 x12 x13 x14 x15 x16)
  then show "message_ok m \<Longrightarrow> ?thesis" by (simp only: tag.simps read_message_tag reads_messages)
next
  case (Welcome x21 x22 x23 x24 x25)
  then show "message_ok m \<Longrightarrow> ?thesis" by (simp only: tag.simps read_message_tag reads_messages)
next
  case (Snapshot x10)
  then show "message_ok m \<Longrightarrow> ?thesis" by (simp only: tag.simps read_message_tag reads_messages)
next
  case (StartState x13)
  then show "message_ok m \<Longrightarrow> ?thesis" by (simp only: tag.simps read_message_tag reads_messages)
next
  case (LinkStart x211 x212 x213 x214 x215 x216 x217 x218)
  then show "message_ok m \<Longrightarrow> ?thesis" by (simp only: tag.simps read_message_tag reads_messages)
next
  case (LinkFrame x221 x222 x223 x224 x225 x226 x227)
  then show "message_ok m \<Longrightarrow> ?thesis" by (simp only: tag.simps read_message_tag reads_messages)
qed (simp_all add: read_message_def tag_defs del: ret_apply fail_apply,
     ((elim conjE)?, (rule reads_as_bnd_checked reads_as_bnd_checked_last reads_as_bnd reads_as_bnd_last wire_leaf reads_dec_bytes
        reads_as_ret_eq | assumption | (simp; fail))+)+)

lemma reads_body: "message_ok m \<Longrightarrow> reads_as Truncated (bnd dec_u8 read_message) (encode_body m) m"
  unfolding encode_body_def by (rule reads_as_bnd, rule reads_dec_u8, rule reads_message)

lemma decode_body: "message_ok m \<Longrightarrow> decode (encode_body m) = Inr m"
  by (simp add: decode_def reads_asD_exact [OF reads_body] finish_def)

lemma decode_cut: "message_ok m \<Longrightarrow> strict_prefix p (encode_body m) \<Longrightarrow> decode p = Inl Truncated"
  by (simp add: decode_def reads_as_prefixD [OF reads_body])

lemma decode_trailing:
  "message_ok m \<Longrightarrow> rest \<noteq> [] \<Longrightarrow> decode (encode_body m @ rest) = Inl (TrailingBytes (length rest))"
  by (simp add: decode_def reads_asD [OF reads_body] finish_def)

lemma decode_unknown_tag:
  assumes "t \<notin> tag ` UNIV"
  shows "decode (t # body) = Inl (UnknownTag t)"
proof -
  have ne: "t \<noteq> tag m" for m using assms by blast
  have "read_message t = fail (UnknownTag t)"
    unfolding read_message_def
    by (simp add: ne [of "Hello _ _ _ _ _ _", unfolded tag.simps] ne [of "Welcome _ _ _ _ _", unfolded tag.simps]
        ne [of "Refused _ _", unfolded tag.simps] ne [of "PeerJoined _", unfolded tag.simps]
        ne [of "PeerLeft _ _", unfolded tag.simps] ne [of "ResetAll _ _", unfolded tag.simps]
        ne [of "SyncPause _ _ _", unfolded tag.simps] ne [of "Pause _ _", unfolded tag.simps]
        ne [of "Stream _ _ _", unfolded tag.simps] ne [of "Snapshot _", unfolded tag.simps]
        ne [of "SyncHash _ _ _", unfolded tag.simps] ne [of "RequestSnapshot _ _", unfolded tag.simps]
        ne [of "StartState _", unfolded tag.simps] ne [of "Ping _ _", unfolded tag.simps]
        ne [of "Pong _ _", unfolded tag.simps] ne [of Goodbye, unfolded tag.simps]
        ne [of "ErrorText _", unfolded tag.simps] ne [of "LinkRequest _ _ _ _", unfolded tag.simps]
        ne [of "LinkAccept _ _ _", unfolded tag.simps] ne [of "LinkDecline _ _ _ _", unfolded tag.simps]
        ne [of "LinkStart _ _ _ _ _ _ _ _", unfolded tag.simps]
        ne [of "LinkFrame _ _ _ _ _ _ _", unfolded tag.simps] ne [of "Unlink _ _ _", unfolded tag.simps]
        ne [of "PeerLinked _ _", unfolded tag.simps] ne [of "PeerUnlinked _ _", unfolded tag.simps]
        ne [of "LinkSpeed _", unfolded tag.simps])
  then show ?thesis
    using reads_asD [OF reads_dec_u8, of t body] by (simp add: decode_def enc_u8_def)
qed

subsection \<open>What decodes is well-formed\<close>

lemma yields_state_len: "yields (\<lambda>n. \<not> MAX_STATE_LENGTH < n) dec_state_len"
  unfolding dec_state_len_def by (rule yields_bnd [OF yields_any]) (auto simp: yields_def)

lemma yields_delay_setting: "yields (\<lambda>n. \<not> MAX_LINK_DELAY < n) dec_delay_setting"
  unfolding dec_delay_setting_def by (rule yields_bnd [OF yields_any]) (auto simp: yields_def)

lemma yields_counters: "yields (\<lambda>cs. length cs \<le> MAX_COUNTERS \<and> list_all wire_counter_ok cs) dec_counters"
  using wire_counters.counted_bounded yields_counted [OF yields_counter]
  unfolding dec_counters_def yields_def by blast

lemma yields_participants:
  "yields (\<lambda>ps. length ps \<le> MAX_PARTICIPANTS \<and> list_all participant_ok ps)
     (bnd (dec_count ''participants'' MAX_PARTICIPANTS PARTICIPANT_MIN_BYTES) (read_n decode_participant))"
  using wire_participants.counted_bounded yields_counted [OF yields_participant]
  unfolding yields_def by blast

lemmas yields_of_bnd = yields_bnd [OF yields_text] yields_bnd [OF yields_hash] yields_bnd [OF yields_input]
  yields_bnd [OF yields_peer_id] yields_bnd [OF yields_speed] yields_bnd [OF yields_color]
  yields_bnd [OF yields_publisher] yields_bnd [OF yields_participant] yields_bnd [OF yields_wire(1)]
  yields_bnd [OF yields_state_len] yields_bnd [OF yields_delay_setting] yields_bnd [OF yields_counters]
  yields_bnd [OF yields_participants] yields_bnd [OF yields_any]

lemma yields_large:
  "yields message_ok read_hello" "yields message_ok read_welcome" "yields message_ok read_snapshot"
  "yields message_ok read_start_state" "yields message_ok read_link_start" "yields message_ok read_link_frame"
  unfolding read_hello_def read_welcome_def read_snapshot_def read_start_state_def read_link_start_def
    read_link_frame_def
  by (rule yields_of_bnd yields_ret | simp add: snapshot_ok_def start_state_ok_def)+

lemma yields_message: "yields message_ok (read_message t)"
  unfolding read_message_def
  by (rule yields_if yields_large yields_fail yields_of_bnd yields_ret | simp)+

lemma decode_sound: "decode body = Inr m \<Longrightarrow> message_ok m"
  by (auto simp: decode_def and_then_eq_Inr bnd_eq_Inr dest: yieldsD [OF yields_message])

subsection \<open>Frames on a socket\<close>

definition message_fits :: "message \<Rightarrow> bool" where
  "message_fits m \<longleftrightarrow> length (encode_body m) \<le> unat (max_message_length (tag m))"

lemma hd_encode_body [simp]: "hd (encode_body m) = tag m"
  by (simp add: encode_body_def enc_u8_def)

lemma encode_body_ne [simp]: "encode_body m \<noteq> []"
  by (simp add: encode_body_def enc_u8_def)

lemma drop_encoded [simp]: "drop 4 (encoded m) = encode_body m"
  by (simp add: encoded_def encode_def frame_def)

lemma length_encoded: "length (encoded m) = 4 + length (encode_body m)"
  by (simp add: encoded_def encode_def frame_def)

lemma decode_frame_encoded: "message_ok m \<Longrightarrow> decode_frame (encoded m) = Inr m"
  by (simp add: decode_frame_def length_encoded decode_body)

lemma read_frame_encoded:
  assumes "message_fits m" and "healthy es" and "patient poll" and "arrived es = encoded m @ rest"
  shows "\<exists>c' es'. read_frame poll c es = Inr (Some (encoded m), c', es') \<and> healthy es' \<and> arrived es' = rest"
proof -
  have "parse_frame (arrived es) = Frame (encoded m) rest"
    using parse_frame_frame [of "encode_body m" rest] assms(1,4)
    by (simp add: encoded_def encode_def message_fits_def)
  with read_frame_chunks [OF assms(2,3), of c] show ?thesis by simp
qed

text \<open>
  A connection's reader: one frame after the other until the input ends. The number bounds the
  frames read; one more than there are bytes is always enough.
\<close>

fun read_all_messages ::
    "nat \<Rightarrow> (nat \<Rightarrow> 'c \<Rightarrow> 's + 'c) \<Rightarrow> 'c \<Rightarrow> socket \<Rightarrow> 's read_error + (decode_error + message) list" where
  "read_all_messages 0 poll c es = Inr []"
| "read_all_messages (Suc n) poll c es =
     and_then (read_frame poll c es) (\<lambda>(f, c, es).
       case f of None \<Rightarrow> Inr []
       | Some f \<Rightarrow> and_then (read_all_messages n poll c es) (\<lambda>ms. Inr (decode_frame f # ms)))"

lemma read_all_messages_encoded:
  assumes "\<forall>m \<in> set ms. message_ok m \<and> message_fits m" and "patient poll"
    and "healthy es" and "arrived es = concat (map encoded ms)" and "length ms < n"
  shows "read_all_messages n poll c es = Inr (map Inr ms)"
  using assms
proof (induction ms arbitrary: n c es)
  case Nil
  then obtain n' where n: "n = Suc n'" by (cases n) auto
  have "\<exists>c'. read_frame poll c es = Inr (None, c', [])"
    using read_frame_chunks [OF Nil.prems(3,2), of c] Nil.prems(4) by (simp add: parse_frame_def)
  then show ?case by (auto simp: n)
next
  case (Cons m ms)
  then obtain n' where n: "n = Suc n'" "length ms < n'" by (cases n) auto
  have m: "message_ok m" "message_fits m" using Cons.prems(1) by simp_all
  obtain c' es' where read: "read_frame poll c es = Inr (Some (encoded m), c', es')"
    and es': "healthy es'" "arrived es' = concat (map encoded ms)"
    using read_frame_encoded [OF m(2) Cons.prems(3,2), of "concat (map encoded ms)" c] Cons.prems(4) by auto
  have "read_all_messages n' poll c' es' = Inr (map Inr ms)"
    by (rule Cons.IH) (use Cons.prems(1) Cons.prems(2) es' n(2) in simp_all)
  then show ?case by (simp add: n read decode_frame_encoded m)
qed

text \<open>Every message that is not replay data fits its cap.\<close>

lemma publisher_length: "publisher_ok p \<Longrightarrow> length (encode_publisher p) \<le> 959"
  by (auto simp: publisher_ok_def encode_publisher_def Let_def text_ok_def hash_wf_def enc_speed_def
      MAX_METADATA_STRING_BYTES_def MAX_INPUT_BYTES_def)

lemma participant_length: "participant_ok p \<Longrightarrow> length (encode_participant p) \<le> 1066"
  using publisher_length [of "pa_publisher p"]
  by (auto simp: participant_ok_def encode_participant_def text_ok_def MAX_DISPLAY_NAME_BYTES_def
      MAX_APP_VERSION_BYTES_def)

lemma participants_length:
  "list_all participant_ok ps \<Longrightarrow> length (concat (map encode_participant ps)) \<le> 1066 * length ps"
proof (induction ps)
  case (Cons p ps)
  with participant_length [of p] show ?case by simp
qed simp

lemma small_message_fits:
  assumes "message_ok m" and "tag m \<notin> set LARGE_TAGS"
  shows "message_fits m"
proof -
  have "length (encode_payload m) \<le> 65535"
  proof (cases m)
    case (Hello pv rv av dn c p)
    with assms(1) publisher_length [of p] show ?thesis
      by (auto simp: text_ok_def MAX_APP_VERSION_BYTES_def MAX_DISPLAY_NAME_BYTES_def)
  next
    case (Welcome i sid n c ps)
    with assms(1) participants_length [of ps] show ?thesis
      by (auto simp: text_ok_def MAX_PARTICIPANTS_def MAX_DISPLAY_NAME_BYTES_def)
  next
    case (PeerJoined p)
    with assms(1) participant_length [of p] show ?thesis by simp
  next
    case (LinkStart f t n fr i r d s)
    with assms(1) show ?thesis by (auto simp: MAX_INPUT_BYTES_def enc_speed_def)
  next
    case (LinkFrame f t fr e ev hf h)
    with assms(1) show ?thesis by (auto simp: MAX_LINK_EVENT_BYTES_def hash_wf_def)
  qed (insert assms, auto simp: text_ok_def MAX_TEXT_BYTES_def hash_wf_def enc_speed_def
      LARGE_TAGS_def TAG_STREAM_def TAG_SNAPSHOT_def TAG_START_STATE_def)
  with assms(2) show ?thesis
    by (simp add: message_fits_def encode_body_def max_message_length_def MAX_SMALL_MESSAGE_LENGTH_def)
qed

subsection \<open>The sender's id\<close>

text \<open>
  The host overwrites the peer id of a relayed frame in place (\<open>stamp_peer_id\<close>) and in the decoded
  message (\<open>stamp_from\<close>), from \<open>src/session/host.rs\<close>.
\<close>

definition PEER_ID_OFFSET :: nat where
  "PEER_ID_OFFSET = 5"

definition stamp_peer_id :: "bytes \<Rightarrow> peer_id \<Rightarrow> bytes" where
  "stamp_peer_id f i =
     (if PEER_ID_OFFSET + 2 \<le> length f
      then take PEER_ID_OFFSET f @ to_le 2 i @ drop (PEER_ID_OFFSET + 2) f else f)"

fun stamp_from :: "message \<Rightarrow> peer_id \<Rightarrow> message" where
  "stamp_from (LinkRequest _ target nonce console) i = LinkRequest i target nonce console"
| "stamp_from (LinkAccept _ target nonce) i = LinkAccept i target nonce"
| "stamp_from (LinkDecline _ target nonce reason) i = LinkDecline i target nonce reason"
| "stamp_from (LinkStart _ target nonce frame_no inp rtt_millis delay_setting sp) i =
     LinkStart i target nonce frame_no inp rtt_millis delay_setting sp"
| "stamp_from (LinkFrame _ target frame_no elapsed_millis events pair_hash_frame pair_hash) i =
     LinkFrame i target frame_no elapsed_millis events pair_hash_frame pair_hash"
| "stamp_from (Unlink _ target reason) i = Unlink i target reason"
| "stamp_from other i = other"

text \<open>The specification: the message with its sender replaced, for every relayed kind.\<close>

fun with_sender :: "message \<Rightarrow> peer_id \<Rightarrow> message option" where
  "with_sender (Pause _ paused) i = Some (Pause i paused)"
| "with_sender (Stream _ first_frame b) i = Some (Stream i first_frame b)"
| "with_sender (Snapshot s) i = Some (Snapshot (s\<lparr>ws_from := i\<rparr>))"
| "with_sender (SyncHash _ f h) i = Some (SyncHash i f h)"
| "with_sender (RequestSnapshot _ target) i = Some (RequestSnapshot i target)"
| "with_sender m i = (if is_link_relay m then Some (stamp_from m i) else None)"

lemma stamp_peer_id_encoded:
  assumes "with_sender m i = Some m'"
  shows "stamp_peer_id (encoded m) i = encoded m'"
proof -
  have stamp: "stamp_peer_id (hdr @ t # (enc_u16 j @ rest)) i = hdr @ t # (enc_u16 i @ rest)"
    if "length hdr = 4" for hdr t j rest
    using that by (simp add: stamp_peer_id_def PEER_ID_OFFSET_def enc_u16_def)
  obtain j rest where "encode_payload m = enc_u16 j @ rest" "encode_payload m' = enc_u16 i @ rest" "tag m' = tag m"
    using assms by (cases m) (auto split: if_splits)
  then show ?thesis
    by (simp add: encoded_def encode_def frame_def encode_body_def enc_u8_def stamp)
qed

end
