(* ===== verification/Link_Stream.thy ===== *)
theory Link_Stream
  imports Messages Packets
begin

text \<open>
  The packets inside \<open>Stream\<close> and \<open>LinkFrame\<close> messages, from
  \<open>supershuckie-play-together/src/protocol/stream.rs\<close> and \<open>protocol/link.rs\<close>, and the
  application's form of the link messages. Both decoders are one loop over a list of forbidden
  packet kinds; \<open>allowed_decoder\<close> is what they have in common.
\<close>

subsection \<open>Which packets may travel\<close>

fun forbidden_kind :: "packet \<Rightarrow> string option" where
  "forbidden_kind NoOp = None"
| "forbidden_kind (NextFrame _) = None"
| "forbidden_kind (ChangeInput _) = None"
| "forbidden_kind (WriteMemory _ _) = None"
| "forbidden_kind (ChangeSpeed _) = None"
| "forbidden_kind ResetConsole = None"
| "forbidden_kind (LoadSaveState _) = None"
| "forbidden_kind (IncrementCounter _ _) = None"
| "forbidden_kind (SerialIn _) = None"
| "forbidden_kind (Keyframe _ _) = Some ''Keyframe''"
| "forbidden_kind (DeltaKeyframe _ _) = Some ''DeltaKeyframe''"
| "forbidden_kind (RegionDeltaKeyframe _ _ _ _) = Some ''RegionDeltaKeyframe''"
| "forbidden_kind (StoredKeyframe _ _ _ _ _ _) = Some ''StoredKeyframe''"
| "forbidden_kind (Thumbnail _ _ _ _ _ _ _ _ _) = Some ''Thumbnail''"
| "forbidden_kind (CompressedBlob _ _ _ _ _ _ _ _ _) = Some ''CompressedBlob''"
| "forbidden_kind (Bookmark _) = Some ''Bookmark''"
| "forbidden_kind (BookmarkTable _) = Some ''BookmarkTable''"

fun forbidden_link_kind :: "packet \<Rightarrow> string option" where
  "forbidden_link_kind NoOp = None"
| "forbidden_link_kind (ChangeInput _) = None"
| "forbidden_link_kind (WriteMemory _ _) = None"
| "forbidden_link_kind ResetConsole = None"
| "forbidden_link_kind (NextFrame _) = Some ''NextFrame''"
| "forbidden_link_kind (ChangeSpeed _) = Some ''ChangeSpeed''"
| "forbidden_link_kind (LoadSaveState _) = Some ''LoadSaveState''"
| "forbidden_link_kind (IncrementCounter _ _) = Some ''IncrementCounter''"
| "forbidden_link_kind (SerialIn _) = Some ''SerialIn''"
| "forbidden_link_kind (Keyframe _ _) = Some ''Keyframe''"
| "forbidden_link_kind (DeltaKeyframe _ _) = Some ''DeltaKeyframe''"
| "forbidden_link_kind (RegionDeltaKeyframe _ _ _ _) = Some ''RegionDeltaKeyframe''"
| "forbidden_link_kind (StoredKeyframe _ _ _ _ _ _) = Some ''StoredKeyframe''"
| "forbidden_link_kind (Thumbnail _ _ _ _ _ _ _ _ _) = Some ''Thumbnail''"
| "forbidden_link_kind (CompressedBlob _ _ _ _ _ _ _ _ _) = Some ''CompressedBlob''"
| "forbidden_link_kind (Bookmark _) = Some ''Bookmark''"
| "forbidden_link_kind (BookmarkTable _) = Some ''BookmarkTable''"

subsection \<open>Encoding and decoding\<close>

definition append_packets :: "packet list \<Rightarrow> bytes" where
  "append_packets ps = fold (\<lambda>p out. append_packet (write_packet p) out) ps []"

definition encode_packets :: "packet list \<Rightarrow> bytes" where
  "encode_packets ps = append_packets ps"

definition encode_link_events :: "packet list \<Rightarrow> bytes" where
  "encode_link_events ps = append_packets ps"

function decode_allowed :: "(packet \<Rightarrow> string option) \<Rightarrow> bytes \<Rightarrow> decode_error + packet list" where
  "decode_allowed forbidden cursor =
     (if cursor = [] then Inr []
      else case read_packet REPLAY_VERSION cursor of
          Inl e \<Rightarrow> Inl (BadPacket e)
        | Inr (p, rest) \<Rightarrow>
            (case forbidden p of
               Some kind \<Rightarrow> Inl (ForbiddenPacket kind)
             | None \<Rightarrow> and_then (decode_allowed forbidden rest) (\<lambda>ps. Inr (p # ps))))"
  by auto
termination
  by (relation "measure (\<lambda>(_, cursor). length cursor)") (auto dest: packet_codec.item.dec_shorter)

declare decode_allowed.simps [simp del]

definition decode_packets :: "bytes \<Rightarrow> decode_error + packet list" where
  "decode_packets bs = decode_allowed forbidden_kind bs"

definition decode_link_events :: "bytes \<Rightarrow> decode_error + packet list" where
  "decode_link_events bs = decode_allowed forbidden_link_kind bs"

definition count_frames :: "packet list \<Rightarrow> u64" where
  "count_frames ps = of_nat (length (filter (\<lambda>p. case p of NextFrame _ \<Rightarrow> True | _ \<Rightarrow> False) ps))"

subsection \<open>Decoding what was encoded\<close>

lemma append_packets_eq: "append_packets ps = concat (map (\<lambda>p. instr_bytes (write_packet p)) ps)"
proof -
  have "fold (\<lambda>p out. append_packet (write_packet p) out) ps out =
      out @ concat (map (\<lambda>p. instr_bytes (write_packet p)) ps)" for out
    by (induction ps arbitrary: out) (simp_all add: append_packet_def)
  then show ?thesis by (simp add: append_packets_def)
qed

definition sendable :: "(packet \<Rightarrow> string option) \<Rightarrow> packet \<Rightarrow> bool" where
  "sendable forbidden p \<longleftrightarrow> packet_ok REPLAY_VERSION p \<and> forbidden p = None"

text \<open>Only stored keyframes have a frame behind them, and those are never sent.\<close>

definition frameless :: "(packet \<Rightarrow> string option) \<Rightarrow> bool" where
  "frameless forbidden \<longleftrightarrow> (\<forall>p. forbidden p = None \<longrightarrow> trailing_ok p [])"

lemma frameless [simp]: "frameless forbidden_kind" "frameless forbidden_link_kind"
  unfolding frameless_def
  by (rule allI, case_tac p; simp add: trailing_ok_def)+

lemma decode_allowed_step:
  assumes "frameless forbidden" and "sendable forbidden p"
  shows "decode_allowed forbidden (instr_bytes (write_packet p) @ rest) =
    and_then (decode_allowed forbidden rest) (\<lambda>ps. Inr (p # ps))"
proof -
  have plain: "packet_plain REPLAY_VERSION p"
    using assms by (simp add: sendable_def frameless_def packet_plain_def)
  have "instr_bytes (write_packet p) \<noteq> []" by (simp add: write_packet_def)
  with packet_codec.item.roundtrip [OF plain, of rest] assms(2) show ?thesis
    by (subst decode_allowed.simps) (simp add: sendable_def)
qed

lemma decode_allowed_encoded:
  "frameless forbidden \<Longrightarrow> list_all (sendable forbidden) ps \<Longrightarrow> decode_allowed forbidden (append_packets ps) = Inr ps"
  by (induction ps) (simp_all add: append_packets_eq decode_allowed_step decode_allowed.simps [of _ "[]"])

text \<open>
  Nothing else gets through: a decoded list holds no forbidden packet, however the bytes came
  about, and a forbidden packet anywhere behind sendable ones is reported by its kind.
\<close>

lemma decode_allowed_only:
  "decode_allowed forbidden bs = Inr ps \<Longrightarrow> list_all (\<lambda>p. forbidden p = None) ps"
proof (induction forbidden bs arbitrary: ps rule: decode_allowed.induct)
  case (1 forbidden bs)
  show ?case
  proof (cases "bs = []")
    case True
    with "1.prems" show ?thesis by (simp add: decode_allowed.simps)
  next
    case False
    from "1.prems" False obtain p rest qs where "read_packet REPLAY_VERSION bs = Inr (p, rest)"
      "forbidden p = None" "decode_allowed forbidden rest = Inr qs" "ps = p # qs"
      by (subst (asm) decode_allowed.simps) (auto simp: and_then_eq_Inr split: sum.splits option.splits)
    with "1.IH" [OF False _ refl] show ?thesis by simp
  qed
qed

lemma decode_allowed_forbidden:
  assumes "frameless forbidden" and "list_all (sendable forbidden) ps"
    and "packet_plain REPLAY_VERSION p" and "forbidden p = Some kind"
  shows "decode_allowed forbidden (append_packets ps @ instr_bytes (write_packet p) @ rest) =
    Inl (ForbiddenPacket kind)"
  using assms(2)
proof (induction ps)
  case Nil
  have "instr_bytes (write_packet p) \<noteq> []" by (simp add: write_packet_def)
  with packet_codec.item.roundtrip [OF assms(3), of rest] assms(4) show ?case
    by (subst decode_allowed.simps) (simp add: append_packets_eq)
next
  case (Cons q ps)
  then show ?case by (simp add: append_packets_eq decode_allowed_step [OF assms(1)])
qed

lemma decode_packets_encode:
  "list_all (sendable forbidden_kind) ps \<Longrightarrow> decode_packets (encode_packets ps) = Inr ps"
  by (simp add: decode_packets_def encode_packets_def decode_allowed_encoded)

lemma decode_link_events_encode:
  "list_all (sendable forbidden_link_kind) ps \<Longrightarrow> decode_link_events (encode_link_events ps) = Inr ps"
  by (simp add: decode_link_events_def encode_link_events_def decode_allowed_encoded)

text \<open>What a link frame may carry a stream may carry too.\<close>

lemma link_kinds_stream: "forbidden_link_kind p = None \<Longrightarrow> forbidden_kind p = None"
  by (cases p) simp_all

lemma decode_link_events_stream: "decode_link_events bs = Inr ps \<Longrightarrow> decode_packets bs = Inr ps"
  unfolding decode_link_events_def decode_packets_def
proof (induction forbidden_link_kind bs arbitrary: ps rule: decode_allowed.induct)
  case (1 bs)
  then show ?case
    by (subst decode_allowed.simps, subst (asm) (4) decode_allowed.simps)
      (auto simp: and_then_eq_Inr link_kinds_stream split: if_splits sum.splits option.splits)
qed

text \<open>A link frame never advances the frame count.\<close>

lemma count_frames_link: "decode_link_events bs = Inr ps \<Longrightarrow> count_frames ps = 0"
proof -
  assume "decode_link_events bs = Inr ps"
  then have "list_all (\<lambda>p. forbidden_link_kind p = None) ps"
    unfolding decode_link_events_def by (rule decode_allowed_only)
  then have "filter (\<lambda>p. case p of NextFrame _ \<Rightarrow> True | _ \<Rightarrow> False) ps = []"
    by (auto simp: list_all_iff filter_empty_conv split: packet.splits)
  then show "count_frames ps = 0" by (simp add: count_frames_def)
qed

subsection \<open>The application's link messages\<close>

datatype link_message =
    LM_Request peer_id u32 u32
  | LM_Accept peer_id u32
  | LM_Decline peer_id u32 link_decline_reason
  | LM_Start peer_id u32 u64 bytes u32 u8 speed
  | LM_Frame peer_id u64 u64 "packet list" "(u64 \<times> bytes) option"
  | LM_Unlink peer_id unlink_reason

fun lm_target :: "link_message \<Rightarrow> peer_id" where
  "lm_target (LM_Request target _ _) = target"
| "lm_target (LM_Accept target _) = target"
| "lm_target (LM_Decline target _ _) = target"
| "lm_target (LM_Start target _ _ _ _ _ _) = target"
| "lm_target (LM_Frame target _ _ _ _) = target"
| "lm_target (LM_Unlink target _) = target"

definition ZERO_HASH :: bytes where
  "ZERO_HASH = replicate 32 0"

definition pair_hash_fields :: "(u64 \<times> bytes) option \<Rightarrow> u64 \<times> bytes" where
  "pair_hash_fields p = unwrap_or p (0, ZERO_HASH)"

definition pair_hash_option :: "u64 \<Rightarrow> bytes \<Rightarrow> (u64 \<times> bytes) option" where
  "pair_hash_option f h = (if h = ZERO_HASH then None else Some (f, h))"

fun from_link :: "peer_id \<Rightarrow> link_message \<Rightarrow> message" where
  "from_link from (LM_Request target nonce console) = LinkRequest from target nonce console"
| "from_link from (LM_Accept target nonce) = LinkAccept from target nonce"
| "from_link from (LM_Decline target nonce reason) = LinkDecline from target nonce reason"
| "from_link from (LM_Start target nonce frame_no inp rtt_millis delay_setting sp) =
     LinkStart from target nonce frame_no inp rtt_millis delay_setting sp"
| "from_link from (LM_Frame target frame_no elapsed_millis events pair_hash) =
     (let (pair_hash_frame, hash) = pair_hash_fields pair_hash
      in LinkFrame from target frame_no elapsed_millis (encode_link_events events) pair_hash_frame hash)"
| "from_link from (LM_Unlink target reason) = Unlink from target reason"

lemma link_endpoints_from_link: "link_endpoints (from_link from m) = Some (from, lm_target m)"
  by (cases m) (simp_all add: pair_hash_fields_def split: prod.splits)

lemma is_link_relay_from_link: "is_link_relay (from_link from m)"
  using link_endpoints_relay [of "from_link from m"] by (simp add: link_endpoints_from_link)

text \<open>A pair hash travels unless it is the zero hash, which means none.\<close>

lemma pair_hash_roundtrip:
  "pair_hash_option (fst (pair_hash_fields p)) (snd (pair_hash_fields p)) =
     (case p of Some (f, h) \<Rightarrow> (if h = ZERO_HASH then None else p) | None \<Rightarrow> None)"
  by (auto simp: pair_hash_fields_def pair_hash_option_def split: option.splits)

end
