(* ===== verification/Runs.thy ===== *)
theory Runs
  imports Main
begin

text \<open>
  Histories of a stateful component. A component takes operations one at a time; each gives the
  next state and the outputs it makes (calls to a sink, messages queued, events raised).
  \<open>run\<close> is a history: the operations in order, the outputs concatenated.

  The contract \<open>history\<close> is an invariant that relates the state to everything put out so far
  and is kept by every operation the component admits. It then holds after every history. Each
  component interprets it with its own operations.
\<close>

primrec run :: "('o \<Rightarrow> 's \<Rightarrow> 's \<times> 'e list) \<Rightarrow> 'o list \<Rightarrow> 's \<Rightarrow> 's \<times> 'e list" where
  "run step [] s = (s, [])"
| "run step (a # as) s =
     (let (s', out) = step a s; (s'', outs) = run step as s' in (s'', out @ outs))"

lemma run_append:
  "run step (as @ bs) s =
     (let (s', out) = run step as s; (s'', outs) = run step bs s' in (s'', out @ outs))"
  by (induction as arbitrary: s) (auto simp: Let_def split: prod.splits)

text \<open>A history none of whose operations is refused by \<open>admits\<close>.\<close>

primrec admitted_run ::
    "('o \<Rightarrow> 's \<Rightarrow> 's \<times> 'e list) \<Rightarrow> ('o \<Rightarrow> 's \<Rightarrow> bool) \<Rightarrow> 'o list \<Rightarrow> 's \<Rightarrow> bool" where
  "admitted_run step admits [] s \<longleftrightarrow> True"
| "admitted_run step admits (a # as) s \<longleftrightarrow> admits a s \<and> admitted_run step admits as (fst (step a s))"

lemma admitted_run_True [simp]: "admitted_run step (\<lambda>_ _. True) as s"
  by (induction as arbitrary: s) simp_all

locale history =
  fixes step :: "'o \<Rightarrow> 's \<Rightarrow> 's \<times> 'e list"
    and admits :: "'o \<Rightarrow> 's \<Rightarrow> bool"
    and inv :: "'s \<Rightarrow> 'e list \<Rightarrow> bool"
  assumes step_keeps: "inv s log \<Longrightarrow> admits a s \<Longrightarrow> step a s = (s', out) \<Longrightarrow> inv s' (log @ out)"
begin

lemma run_keeps:
  "inv s log \<Longrightarrow> admitted_run step admits as s \<Longrightarrow> run step as s = (s', out) \<Longrightarrow> inv s' (log @ out)"
proof (induction as arbitrary: s log out)
  case Nil
  then show ?case by simp
next
  case (Cons a as)
  from Cons.prems(3) obtain s1 o1 o2
    where one: "step a s = (s1, o1)" "run step as s1 = (s', o2)" "out = o1 @ o2"
    by (auto simp: Let_def split: prod.splits)
  with Cons.prems have "inv s1 (log @ o1)" "admitted_run step admits as s1"
    using step_keeps by auto
  from Cons.IH [OF this one(2)] one(3) show ?case by simp
qed

lemma history_inv:
  "inv s [] \<Longrightarrow> admitted_run step admits as s \<Longrightarrow> inv (fst (run step as s)) (snd (run step as s))"
  using run_keeps [of s "[]" as] by (cases "run step as s") simp

end

text \<open>Components whose operations are never refused.\<close>

locale total_history = history step "\<lambda>_ _. True" inv
  for step :: "'o \<Rightarrow> 's \<Rightarrow> 's \<times> 'e list" and inv :: "'s \<Rightarrow> 'e list \<Rightarrow> bool"
begin

lemma total_inv: "inv s [] \<Longrightarrow> inv (fst (run step as s)) (snd (run step as s))"
  by (rule history_inv) simp_all

end

end
