(* ===== verification/Bookmark_Edits.thy ===== *)
theory Bookmark_Edits
  imports Bookmarks Runs
begin

text \<open>
  Sequences of operations on a bookmark table. The abstract table is the partial map from ids to
  bookmarks; every operation of \<open>bookmarks.rs\<close> is a step on that map, and every table that
  operations can produce from an empty or a decoded one keeps the invariant \<open>table_ok\<close>. Until the
  counter reaches \<open>u64::MAX\<close>, an id that is handed out was never used before.
\<close>

datatype table_edit =
    EditInsert bookmark
  | EditRemove u64
  | EditTruncate u64
  | EditSetType bookmark_type_record
  | EditPrune
  | EditSort
  | EditAllocate

fun apply_edit :: "table_edit \<Rightarrow> bookmark_table \<Rightarrow> bookmark_table" where
  "apply_edit (EditInsert b) t = snd (table_insert b t)"
| "apply_edit (EditRemove i) t = snd (table_remove i t)"
| "apply_edit (EditTruncate f) t = truncated_to f t"
| "apply_edit (EditSetType r) t = set_type_record r t"
| "apply_edit EditPrune t = prune_types t"
| "apply_edit EditSort t = table_sort t"
| "apply_edit EditAllocate t = snd (allocate_id t)"

inductive table_reachable :: "bookmark_table \<Rightarrow> bool" where
  table_start: "table_reachable table_new"
| table_loaded: "table_decode bs = Inr t \<Longrightarrow> table_ok t \<Longrightarrow> table_reachable t"
| table_edited: "table_reachable t \<Longrightarrow> table_reachable (apply_edit e t)"

lemma set_type_record_same [simp]:
  "bookmarks (set_type_record r t) = bookmarks t" "next_id (set_type_record r t) = next_id t"
  by (simp_all add: set_type_record_def)

lemma table_ok_cong: "bookmarks u = bookmarks t \<Longrightarrow> next_id u = next_id t \<Longrightarrow> table_ok u = table_ok t"
  by (simp add: table_ok_def)

lemma table_sort_ok: "table_ok t \<Longrightarrow> table_sort t = t"
  by (simp add: table_sort_def table_ok_def sorted_sort_id sort_key_id_if_sorted)

lemma allocate_id_ok:
  assumes "table_ok t"
  shows "table_ok (snd (allocate_id t))"
proof -
  have same: "bookmarks (snd (allocate_id t)) = bookmarks t"
    by (simp add: allocate_id_def Let_def)
  have "next_id t \<le> next_id (snd (allocate_id t))"
    using saturating_add_1_ge [of "max (next_id t) 1"]
    by (simp add: allocate_id_def Let_def)
  with assms same show ?thesis
    by (auto simp: table_ok_def list_all_iff intro: order_trans)
qed

lemma apply_edit_ok: "table_ok t \<Longrightarrow> table_ok (apply_edit e t)"
proof (cases e)
  case (EditSetType r)
  then show "table_ok t \<Longrightarrow> ?thesis" by (simp add: table_ok_cong [of "set_type_record r t" t])
next
  case EditPrune
  then show "table_ok t \<Longrightarrow> ?thesis" by (simp add: table_ok_cong [of "prune_types t" t])
qed (simp_all add: table_insert_ok table_remove_ok truncated_to_ok table_sort_ok allocate_id_ok)

lemma table_reachable_ok: "table_reachable t \<Longrightarrow> table_ok t"
  by (induction rule: table_reachable.induct) (simp_all add: table_ok_new apply_edit_ok)

subsection \<open>Ids are not reused until the counter saturates\<close>

text \<open>The ids that operations hand out, and those that callers bring with their bookmarks.\<close>

datatype id_event = Issued u64 | Given u64

fun id_of :: "id_event \<Rightarrow> u64" where
  "id_of (Issued i) = i"
| "id_of (Given i) = i"

fun id_events :: "table_edit \<Rightarrow> bookmark_table \<Rightarrow> id_event list" where
  "id_events (EditInsert b) t = [if b_id b = 0 then Issued (fst (table_insert b t)) else Given (b_id b)]"
| "id_events EditAllocate t = [Issued (fst (allocate_id t))]"
| "id_events _ t = []"

definition table_step :: "table_edit \<Rightarrow> bookmark_table \<Rightarrow> bookmark_table \<times> id_event list" where
  "table_step e t = (apply_edit e t, id_events e t)"

text \<open>No id handed out is one of \<open>used\<close> or one that came earlier in the history.\<close>

fun never_reused :: "u64 set \<Rightarrow> id_event list \<Rightarrow> bool" where
  "never_reused used [] \<longleftrightarrow> True"
| "never_reused used (Issued i # es) \<longleftrightarrow> i \<notin> used \<and> never_reused (insert i used) es"
| "never_reused used (Given i # es) \<longleftrightarrow> never_reused (insert i used) es"

lemma never_reused_append:
  "never_reused used (xs @ ys) \<longleftrightarrow> never_reused used xs \<and> never_reused (used \<union> id_of ` set xs) ys"
proof (induction xs arbitrary: used)
  case (Cons x xs)
  then show ?case by (cases x) (simp_all add: Un_insert_left)
qed simp

lemma saturating_add_1_max: "saturating_add (- 1 :: u64) 1 = - 1"
  by (rule word_unat_eq_iff [THEN iffD2]) (simp add: unat_saturating_add_1 unsigned_minus_1_eq_mask mask_eq_exp_minus_1)

lemma saturating_add_1_less:
  assumes "saturating_add (i :: u64) 1 \<le> n" and "n \<noteq> - 1"
  shows "i < n"
proof -
  have "unat n \<noteq> 2 ^ 64 - 1"
    using assms(2) word_unat_eq_iff [of n "- 1"] by (simp add: unsigned_minus_1_eq_mask mask_eq_exp_minus_1)
  moreover have "min (unat i + 1) (2 ^ 64 - 1) \<le> unat n"
    using assms(1) by (simp only: word_le_nat_alt unat_saturating_add_1)
  moreover have "unat n < 2 ^ 64" using unat_u64_less [of n] by simp
  ultimately have "unat i < unat n" by (simp add: min_def split: if_splits)
  then show ?thesis by (simp add: word_less_nat_alt)
qed

lemma table_ok_ids:
  assumes "table_ok t" and "next_id t \<noteq> - 1"
  shows "\<forall>b\<in>set (bookmarks t). b_id b < next_id t"
  using assms(1) saturating_add_1_less [OF _ assms(2)] by (auto simp: table_ok_def list_all_iff)

text \<open>At the end of \<open>u64\<close> the same id is handed out for ever, whether or not a bookmark has it.\<close>

lemma allocate_id_exhausted: "next_id t = - 1 \<Longrightarrow> allocate_id t = (- 1, t)"
  by (simp add: allocate_id_def Let_def saturating_add_1_max max_absorb1 word_order.extremum)

lemma max_id_is_reused:
  assumes "b_id b = - 1" and "b_id c = 0"
  shows "bookmarks (snd (table_insert c (snd (table_insert b table_new)))) = [c\<lparr>b_id := - 1\<rparr>]"
proof -
  have "assign_id b table_new = (b, table_new\<lparr>next_id := - 1\<rparr>)"
    using assms(1) by (simp add: assign_id_def table_new_def saturating_add_1_max word_order.extremum)
  from table_insert_eq [OF this] have one: "snd (table_insert b table_new) = table_new\<lparr>next_id := - 1, bookmarks := [b]\<rparr>"
    by (simp add: table_new_def insert_at_def)
  have "assign_id c (table_new\<lparr>next_id := - 1, bookmarks := [b]\<rparr>) =
      (c\<lparr>b_id := - 1\<rparr>, table_new\<lparr>next_id := - 1, bookmarks := [b]\<rparr>)"
    using assms(2) by (simp add: assign_id_def allocate_id_exhausted)
  from table_insert_eq [OF this] show ?thesis
    unfolding one by (simp add: assms(1) insert_at_def)
qed

lemma next_id_grows: "next_id t \<le> next_id (apply_edit e t)"
proof (cases e)
  case (EditInsert b)
  obtain b' t' where a: "assign_id b t = (b', t')" by fastforce
  from assign_id_facts(3) [OF a] show ?thesis by (simp add: EditInsert table_insert_eq [OF a])
next
  case EditAllocate
  have "max (next_id t) 1 \<le> saturating_add (max (next_id t) 1) 1" by (rule saturating_add_1_ge)
  then have "next_id t \<le> saturating_add (max (next_id t) 1) 1" by simp
  then show ?thesis by (simp add: EditAllocate allocate_id_def Let_def)
qed (simp_all add: table_remove_def truncated_to_def table_sort_def Let_def split: option.splits)

lemma id_events_spec:
  assumes "ev \<in> set (id_events e t)"
  shows "id_events e t = [ev]" and "saturating_add (id_of ev) 1 \<le> next_id (apply_edit e t)"
    and "ev = Issued i \<Longrightarrow> i = max (next_id t) 1"
proof -
  show "id_events e t = [ev]" using assms by (cases e) auto
  have "saturating_add (id_of ev) 1 \<le> next_id (apply_edit e t) \<and> (\<forall>i. ev = Issued i \<longrightarrow> i = max (next_id t) 1)"
  proof (cases e)
    case (EditInsert b)
    obtain b' t' where a: "assign_id b t = (b', t')" by fastforce
    note facts = assign_id_facts(2,7,8) [OF a]
    from assms facts show ?thesis by (auto simp: EditInsert table_insert_eq [OF a] split: if_splits)
  qed (use assms in \<open>auto simp: allocate_id_def Let_def\<close>)
  then show "saturating_add (id_of ev) 1 \<le> next_id (apply_edit e t)" and "ev = Issued i \<Longrightarrow> i = max (next_id t) 1"
    by blast+
qed

definition ids_inv :: "u64 set \<Rightarrow> bookmark_table \<Rightarrow> id_event list \<Rightarrow> bool" where
  "ids_inv used t log \<longleftrightarrow> table_ok t \<and> (\<forall>i \<in> used \<union> id_of ` set log. saturating_add i 1 \<le> next_id t) \<and>
     (next_id t \<noteq> - 1 \<longrightarrow> never_reused used log)"

lemma table_step_keeps:
  assumes inv: "ids_inv used t log" and step: "table_step e t = (t', out)"
  shows "ids_inv used t' (log @ out)"
proof -
  have t': "t' = apply_edit e t" and out: "out = id_events e t" using step by (simp_all add: table_step_def)
  have grows: "next_id t \<le> next_id t'" unfolding t' by (rule next_id_grows)
  have old: "saturating_add i 1 \<le> next_id t" if "i \<in> used \<union> id_of ` set log" for i
    using inv that by (simp add: ids_inv_def)
  have "saturating_add i 1 \<le> next_id t'" if "i \<in> used \<union> id_of ` set (log @ out)" for i
    using that old grows id_events_spec(2) [of _ e t] unfolding out t' by (auto intro: order_trans)
  moreover have "never_reused used (log @ out)" if more: "next_id t' \<noteq> - 1"
  proof -
    have some: "next_id t \<noteq> - 1" using more grows by (metis word_order.extremum_uniqueI)
    have "i \<notin> used \<union> id_of ` set log" if "Issued i \<in> set out" for i
    proof
      assume "i \<in> used \<union> id_of ` set log"
      from saturating_add_1_less [OF old [OF this] some] id_events_spec(3) [OF that [unfolded out]]
      show False by simp
    qed
    moreover have "out = [] \<or> (\<exists>i. out = [Issued i]) \<or> (\<exists>i. out = [Given i])" unfolding out by (cases e) auto
    ultimately have "never_reused (used \<union> id_of ` set log) out" by auto
    with inv some show ?thesis by (simp add: ids_inv_def never_reused_append)
  qed
  ultimately show ?thesis using inv apply_edit_ok by (simp add: ids_inv_def t')
qed

interpretation tables: total_history table_step "ids_inv used"
  by unfold_locales (rule table_step_keeps)

lemma ids_inv_start: "table_ok t \<Longrightarrow> ids_inv (b_id ` set (bookmarks t)) t []"
  by (auto simp: ids_inv_def table_ok_def list_all_iff)

lemma history_ids:
  assumes "table_ok t" and "next_id (fst (run table_step es t)) \<noteq> - 1"
  shows "never_reused (b_id ` set (bookmarks t)) (snd (run table_step es t))"
  using tables.total_inv [OF ids_inv_start [OF assms(1)], of es] assms(2) by (simp add: ids_inv_def)

subsection \<open>The map a table implements\<close>

definition cut_bookmark :: "u64 \<Rightarrow> bookmark \<Rightarrow> bookmark option" where
  "cut_bookmark frame b =
     (if b_in_frame b \<le> frame
      then Some (b\<lparr>b_out := (case b_out b of None \<Rightarrow> None | Some p \<Rightarrow> if frame < fst p then None else Some p)\<rparr>)
      else None)"

text \<open>The operations on the map; \<open>n\<close> is the next id of the table, for a bookmark without one.\<close>

fun map_edit :: "u64 \<Rightarrow> table_edit \<Rightarrow> (u64 \<Rightarrow> bookmark option) \<Rightarrow> u64 \<Rightarrow> bookmark option" where
  "map_edit n (EditInsert b) m =
     (let i = (if b_id b = 0 then max n 1 else b_id b) in m(i \<mapsto> b\<lparr>b_id := i\<rparr>))"
| "map_edit n (EditRemove i) m = m(i := None)"
| "map_edit n (EditTruncate f) m = (\<lambda>i. Option.bind (m i) (cut_bookmark f))"
| "map_edit n (EditSetType r) m = m"
| "map_edit n EditPrune m = m"
| "map_edit n EditSort m = m"
| "map_edit n EditAllocate m = m"

lemma table_get_cong: "bookmarks u = bookmarks t \<Longrightarrow> table_get u = table_get t"
  by (simp add: table_get_def fun_eq_iff)

lemma table_insert_map: "table_get (snd (table_insert b t)) = map_edit (next_id t) (EditInsert b) (table_get t)"
proof -
  obtain b' t' where a: "assign_id b t = (b', t')" by fastforce
  note f = assign_id_facts [OF a]
  have "b_id b' = (if b_id b = 0 then max (next_id t) 1 else b_id b)" using f(7,8) by auto
  with f(6) show ?thesis
    using table_insert_get [OF a] by (auto simp: fun_eq_iff Let_def)
qed

lemma apply_edit_map:
  assumes "table_ok t"
  shows "table_get (apply_edit e t) = map_edit (next_id t) e (table_get t)"
proof (cases e)
  case (EditInsert b)
  then show ?thesis using table_insert_map by simp
next
  case (EditRemove i)
  then show ?thesis using table_remove_get(2) [OF assms] by (auto simp: fun_eq_iff)
next
  case (EditTruncate f)
  then show ?thesis
    using truncated_to_get [OF assms, of f]
    by (auto simp: fun_eq_iff cut_bookmark_def split: option.splits)
next
  case (EditSetType r)
  then show ?thesis by (simp add: table_get_cong [of "set_type_record r t" t])
next
  case EditPrune
  then show ?thesis by (simp add: table_get_cong [of "prune_types t" t])
next
  case EditSort
  then show ?thesis by (simp add: table_sort_ok assms)
next
  case EditAllocate
  then show ?thesis
    by (simp add: table_get_def allocate_id_def Let_def fun_eq_iff)
qed

end
