(* ===== verification/Snapshots.thy ===== *)
theory Snapshots
  imports Messages
begin

text \<open>
  Save states on the wire: \<open>supershuckie-play-together/src/protocol/snapshot.rs\<close> and the
  single-frame zstd calls of \<open>supershuckie-replay-recorder/src/util.rs\<close>. The zstd library itself
  is a parameter, the record \<open>zstd_lib\<close>: what its calls return for given bytes.
\<close>

subsection \<open>The compression library\<close>

record zstd_lib =
  z_content_size :: "bytes \<Rightarrow> u64"  \<comment> \<open>\<open>ZSTD_getFrameContentSize\<close>\<close>
  z_decompress :: "bytes \<Rightarrow> nat \<Rightarrow> string + bytes"  \<comment> \<open>\<open>ZSTD_decompress\<close>: its error, or what it wrote\<close>
  z_compress :: "int \<Rightarrow> bytes \<Rightarrow> bytes option"  \<comment> \<open>\<open>compress_data\<close> at a level, if it succeeds\<close>

definition ZSTD_CONTENTSIZE_UNKNOWN :: u64 where
  "ZSTD_CONTENTSIZE_UNKNOWN = - 1"

definition ZSTD_CONTENTSIZE_ERROR :: u64 where
  "ZSTD_CONTENTSIZE_ERROR = - 2"

definition decompress_data :: "zstd_lib \<Rightarrow> bytes \<Rightarrow> nat \<Rightarrow> string + bytes" where
  "decompress_data z data uncompressed_size = (let claimed_size = z_content_size z data in
     if claimed_size = ZSTD_CONTENTSIZE_UNKNOWN then Inl ''zstd frame does not record its content size''
     else if claimed_size = ZSTD_CONTENTSIZE_ERROR then Inl ''zstd frame header is malformed''
     else if claimed_size \<noteq> of_nat uncompressed_size then Inl ''zstd frame claims another size''
     else case z_decompress z data uncompressed_size of
         Inl e \<Rightarrow> Inl e
       | Inr out \<Rightarrow> (if length out \<noteq> uncompressed_size then Inl ''Uncompressed size is incorrect''
                    else Inr out))"

text \<open>What is relied on of the library: a frame it made reads back, with its size recorded.\<close>

definition zstd_lossless :: "zstd_lib \<Rightarrow> bool" where
  "zstd_lossless z \<longleftrightarrow> (\<forall>lev data c. z_compress z lev data = Some c \<longrightarrow>
     z_content_size z c = of_nat (length data) \<and> z_decompress z c (length data) = Inr data)"

subsection \<open>States\<close>

record snapshot_data =
  sd_frame :: u64
  sd_elapsed_millis :: u64
  sd_input :: bytes
  sd_speed :: speed
  sd_counters :: "counter list"
  sd_state :: bytes

record start_state_data =
  st_rom_checksum :: bytes
  st_state :: bytes

definition SNAPSHOT_ZSTD_LEVEL :: int where
  "SNAPSHOT_ZSTD_LEVEL = 3"

definition compress_state :: "zstd_lib \<Rightarrow> bytes \<Rightarrow> bytes option" where
  "compress_state z state = z_compress z SNAPSHOT_ZSTD_LEVEL state"

definition decode_state :: "zstd_lib \<Rightarrow> state_encoding \<Rightarrow> u64 \<Rightarrow> bytes \<Rightarrow> decode_error + bytes" where
  "decode_state z encoding state_len state =
     (if MAX_STATE_LENGTH < state_len then Inl (StateTooLarge state_len)
      else case encoding of
        Raw \<Rightarrow>
          (if (of_nat (length state) :: u64) \<noteq> state_len
           then Inl (BadState (RawStateLength (length state) state_len))
           else Inr state)
      | Zstd \<Rightarrow> map_err (\<lambda>e. BadState (DecompressFailed e)) (decompress_data z state (unat state_len)))"

definition snapshot_with_state ::
    "snapshot_data \<Rightarrow> peer_id \<Rightarrow> peer_id \<Rightarrow> state_encoding \<Rightarrow> bytes \<Rightarrow> wire_snapshot" where
  "snapshot_with_state s from target encoding state =
     \<lparr>ws_from = from, ws_target = target, ws_frame = sd_frame s,
      ws_elapsed_millis = sd_elapsed_millis s, ws_input = sd_input s, ws_speed = sd_speed s,
      ws_counters = sd_counters s, ws_encoding = encoding,
      ws_state_len = of_nat (length (sd_state s)), ws_state = state\<rparr>"

definition snapshot_raw :: "snapshot_data \<Rightarrow> peer_id \<Rightarrow> peer_id \<Rightarrow> wire_snapshot" where
  "snapshot_raw s from target = snapshot_with_state s from target Raw (sd_state s)"

definition snapshot_compressed :: "zstd_lib \<Rightarrow> snapshot_data \<Rightarrow> peer_id \<Rightarrow> peer_id \<Rightarrow> wire_snapshot" where
  "snapshot_compressed z s from target = (case compress_state z (sd_state s) of
     Some state \<Rightarrow> snapshot_with_state s from target Zstd state
   | None \<Rightarrow> snapshot_raw s from target)"

definition into_snapshot :: "zstd_lib \<Rightarrow> wire_snapshot \<Rightarrow> decode_error + snapshot_data" where
  "into_snapshot z w = and_then (decode_state z (ws_encoding w) (ws_state_len w) (ws_state w)) (\<lambda>state.
     Inr \<lparr>sd_frame = ws_frame w, sd_elapsed_millis = ws_elapsed_millis w, sd_input = ws_input w,
          sd_speed = ws_speed w, sd_counters = ws_counters w, sd_state = state\<rparr>)"

definition start_cleared :: wire_start_state where
  "start_cleared = \<lparr>ss_rom_checksum = replicate 32 0, ss_encoding = Raw, ss_state_len = 0, ss_state = []\<rparr>"

definition start_with_state :: "start_state_data \<Rightarrow> state_encoding \<Rightarrow> bytes \<Rightarrow> wire_start_state" where
  "start_with_state d encoding state =
     \<lparr>ss_rom_checksum = st_rom_checksum d, ss_encoding = encoding,
      ss_state_len = of_nat (length (st_state d)), ss_state = state\<rparr>"

definition start_raw :: "start_state_data \<Rightarrow> wire_start_state" where
  "start_raw d = start_with_state d Raw (st_state d)"

definition start_is_cleared :: "wire_start_state \<Rightarrow> bool" where
  "start_is_cleared w \<longleftrightarrow> ss_state_len w = 0 \<and> ss_state w = []"

definition into_state :: "zstd_lib \<Rightarrow> wire_start_state \<Rightarrow> decode_error + start_state_data option" where
  "into_state z w =
     (if start_is_cleared w then Inr None
      else and_then (decode_state z (ss_encoding w) (ss_state_len w) (ss_state w)) (\<lambda>state.
        Inr (Some \<lparr>st_rom_checksum = ss_rom_checksum w, st_state = state\<rparr>)))"

subsection \<open>What decoding guarantees\<close>

lemma decompress_data_length: "decompress_data z data n = Inr out \<Longrightarrow> length out = n"
  by (auto simp: decompress_data_def Let_def split: if_splits sum.splits)

definition state_fits :: "bytes \<Rightarrow> bool" where
  "state_fits state \<longleftrightarrow> length state \<le> unat MAX_STATE_LENGTH"

lemma state_fits_word:
  assumes "state_fits state"
  shows "\<not> MAX_STATE_LENGTH < of_nat (length state)" and "unat (of_nat (length state) :: u64) = length state"
proof -
  from assms have "length state \<le> 50331648" by (simp add: state_fits_def MAX_STATE_LENGTH_def)
  then show eq: "unat (of_nat (length state) :: u64) = length state"
    by (simp add: unat_of_nat)
  show "\<not> MAX_STATE_LENGTH < of_nat (length state)"
    using assms by (simp add: word_less_nat_alt eq state_fits_def)
qed

lemma decode_state_bounded:
  assumes "decode_state z encoding n state = Inr out"
  shows "length out = unat n \<or> encoding = Raw \<and> of_nat (length out) = n" and "n \<le> MAX_STATE_LENGTH"
  using assms decompress_data_length
  by (auto simp: decode_state_def map_err_def split: if_splits state_encoding.splits sum.splits)

lemma decode_state_raw: "state_fits state \<Longrightarrow> decode_state z Raw (of_nat (length state)) state = Inr state"
  by (simp add: decode_state_def state_fits_word)

lemma decode_state_zstd:
  assumes "zstd_lossless z" and "state_fits state" and "compress_state z state = Some c"
  shows "decode_state z Zstd (of_nat (length state)) c = Inr state"
proof -
  from assms have z: "z_content_size z c = of_nat (length state)" "z_decompress z c (length state) = Inr state"
    by (auto simp: zstd_lossless_def compress_state_def)
  from assms(2) have "length state \<le> 50331648" by (simp add: state_fits_def MAX_STATE_LENGTH_def)
  then have "(of_nat (length state) :: u64) \<noteq> - 1" "(of_nat (length state) :: u64) \<noteq> - 2"
    using state_fits_word(2) [OF assms(2)] by (auto simp: unsigned_minus_1_eq_mask mask_eq_exp_minus_1
        dest: arg_cong [of _ _ unat])
  with z assms(2) show ?thesis
    by (simp add: decode_state_def state_fits_word decompress_data_def map_err_def
        ZSTD_CONTENTSIZE_UNKNOWN_def ZSTD_CONTENTSIZE_ERROR_def)
qed

lemma into_snapshot_raw: "state_fits (sd_state s) \<Longrightarrow> into_snapshot z (snapshot_raw s from target) = Inr s"
  by (simp add: into_snapshot_def snapshot_raw_def snapshot_with_state_def decode_state_raw and_then_def)

lemma into_snapshot_compressed:
  assumes "zstd_lossless z" and "state_fits (sd_state s)"
  shows "into_snapshot z (snapshot_compressed z s from target) = Inr s"
proof (cases "compress_state z (sd_state s)")
  case None
  with assms show ?thesis by (simp add: snapshot_compressed_def into_snapshot_raw)
next
  case (Some c)
  with assms show ?thesis
    by (simp add: snapshot_compressed_def into_snapshot_def snapshot_with_state_def decode_state_zstd and_then_def)
qed

lemma into_snapshot_frame: "into_snapshot z w = Inr s \<Longrightarrow> sd_frame s = ws_frame w"
  by (auto simp: into_snapshot_def and_then_eq_Inr)

lemma into_snapshot_bounded:
  assumes "into_snapshot z w = Inr s" and "length (ws_state w) \<le> MAX_MESSAGE_BYTES"
  shows "state_fits (sd_state s)"
proof -
  from assms obtain state where state: "decode_state z (ws_encoding w) (ws_state_len w) (ws_state w) = Inr state"
    and s: "sd_state s = state" by (auto simp: into_snapshot_def and_then_eq_Inr)
  have "unat (ws_state_len w) \<le> unat MAX_STATE_LENGTH"
    using decode_state_bounded(2) [OF state] by (simp add: word_le_nat_alt)
  moreover have "ws_encoding w = Raw \<Longrightarrow> state = ws_state w"
    using state by (auto simp: decode_state_def split: if_splits)
  ultimately show ?thesis
    using decode_state_bounded(1) [OF state] assms(2) s
    by (auto simp: state_fits_def MAX_STATE_LENGTH_def MAX_MESSAGE_BYTES_def MAX_MESSAGE_LENGTH_def)
qed

lemma into_state_cleared: "into_state z start_cleared = Inr None"
  by (simp add: into_state_def start_is_cleared_def start_cleared_def)

lemma into_state_raw:
  "state_fits (st_state d) \<Longrightarrow> st_state d \<noteq> [] \<Longrightarrow> into_state z (start_raw d) = Inr (Some d)"
  by (simp add: into_state_def start_is_cleared_def start_raw_def start_with_state_def decode_state_raw and_then_def)

end
