(* ===== verification/Outbound.thy ===== *)
theory Outbound
  imports Snapshots Link_Stream Runs
begin

text \<open>
  What waits to be written on one connection, from \<open>supershuckie-play-together/src/conn.rs\<close>:
  the bounded queue with its urgent lane, the encoder that turns drained items into wire bytes
  (merging consecutive streams), the split of a batch into runs, and the ping bookkeeping.
  A lock is held for each queue operation, so each is one step. The atomic copy of the byte count
  is the field \<open>q_queued_bytes\<close>. The compressed form of a snapshot is computed at most once in
  the code; it is a function of the snapshot, so the cache is not part of the state.
\<close>

subsection \<open>Items\<close>

definition MAX_QUEUE_BYTES :: nat where "MAX_QUEUE_BYTES = 67108864"
definition MAX_QUEUE_ITEMS :: nat where "MAX_QUEUE_ITEMS = 16384"
definition WRITE_RUN :: nat where "WRITE_RUN = 65536"
definition STREAM_MERGE_LIMIT :: nat where "STREAM_MERGE_LIMIT = 262144"

datatype outbound =
    OStream u64 bytes
  | OSnapshot snapshot_data peer_id
  | OStartState start_state_data
  | OEncoded bytes

fun cost :: "outbound \<Rightarrow> nat" where
  "cost (OStream _ bs) = length bs + 16"
| "cost (OSnapshot s _) = length (sd_state s) + 64"
| "cost (OStartState d) = length (st_state d) + 64"
| "cost (OEncoded bs) = length bs"

definition snapshot_encode :: "zstd_lib \<Rightarrow> snapshot_data \<Rightarrow> peer_id \<Rightarrow> peer_id \<Rightarrow> bytes" where
  "snapshot_encode z s from target = encoded (Snapshot (case compress_state z (sd_state s) of
     Some state \<Rightarrow> snapshot_with_state s from target Zstd state
   | None \<Rightarrow> snapshot_raw s from target))"

definition start_state_encode :: "zstd_lib \<Rightarrow> start_state_data \<Rightarrow> bytes" where
  "start_state_encode z d = encoded (StartState (case compress_state z (st_state d) of
     Some state \<Rightarrow> start_with_state d Zstd state
   | None \<Rightarrow> start_raw d))"

subsection \<open>The queue\<close>

datatype push_error = Full u64 | Closed

record out_queue =
  q_items :: "outbound list"
  q_urgent :: "bytes list"
  q_bytes :: nat
  q_closed :: bool
  q_queued_bytes :: u64

record drained =
  d_items :: "outbound list"
  d_urgent :: "bytes list"
  d_closed :: bool

definition queue_new :: out_queue where
  "queue_new = \<lparr>q_items = [], q_urgent = [], q_bytes = 0, q_closed = False, q_queued_bytes = 0\<rparr>"

definition try_push :: "outbound \<Rightarrow> out_queue \<Rightarrow> out_queue \<times> (push_error + unit)" where
  "try_push item q =
     (if q_closed q then (q, Inl Closed)
      else if MAX_QUEUE_BYTES < q_bytes q + cost item \<or> MAX_QUEUE_ITEMS < length (q_items q) + 1
      then (q, Inl (Full (of_nat (q_bytes q))))
      else (q\<lparr>q_bytes := q_bytes q + cost item, q_items := q_items q @ [item],
              q_queued_bytes := of_nat (q_bytes q + cost item)\<rparr>, Inr ()))"

definition try_push_urgent :: "bytes \<Rightarrow> out_queue \<Rightarrow> out_queue \<times> (push_error + unit)" where
  "try_push_urgent bs q =
     (if q_closed q then (q, Inl Closed)
      else if MAX_QUEUE_BYTES < q_bytes q + length bs \<or>
              MAX_QUEUE_ITEMS < length (q_items q) + length (q_urgent q) + 1
      then (q, Inl (Full (of_nat (q_bytes q))))
      else (q\<lparr>q_bytes := q_bytes q + length bs, q_urgent := q_urgent q @ [bs],
              q_queued_bytes := of_nat (q_bytes q + length bs)\<rparr>, Inr ()))"

text \<open>What \<open>wait_drain\<close> does once it has waited.\<close>

definition drain_queue :: "out_queue \<Rightarrow> out_queue \<times> drained" where
  "drain_queue q =
     (q\<lparr>q_items := [], q_urgent := [], q_bytes := 0, q_queued_bytes := 0\<rparr>,
      \<lparr>d_items = q_items q, d_urgent = q_urgent q, d_closed = q_closed q\<rparr>)"

definition take_urgent :: "out_queue \<Rightarrow> out_queue \<times> bytes list" where
  "take_urgent q =
     (if q_urgent q = [] then (q, [])
      else let n = q_bytes q - min (sum_list (map length (q_urgent q))) (q_bytes q)
           in (q\<lparr>q_urgent := [], q_bytes := n, q_queued_bytes := of_nat n\<rparr>, q_urgent q))"

definition queue_close :: "bool \<Rightarrow> out_queue \<Rightarrow> out_queue" where
  "queue_close discard q =
     (let q = q\<lparr>q_closed := True\<rparr>
      in if discard then q\<lparr>q_items := [], q_urgent := [], q_bytes := 0, q_queued_bytes := 0\<rparr> else q)"

subsection \<open>Histories of a queue\<close>

datatype queue_op =
    QPush outbound
  | QPushUrgent bytes
  | QDrain
  | QTakeUrgent
  | QClose bool

datatype queue_event =
    Accepted outbound
  | AcceptedUrgent bytes
  | Refusal push_error
  | Sent outbound
  | SentUrgent bytes
  | Lost outbound
  | LostUrgent bytes

fun queue_step :: "queue_op \<Rightarrow> out_queue \<Rightarrow> out_queue \<times> queue_event list" where
  "queue_step (QPush item) q = (let (q', r) = try_push item q
     in (q', case r of Inr _ \<Rightarrow> [Accepted item] | Inl e \<Rightarrow> [Refusal e]))"
| "queue_step (QPushUrgent bs) q = (let (q', r) = try_push_urgent bs q
     in (q', case r of Inr _ \<Rightarrow> [AcceptedUrgent bs] | Inl e \<Rightarrow> [Refusal e]))"
| "queue_step QDrain q = (let (q', d) = drain_queue q
     in (q', map SentUrgent (d_urgent d) @ map Sent (d_items d)))"
| "queue_step QTakeUrgent q = (let (q', us) = take_urgent q in (q', map SentUrgent us))"
| "queue_step (QClose discard) q = (queue_close discard q,
     if discard then map LostUrgent (q_urgent q) @ map Lost (q_items q) else [])"

text \<open>The two lanes of a history: what was taken in, and what left, each in order.\<close>

definition accepted :: "queue_event list \<Rightarrow> outbound list" where
  "accepted log = concat (map (\<lambda>e. case e of Accepted i \<Rightarrow> [i] | _ \<Rightarrow> []) log)"

definition departed :: "queue_event list \<Rightarrow> outbound list" where
  "departed log = concat (map (\<lambda>e. case e of Sent i \<Rightarrow> [i] | Lost i \<Rightarrow> [i] | _ \<Rightarrow> []) log)"

definition accepted_urgent :: "queue_event list \<Rightarrow> bytes list" where
  "accepted_urgent log = concat (map (\<lambda>e. case e of AcceptedUrgent b \<Rightarrow> [b] | _ \<Rightarrow> []) log)"

definition departed_urgent :: "queue_event list \<Rightarrow> bytes list" where
  "departed_urgent log = concat (map (\<lambda>e. case e of SentUrgent b \<Rightarrow> [b] | LostUrgent b \<Rightarrow> [b] | _ \<Rightarrow> []) log)"

lemmas lane_defs = accepted_def departed_def accepted_urgent_def departed_urgent_def

text \<open>
  The books balance and the caps hold. The item cap of the ordinary lane does not count the
  urgent lane, so both lanes together are bounded by twice the cap only.
\<close>

definition queue_ok :: "out_queue \<Rightarrow> bool" where
  "queue_ok q \<longleftrightarrow>
     q_bytes q = sum_list (map cost (q_items q)) + sum_list (map length (q_urgent q)) \<and>
     q_queued_bytes q = of_nat (q_bytes q) \<and>
     q_bytes q \<le> MAX_QUEUE_BYTES \<and>
     length (q_items q) \<le> MAX_QUEUE_ITEMS \<and> length (q_urgent q) \<le> MAX_QUEUE_ITEMS"

definition queue_inv :: "out_queue \<Rightarrow> queue_event list \<Rightarrow> bool" where
  "queue_inv q log \<longleftrightarrow> queue_ok q \<and>
     accepted log = departed log @ q_items q \<and>
     accepted_urgent log = departed_urgent log @ q_urgent q"

lemma concat_map_Nil: "(\<And>x. f x = []) \<Longrightarrow> concat (map f xs) = []"
  by (induction xs) simp_all

lemma concat_map_single: "(\<And>x. f x = [x]) \<Longrightarrow> concat (map f xs) = xs"
  by (induction xs) simp_all

lemma lane_simps [simp]:
  "accepted [] = []" "departed [] = []" "accepted_urgent [] = []" "departed_urgent [] = []"
  "accepted (a @ b) = accepted a @ accepted b" "departed (a @ b) = departed a @ departed b"
  "accepted_urgent (a @ b) = accepted_urgent a @ accepted_urgent b"
  "departed_urgent (a @ b) = departed_urgent a @ departed_urgent b"
  "accepted (map Sent is) = []" "accepted (map SentUrgent us) = []"
  "accepted (map Lost is) = []" "accepted (map LostUrgent us) = []"
  "departed (map Sent is) = is" "departed (map SentUrgent us) = []"
  "departed (map Lost is) = is" "departed (map LostUrgent us) = []"
  "accepted_urgent (map Sent is) = []" "accepted_urgent (map SentUrgent us) = []"
  "accepted_urgent (map Lost is) = []" "accepted_urgent (map LostUrgent us) = []"
  "departed_urgent (map Sent is) = []" "departed_urgent (map SentUrgent us) = us"
  "departed_urgent (map Lost is) = []" "departed_urgent (map LostUrgent us) = us"
  by (simp_all add: lane_defs comp_def concat_map_Nil concat_map_single)

lemma lane_one [simp]:
  "accepted [Accepted i] = [i]" "departed [Accepted i] = []"
  "accepted_urgent [Accepted i] = []" "departed_urgent [Accepted i] = []"
  "accepted [AcceptedUrgent b] = []" "departed [AcceptedUrgent b] = []"
  "accepted_urgent [AcceptedUrgent b] = [b]" "departed_urgent [AcceptedUrgent b] = []"
  "accepted [Refusal e] = []" "departed [Refusal e] = []"
  "accepted_urgent [Refusal e] = []" "departed_urgent [Refusal e] = []"
  by (simp_all add: lane_defs)

lemma queue_new_inv: "queue_inv queue_new []"
  by (simp add: queue_inv_def queue_ok_def queue_new_def)

lemma queue_step_keeps:
  assumes "queue_inv q log" and "queue_step a q = (q', out)"
  shows "queue_inv q' (log @ out)"
proof (cases a)
  case (QPush item)
  with assms show ?thesis
    by (auto simp: try_push_def queue_inv_def queue_ok_def split: if_splits)
next
  case (QPushUrgent bs)
  with assms show ?thesis
    by (auto simp: try_push_urgent_def queue_inv_def queue_ok_def split: if_splits)
next
  case QDrain
  with assms show ?thesis by (auto simp: drain_queue_def queue_inv_def queue_ok_def)
next
  case QTakeUrgent
  with assms show ?thesis
    by (auto simp: take_urgent_def queue_inv_def queue_ok_def Let_def split: if_splits)
next
  case (QClose discard)
  with assms show ?thesis
    by (auto simp: queue_close_def queue_inv_def queue_ok_def Let_def split: if_splits)
qed

interpretation queue: total_history queue_step queue_inv
  by unfold_locales (rule queue_step_keeps)

text \<open>A closed queue stays closed and takes nothing in.\<close>

lemma closed_refuses:
  assumes "q_closed q"
  shows "try_push item q = (q, Inl Closed)" and "try_push_urgent bs q = (q, Inl Closed)"
  using assms by (simp_all add: try_push_def try_push_urgent_def)

lemma closed_stays: "q_closed q \<Longrightarrow> q_closed (fst (queue_step a q))"
  by (cases a) (auto simp: try_push_def try_push_urgent_def drain_queue_def take_urgent_def
      queue_close_def Let_def)

lemma closed_accepts_nothing:
  assumes "q_closed q"
  shows "accepted (snd (run queue_step as q)) = [] \<and> accepted_urgent (snd (run queue_step as q)) = []"
  using assms
proof (induction as arbitrary: q)
  case Nil
  then show ?case by simp
next
  case (Cons a as)
  obtain q1 o1 where one: "queue_step a q = (q1, o1)" by (cases "queue_step a q")
  have "accepted o1 = [] \<and> accepted_urgent o1 = []"
    using one Cons.prems
    by (cases a) (auto simp: closed_refuses drain_queue_def take_urgent_def Let_def split: if_splits)
  moreover have "q_closed q1" using closed_stays [OF Cons.prems, of a] one by simp
  ultimately show ?case
    using Cons.IH [of q1] one by (cases "run queue_step as q1") simp
qed

subsection \<open>Snapshots on the wire\<close>

lemma snapshot_encode_compressed:
  "snapshot_encode z s from target = encoded (Snapshot (snapshot_compressed z s from target))"
  by (simp add: snapshot_encode_def snapshot_compressed_def)

lemma state_within: "length (ws_state w) \<le> length (encode_body (Snapshot w))"
  by (simp add: encode_body_def enc_bytes_def)

lemma snapshot_compressed_fields:
  "ws_from (snapshot_compressed z s from target) = from"
  "ws_target (snapshot_compressed z s from target) = target"
  "ws_input (snapshot_compressed z s from target) = sd_input s"
  "ws_speed (snapshot_compressed z s from target) = sd_speed s"
  "ws_counters (snapshot_compressed z s from target) = sd_counters s"
  "ws_state_len (snapshot_compressed z s from target) = of_nat (length (sd_state s))"
  by (simp_all add: snapshot_compressed_def snapshot_raw_def snapshot_with_state_def split: option.split)

lemma snapshot_encode_decodes:
  assumes "zstd_lossless z" and "state_fits (sd_state s)" and "from \<noteq> 0"
    and "length (sd_input s) \<le> MAX_INPUT_BYTES" and "speed_ok (sd_speed s)"
    and "length (sd_counters s) \<le> MAX_COUNTERS" and "list_all wire_counter_ok (sd_counters s)"
    and "length (snapshot_encode z s from target) - 4 \<le> unat MAX_MESSAGE_LENGTH"
  shows "\<exists>w. decode_frame (snapshot_encode z s from target) = Inr (Snapshot w) \<and>
    ws_from w = from \<and> ws_target w = target \<and> into_snapshot z w = Inr s"
proof -
  let ?w = "snapshot_compressed z s from target"
  have "length (ws_state ?w) \<le> unat MAX_MESSAGE_LENGTH"
    using assms(8) state_within [of ?w] by (simp add: snapshot_encode_compressed length_encoded)
  then have "message_ok (Snapshot ?w)"
    using assms(2-7) state_fits_word(1) [OF assms(2)]
    by (simp add: snapshot_ok_def snapshot_compressed_fields MAX_MESSAGE_BYTES_def)
  from decode_frame_encoded [OF this] show ?thesis
    using into_snapshot_compressed [OF assms(1,2), of "from" target]
    by (intro exI [of _ ?w]) (simp add: snapshot_encode_compressed snapshot_compressed_fields)
qed

end
