(* ===== verification/Outbound_Batch.thy ===== *)
theory Outbound_Batch
  imports Outbound
begin

text \<open>
  From drained items to wire bytes: \<open>encode_outbound\<close> and \<open>EncodedBatch::runs\<close> of
  \<open>supershuckie-play-together/src/conn.rs\<close>.
\<close>

subsection \<open>Encoding\<close>

datatype dropped_item = SnapshotTooLarge nat u64 | StartStateTooLarge nat

record encoded_batch =
  eb_bytes :: bytes
  eb_messages :: nat
  eb_boundaries :: "nat list"
  eb_dropped :: "dropped_item list"

definition batch_empty :: encoded_batch where
  "batch_empty = \<lparr>eb_bytes = [], eb_messages = 0, eb_boundaries = [], eb_dropped = []\<rparr>"

text \<open>Append one framed message: the three lines every arm repeats.\<close>

definition batch_add :: "bytes \<Rightarrow> encoded_batch \<Rightarrow> encoded_batch" where
  "batch_add enc b = b\<lparr>eb_bytes := eb_bytes b @ enc, eb_messages := eb_messages b + 1,
     eb_boundaries := eb_boundaries b @ [length (eb_bytes b @ enc)]\<rparr>"

definition batch_drop :: "dropped_item \<Rightarrow> encoded_batch \<Rightarrow> encoded_batch" where
  "batch_drop d b = b\<lparr>eb_dropped := eb_dropped b @ [d]\<rparr>"

type_synonym pending = "(u64 \<times> bytes) option"

definition flush_pending :: "peer_id \<Rightarrow> pending \<Rightarrow> encoded_batch \<Rightarrow> encoded_batch" where
  "flush_pending from pending b = (case pending of
     None \<Rightarrow> b
   | Some (first_frame, bs) \<Rightarrow> batch_add (encoded (Stream from first_frame bs)) b)"

text \<open>A frame's length prefix is not counted against the cap.\<close>

definition too_large :: "bytes \<Rightarrow> bool" where
  "too_large enc \<longleftrightarrow> unat MAX_MESSAGE_LENGTH < length enc - 4"

fun encode_item ::
    "zstd_lib \<Rightarrow> peer_id \<Rightarrow> outbound \<Rightarrow> pending \<times> encoded_batch \<Rightarrow> pending \<times> encoded_batch" where
  "encode_item z from (OStream first_frame bs) (pending, b) =
     (let (first, buf) = (case pending of
            Some (f, buf) \<Rightarrow> (f, buf @ bs)
          | None \<Rightarrow> (first_frame, bs))
      in if STREAM_MERGE_LIMIT \<le> length buf
         then (None, flush_pending from (Some (first, buf)) b)
         else (Some (first, buf), b))"
| "encode_item z from (OSnapshot s target) (pending, b) =
     (let b = flush_pending from pending b; enc = snapshot_encode z s from target
      in (None, if too_large enc then batch_drop (SnapshotTooLarge (length (sd_state s)) (sd_frame s)) b
                else batch_add enc b))"
| "encode_item z from (OStartState d) (pending, b) =
     (let b = flush_pending from pending b; enc = start_state_encode z d
      in (None, if too_large enc then batch_drop (StartStateTooLarge (length (st_state d))) b
                else batch_add enc b))"
| "encode_item z from (OEncoded enc) (pending, b) = (None, batch_add enc (flush_pending from pending b))"

definition encode_outbound :: "zstd_lib \<Rightarrow> outbound list \<Rightarrow> peer_id \<Rightarrow> encoded_batch" where
  "encode_outbound z items from =
     (let (pending, b) = fold (encode_item z from) items (None, batch_empty)
      in flush_pending from pending b)"

text \<open>\<open>runs\<close>: the loop over the boundaries, with the start of the current run.\<close>

fun runs_from :: "nat \<Rightarrow> nat list \<Rightarrow> (nat \<times> nat) list" where
  "runs_from start [] = []"
| "runs_from start (e # es) =
     (if WRITE_RUN \<le> e - start \<or> es = [] then (start, e) # runs_from e es else runs_from start es)"

definition runs :: "encoded_batch \<Rightarrow> (nat \<times> nat) list" where
  "runs b = runs_from 0 (eb_boundaries b)"

subsection \<open>A batch is its messages\<close>

text \<open>
  \<open>holds b ms\<close>: the batch's bytes are exactly the framed messages \<open>ms\<close>, counted, with a boundary
  after each.
\<close>

fun ends_from :: "nat \<Rightarrow> bytes list \<Rightarrow> nat list" where
  "ends_from n [] = []"
| "ends_from n (m # ms) = (n + length m) # ends_from (n + length m) ms"

definition holds :: "encoded_batch \<Rightarrow> bytes list \<Rightarrow> bool" where
  "holds b ms \<longleftrightarrow> eb_bytes b = concat ms \<and> eb_messages b = length ms \<and> eb_boundaries b = ends_from 0 ms"

lemma ends_from_snoc: "ends_from n (ms @ [m]) = ends_from n ms @ [n + length (concat ms) + length m]"
  by (induction n ms rule: ends_from.induct) simp_all

lemma holds_empty: "holds batch_empty []"
  by (simp add: holds_def batch_empty_def)

lemma holds_add: "holds b ms \<Longrightarrow> holds (batch_add enc b) (ms @ [enc])"
  by (simp add: holds_def batch_add_def ends_from_snoc)

lemma holds_drop: "holds b ms \<Longrightarrow> holds (batch_drop d b) ms"
  by (simp add: holds_def batch_drop_def)

text \<open>
  The reference: what a receiver is owed for the items, in order. \<open>None\<close> marks nothing. A merged
  stream is one message; which items are merged is left open here, only that the stream bytes
  come out concatenated, each message beginning with the first frame of its first item.
\<close>

text \<open>The messages still owed for the open stream and for the items that follow.\<close>

definition pending_messages :: "peer_id \<Rightarrow> pending \<Rightarrow> bytes list" where
  "pending_messages from pending = (case pending of
     None \<Rightarrow> [] | Some (f, bs) \<Rightarrow> [encoded (Stream from f bs)])"

lemma holds_flush: "holds b ms \<Longrightarrow> holds (flush_pending from pending b) (ms @ pending_messages from pending)"
  by (auto simp: flush_pending_def pending_messages_def intro: holds_add split: option.splits)

primrec item_messages :: "zstd_lib \<Rightarrow> peer_id \<Rightarrow> outbound \<Rightarrow> bytes list" where
  "item_messages z from (OStream f bs) = [encoded (Stream from f bs)]"
| "item_messages z from (OSnapshot s target) =
     (let enc = snapshot_encode z s from target in if too_large enc then [] else [enc])"
| "item_messages z from (OStartState d) =
     (let enc = start_state_encode z d in if too_large enc then [] else [enc])"
| "item_messages z from (OEncoded enc) = [enc]"

text \<open>
  The grouping: consecutive streams are gathered until they reach the limit; every other item
  ends the group.
\<close>

fun grouped :: "pending \<Rightarrow> outbound list \<Rightarrow> outbound list" where
  "grouped None [] = []"
| "grouped (Some (f, buf)) [] = [OStream f buf]"
| "grouped None (OStream f bs # is) =
     (if STREAM_MERGE_LIMIT \<le> length bs then OStream f bs # grouped None is
      else grouped (Some (f, bs)) is)"
| "grouped (Some (f, buf)) (OStream _ bs # is) =
     (if STREAM_MERGE_LIMIT \<le> length (buf @ bs) then OStream f (buf @ bs) # grouped None is
      else grouped (Some (f, buf @ bs)) is)"
| "grouped None (i # is) = i # grouped None is"
| "grouped (Some (f, buf)) (i # is) = OStream f buf # i # grouped None is"

lemma grouped_closed:
  assumes "\<nexists>f bs. i = OStream f bs"
  shows "concat (map (item_messages z from) (grouped pending (i # items))) =
    pending_messages from pending @ item_messages z from i @
    concat (map (item_messages z from) (grouped None items))"
  using assms by (cases i; cases pending) (auto simp: pending_messages_def)

lemma encode_item_closed:
  assumes "\<nexists>f bs. i = OStream f bs" and "holds b ms"
  shows "\<exists>b'. encode_item z from i (pending, b) = (None, b') \<and>
    holds b' (ms @ pending_messages from pending @ item_messages z from i)"
proof -
  let ?b = "flush_pending from pending b"
  have flushed: "holds ?b (ms @ pending_messages from pending)"
    using assms(2) by (rule holds_flush)
  show ?thesis
  proof (cases i)
    case (OSnapshot s target)
    then show ?thesis
      using holds_add [OF flushed] holds_drop [OF flushed] by (simp add: Let_def)
  next
    case (OStartState d)
    then show ?thesis
      using holds_add [OF flushed] holds_drop [OF flushed] by (simp add: Let_def)
  next
    case (OEncoded enc)
    then show ?thesis using holds_add [OF flushed] by simp
  qed (use assms(1) in blast)
qed

lemma fold_holds:
  "holds b ms \<Longrightarrow> fold (encode_item z from) items (pending, b) = (pending', b') \<Longrightarrow>
   holds (flush_pending from pending' b') (ms @ concat (map (item_messages z from) (grouped pending items)))"
proof (induction items arbitrary: b ms pending)
  case Nil
  have "concat (map (item_messages z from) (grouped pending [])) = pending_messages from pending"
    by (cases pending) (auto simp: pending_messages_def)
  with Nil holds_flush show ?case by fastforce
next
  case (Cons i items)
  show ?case
  proof (cases "\<exists>f bs. i = OStream f bs")
    case True
    then obtain f bs where i: "i = OStream f bs" by blast
    obtain g buf where gb: "(case pending of Some (f, buf) \<Rightarrow> (f, buf @ bs) | None \<Rightarrow> (f, bs)) = (g, buf)"
      by (cases "case pending of Some (f, buf) \<Rightarrow> (f, buf @ bs) | None \<Rightarrow> (f, bs)")
    show ?thesis
    proof (cases "STREAM_MERGE_LIMIT \<le> length buf")
      case True
      have "grouped pending (i # items) = OStream g buf # grouped None items"
        using gb True i by (auto split: option.splits)
      moreover have "fold (encode_item z from) items (None, flush_pending from (Some (g, buf)) b) = (pending', b')"
        using Cons.prems(2) gb True i by simp
      ultimately show ?thesis
        using Cons.IH [OF holds_flush [OF Cons.prems(1), of "from" "Some (g, buf)"]]
        by (simp add: pending_messages_def)
    next
      case False
      have "grouped pending (i # items) = grouped (Some (g, buf)) items"
        using gb False i by (auto split: option.splits)
      moreover have "fold (encode_item z from) items (Some (g, buf), b) = (pending', b')"
        using Cons.prems(2) gb False i by simp
      ultimately show ?thesis using Cons.IH [OF Cons.prems(1)] by simp
    qed
  next
    case False
    obtain b1 where b1: "encode_item z from i (pending, b) = (None, b1)"
      "holds b1 (ms @ pending_messages from pending @ item_messages z from i)"
      using encode_item_closed [OF False Cons.prems(1)] by blast
    with Cons.prems(2) have "fold (encode_item z from) items (None, b1) = (pending', b')" by simp
    from Cons.IH [OF b1(2) this] show ?thesis by (simp only: grouped_closed [OF False] append_assoc)
  qed
qed

text \<open>The messages of a batch, and that the encoder lays out exactly those.\<close>

definition batch_messages :: "zstd_lib \<Rightarrow> peer_id \<Rightarrow> outbound list \<Rightarrow> bytes list" where
  "batch_messages z from items = concat (map (item_messages z from) (grouped None items))"

lemma encode_outbound_holds: "holds (encode_outbound z items from) (batch_messages z from items)"
  using fold_holds [OF holds_empty]
  by (cases "fold (encode_item z from) items (None, batch_empty)")
    (fastforce simp: encode_outbound_def batch_messages_def)

subsection \<open>Merging loses nothing\<close>

text \<open>
  The stream bytes of a list of items, cut only where an item of another kind stands between.
\<close>

fun stream_runs :: "outbound list \<Rightarrow> (bytes + outbound) list" where
  "stream_runs [] = []"
| "stream_runs (OStream f bs # is) = (case stream_runs is of
     Inl cs # rest \<Rightarrow> Inl (bs @ cs) # rest
   | rest \<Rightarrow> Inl bs # rest)"
| "stream_runs (i # is) = Inr i # stream_runs is"

lemma stream_runs_merge:
  "stream_runs (OStream f bs # OStream g cs # is) = stream_runs (OStream f (bs @ cs) # is)"
  by (auto split: list.splits sum.splits)

lemma stream_runs_cong: "stream_runs is = stream_runs js \<Longrightarrow> stream_runs (i # is) = stream_runs (i # js)"
  by (cases i) simp_all

lemma stream_runs_first_frame: "stream_runs (OStream f bs # is) = stream_runs (OStream g bs # is)"
  by simp

lemma grouped_runs:
  "stream_runs (grouped pending items) =
   stream_runs ((case pending of None \<Rightarrow> [] | Some (f, buf) \<Rightarrow> [OStream f buf]) @ items)"
proof (induction pending items rule: grouped.induct)
  case (3 f bs items)
  then show ?case by (auto intro: stream_runs_cong simp del: stream_runs.simps)
next
  case (4 f buf g bs items)
  then show ?case
    by (auto simp: stream_runs_merge simp del: stream_runs.simps intro: stream_runs_cong)
qed (auto intro!: stream_runs_cong simp del: stream_runs.simps)

subsection \<open>Runs\<close>

text \<open>
  The runs cut the batch without gap or overlap; every run ends on a message boundary; every run
  but the last is long enough; and a run stops at the first boundary that makes it so.
\<close>

lemma ends_from_ge: "e \<in> set (ends_from n ms) \<Longrightarrow> n \<le> e"
  by (induction n ms rule: ends_from.induct) fastforce+

lemma ends_from_sorted: "sorted (ends_from n ms)"
  by (induction n ms rule: ends_from.induct) (auto dest: ends_from_ge)

lemma ends_from_last: "ms \<noteq> [] \<Longrightarrow> last (ends_from n ms) = n + length (concat ms)"
proof (induction n ms rule: ends_from.induct)
  case (2 n m ms)
  then show ?case by (cases ms) simp_all
qed simp

lemma runs_cover:
  "sorted (start # es) \<Longrightarrow> es \<noteq> [] \<Longrightarrow>
   concat (map (\<lambda>(a, b). take (b - a) (drop a bs)) (runs_from start es)) =
     take (last es - start) (drop start bs)"
proof (induction start es rule: runs_from.induct)
  case (2 start e es)
  show ?case
  proof (cases "es = []")
    case True
    then show ?thesis by simp
  next
    case False
    have le: "start \<le> e" "e \<le> last es" using 2(3) False by auto
    have cut: "take (e - start) (drop start bs) @ take (last es - e) (drop e bs) =
        take (last es - start) (drop start bs)"
      using le take_add [of "e - start" "last es - e" "drop start bs"] by simp
    from 2 False le cut show ?thesis by auto
  qed
qed simp

lemma runs_ends: "(a, b) \<in> set (runs_from start es) \<Longrightarrow> b \<in> set es"
  by (induction start es rule: runs_from.induct) (auto split: if_splits)

lemma runs_long: "r \<in> set (butlast (runs_from start es)) \<Longrightarrow> WRITE_RUN \<le> snd r - fst r"
  by (induction start es rule: runs_from.induct) (auto split: if_splits)

lemma runs_from_start: "(a, b) \<in> set (runs_from start es) \<Longrightarrow> a = start \<or> a \<in> set es"
  by (induction start es rule: runs_from.induct) (auto split: if_splits)

lemma runs_short:
  "sorted (start # es) \<Longrightarrow> (a, b) \<in> set (runs_from start es) \<Longrightarrow> e \<in> set es \<Longrightarrow> a < e \<Longrightarrow> e < b \<Longrightarrow>
   e - a < WRITE_RUN"
proof (induction start es rule: runs_from.induct)
  case (2 start f fs)
  have sorted: "start \<le> f" "sorted (f # fs)" "sorted (start # fs)" "\<And>x. x \<in> set fs \<Longrightarrow> f \<le> x"
    using "2.prems"(1) by auto
  show ?case
  proof (cases "WRITE_RUN \<le> f - start \<or> fs = []")
    case True
    show ?thesis
    proof (cases "(a, b) = (start, f)")
      case True
      then have "e \<in> set fs" using "2.prems"(3,5) by auto
      then have "f \<le> e" using sorted(4) by blast
      with True "2.prems"(5) show ?thesis by simp
    next
      case False
      with True "2.prems"(2) have mem: "(a, b) \<in> set (runs_from f fs)" by auto
      have "f \<le> a" using runs_from_start [OF mem] sorted(4) by auto
      then have "e \<in> set fs" using "2.prems"(3,4) by auto
      from "2.IH"(1) [OF True sorted(2) mem this] "2.prems"(4,5) show ?thesis by blast
    qed
  next
    case False
    then have mem: "(a, b) \<in> set (runs_from start fs)" using "2.prems"(2) by auto
    show ?thesis
    proof (cases "e \<in> set fs")
      case True
      from "2.IH"(2) [OF False sorted(3) mem True] "2.prems"(4,5) show ?thesis by blast
    next
      case outside: False
      then have e: "e = f" using "2.prems"(3) by simp
      have "a = start" using runs_from_start [OF mem] sorted(4) e "2.prems"(4) by fastforce
      with False e show ?thesis by linarith
    qed
  qed
qed simp

text \<open>Together, for a whole batch.\<close>

lemma encode_outbound_runs:
  assumes "b = encode_outbound z items from"
  shows "concat (map (\<lambda>(i, j). take (j - i) (drop i (eb_bytes b))) (runs b)) = eb_bytes b"
    and "\<And>i j. (i, j) \<in> set (runs b) \<Longrightarrow> j \<in> set (eb_boundaries b)"
    and "\<And>r. r \<in> set (butlast (runs b)) \<Longrightarrow> WRITE_RUN \<le> snd r - fst r"
    and "\<And>i j e. (i, j) \<in> set (runs b) \<Longrightarrow> e \<in> set (eb_boundaries b) \<Longrightarrow> i < e \<Longrightarrow> e < j \<Longrightarrow> e - i < WRITE_RUN"
proof -
  obtain ms where "holds b ms" using encode_outbound_holds assms by blast
  then have b: "eb_bytes b = concat ms" "eb_boundaries b = ends_from 0 ms" by (simp_all add: holds_def)
  have sorted: "sorted (0 # ends_from 0 ms)" using ends_from_sorted by simp
  show "concat (map (\<lambda>(i, j). take (j - i) (drop i (eb_bytes b))) (runs b)) = eb_bytes b"
  proof (cases "ms = []")
    case True
    then show ?thesis by (simp add: b runs_def)
  next
    case False
    then have "ends_from 0 ms \<noteq> []" by (cases ms) auto
    from runs_cover [OF sorted this, of "eb_bytes b"] ends_from_last [OF False, of 0] show ?thesis
      by (simp add: runs_def b)
  qed
  show "\<And>i j. (i, j) \<in> set (runs b) \<Longrightarrow> j \<in> set (eb_boundaries b)"
    unfolding runs_def by (rule runs_ends)
  show "\<And>r. r \<in> set (butlast (runs b)) \<Longrightarrow> WRITE_RUN \<le> snd r - fst r"
    unfolding runs_def by (rule runs_long)
  show "\<And>i j e. (i, j) \<in> set (runs b) \<Longrightarrow> e \<in> set (eb_boundaries b) \<Longrightarrow> i < e \<Longrightarrow> e < j \<Longrightarrow> e - i < WRITE_RUN"
    unfolding runs_def b by (rule runs_short [OF sorted])
qed

end
