(* ===== verification/Outbound_Writer.thy ===== *)
theory Outbound_Writer
  imports Outbound_Batch
begin

text \<open>
  The writer thread of \<open>supershuckie-play-together/src/conn.rs\<close>: \<open>write_all_polling\<close> over a
  socket whose answers are a list, and one pass of \<open>writer_body\<close> as the list of chunks it hands
  to the socket, with what the urgent lane held each time it was looked at.
\<close>

subsection \<open>Writing everything\<close>

datatype write_event =
    Wrote nat  \<comment> \<open>\<open>Ok(n)\<close>\<close>
  | WriteInterrupted
  | WriteTimedOut bool  \<comment> \<open>timed out; whether the connection was closing then\<close>
  | WriteFailed

datatype write_error = WriteZero | WriteStopped | WriteIo

text \<open>
  The bytes that went out and the answers left, or the error with the bytes that went out before.
  Answers that run out leave the call waiting: \<open>None\<close>. A socket accepts at most what it was given.
\<close>

fun write_all_polling :: "write_event list \<Rightarrow> bytes \<Rightarrow> (bytes \<times> (write_error + write_event list)) option" where
  "write_all_polling es [] = Some ([], Inr es)"
| "write_all_polling [] buf = None"
| "write_all_polling (Wrote n # es) buf =
     (if n = 0 then Some ([], Inl WriteZero)
      else let k = min n (length buf)
           in map_option (\<lambda>(out, r). (take k buf @ out, r)) (write_all_polling es (drop k buf)))"
| "write_all_polling (WriteInterrupted # es) buf = write_all_polling es buf"
| "write_all_polling (WriteTimedOut closing # es) buf =
     (if closing then Some ([], Inl WriteStopped) else write_all_polling es buf)"
| "write_all_polling (WriteFailed # es) buf = Some ([], Inl WriteIo)"

lemma write_all_prefix:
  "write_all_polling es buf = Some (out, r) \<Longrightarrow> prefix out buf \<and> ((\<exists>es'. r = Inr es') \<longrightarrow> out = buf)"
proof (induction es buf arbitrary: out r rule: write_all_polling.induct)
  case (3 n es b buf)
  show ?case
  proof (cases "n = 0")
    case True
    with 3 show ?thesis by auto
  next
    case False
    define k where "k = min n (length (b # buf))"
    obtain out' where rest: "write_all_polling es (drop k (b # buf)) = Some (out', r)"
      and out: "out = take k (b # buf) @ out'"
      using "3.prems" False by (auto simp: k_def Let_def)
    have "prefix out' (drop k (b # buf)) \<and> ((\<exists>es'. r = Inr es') \<longrightarrow> out' = drop k (b # buf))"
      using "3.IH" [OF False k_def rest] .
    moreover from this have "prefix out (b # buf)"
      unfolding out by (metis append_take_drop_id same_prefix_prefix)
    ultimately show ?thesis unfolding out by auto
  qed
qed (auto split: if_splits)

text \<open>A peer that is merely slow gets everything in the end.\<close>

definition progress :: "write_event list \<Rightarrow> nat" where
  "progress es = sum_list (map (\<lambda>e. case e of Wrote n \<Rightarrow> n | _ \<Rightarrow> 0) es)"

definition slow_only :: "write_event list \<Rightarrow> bool" where
  "slow_only es \<longleftrightarrow> list_all (\<lambda>e. case e of Wrote n \<Rightarrow> 0 < n | WriteInterrupted \<Rightarrow> True
     | WriteTimedOut closing \<Rightarrow> \<not> closing | WriteFailed \<Rightarrow> False) es"

lemma write_all_slow:
  "slow_only es \<Longrightarrow> length buf \<le> progress es \<Longrightarrow> \<exists>es'. write_all_polling es buf = Some (buf, Inr es')"
proof (induction es buf rule: write_all_polling.induct)
  case (3 n es b buf)
  define k where "k = min n (length (b # buf))"
  have n: "n \<noteq> 0" "slow_only es" using "3.prems"(1) by (auto simp: slow_only_def)
  have "length (drop k (b # buf)) \<le> progress es"
    using "3.prems"(2) by (simp add: progress_def k_def)
  with "3.IH" [OF n(1) k_def n(2)] obtain es' where
    "write_all_polling es (drop k (b # buf)) = Some (drop k (b # buf), Inr es')" by blast
  with n(1) show ?case by (simp add: k_def Let_def)
qed (auto simp: slow_only_def progress_def)

subsection \<open>One pass of the writer\<close>

text \<open>
  The chunks of one pass: the urgent messages that were drained, then the batch run by run. The
  urgent lane is looked at again before every run but the first; \<open>later i\<close> is what it held before
  run \<open>i\<close>. A ping, if one is due, is appended after the last boundary and goes with the last run.
\<close>

definition pass_runs :: "encoded_batch \<Rightarrow> bytes \<Rightarrow> (nat \<times> nat) list" where
  "pass_runs b ping =
     (let n = length (eb_bytes b @ ping); rs = runs b
      in if n = 0 then []
         else if rs = [] then [(0, n)]
         else butlast rs @ [(fst (last rs), n)])"

fun run_chunks :: "(nat \<Rightarrow> bytes list) \<Rightarrow> bytes \<Rightarrow> nat \<Rightarrow> (nat \<times> nat) list \<Rightarrow> bytes list" where
  "run_chunks later bs i [] = []"
| "run_chunks later bs i ((a, e) # rs) =
     (if 0 < i then later i else []) @ take (e - a) (drop a bs) # run_chunks later bs (Suc i) rs"

definition writer_pass ::
    "zstd_lib \<Rightarrow> peer_id \<Rightarrow> drained \<Rightarrow> message option \<Rightarrow> (nat \<Rightarrow> bytes list) \<Rightarrow> bytes list" where
  "writer_pass z from d ping later =
     (let b = encode_outbound z (d_items d) from;
          ping = (case ping of None \<Rightarrow> [] | Some m \<Rightarrow> encoded m)
      in d_urgent d @ run_chunks later (eb_bytes b @ ping) 0 (pass_runs b ping))"

subsection \<open>Urgent messages never split another message\<close>

text \<open>Each run is a group of whole messages.\<close>

lemma runs_groups:
  "bs = p @ concat pre @ concat ms @ rest \<Longrightarrow> length p = start \<Longrightarrow> n = start + length (concat pre) \<Longrightarrow>
   \<exists>gs. concat gs = (if ms = [] then [] else pre @ ms) \<and>
     map (\<lambda>(a, e). take (e - a) (drop a bs)) (runs_from start (ends_from n ms)) = map concat gs"
proof (induction ms arbitrary: p pre start n)
  case Nil
  then show ?case by (intro exI [of _ "[]"]) simp
next
  case (Cons m ms)
  let ?e = "n + length m"
  show ?case
  proof (cases "WRITE_RUN \<le> ?e - start \<or> ends_from ?e ms = []")
    case True
    have "bs = (p @ concat pre @ m) @ concat [] @ concat ms @ rest"
      and len: "length (p @ concat pre @ m) = ?e" using Cons.prems by simp_all
    from Cons.IH [OF this, of ?e] obtain gs where gs: "concat gs = (if ms = [] then [] else [] @ ms)"
      "map (\<lambda>(a, e). take (e - a) (drop a bs)) (runs_from ?e (ends_from ?e ms)) = map concat gs"
      by auto
    have all: "concat gs = ms" using gs(1) by (cases ms) simp_all
    have "take (?e - start) (drop start bs) = concat (pre @ [m])" using Cons.prems by simp
    with all gs(2) True show ?thesis by (intro exI [of _ "(pre @ [m]) # gs"]) simp
  next
    case False
    then have "ms \<noteq> []" by (cases ms) auto
    have "bs = p @ concat (pre @ [m]) @ concat ms @ rest" using Cons.prems by simp
    from Cons.IH [OF this Cons.prems(2), of ?e] Cons.prems(3) \<open>ms \<noteq> []\<close> obtain gs where
      "concat gs = pre @ m # ms"
      "map (\<lambda>(a, e). take (e - a) (drop a bs)) (runs_from start (ends_from ?e ms)) = map concat gs"
      by auto
    with False show ?thesis by (intro exI [of _ gs]) simp
  qed
qed

lemma runs_from_nonempty: "es \<noteq> [] \<Longrightarrow> runs_from start es \<noteq> []"
  by (induction start es rule: runs_from.induct) auto

lemma runs_from_last: "es \<noteq> [] \<Longrightarrow> snd (last (runs_from start es)) = last es"
proof (induction start es rule: runs_from.induct)
  case (2 start e es)
  then show ?case using runs_from_nonempty [of es e] by (cases "es = []") auto
qed simp

lemma runs_from_le: "sorted (start # es) \<Longrightarrow> (a, e) \<in> set (runs_from start es) \<Longrightarrow> a \<le> e"
  by (induction start es rule: runs_from.induct) (auto split: if_splits)

lemma pass_runs_groups:
  assumes "holds b ms" and "[] \<notin> set ms" and "ping = [] \<or> ping = concat [pm]"
  shows "\<exists>gs. concat gs = ms @ (if ping = [] then [] else [pm]) \<and>
    map (\<lambda>(a, e). take (e - a) (drop a (eb_bytes b @ ping))) (pass_runs b ping) = map concat gs"
proof -
  let ?bs = "eb_bytes b @ ping" and ?pm = "if ping = [] then [] else [pm]"
  let ?sl = "\<lambda>(a, e). take (e - a) (drop a ?bs)"
  have b: "eb_bytes b = concat ms" "eb_boundaries b = ends_from 0 ms" using assms(1) by (simp_all add: holds_def)
  have ping: "concat ?pm = ping" using assms(3) by auto
  consider "length ?bs = 0" | "length ?bs \<noteq> 0" "ms = []" | "length ?bs \<noteq> 0" "ms \<noteq> []" by blast
  then show ?thesis
  proof cases
    case 1
    then have "pass_runs b ping = []" by (simp add: pass_runs_def)
    moreover have "\<forall>m \<in> set ms. m = []" "ping = []" using 1 unfolding b(1) by simp_all
    moreover have "ms = []" using calculation(2) assms(2) by (cases ms) simp_all
    ultimately show ?thesis by simp
  next
    case 2
    then have "pass_runs b ping = [(0, length ?bs)]" by (simp add: pass_runs_def runs_def b)
    with 2(2) b(1) ping show ?thesis by (intro exI [of _ "[?pm]"]) (simp del: length_append)
  next
    case 3
    obtain gs where gs: "concat gs = ms" "map ?sl (runs b) = map concat gs"
      using runs_groups [of ?bs "[]" "[]" ms ping 0 0] 3 b by (auto simp: runs_def)
    have ne: "ends_from 0 ms \<noteq> []" using 3 by (cases ms) auto
    have rs: "runs b \<noteq> []" using runs_from_nonempty [OF ne] by (simp add: runs_def b)
    obtain rs' a e where snoc: "runs b = rs' @ [(a, e)]"
      using rs by (cases "runs b" rule: rev_cases) auto
    have gsnoc: "gs = gs' @ [g]" "map ?sl rs' = map concat gs'" "?sl (a, e) = concat g"
      if "gs' = butlast gs" "g = last gs" for gs' g
    proof -
      have "gs \<noteq> []" using gs(2) snoc by auto
      then show eq: "gs = gs' @ [g]" using that by simp
      show "map ?sl rs' = map concat gs'" "?sl (a, e) = concat g"
        using gs(2) unfolding snoc eq by simp_all
    qed
    define gs' g where g_def: "gs' = butlast gs" "g = last gs"
    note gsnoc = gsnoc [OF g_def]
    have e: "e = length (concat ms)"
      using runs_from_last [OF ne, of 0] ends_from_last [OF 3(2), of 0] snoc by (simp add: runs_def b)
    have "a \<le> e"
      using runs_from_le [of 0 "ends_from 0 ms" a e] ends_from_sorted snoc by (simp add: runs_def b)
    have "drop a (concat ms) = concat g" using gsnoc(3) e b \<open>a \<le> e\<close> by simp
    with \<open>a \<le> e\<close> e have "drop a ?bs = concat (g @ ?pm)" by (simp only: b ping concat_append drop_append) simp
    moreover have "take (length ?bs - a) (drop a ?bs) = drop a ?bs" by (rule take_all) (simp only: length_drop)
    ultimately have "?sl (a, length ?bs) = concat (g @ ?pm)" by (simp only: case_prod_conv)
    moreover have "pass_runs b ping = rs' @ [(a, length ?bs)]"
      using 3 snoc by (simp add: pass_runs_def Let_def)
    ultimately show ?thesis
      using gsnoc gs(1) by (intro exI [of _ "gs' @ [g @ ?pm]"]) simp
  qed
qed

text \<open>So the chunks of a pass, one after the other, are whole messages: the drained urgent ones, then
  an interleaving of the batch (with the ping last) and of the urgent ones that came in between.\<close>

primrec urgents_between :: "(nat \<Rightarrow> bytes list) \<Rightarrow> nat \<Rightarrow> nat \<Rightarrow> bytes list" where
  "urgents_between later i 0 = []"
| "urgents_between later i (Suc n) = (if 0 < i then later i else []) @ urgents_between later (Suc i) n"

lemma shuffles_prefix: "zs \<in> shuffles xs ys \<Longrightarrow> us @ zs \<in> shuffles xs (us @ ys)"
  by (induction us) (auto intro: Cons_in_shuffles_rightI)

lemma shuffles_prefix_left: "zs \<in> shuffles xs ys \<Longrightarrow> us @ zs \<in> shuffles (us @ xs) ys"
  by (induction us) (auto intro: Cons_in_shuffles_leftI)

lemma run_chunks_shuffle:
  "map (\<lambda>(a, e). take (e - a) (drop a bs)) rs = map concat gs \<Longrightarrow>
   \<exists>ms \<in> shuffles (concat gs) (urgents_between later i (length rs)).
     concat (run_chunks later bs i rs) = concat ms"
proof (induction rs arbitrary: gs i)
  case Nil
  then show ?case by simp
next
  case (Cons r rs)
  obtain a e where r: "r = (a, e)" by (cases r)
  from Cons.prems obtain g gs' where gs: "gs = g # gs'" "take (e - a) (drop a bs) = concat g"
    and rest: "map (\<lambda>(a, e). take (e - a) (drop a bs)) rs = map concat gs'"
    by (cases gs) (auto simp: r)
  obtain ms where ms: "ms \<in> shuffles (concat gs') (urgents_between later (Suc i) (length rs))"
    "concat (run_chunks later bs (Suc i) rs) = concat ms"
    using Cons.IH [OF rest, of "Suc i"] by blast
  let ?u = "if 0 < i then later i else []"
  have "?u @ g @ ms \<in> shuffles (concat gs) (urgents_between later i (length (r # rs)))"
    using shuffles_prefix [OF shuffles_prefix_left [OF ms(1), of g], of ?u] by (simp add: gs(1))
  then show ?case by (rule bexI [rotated]) (simp add: r gs(2) ms(2))
qed

lemma batch_messages_ne:
  assumes "\<And>bs. OEncoded bs \<in> set items \<Longrightarrow> bs \<noteq> []"
  shows "[] \<notin> set (batch_messages z from items)"
proof -
  have enc: "encoded m \<noteq> []" for m
    by (simp add: encoded_def encode_def frame_def)
  then have enc': "[] \<noteq> encoded m" for m by metis
  have one: "[] \<notin> set (item_messages z from i)" if "i \<noteq> OEncoded []" for i
    using that by (cases i) (simp_all add: enc' snapshot_encode_def start_state_encode_def Let_def)
  have keep: "OEncoded bs \<in> set (grouped pending items) \<Longrightarrow> OEncoded bs \<in> set items" for pending bs
    by (induction pending items rule: grouped.induct) (simp_all split: if_splits, blast+)
  have "i \<noteq> OEncoded []" if "i \<in> set (grouped None items)" for i
    using that keep assms by blast
  with one show ?thesis by (fastforce simp: batch_messages_def)
qed

text \<open>The whole pass.\<close>

lemma writer_pass_messages:
  assumes "\<And>bs. OEncoded bs \<in> set (d_items d) \<Longrightarrow> bs \<noteq> []"
  shows "\<exists>ms \<in> shuffles (batch_messages z from (d_items d) @
             (case ping of None \<Rightarrow> [] | Some m \<Rightarrow> [encoded m]))
           (urgents_between later 0 (length (pass_runs (encode_outbound z (d_items d) from)
             (case ping of None \<Rightarrow> [] | Some m \<Rightarrow> encoded m)))).
     concat (writer_pass z from d ping later) = concat (d_urgent d @ ms)"
proof -
  let ?b = "encode_outbound z (d_items d) from" and ?p = "case ping of None \<Rightarrow> [] | Some m \<Rightarrow> encoded m"
  have ne: "encoded m \<noteq> []" for m by (simp add: encoded_def encode_def frame_def)
  have one: "?p = [] \<or> ?p = concat [?p]" by simp
  obtain gs where gs: "concat gs = batch_messages z from (d_items d) @ (if ?p = [] then [] else [?p])"
    "map (\<lambda>(a, e). take (e - a) (drop a (eb_bytes ?b @ ?p))) (pass_runs ?b ?p) = map concat gs"
    using pass_runs_groups [OF encode_outbound_holds batch_messages_ne [OF assms] one] by blast
  have p: "(if ?p = [] then [] else [?p]) = (case ping of None \<Rightarrow> [] | Some m \<Rightarrow> [encoded m])"
    using ne by (auto split: option.splits)
  obtain ms where "ms \<in> shuffles (concat gs) (urgents_between later 0 (length (pass_runs ?b ?p)))"
    "concat (run_chunks later (eb_bytes ?b @ ?p) 0 (pass_runs ?b ?p)) = concat ms"
    using run_chunks_shuffle [OF gs(2)] by blast
  then show ?thesis unfolding gs(1) p by (intro bexI [of _ ms]) (simp_all add: writer_pass_def Let_def)
qed

end
