(* ===== verification/Follow.thy ===== *)
theory Follow
  imports Snapshots Link_Stream Runs
begin

text \<open>
  One publisher's follow state on a receiver, from
  \<open>supershuckie-play-together/src/session/follow.rs\<close>. A sink is an application object; what
  matters of it is which calls reach it and when it is replaced, so a slot records whether one is
  installed and every operation returns the calls it makes. Time is in milliseconds, read by the
  caller; \<open>duration_since\<close> saturates at zero.
\<close>

subsection \<open>The slot\<close>

record follow_slot =
  fs_sink :: bool
  fs_live :: "u64 option"
  fs_last_request :: "nat option"

text \<open>What happens to sinks: the calls on the installed one, a new one put in, the installed one dropped.\<close>

datatype follow_call =
    Installed
  | Dropped
  | SinkSnapshot snapshot_data
  | SinkPackets u64 "packet list"
  | SinkHash u64 bytes
  | SinkEnded leave_reason

datatype stream_outcome = Discarded | Delivered | Gap u64 u64

definition SNAPSHOT_REQUEST_INTERVAL :: nat where
  "SNAPSHOT_REQUEST_INTERVAL = 2000"

definition new_slot :: follow_slot where
  "new_slot = \<lparr>fs_sink = False, fs_live = None, fs_last_request = None\<rparr>"

definition set_sink :: "follow_slot \<Rightarrow> follow_slot \<times> follow_call list" where
  "set_sink s = (s\<lparr>fs_sink := True, fs_live := None\<rparr>, [Installed])"

definition clear_sink :: "follow_slot \<Rightarrow> follow_slot \<times> follow_call list" where
  "clear_sink s = (s\<lparr>fs_sink := False, fs_live := None\<rparr>, [Dropped])"

definition end_slot :: "leave_reason \<Rightarrow> follow_slot \<Rightarrow> follow_slot \<times> follow_call list" where
  "end_slot reason s =
     (s\<lparr>fs_live := None, fs_sink := False\<rparr>, if fs_sink s then [SinkEnded reason] else [])"

definition has_sink :: "follow_slot \<Rightarrow> bool" where
  "has_sink s = fs_sink s"

definition is_live :: "follow_slot \<Rightarrow> bool" where
  "is_live s = (fs_live s \<noteq> None)"

definition may_request :: "bool \<Rightarrow> nat \<Rightarrow> follow_slot \<Rightarrow> follow_slot \<times> bool" where
  "may_request force now s =
     (let allowed = force \<or>
        (case fs_last_request s of None \<Rightarrow> True | Some t \<Rightarrow> SNAPSHOT_REQUEST_INTERVAL \<le> now - t)
      in (if allowed then s\<lparr>fs_last_request := Some now\<rparr> else s, allowed))"

definition on_snapshot :: "snapshot_data \<Rightarrow> follow_slot \<Rightarrow> follow_slot \<times> follow_call list \<times> bool" where
  "on_snapshot snap s =
     (if \<not> fs_sink s then (s, [], False)
      else (s\<lparr>fs_live := Some (sd_frame snap), fs_last_request := None\<rparr>, [SinkSnapshot snap], True))"

definition on_stream ::
    "u64 \<Rightarrow> packet list \<Rightarrow> follow_slot \<Rightarrow> follow_slot \<times> follow_call list \<times> stream_outcome" where
  "on_stream first_frame packets s = (case fs_live s of
     None \<Rightarrow> (s, [], Discarded)
   | Some expected \<Rightarrow>
       (if first_frame \<noteq> expected then (s\<lparr>fs_live := None\<rparr>, [], Gap expected first_frame)
        else if fs_sink s
        then (s\<lparr>fs_live := Some (expected + count_frames packets)\<rparr>,
              [SinkPackets first_frame packets], Delivered)
        else (s\<lparr>fs_live := None\<rparr>, [], Discarded)))"

definition on_sync_hash :: "u64 \<Rightarrow> bytes \<Rightarrow> follow_slot \<Rightarrow> follow_slot \<times> follow_call list \<times> bool" where
  "on_sync_hash frame_no hash s =
     (if fs_live s = None then (s, [], False)
      else if fs_sink s then (s, [SinkHash frame_no hash], True)
      else (s, [], False))"

subsection \<open>Histories of a slot\<close>

datatype follow_op =
    OpSetSink
  | OpClearSink
  | OpEnd leave_reason
  | OpMayRequest bool nat
  | OpSnapshot snapshot_data
  | OpStream u64 "packet list"
  | OpHash u64 bytes

fun follow_step :: "follow_op \<Rightarrow> follow_slot \<Rightarrow> follow_slot \<times> follow_call list" where
  "follow_step OpSetSink s = set_sink s"
| "follow_step OpClearSink s = clear_sink s"
| "follow_step (OpEnd reason) s = end_slot reason s"
| "follow_step (OpMayRequest force now) s = (fst (may_request force now s), [])"
| "follow_step (OpSnapshot snap) s = (let (s', calls, _) = on_snapshot snap s in (s', calls))"
| "follow_step (OpStream first_frame packets) s =
     (let (s', calls, _) = on_stream first_frame packets s in (s', calls))"
| "follow_step (OpHash frame_no hash) s = (let (s', calls, _) = on_sync_hash frame_no hash s in (s', calls))"

subsection \<open>What a sink may count on\<close>

text \<open>
  The protocol of a sink, as an automaton over its calls: no sink; a sink that waits for a
  snapshot; a sink whose next packets start at a known frame. \<open>None\<close> is a violation: packets or
  a hash before any snapshot, packets that do not continue where the last ones ended, or any call
  on a sink that was ended or dropped.
\<close>

datatype feed = NoSink | Waiting | Feeding u64

fun feed_step :: "feed \<Rightarrow> follow_call \<Rightarrow> feed option" where
  "feed_step _ Installed = Some Waiting"
| "feed_step _ Dropped = Some NoSink"
| "feed_step NoSink _ = None"
| "feed_step _ (SinkSnapshot snap) = Some (Feeding (sd_frame snap))"
| "feed_step (Feeding e) (SinkPackets f ps) = (if f = e then Some (Feeding (e + count_frames ps)) else None)"
| "feed_step (Feeding e) (SinkHash _ _) = Some (Feeding e)"
| "feed_step _ (SinkEnded _) = Some NoSink"
| "feed_step Waiting _ = None"

fun feed_run :: "feed \<Rightarrow> follow_call list \<Rightarrow> feed option" where
  "feed_run f [] = Some f"
| "feed_run f (c # cs) = (case feed_step f c of None \<Rightarrow> None | Some f' \<Rightarrow> feed_run f' cs)"

lemma feed_run_append:
  "feed_run f (cs @ ds) = (case feed_run f cs of None \<Rightarrow> None | Some f' \<Rightarrow> feed_run f' ds)"
  by (induction f cs rule: feed_run.induct) (auto split: option.splits)

text \<open>
  The invariant: the calls so far respect the protocol, the slot has a sink exactly when the
  automaton says so, and a live slot expects exactly the frame the sink does. A slot that is not
  live may lag behind its sink: after a gap it delivers nothing until the next snapshot.
\<close>

definition follow_inv :: "follow_slot \<Rightarrow> follow_call list \<Rightarrow> bool" where
  "follow_inv s log \<longleftrightarrow> (\<exists>f. feed_run NoSink log = Some f \<and> (fs_sink s \<longleftrightarrow> f \<noteq> NoSink) \<and>
     (\<forall>e. fs_live s = Some e \<longrightarrow> f = Feeding e))"

lemma follow_inv_append:
  assumes "feed_run NoSink log = Some f" and "feed_run f out = Some g"
    and "fs_sink s \<longleftrightarrow> g \<noteq> NoSink" and "case fs_live s of None \<Rightarrow> True | Some e \<Rightarrow> g = Feeding e"
  shows "follow_inv s (log @ out)"
  using assms by (auto simp: follow_inv_def feed_run_append split: option.splits)

lemma follow_step_keeps:
  assumes "follow_inv s log" and "follow_step a s = (s', out)"
  shows "follow_inv s' (log @ out)"
proof -
  from assms(1) obtain f where f: "feed_run NoSink log = Some f" "fs_sink s \<longleftrightarrow> f \<noteq> NoSink"
    "case fs_live s of None \<Rightarrow> True | Some e \<Rightarrow> f = Feeding e"
    by (auto simp: follow_inv_def split: option.splits)
  have "\<exists>g. feed_run f out = Some g \<and> (fs_sink s' \<longleftrightarrow> g \<noteq> NoSink) \<and>
      (case fs_live s' of None \<Rightarrow> True | Some e \<Rightarrow> g = Feeding e)"
    using assms(2)
  proof (cases a)
    case (OpMayRequest force now)
    with assms(2) f(2,3) show ?thesis
      by (simp add: may_request_def Let_def split: if_splits) (auto split: option.splits)
  next
    case (OpSnapshot snap)
    with assms(2) f(2,3) show ?thesis
      by (cases f) (auto simp: on_snapshot_def split: if_splits)
  next
    case (OpStream first_frame ps)
    with assms(2) f(2,3) show ?thesis
      by (cases "fs_live s") (auto simp: on_stream_def split: if_splits)
  next
    case (OpHash frame_no hash)
    with assms(2) f(2,3) show ?thesis
      by (cases "fs_live s") (auto simp: on_sync_hash_def split: if_splits)
  next
    case (OpEnd reason)
    with assms(2) f(2,3) show ?thesis
      by (cases f) (auto simp: end_slot_def split: if_splits)
  qed (auto simp: set_sink_def clear_sink_def)
  then show ?thesis using follow_inv_append [OF f(1)] by blast
qed

interpretation slot: total_history follow_step follow_inv
  by unfold_locales (rule follow_step_keeps)

lemma new_slot_inv: "follow_inv new_slot []"
  by (simp add: follow_inv_def new_slot_def)

subsection \<open>Following a publisher that keeps count\<close>

text \<open>
  A publisher's streams from frame \<open>e\<close> on: each starts where the one before ended.
\<close>

primrec consecutive :: "u64 \<Rightarrow> (u64 \<times> packet list) list \<Rightarrow> bool" where
  "consecutive e [] \<longleftrightarrow> True"
| "consecutive e (m # ms) \<longleftrightarrow> fst m = e \<and> consecutive (e + count_frames (snd m)) ms"

text \<open>A live slot delivers all of them, unchanged and in order.\<close>

lemma consecutive_delivered:
  assumes "consecutive e ms" and "fs_live s = Some e" and "fs_sink s"
  shows "snd (run follow_step (map (\<lambda>(f, ps). OpStream f ps) ms) s) = map (\<lambda>(f, ps). SinkPackets f ps) ms"
  using assms
proof (induction ms arbitrary: e s)
  case Nil
  then show ?case by simp
next
  case (Cons m ms)
  obtain f ps where m: "m = (f, ps)" by (cases m)
  let ?s = "s\<lparr>fs_live := Some (e + count_frames ps)\<rparr>"
  have "follow_step (OpStream f ps) s = (?s, [SinkPackets f ps])"
    using Cons.prems m by (simp add: on_stream_def)
  moreover have "snd (run follow_step (map (\<lambda>(f, ps). OpStream f ps) ms) ?s) =
      map (\<lambda>(f, ps). SinkPackets f ps) ms"
    using Cons.prems m by (intro Cons.IH [where e = "e + count_frames ps"]) auto
  ultimately show ?case
    by (cases "run follow_step (map (\<lambda>(f, ps). OpStream f ps) ms) ?s") (simp add: m del: follow_step.simps)
qed

text \<open>After a gap nothing is delivered until a snapshot arrives.\<close>

lemma waiting_discards:
  assumes "fs_live s = None"
  shows "on_stream f ps s = (s, [], Discarded)" and "on_sync_hash f h s = (s, [], False)"
  using assms by (simp_all add: on_stream_def on_sync_hash_def)

text \<open>Unforced requests are at least the interval apart, unless a snapshot answered in between.\<close>

lemma may_request_spaced:
  assumes "may_request force t s = (s1, True)" and "now < t + SNAPSHOT_REQUEST_INTERVAL"
  shows "may_request False now s1 = (s1, False)"
proof -
  have "\<not> SNAPSHOT_REQUEST_INTERVAL \<le> now - t"
    using assms(2) by (simp add: SNAPSHOT_REQUEST_INTERVAL_def)
  with assms(1) show ?thesis by (auto simp: may_request_def Let_def split: if_splits)
qed

lemma may_request_after_snapshot:
  assumes "on_snapshot snap s = (s1, calls, True)"
  shows "snd (may_request force now s1)"
  using assms by (auto simp: may_request_def on_snapshot_def Let_def split: if_splits)

text \<open>From the snapshot on.\<close>

lemma followed_from_snapshot:
  assumes "consecutive (sd_frame snap) ms"
  shows "snd (run follow_step (OpSetSink # OpSnapshot snap # map (\<lambda>(f, ps). OpStream f ps) ms) s) =
    Installed # SinkSnapshot snap # map (\<lambda>(f, ps). SinkPackets f ps) ms"
proof -
  define live where "live = s\<lparr>fs_sink := True, fs_live := Some (sd_frame snap), fs_last_request := None\<rparr>"
  obtain s1 where "follow_step OpSetSink s = (s1, [Installed])" and "follow_step (OpSnapshot snap) s1 = (live, [SinkSnapshot snap])"
    by (simp add: set_sink_def on_snapshot_def live_def)
  moreover have "snd (run follow_step (map (\<lambda>(f, ps). OpStream f ps) ms) live) = map (\<lambda>(f, ps). SinkPackets f ps) ms"
    by (rule consecutive_delivered [OF assms]) (simp_all add: live_def)
  ultimately show ?thesis by (simp add: Let_def case_prod_beta del: follow_step.simps)
qed

end
