(* ===== verification/Display_Names.thy ===== *)
theory Display_Names
  imports Protocol
begin

text \<open>
  \<open>supershuckie-play-together/src/compat.rs\<close>: which sessions can be followed, which consoles a
  link cable joins, and the hygiene of display names.

  A character of a string is represented by its UTF-8 bytes, so its \<open>len_utf8\<close> is its length and
  a string is the concatenation of its characters. The Unicode classes used are those of the
  standard library: \<open>char::is_control\<close> (category Cc) and \<open>White_Space\<close>.
\<close>

subsection \<open>Compatibility\<close>

datatype follow_compatibility =
    Compatible
  | ConsoleMismatch replay_console_type
  | RomMismatch
  | CoreMismatch rstring
  | BiosMismatch

definition follow_compatibility ::
    "replay_file_metadata \<Rightarrow> replay_file_metadata \<Rightarrow> follow_compatibility" where
  "follow_compatibility local publisher =
     (if m_console_type local \<noteq> m_console_type publisher then ConsoleMismatch (m_console_type publisher)
      else if m_rom_checksum local \<noteq> m_rom_checksum publisher then RomMismatch
      else if m_emulator_core_name local \<noteq> m_emulator_core_name publisher
        then CoreMismatch (m_emulator_core_name publisher)
      else if m_bios_checksum local \<noteq> m_bios_checksum publisher then BiosMismatch
      else Compatible)"

datatype cable_family = FamilyGameBoy | FamilyGameBoyAdvance

fun link_family :: "replay_console_type \<Rightarrow> cable_family option" where
  "link_family GameBoy = Some FamilyGameBoy"
| "link_family SuperGameBoy2 = Some FamilyGameBoy"
| "link_family GameBoyColor = Some FamilyGameBoy"
| "link_family GameBoyAdvance = Some FamilyGameBoyAdvance"
| "link_family UnknownConsole = None"
| "link_family NintendoDS = None"
| "link_family Nintendo3DS = None"

definition can_link :: "replay_console_type \<Rightarrow> replay_console_type \<Rightarrow> bool" where
  "can_link a b = (case (link_family a, link_family b) of
     (Some x, Some y) \<Rightarrow> x = y | _ \<Rightarrow> False)"

lemma can_link_sym: "can_link a b = can_link b a"
  by (auto simp: can_link_def split: option.splits)

lemma follow_compatible_iff:
  "follow_compatibility a b = Compatible \<longleftrightarrow>
     m_console_type a = m_console_type b \<and> m_rom_checksum a = m_rom_checksum b \<and>
     m_emulator_core_name a = m_emulator_core_name b \<and> m_bios_checksum a = m_bios_checksum b"
  by (simp add: follow_compatibility_def)

subsection \<open>Characters\<close>

type_synonym rchar = bytes

definition char_width :: "u8 \<Rightarrow> nat" where
  "char_width b = (if b < 0x80 then 1 else if b < 0xE0 then 2 else if b < 0xF0 then 3 else 4)"

function chars :: "rstring \<Rightarrow> rchar list" where
  "chars [] = []"
| "chars (b # s) = (b # take (char_width b - 1) s) # chars (drop (char_width b - 1) s)"
  by pat_completeness auto
termination by (relation "measure length") auto

definition is_control :: "rchar \<Rightarrow> bool" where
  "is_control c \<longleftrightarrow> (case c of
     [b] \<Rightarrow> b \<le> 0x1F \<or> b = 0x7F
   | [b, d] \<Rightarrow> b = 0xC2 \<and> d \<le> 0x9F
   | _ \<Rightarrow> False)"

definition is_whitespace :: "rchar \<Rightarrow> bool" where
  "is_whitespace c \<longleftrightarrow> (case c of
     [b] \<Rightarrow> 0x09 \<le> b \<and> b \<le> 0x0D \<or> b = 0x20
   | [b, d] \<Rightarrow> b = 0xC2 \<and> (d = 0x85 \<or> d = 0xA0)
   | [b, d, e] \<Rightarrow> b = 0xE1 \<and> d = 0x9A \<and> e = 0x80 \<or>
       b = 0xE2 \<and> d = 0x80 \<and> (0x80 \<le> e \<and> e \<le> 0x8A \<or> e = 0xA8 \<or> e = 0xA9 \<or> e = 0xAF) \<or>
       b = 0xE2 \<and> d = 0x81 \<and> e = 0x9F \<or>
       b = 0xE3 \<and> d = 0x80 \<and> e = 0x80
   | _ \<Rightarrow> False)"

definition trim_start :: "rchar list \<Rightarrow> rchar list" where
  "trim_start cs = dropWhile is_whitespace cs"

definition trim_end :: "rchar list \<Rightarrow> rchar list" where
  "trim_end cs = rev (dropWhile is_whitespace (rev cs))"

subsection \<open>Display names\<close>

text \<open>The loop that pushes characters while they fit in \<open>cap\<close> bytes.\<close>

fun clamp_chars :: "nat \<Rightarrow> nat \<Rightarrow> rchar list \<Rightarrow> rchar list" where
  "clamp_chars cap n [] = []"
| "clamp_chars cap n (c # cs) =
     (if cap < n + length c then [] else c # clamp_chars cap (n + length c) cs)"

definition PLAYER :: rstring where
  "PLAYER = [0x50, 0x6C, 0x61, 0x79, 0x65, 0x72]"

definition sanitize_display_name :: "rstring \<Rightarrow> rstring" where
  "sanitize_display_name requested =
     (let cleaned = trim_end (trim_start (filter (\<lambda>c. \<not> is_control c) (chars requested)));
          name = concat (trim_end (clamp_chars MAX_DISPLAY_NAME_BYTES 0 cleaned))
      in if name = [] then PLAYER else name)"

fun decimal :: "nat \<Rightarrow> rstring" where
  "decimal n = (if n < 10 then [of_nat (48 + n)] else decimal (n div 10) @ [of_nat (48 + n mod 10)])"

declare decimal.simps [simp del]

definition name_suffix :: "nat \<Rightarrow> rstring" where
  "name_suffix n = [0x20, 0x28] @ decimal n @ [0x29]"

definition name_candidate :: "rstring \<Rightarrow> nat \<Rightarrow> rstring" where
  "name_candidate base n =
     (let suff = name_suffix n; room = MAX_DISPLAY_NAME_BYTES - length suff;
          stem = clamp_chars room 0 (chars base)
      in concat (trim_end stem) @ suff)"

text \<open>The counter is a \<open>u32\<close>; running out of it is the unreachable end of the loop.\<close>

function first_free_name :: "rstring \<Rightarrow> rstring list \<Rightarrow> nat \<Rightarrow> rstring option" where
  "first_free_name base taken n =
     (if 2 ^ 32 \<le> n then None
      else if name_candidate base n \<notin> set taken then Some (name_candidate base n)
      else first_free_name base taken (n + 1))"
  by pat_completeness auto
termination by (relation "measure (\<lambda>(_, _, n). 2 ^ 32 - n)") auto

declare first_free_name.simps [simp del]

definition dedupe_display_name :: "rstring \<Rightarrow> rstring list \<Rightarrow> rstring option" where
  "dedupe_display_name requested taken =
     (let base = sanitize_display_name requested
      in if base \<notin> set taken then Some base else first_free_name base taken 2)"

subsection \<open>Strings and their characters\<close>

definition is_char :: "rchar \<Rightarrow> bool" where
  "is_char c \<longleftrightarrow> c \<noteq> [] \<and> length c = char_width (hd c)"

lemma char_width_pos: "0 < char_width b"
  by (simp add: char_width_def)

lemma chars_char:
  assumes "is_char c"
  shows "chars (c @ s) = c # chars s"
proof -
  from assms obtain b c' where c: "c = b # c'" "length c' = char_width b - 1"
    by (cases c) (auto simp: is_char_def)
  then show ?thesis by simp
qed

lemma chars_concat: "list_all is_char cs \<Longrightarrow> chars (concat cs) = cs"
  by (induction cs) (simp_all add: chars_char)

lemma concat_chars: "concat (chars s) = s"
  by (induction s rule: chars.induct) simp_all

text \<open>A valid string starts with one whole character, after which anything valid may stand.\<close>

lemma utf8_first:
  assumes "utf8_valid (b # s)"
  obtains c r where "b # s = c @ r" and "is_char c" and "hd c = b" and "utf8_valid r"
    and "\<And>t. utf8_valid (c @ t) = utf8_valid t"
proof -
  have width: "char_width b = 2" if "0xC2 \<le> b" "b \<le> 0xDF"
    using that by (auto simp: char_width_def word_less_nat_alt word_le_nat_alt)
  have width3: "char_width b = 3" if "0xE0 \<le> b" "b \<le> 0xEF"
    using that by (auto simp: char_width_def word_less_nat_alt word_le_nat_alt)
  have width4: "char_width b = 4" if "0xF0 \<le> b" "b \<le> 0xF4"
    using that by (auto simp: char_width_def word_less_nat_alt word_le_nat_alt)
  consider "b < 0x80" | "\<not> b < 0x80" "0xC2 \<le> b \<and> b \<le> 0xDF"
    | "\<not> b < 0x80" "\<not> (0xC2 \<le> b \<and> b \<le> 0xDF)" "0xE0 \<le> b \<and> b \<le> 0xEF"
    | "\<not> b < 0x80" "\<not> (0xC2 \<le> b \<and> b \<le> 0xDF)" "\<not> (0xE0 \<le> b \<and> b \<le> 0xEF)" "0xF0 \<le> b \<and> b \<le> 0xF4"
    using assms by (simp only: utf8_valid.simps split: if_splits) blast+
  then show thesis
  proof cases
    case 1
    with assms show thesis by (intro that [of "[b]" s]) (simp_all add: is_char_def char_width_def)
  next
    case 2
    with assms have "case s of b1 # r \<Rightarrow> utf8_cont b1 \<and> utf8_valid r | _ \<Rightarrow> False" by simp
    then obtain b1 r where "s = b1 # r" "utf8_cont b1" "utf8_valid r" by (cases s) auto
    with 2 show thesis by (intro that [of "[b, b1]" r]) (simp_all add: is_char_def width)
  next
    case 3
    define ok where "ok b1 b2 \<longleftrightarrow> utf8_cont b1 \<and> (b = 0xE0 \<longrightarrow> 0xA0 \<le> b1) \<and> (b = 0xED \<longrightarrow> b1 \<le> 0x9F) \<and> utf8_cont b2" for b1 b2
    have eq: "utf8_valid (b # b1 # b2 # t) \<longleftrightarrow> ok b1 b2 \<and> utf8_valid t" for b1 b2 t
      using 3 by (simp only: utf8_valid.simps if_False if_True list.case ok_def conj_assoc simp_thms)
    from assms 3 have "2 \<le> length s" by (cases s; cases "tl s") auto
    then obtain b1 b2 r where s: "s = b1 # b2 # r" by (cases s; cases "tl s") auto
    with assms eq have "ok b1 b2" "utf8_valid r" by simp_all
    with s 3 eq show thesis by (intro that [of "[b, b1, b2]" r]) (simp_all add: is_char_def width3 del: utf8_valid.simps)
  next
    case 4
    define ok where "ok b1 b2 b3 \<longleftrightarrow> utf8_cont b1 \<and> (b = 0xF0 \<longrightarrow> 0x90 \<le> b1) \<and> (b = 0xF4 \<longrightarrow> b1 \<le> 0x8F) \<and>
      utf8_cont b2 \<and> utf8_cont b3" for b1 b2 b3
    have eq: "utf8_valid (b # b1 # b2 # b3 # t) \<longleftrightarrow> ok b1 b2 b3 \<and> utf8_valid t" for b1 b2 b3 t
      using 4 by (simp only: utf8_valid.simps if_False if_True list.case ok_def conj_assoc simp_thms)
    from assms 4 have "3 \<le> length s" by (cases s; cases "tl s"; cases "tl (tl s)") auto
    then obtain b1 b2 b3 r where s: "s = b1 # b2 # b3 # r"
      by (cases s; cases "tl s"; cases "tl (tl s)") auto
    with assms eq have "ok b1 b2 b3" "utf8_valid r" by simp_all
    with s 4 eq show thesis by (intro that [of "[b, b1, b2, b3]" r]) (simp_all add: is_char_def width4 del: utf8_valid.simps)
  qed
qed

declare utf8_valid.simps(2) [simp del]

lemma utf8_valid_append: "utf8_valid a \<Longrightarrow> utf8_valid b \<Longrightarrow> utf8_valid (a @ b)"
proof (induction a rule: length_induct)
  case (1 a)
  show ?case
  proof (cases a)
    case Nil
    with 1 show ?thesis by simp
  next
    case (Cons x a')
    with 1(2) have "utf8_valid (x # a')" by simp
    then obtain c r where c: "x # a' = c @ r" "is_char c" "utf8_valid r"
      "\<And>t. utf8_valid (c @ t) = utf8_valid t" by (rule utf8_first) auto
    have "c \<noteq> []" using c(2) by (simp add: is_char_def)
    then have "length r < length a" unfolding Cons c(1) by simp
    with 1 c(3) have "utf8_valid (r @ b)" by blast
    with c(4) show ?thesis unfolding Cons c(1) by simp
  qed
qed

lemma utf8_valid_concat: "list_all utf8_valid cs \<Longrightarrow> utf8_valid (concat cs)"
  by (induction cs) (simp_all add: utf8_valid_append)

lemma chars_valid: "utf8_valid s \<Longrightarrow> list_all (\<lambda>c. is_char c \<and> utf8_valid c) (chars s)"
proof (induction s rule: length_induct)
  case (1 s)
  show ?case
  proof (cases s)
    case Nil
    then show ?thesis by simp
  next
    case (Cons x s')
    with 1(2) have "utf8_valid (x # s')" by simp
    then obtain c r where c: "x # s' = c @ r" "is_char c" "utf8_valid r" "utf8_valid c"
      by (rule utf8_first) (metis append_Nil2 utf8_valid.simps(1))
    then have s: "s = c @ r" using Cons by simp
    have "c \<noteq> []" using c(2) by (simp add: is_char_def)
    then have "length r < length s" by (simp add: s)
    with 1(1) c(3) have "list_all (\<lambda>c. is_char c \<and> utf8_valid c) (chars r)" by iprover
    then show ?thesis by (simp only: s chars_char [OF c(2)] list.pred_inject c simp_thms)
  qed
qed

subsection \<open>What a display name is\<close>

lemma trim_end_subset: "set (trim_end cs) \<subseteq> set cs"
  by (auto simp: trim_end_def dest: set_dropWhileD)

lemma trim_end_prefix: "prefix (trim_end cs) cs"
proof -
  have "suffix (dropWhile is_whitespace (rev cs)) (rev cs)" by (rule suffix_dropWhile)
  then show ?thesis by (simp add: trim_end_def suffix_to_prefix)
qed

lemma trim_end_last: "trim_end cs \<noteq> [] \<Longrightarrow> \<not> is_whitespace (last (trim_end cs))"
  unfolding trim_end_def using hd_dropWhile [of is_whitespace "rev cs"] by (simp add: last_rev)

lemma trim_end_id: "cs = [] \<or> \<not> is_whitespace (last cs) \<Longrightarrow> trim_end cs = cs"
  by (cases cs rule: rev_cases) (simp_all add: trim_end_def)

lemma clamp_prefix: "prefix (clamp_chars cap n cs) cs"
  by (induction cap n cs rule: clamp_chars.induct) auto

lemma clamp_fits: "n \<le> cap \<Longrightarrow> n + length (concat (clamp_chars cap n cs)) \<le> cap"
  by (induction cap n cs rule: clamp_chars.induct) fastforce+

lemma clamp_id: "n + length (concat cs) \<le> cap \<Longrightarrow> clamp_chars cap n cs = cs"
  by (induction cap n cs rule: clamp_chars.induct) auto

lemma prefix_concat_length: "prefix as bs \<Longrightarrow> length (concat as) \<le> length (concat bs)"
  by (auto simp: prefix_def)

text \<open>The characters of a cleaned name, as the user sees it.\<close>

definition clean_chars :: "rchar list \<Rightarrow> bool" where
  "clean_chars cs \<longleftrightarrow> cs \<noteq> [] \<and> list_all (\<lambda>c. is_char c \<and> utf8_valid c \<and> \<not> is_control c) cs \<and>
     \<not> is_whitespace (hd cs) \<and> \<not> is_whitespace (last cs) \<and>
     length (concat cs) \<le> MAX_DISPLAY_NAME_BYTES"

definition clean_name :: "rstring \<Rightarrow> bool" where
  "clean_name s \<longleftrightarrow> clean_chars (chars s)"

lemma clean_chars_name: "clean_chars cs \<Longrightarrow> clean_name (concat cs)"
  unfolding clean_name_def by (subst chars_concat) (auto simp: clean_chars_def list_all_iff)

lemma clean_name_valid:
  assumes "clean_name s"
  shows "utf8_valid s" and "length s \<le> MAX_DISPLAY_NAME_BYTES" and "s \<noteq> []"
proof -
  from assms have "list_all utf8_valid (chars s)" "length (concat (chars s)) \<le> MAX_DISPLAY_NAME_BYTES"
    "chars s \<noteq> []" by (auto simp: clean_name_def clean_chars_def list_all_iff)
  then show "utf8_valid s" "length s \<le> MAX_DISPLAY_NAME_BYTES" "s \<noteq> []"
    using utf8_valid_concat [of "chars s"] by (auto simp: concat_chars)
qed

lemma PLAYER_clean: "clean_name PLAYER"
  by (simp add: utf8_valid_ascii clean_name_def clean_chars_def PLAYER_def char_width_def is_char_def is_control_def
      is_whitespace_def MAX_DISPLAY_NAME_BYTES_def)

lemma sanitized_chars:
  assumes "list_all (\<lambda>c. is_char c \<and> utf8_valid c) cs"
    and "cleaned = trim_end (trim_start (filter (\<lambda>c. \<not> is_control c) cs))"
    and "kept = trim_end (clamp_chars MAX_DISPLAY_NAME_BYTES 0 cleaned)" and "kept \<noteq> []"
  shows "clean_chars kept"
proof -
  have kept: "prefix kept cleaned"
    unfolding assms(3) using trim_end_prefix clamp_prefix prefix_order.trans by blast
  have cleaned: "prefix cleaned (trim_start (filter (\<lambda>c. \<not> is_control c) cs))"
    unfolding assms(2) by (rule trim_end_prefix)
  have "set kept \<subseteq> set (filter (\<lambda>c. \<not> is_control c) cs)"
    using set_mono_prefix [OF kept] set_mono_prefix [OF cleaned]
      set_dropWhileD [of _ is_whitespace "filter (\<lambda>c. \<not> is_control c) cs"]
    unfolding trim_start_def by blast
  then have "list_all (\<lambda>c. is_char c \<and> utf8_valid c \<and> \<not> is_control c) kept"
    using assms(1) by (auto simp: list_all_iff)
  moreover have "hd kept = hd (trim_start (filter (\<lambda>c. \<not> is_control c) cs))"
    using kept cleaned assms(4) by (auto simp: prefix_def)
  moreover have "trim_start (filter (\<lambda>c. \<not> is_control c) cs) \<noteq> []"
    using kept cleaned assms(4) by (auto simp: prefix_def)
  then have "\<not> is_whitespace (hd (trim_start (filter (\<lambda>c. \<not> is_control c) cs)))"
    unfolding trim_start_def by (rule hd_dropWhile)
  moreover have "\<not> is_whitespace (last kept)" using assms(3,4) trim_end_last by blast
  moreover have "length (concat kept) \<le> MAX_DISPLAY_NAME_BYTES"
    using clamp_fits [of 0 MAX_DISPLAY_NAME_BYTES cleaned]
      prefix_concat_length [OF trim_end_prefix, of "clamp_chars MAX_DISPLAY_NAME_BYTES 0 cleaned"]
    by (simp add: assms(3))
  ultimately show ?thesis using assms(4) by (simp add: clean_chars_def)
qed

lemma sanitize_clean:
  assumes "utf8_valid s"
  shows "clean_name (sanitize_display_name s)"
proof -
  define kept where "kept = trim_end (clamp_chars MAX_DISPLAY_NAME_BYTES 0
    (trim_end (trim_start (filter (\<lambda>c. \<not> is_control c) (chars s)))))"
  have eq: "sanitize_display_name s = (if concat kept = [] then PLAYER else concat kept)"
    by (simp only: sanitize_display_name_def Let_def kept_def)
  show ?thesis
  proof (cases "concat kept = []")
    case True
    then show ?thesis by (simp add: eq PLAYER_clean del: concat_eq_Nil_conv)
  next
    case False
    then have "kept \<noteq> []" by auto
    from sanitized_chars [OF chars_valid [OF assms] refl kept_def this] have "clean_name (concat kept)"
      by (rule clean_chars_name)
    with False show ?thesis by (simp only: eq if_False)
  qed
qed

lemma sanitize_id:
  assumes "clean_name s"
  shows "sanitize_display_name s = s"
proof -
  from assms have c: "clean_chars (chars s)" by (simp add: clean_name_def)
  then have "filter (\<lambda>c. \<not> is_control c) (chars s) = chars s"
    by (auto simp: clean_chars_def list_all_iff filter_id_conv)
  moreover have "trim_start (chars s) = chars s"
    using c by (cases "chars s") (auto simp: clean_chars_def trim_start_def)
  moreover have "trim_end (chars s) = chars s"
    using c by (intro trim_end_id) (simp add: clean_chars_def)
  moreover have "clamp_chars MAX_DISPLAY_NAME_BYTES 0 (chars s) = chars s"
    using c by (intro clamp_id) (simp add: clean_chars_def)
  ultimately show ?thesis
    using clean_name_valid(3) [OF assms]
    by (simp only: sanitize_display_name_def Let_def concat_chars if_False)
qed

subsection \<open>The suffixes tell candidates apart\<close>

fun of_decimal :: "nat \<Rightarrow> rstring \<Rightarrow> nat" where
  "of_decimal n [] = n"
| "of_decimal n (d # ds) = of_decimal (10 * n + (unat d - 48)) ds"

lemma of_decimal_append: "of_decimal n (xs @ ys) = of_decimal (of_decimal n xs) ys"
  by (induction xs arbitrary: n) simp_all

lemma unat_digit: "k < 10 \<Longrightarrow> unat (of_nat (48 + k) :: u8) = 48 + k"
  by (simp only: unat_of_nat_u8) simp

lemma of_decimal_decimal: "of_decimal 0 (decimal n) = n"
proof (induction n rule: decimal.induct)
  case (1 n)
  show ?case
  proof (cases "n < 10")
    case True
    then show ?thesis by (simp add: decimal.simps [of n] unat_digit del: of_nat_add)
  next
    case False
    then have "decimal n = decimal (n div 10) @ [of_nat (48 + n mod 10)]" by (subst decimal.simps) simp
    with 1 False show ?thesis by (simp add: of_decimal_append unat_digit del: of_nat_add)
  qed
qed

lemma decimal_digits: "d \<in> set (decimal n) \<Longrightarrow> 48 \<le> unat d \<and> unat d \<le> 57"
proof (induction n rule: decimal.induct)
  case (1 n)
  show ?case
  proof (cases "n < 10")
    case True
    with 1 show ?thesis by (simp add: decimal.simps [of n] unat_digit del: of_nat_add)
  next
    case False
    then have "decimal n = decimal (n div 10) @ [of_nat (48 + n mod 10)]" by (subst decimal.simps) simp
    with 1 False unat_digit [of "n mod 10"] show ?thesis by (auto simp del: of_nat_add)
  qed
qed

lemma decimal_length: "n < 10 ^ k \<Longrightarrow> 0 < k \<Longrightarrow> length (decimal n) \<le> k"
proof (induction k arbitrary: n)
  case (Suc k)
  show ?case
  proof (cases "n < 10")
    case True
    then show ?thesis by (simp add: decimal.simps [of n])
  next
    case False
    then have "0 < k" using Suc.prems by (cases k) auto
    moreover have "n div 10 < 10 ^ k" using Suc.prems by simp
    ultimately have "length (decimal (n div 10)) \<le> k" using Suc.IH by blast
    with False show ?thesis by (subst decimal.simps) simp
  qed
qed simp

lemma takeWhile_neq_append: "y \<notin> set xs \<Longrightarrow> takeWhile (\<lambda>d. d \<noteq> y) (xs @ y # zs) = xs"
  by (induction xs) auto

lemma name_suffix_digits:
  "takeWhile (\<lambda>d. d \<noteq> 0x28) (rev (xs @ name_suffix k)) = 0x29 # rev (decimal k)"
proof -
  have "rev (xs @ name_suffix k) = (0x29 # rev (decimal k)) @ 0x28 # 0x20 # rev xs"
    by (simp add: name_suffix_def)
  moreover have "(0x28 :: u8) \<notin> set (0x29 # rev (decimal k))"
    by (auto dest!: decimal_digits)
  ultimately show ?thesis using takeWhile_neq_append by metis
qed

lemma name_candidate_inj:
  assumes "name_candidate base n = name_candidate base m"
  shows "n = m"
proof -
  have "\<exists>x. name_candidate base k = x @ name_suffix k" for k
    unfolding name_candidate_def Let_def by (rule exI, rule refl)
  then obtain x y where xy: "name_candidate base n = x @ name_suffix n" "name_candidate base m = y @ name_suffix m"
    by meson
  have "rev (decimal n) = rev (decimal m)"
    using name_suffix_digits [of x n] name_suffix_digits [of y m] assms unfolding xy by (metis list.inject)
  then show ?thesis using of_decimal_decimal [of n] of_decimal_decimal [of m] by (metis rev_rev_ident)
qed

text \<open>The search ends before the counter does whenever there are fewer names than counters.\<close>

lemma first_free_name_found:
  "n + card (set taken \<inter> name_candidate base ` {n ..< 2 ^ 32}) < 2 ^ 32 \<Longrightarrow>
   \<exists>k. n \<le> k \<and> k < 2 ^ 32 \<and> first_free_name base taken n = Some (name_candidate base k) \<and>
     name_candidate base k \<notin> set taken"
proof (induction base taken n rule: first_free_name.induct)
  case (1 base taken n)
  have n: "n < 2 ^ 32" using "1.prems" by linarith
  show ?case
  proof (cases "name_candidate base n \<in> set taken")
    case False
    with n show ?thesis by (subst first_free_name.simps) auto
  next
    case True
    let ?S = "\<lambda>i. set taken \<inter> name_candidate base ` {i ..< 2 ^ 32}"
    have set_n: "{n ..< 2 ^ 32} = insert n {n + 1 ..< (2 ^ 32 :: nat)}" using n by auto
    have "?S n = insert (name_candidate base n) (?S (n + 1))" using True unfolding set_n by auto
    moreover have "name_candidate base n \<notin> ?S (n + 1)" using name_candidate_inj by fastforce
    ultimately have "card (?S n) = Suc (card (?S (n + 1)))" by simp
    with "1.prems" have "n + 1 + card (?S (n + 1)) < 2 ^ 32" by linarith
    from "1.IH" [OF _ _ this] True n obtain k where "n + 1 \<le> k" "k < 2 ^ 32"
      "first_free_name base taken (n + 1) = Some (name_candidate base k)" "name_candidate base k \<notin> set taken"
      by auto
    with True n show ?thesis by (intro exI [of _ k]) (subst first_free_name.simps, simp)
  qed
qed

lemma name_candidate_clean:
  assumes "clean_name base" and "n < 2 ^ 32"
  shows "utf8_valid (name_candidate base n)" and "length (name_candidate base n) \<le> MAX_DISPLAY_NAME_BYTES"
proof -
  have dec: "\<forall>b \<in> set (name_suffix n). b < 0x80"
    using decimal_digits by (fastforce simp: name_suffix_def word_less_nat_alt)
  have len: "length (decimal n) \<le> 10" using assms(2) by (intro decimal_length) simp_all
  define room where "room = MAX_DISPLAY_NAME_BYTES - length (name_suffix n)"
  define stem where "stem = trim_end (clamp_chars room 0 (chars base))"
  have stem: "prefix stem (chars base)"
    unfolding stem_def using trim_end_prefix clamp_prefix prefix_order.trans by blast
  then have "set stem \<subseteq> set (chars base)" by (auto simp: prefix_def)
  then have "list_all utf8_valid stem"
    using assms(1) by (auto simp: clean_name_def clean_chars_def list_all_iff)
  then show "utf8_valid (name_candidate base n)"
    using utf8_valid_ascii [OF dec]
    by (simp add: name_candidate_def Let_def utf8_valid_append utf8_valid_concat stem_def room_def)
  have "length (concat stem) \<le> room"
    using clamp_fits [of 0 room "chars base"]
      prefix_concat_length [OF trim_end_prefix, of "clamp_chars room 0 (chars base)"] by (simp add: stem_def)
  then show "length (name_candidate base n) \<le> MAX_DISPLAY_NAME_BYTES"
    using len by (simp add: name_candidate_def Let_def stem_def room_def name_suffix_def
        MAX_DISPLAY_NAME_BYTES_def del: length_concat)
qed

lemma dedupe_found:
  assumes "utf8_valid requested" and "length taken < 2 ^ 32 - 2"
  shows "\<exists>s. dedupe_display_name requested taken = Some s \<and> s \<notin> set taken \<and> utf8_valid s \<and>
    length s \<le> MAX_DISPLAY_NAME_BYTES \<and> (sanitize_display_name requested \<notin> set taken \<longrightarrow> s = sanitize_display_name requested)"
proof -
  let ?base = "sanitize_display_name requested"
  have clean: "clean_name ?base" using assms(1) by (rule sanitize_clean)
  have "card (set taken \<inter> name_candidate ?base ` {2 ..< 2 ^ 32}) \<le> card (set taken)"
    by (rule card_mono) simp_all
  also have "\<dots> \<le> length taken" by (rule card_length)
  finally have "2 + card (set taken \<inter> name_candidate ?base ` {2 ..< 2 ^ 32}) < 2 ^ 32"
    using assms(2) by simp
  from first_free_name_found [OF this] obtain k where k: "k < 2 ^ 32"
    "first_free_name ?base taken 2 = Some (name_candidate ?base k)" "name_candidate ?base k \<notin> set taken"
    by blast
  with name_candidate_clean [OF clean k(1)] clean_name_valid [OF clean] show ?thesis
    by (simp add: dedupe_display_name_def Let_def)
qed

end
