(* ===== verification/Session.thy ===== *)
theory Session
  imports Follow Outbound Display_Names
begin

text \<open>
  What both roles of a Play Together session share, from
  \<open>supershuckie-play-together/src/session/mod.rs\<close> and \<open>error.rs\<close>: the events an application
  polls, the coalescer of snapshot requests, the link sinks, the ping bookkeeping of a connection
  (\<open>conn.rs\<close>), and what a link cable message addressed to us does.

  Explanations for people are values of \<open>session_text\<close>: the format string and its arguments. A
  text that goes on the wire is rendered by a function that the definitions take as an argument.
\<close>

subsection \<open>Reasons and texts\<close>

datatype session_text =
    DecodeText decode_error
  | SecondHello
  | HostOnlyMessage
  | ExpectedHello
  | ExpectedWelcome
  | HandshakeAfterWelcome
  | PauseWithoutSender
  | LinkWithoutSender
  | LinkForSomeoneElse
  | ReportedText rstring
  | HostReportedProtocolError
  | HostReportedConnectionError
  | RefusalText refusal_reason
  | VersionText u32
  | SessionFullText nat
  | StartStateText follow_compatibility
  | BrokeProtocol nat session_text
  | PeerReported peer_id rstring
  | LostStream peer_id u64 u64
  | LinkUnreadable decode_error

datatype phase = PhaseConnect | PhaseHandshake | PhaseIdle

datatype disconnect_reason =
    DR_Left
  | DR_HostLeft
  | DR_Kicked
  | DR_Timeout phase
  | DR_TooSlow u64
  | DR_ProtocolError session_text
  | DR_IoError
  | DR_Refused refusal_reason rstring
  | DR_ConnectFailed

datatype session_error =
    SessNotHost
  | SessNotConnected
  | SessNoSuchPeer peer_id
  | SessDisconnected disconnect_reason

datatype publish_error = PubNotConnected | PubDisconnected disconnect_reason | PubQueueFull u64

fun leave_reason_for :: "disconnect_reason \<Rightarrow> leave_reason" where
  "leave_reason_for DR_Left = LR_Left"
| "leave_reason_for DR_HostLeft = LR_HostLeft"
| "leave_reason_for DR_Kicked = LR_Kicked"
| "leave_reason_for (DR_Timeout _) = LR_Timeout"
| "leave_reason_for (DR_TooSlow _) = LR_TooSlow"
| "leave_reason_for (DR_ProtocolError _) = LR_ProtocolError"
| "leave_reason_for DR_IoError = LR_IoError"
| "leave_reason_for (DR_Refused _ _) = LR_Left"
| "leave_reason_for DR_ConnectFailed = LR_Left"

subsection \<open>Events\<close>

datatype link_event =
    LE_Requested peer_id u32 u32
  | LE_Accepted peer_id u32
  | LE_Declined peer_id u32 link_decline_reason
  | LE_Started peer_id u32 u64 bytes u32 u8 speed
  | LE_Unlinked peer_id unlink_reason
  | LE_PeerLinked peer_id peer_id
  | LE_PeerUnlinked peer_id peer_id

datatype session_event =
    SE_Connected session_id peer_id rstring player_color "participant_info list"
  | SE_Joined participant_info
  | SE_Left peer_id leave_reason
  | SE_SnapshotRequested "peer_id list"
  | SE_ResetAll u32 nat
  | SE_SyncPauseChanged bool bool bool
  | SE_LinkSpeedChanged speed
  | SE_PauseChanged peer_id bool
  | SE_StartStateChanged "start_state_data option"
  | SE_RttUpdated peer_id nat
  | SE_Link link_event
  | SE_Warning session_text
  | SE_Disconnected disconnect_reason

subsection \<open>The coalescer\<close>

record coalescer =
  co_pending :: "peer_id list"
  co_last_emit :: "nat option"

definition coalescer_new :: coalescer where
  "coalescer_new = \<lparr>co_pending = [], co_last_emit = None\<rparr>"

definition co_request :: "peer_id \<Rightarrow> coalescer \<Rightarrow> coalescer" where
  "co_request requester c =
     (if requester \<noteq> 0 \<and> requester \<notin> set (co_pending c)
      then c\<lparr>co_pending := co_pending c @ [requester]\<rparr> else c)"

definition co_flush :: "nat \<Rightarrow> coalescer \<Rightarrow> coalescer \<times> peer_id list option" where
  "co_flush now c =
     (if co_pending c = [] then (c, None)
      else if (case co_last_emit c of Some t \<Rightarrow> now - t < SNAPSHOT_REQUEST_INTERVAL | None \<Rightarrow> False)
      then (c, None)
      else (c\<lparr>co_last_emit := Some now, co_pending := []\<rparr>, Some (co_pending c)))"

definition co_forget :: "peer_id \<Rightarrow> coalescer \<Rightarrow> coalescer" where
  "co_forget peer c = c\<lparr>co_pending := filter (\<lambda>p. p \<noteq> peer) (co_pending c)\<rparr>"

datatype co_op = CoRequest peer_id | CoFlush nat | CoForget peer_id

text \<open>The outputs of a history: when the requesters were announced, and who.\<close>

fun co_step :: "co_op \<Rightarrow> coalescer \<Rightarrow> coalescer \<times> (nat \<times> peer_id list) list" where
  "co_step (CoRequest p) c = (co_request p c, [])"
| "co_step (CoFlush now) c = (let (c', r) = co_flush now c
     in (c', case r of None \<Rightarrow> [] | Some ps \<Rightarrow> [(now, ps)]))"
| "co_step (CoForget p) c = (co_forget p c, [])"

text \<open>
  An announcement names real peers, each once, and is never empty; two announcements in a row
  are at least the interval apart.
\<close>

definition co_peers_ok :: "peer_id list \<Rightarrow> bool" where
  "co_peers_ok ps \<longleftrightarrow> distinct ps \<and> 0 \<notin> set ps"

definition co_inv :: "coalescer \<Rightarrow> (nat \<times> peer_id list) list \<Rightarrow> bool" where
  "co_inv c log \<longleftrightarrow> co_peers_ok (co_pending c) \<and>
     list_all (\<lambda>(_, ps). co_peers_ok ps \<and> ps \<noteq> []) log \<and>
     successively (\<lambda>a b. SNAPSHOT_REQUEST_INTERVAL \<le> fst b - fst a) log \<and>
     co_last_emit c = (if log = [] then None else Some (fst (last log)))"

lemma co_step_keeps: "co_inv c log \<Longrightarrow> co_step a c = (c', out) \<Longrightarrow> co_inv c' (log @ out)"
proof (cases a)
  case (CoFlush now)
  assume "co_inv c log" "co_step a c = (c', out)"
  with CoFlush show ?thesis
    by (auto simp: co_flush_def co_inv_def co_peers_ok_def successively_append_iff split: if_splits)
qed (auto simp: co_inv_def co_peers_ok_def co_request_def co_forget_def split: if_splits)

interpretation coalescer: total_history co_step co_inv
  by unfold_locales (rule co_step_keeps)

lemma coalescer_new_inv: "co_inv coalescer_new []"
  by (simp add: co_inv_def coalescer_new_def co_peers_ok_def)

subsection \<open>Link sinks\<close>

datatype link_call =
    LinkInstalled
  | LinkDropped
  | LinkEvents u64 u64 "packet list" "(u64 \<times> bytes) option"
  | LinkEnded leave_reason

type_synonym link_sinks = "peer_id list"
type_synonym link_calls = "(peer_id \<times> link_call) list"

text \<open>The partners with a sink, each once; a hash map in the code.\<close>

definition sinks_set :: "peer_id \<Rightarrow> bool \<Rightarrow> link_sinks \<Rightarrow> link_sinks \<times> link_calls" where
  "sinks_set peer installed sinks =
     (if installed then (List.insert peer sinks, [(peer, LinkInstalled)])
      else (removeAll peer sinks, if peer \<in> set sinks then [(peer, LinkDropped)] else []))"

definition sinks_deliver ::
    "peer_id \<Rightarrow> u64 \<Rightarrow> u64 \<Rightarrow> packet list \<Rightarrow> (u64 \<times> bytes) option \<Rightarrow> link_sinks \<Rightarrow> link_calls \<times> bool" where
  "sinks_deliver peer frame_no elapsed_millis events pair_hash sinks =
     (if peer \<in> set sinks then ([(peer, LinkEvents frame_no elapsed_millis events pair_hash)], True)
      else ([], False))"

definition sinks_end :: "peer_id \<Rightarrow> leave_reason \<Rightarrow> link_sinks \<Rightarrow> link_sinks \<times> link_calls" where
  "sinks_end peer reason sinks =
     (removeAll peer sinks, if peer \<in> set sinks then [(peer, LinkEnded reason)] else [])"

definition sinks_end_all :: "leave_reason \<Rightarrow> link_sinks \<Rightarrow> link_sinks \<times> link_calls" where
  "sinks_end_all reason sinks = ([], map (\<lambda>p. (p, LinkEnded reason)) sinks)"

text \<open>
  \<open>receive_link\<close>: the sinks left, the events raised, the calls made, whether a frame was
  delivered (it is counted), or the error of undecodable events.
\<close>

record link_effect =
  le_sinks :: link_sinks
  le_events :: "session_event list"
  le_calls :: link_calls
  le_frame :: bool

fun receive_link :: "message \<Rightarrow> link_sinks \<Rightarrow> decode_error + link_effect" where
  "receive_link (LinkRequest from _ nonce console) s =
     Inr \<lparr>le_sinks = s, le_events = [SE_Link (LE_Requested from nonce console)], le_calls = [], le_frame = False\<rparr>"
| "receive_link (LinkAccept from _ nonce) s =
     Inr \<lparr>le_sinks = s, le_events = [SE_Link (LE_Accepted from nonce)], le_calls = [], le_frame = False\<rparr>"
| "receive_link (LinkDecline from _ nonce reason) s =
     Inr \<lparr>le_sinks = s, le_events = [SE_Link (LE_Declined from nonce reason)], le_calls = [], le_frame = False\<rparr>"
| "receive_link (LinkStart from _ nonce frame_no inp rtt_millis delay_setting sp) s =
     Inr \<lparr>le_sinks = s,
          le_events = [SE_Link (LE_Started from nonce frame_no inp rtt_millis delay_setting sp)],
          le_calls = [], le_frame = False\<rparr>"
| "receive_link (LinkFrame from _ frame_no elapsed_millis bs pair_hash_frame pair_hash) s =
     and_then (decode_link_events bs) (\<lambda>decoded.
       let (calls, delivered) =
         sinks_deliver from frame_no elapsed_millis decoded (pair_hash_option pair_hash_frame pair_hash) s
       in Inr \<lparr>le_sinks = s, le_events = [], le_calls = calls, le_frame = delivered\<rparr>)"
| "receive_link (Unlink from _ reason) s =
     (let (s', calls) = sinks_end from LR_Left s
      in Inr \<lparr>le_sinks = s', le_events = [SE_Link (LE_Unlinked from reason)], le_calls = calls, le_frame = False\<rparr>)"
| "receive_link (PeerLinked a b) s =
     Inr \<lparr>le_sinks = s, le_events = [SE_Link (LE_PeerLinked a b)], le_calls = [], le_frame = False\<rparr>"
| "receive_link (PeerUnlinked a b) s =
     Inr \<lparr>le_sinks = s, le_events = [SE_Link (LE_PeerUnlinked a b)], le_calls = [], le_frame = False\<rparr>"
| "receive_link _ s = Inr \<lparr>le_sinks = s, le_events = [], le_calls = [], le_frame = False\<rparr>"

subsection \<open>Pings\<close>

record ping_state =
  pg_nonce :: u32
  pg_pending :: "(u32 \<times> nat) option"
  pg_last_rtt :: "nat option"

definition ping_new :: ping_state where
  "ping_new = \<lparr>pg_nonce = 1, pg_pending = None, pg_last_rtt = None\<rparr>"

definition make_ping :: "nat \<Rightarrow> u64 \<Rightarrow> ping_state \<Rightarrow> ping_state \<times> message" where
  "make_ping now unix_millis p =
     (p\<lparr>pg_nonce := pg_nonce p + 1, pg_pending := Some (pg_nonce p, now)\<rparr>, Ping (pg_nonce p) unix_millis)"

definition on_pong :: "u32 \<Rightarrow> nat \<Rightarrow> ping_state \<Rightarrow> ping_state \<times> nat option" where
  "on_pong nonce now p = (case pg_pending p of
     Some (expected, sent) \<Rightarrow>
       (if expected = nonce
        then (p\<lparr>pg_pending := None, pg_last_rtt := Some (now - sent)\<rparr>, Some (now - sent))
        else (p, None))
   | None \<Rightarrow> (p, None))"

text \<open>Only the answer to the last ping counts, once.\<close>

lemma on_pong_once: "on_pong n t p = (p', Some rtt) \<Longrightarrow> on_pong m u p' = (p', None)"
  by (auto simp: on_pong_def split: option.splits if_splits)

lemma on_pong_stale: "make_ping t u p = (p', Ping k v) \<Longrightarrow> n \<noteq> k \<Longrightarrow> on_pong n now p' = (p', None)"
  by (auto simp: on_pong_def make_ping_def)

end
