(* ===== verification/Host.thy ===== *)
theory Host
  imports Session Color
begin

text \<open>
  The host of a session, \<open>supershuckie-play-together/src/session/host.rs\<close>: its state, the
  machinery that queues, broadcasts and closes, and the link cable roster. Handlers of messages
  and the application's calls are in \<open>Host_Handlers\<close>.

  A connection is shared by its reader, its writer and the session; it is a cell of \<open>h_conn\<close>,
  named by its number, and \<open>h_conns\<close> lists the numbers the session still holds. Handlers run one
  at a time here; see the root theory for what that leaves out. Closing one connection can fill
  the queue of another and close that one, so \<open>close_connection\<close>, \<open>broadcast\<close> and
  \<open>deliver_link\<close> call each other: the others take the closer as an argument and
  \<open>close_connection\<close> ties the knot with as much fuel as there are connections, which
  \<open>Host_Invariants\<close> shows to be enough.
\<close>

subsection \<open>State\<close>

definition HOST_PEER_ID :: peer_id where
  "HOST_PEER_ID = 1"

record host_conn =
  hc_peer_id :: peer_id
  hc_info :: "participant_info option"
  hc_queue :: out_queue
  hc_closing :: bool
  hc_writer_done :: bool
  hc_shut_down :: bool
  hc_ping :: ping_state
  hc_deadline :: nat

record sync_pause_state =
  sp_enabled :: bool
  sp_paused :: bool
  sp_host_only :: bool

record session_stats =
  ss_bytes_in :: u64
  ss_messages_in :: u64
  ss_unknown_skipped :: u64
  ss_link_frames_received :: u64

record host =
  h_max_participants :: nat
  h_allow_nds :: bool
  h_handshake_timeout :: nat
  h_local :: participant_info
  h_session_id :: session_id
  h_running :: bool
  h_left :: bool
  h_conn :: "nat \<Rightarrow> host_conn"
  h_conns :: "nat list"
  h_next_peer_id :: peer_id
  h_follows :: "peer_id \<Rightarrow> follow_slot option"
  h_links :: "(peer_id \<times> peer_id) list"
  h_link_requests :: "(peer_id \<times> peer_id \<times> u32) list"
  h_events :: "session_event list"
  h_stats :: session_stats
  h_coalescer :: coalescer
  h_race_counter :: u32
  h_conn_counter :: nat
  h_sync_pause :: sync_pause_state
  h_link_speed :: speed
  h_start_state :: "start_state_data option"
  h_link_sinks :: link_sinks
  h_follow_calls :: "(peer_id \<times> follow_call) list"  \<comment> \<open>calls made on sinks so far\<close>
  h_link_calls :: link_calls

text \<open>What the surroundings provide: the compression library, rendered texts, the clock.\<close>

record session_env =
  e_zstd :: zstd_lib
  e_render :: "session_text \<Rightarrow> rstring"
  e_now :: nat

subsection \<open>One connection\<close>

definition conn_new :: "nat \<Rightarrow> host_conn" where
  "conn_new deadline = \<lparr>hc_peer_id = 0, hc_info = None, hc_queue = queue_new, hc_closing = False,
     hc_writer_done = False, hc_shut_down = False, hc_ping = ping_new, hc_deadline = deadline\<rparr>"

definition hc_admitted :: "host_conn \<Rightarrow> bool" where
  "hc_admitted c = (hc_peer_id c \<noteq> 0)"

text \<open>\<open>ConnShared::begin_close\<close>, for a connection whose closing has not begun.\<close>

definition begin_close :: "bool \<Rightarrow> host_conn \<Rightarrow> host_conn" where
  "begin_close do_flush c = c\<lparr>hc_closing := True, hc_queue := queue_close (\<not> do_flush) (hc_queue c),
     hc_shut_down := hc_shut_down c \<or> hc_writer_done c\<rparr>"

definition on_conn :: "nat \<Rightarrow> (host_conn \<Rightarrow> host_conn) \<Rightarrow> host \<Rightarrow> host" where
  "on_conn n f h = h\<lparr>h_conn := (h_conn h)(n := f (h_conn h n))\<rparr>"

definition peer_of :: "host \<Rightarrow> nat \<Rightarrow> peer_id" where
  "peer_of h n = hc_peer_id (h_conn h n)"

definition queue_of :: "host \<Rightarrow> nat \<Rightarrow> out_queue" where
  "queue_of h n = hc_queue (h_conn h n)"

definition push_event :: "session_event \<Rightarrow> host \<Rightarrow> host" where
  "push_event ev h = h\<lparr>h_events := h_events h @ [ev]\<rparr>"

definition admitted_conns :: "host \<Rightarrow> nat list" where
  "admitted_conns h = filter (\<lambda>n. peer_of h n \<noteq> 0) (h_conns h)"

definition conn_for :: "host \<Rightarrow> peer_id \<Rightarrow> nat option" where
  "conn_for h peer = (if peer = 0 then None else List.find (\<lambda>n. peer_of h n = peer) (h_conns h))"

definition participants :: "host \<Rightarrow> participant_info list" where
  "participants h = List.map_filter (\<lambda>n. hc_info (h_conn h n)) (h_conns h)"

text \<open>Queue an item, an urgent message, or (as \<open>send\<close>) a message whose fate is ignored.\<close>

definition try_push_to :: "nat \<Rightarrow> outbound \<Rightarrow> host \<Rightarrow> host \<times> (push_error + unit)" where
  "try_push_to n item h = (let (q, r) = try_push item (queue_of h n)
     in (on_conn n (\<lambda>c. c\<lparr>hc_queue := q\<rparr>) h, r))"

definition try_urgent_to :: "nat \<Rightarrow> bytes \<Rightarrow> host \<Rightarrow> host \<times> (push_error + unit)" where
  "try_urgent_to n raw h = (let (q, r) = try_push_urgent raw (queue_of h n)
     in (on_conn n (\<lambda>c. c\<lparr>hc_queue := q\<rparr>) h, r))"

definition send_to :: "nat \<Rightarrow> message \<Rightarrow> host \<Rightarrow> host" where
  "send_to n m h = fst (try_push_to n (OEncoded (encoded m)) h)"

subsection \<open>Queueing, and closing what cannot keep up\<close>

type_synonym closer = "nat \<Rightarrow> leave_reason \<Rightarrow> bool \<Rightarrow> host \<Rightarrow> host"

definition push_to :: "closer \<Rightarrow> nat \<Rightarrow> outbound \<Rightarrow> host \<Rightarrow> host" where
  "push_to cl n item h = (case try_push_to n item h of
     (h', Inl (Full _)) \<Rightarrow> cl n LR_TooSlow False h'
   | (h', _) \<Rightarrow> h')"

definition push_all :: "closer \<Rightarrow> peer_id \<Rightarrow> outbound \<Rightarrow> host \<Rightarrow> host" where
  "push_all cl except item h =
     fold (\<lambda>n h. if peer_of h n \<noteq> except then push_to cl n item h else h) (admitted_conns h) h"

definition broadcast :: "closer \<Rightarrow> message \<Rightarrow> peer_id \<Rightarrow> host \<Rightarrow> host" where
  "broadcast cl m except h = push_all cl except (OEncoded (encoded m)) h"

definition host_receive_link :: "message \<Rightarrow> host \<Rightarrow> host \<times> decode_error option" where
  "host_receive_link m h = (case receive_link m (h_link_sinks h) of
     Inl e \<Rightarrow> (h, Some e)
   | Inr f \<Rightarrow> (h\<lparr>h_link_sinks := le_sinks f, h_events := h_events h @ le_events f,
         h_link_calls := h_link_calls h @ le_calls f,
         h_stats := (h_stats h)\<lparr>ss_link_frames_received :=
           ss_link_frames_received (h_stats h) + (if le_frame f then 1 else 0)\<rparr>\<rparr>, None))"

definition deliver_link :: "closer \<Rightarrow> peer_id \<Rightarrow> message \<Rightarrow> bytes \<Rightarrow> host \<Rightarrow> host" where
  "deliver_link cl target m raw h =
     (if target = HOST_PEER_ID then
        (case host_receive_link m h of
           (h', Some e) \<Rightarrow> push_event (SE_Warning (LinkUnreadable e)) h'
         | (h', None) \<Rightarrow> h')
      else (case conn_for h target of
          None \<Rightarrow> h
        | Some n \<Rightarrow> (case try_urgent_to n raw h of
             (h', Inl (Full _)) \<Rightarrow> cl n LR_TooSlow False h'
           | (h', _) \<Rightarrow> h')))"

definition announce_link :: "closer \<Rightarrow> peer_id \<Rightarrow> peer_id \<Rightarrow> bool \<Rightarrow> host \<Rightarrow> host" where
  "announce_link cl a b linked h =
     (let (a, b) = (min a b, max a b);
          m = (if linked then PeerLinked a b else PeerUnlinked a b)
      in fst (host_receive_link m (broadcast cl m 0 h)))"

definition link_partners :: "peer_id \<Rightarrow> (peer_id \<times> peer_id) list \<Rightarrow> peer_id list" where
  "link_partners peer links = List.map_filter
     (\<lambda>(a, b). if a = peer then Some b else if b = peer then Some a else None) links"

text \<open>The part of \<open>unlink_departed\<close> done under the lock.\<close>

definition purge_roster :: "peer_id \<Rightarrow> host \<Rightarrow> host" where
  "purge_roster peer h = h\<lparr>
     h_link_requests := filter (\<lambda>(r, t, _). r \<noteq> peer \<and> t \<noteq> peer) (h_link_requests h),
     h_links := filter (\<lambda>(a, b). a \<noteq> peer \<and> b \<noteq> peer) (h_links h)\<rparr>"

definition unlink_departed :: "closer \<Rightarrow> peer_id \<Rightarrow> host \<Rightarrow> host" where
  "unlink_departed cl peer h =
     fold (\<lambda>partner h. let m = Unlink peer partner UR_PeerLeft in
         announce_link cl peer partner False (deliver_link cl partner m (encoded m) h))
       (link_partners peer (h_links h)) (purge_roster peer h)"

definition end_link_sink :: "peer_id \<Rightarrow> leave_reason \<Rightarrow> host \<Rightarrow> host" where
  "end_link_sink peer reason h = (let (sinks, calls) = sinks_end peer reason (h_link_sinks h)
     in h\<lparr>h_link_sinks := sinks, h_link_calls := h_link_calls h @ calls\<rparr>)"

text \<open>The slot was taken out of the map before; its sink hears of the end.\<close>

definition log_slot_end :: "peer_id \<Rightarrow> leave_reason \<Rightarrow> follow_slot option \<Rightarrow> host \<Rightarrow> host" where
  "log_slot_end peer reason slot h = (case slot of
     None \<Rightarrow> h
   | Some s \<Rightarrow> h\<lparr>h_follow_calls := h_follow_calls h @ map (Pair peer) (snd (end_slot reason s))\<rparr>)"

definition drop_conn :: "nat \<Rightarrow> bool \<Rightarrow> host \<Rightarrow> host" where
  "drop_conn n do_flush h = (let h = on_conn n (begin_close do_flush) h; peer = peer_of h n
     in h\<lparr>h_conns := filter (\<lambda>m. m \<noteq> n) (h_conns h),
          h_follows := (if peer \<noteq> 0 then (h_follows h)(peer := None) else h_follows h)\<rparr>)"

text \<open>One closing, given how to close what it makes overflow.\<close>

definition close_body :: "closer \<Rightarrow> closer" where
  "close_body cl n reason do_flush h =
     (if hc_closing (h_conn h n) then h
      else let peer = peer_of h n; slot = (if peer \<noteq> 0 then h_follows h peer else None);
               h = drop_conn n do_flush h
           in if peer = 0 then h
              else let h = h\<lparr>h_coalescer := co_forget peer (h_coalescer h)\<rparr>;
                       h = push_event (SE_Left peer reason) h;
                       h = (if h_running h
                            then broadcast cl (PeerLeft peer reason) peer (unlink_departed cl peer h)
                            else h)
                   in log_slot_end peer reason slot (end_link_sink peer reason h))"

primrec close_fuel :: "nat \<Rightarrow> closer" where
  "close_fuel 0 n reason do_flush h = h"
| "close_fuel (Suc k) n reason do_flush h = close_body (close_fuel k) n reason do_flush h"

definition close_connection :: closer where
  "close_connection n reason do_flush h = close_fuel (Suc (length (h_conns h))) n reason do_flush h"

subsection \<open>Errors and refusals\<close>

definition protocol_error :: "session_env \<Rightarrow> nat \<Rightarrow> session_text \<Rightarrow> host \<Rightarrow> host" where
  "protocol_error e n text h =
     close_connection n LR_ProtocolError True
       (send_to n (ErrorText (e_render e text)) (push_event (SE_Warning (BrokeProtocol n text)) h))"

definition refuse :: "session_env \<Rightarrow> nat \<Rightarrow> refusal_reason \<Rightarrow> session_text \<Rightarrow> host \<Rightarrow> host" where
  "refuse e n reason text h = close_connection n LR_Left True (send_to n (Refused reason (e_render e text)) h)"

subsection \<open>The link cable roster\<close>

definition console_of :: "host \<Rightarrow> peer_id \<Rightarrow> replay_console_type option" where
  "console_of h peer =
     (if peer = HOST_PEER_ID then Some (m_console_type (pi_metadata (pa_publisher (h_local h))))
      else case conn_for h peer of
        None \<Rightarrow> None
      | Some n \<Rightarrow> map_option (\<lambda>p. m_console_type (pi_metadata (pa_publisher p))) (hc_info (h_conn h n)))"

definition is_linked :: "(peer_id \<times> peer_id) list \<Rightarrow> peer_id \<Rightarrow> bool" where
  "is_linked links peer = list_ex (\<lambda>(a, b). a = peer \<or> b = peer) links"

definition are_linked :: "(peer_id \<times> peer_id) list \<Rightarrow> peer_id \<Rightarrow> peer_id \<Rightarrow> bool" where
  "are_linked links a b = list_ex (\<lambda>(x, y). (x = a \<and> y = b) \<or> (x = b \<and> y = a)) links"

definition route_request ::
    "peer_id \<Rightarrow> peer_id \<Rightarrow> u32 \<Rightarrow> message \<Rightarrow> bytes \<Rightarrow> host \<Rightarrow> host" where
  "route_request from target nonce m raw h =
     (let decline = (\<lambda>reason. let answer = LinkDecline target from nonce reason
            in deliver_link close_connection from answer (encoded answer) h)
      in case console_of h target of
          None \<Rightarrow> decline LD_Unavailable
        | Some their_console \<Rightarrow>
            let our_console = unwrap_or (console_of h from) UnknownConsole
            in if is_linked (h_links h) from \<or> is_linked (h_links h) target then decline LD_Busy
               else if \<not> can_link our_console their_console then decline LD_ConsoleMismatch
               else deliver_link close_connection target m raw (h\<lparr>h_link_requests :=
                 filter (\<lambda>(r, _, _). r \<noteq> from) (h_link_requests h) @ [(from, target, nonce)]\<rparr>))"

definition route_accept ::
    "peer_id \<Rightarrow> peer_id \<Rightarrow> u32 \<Rightarrow> message \<Rightarrow> bytes \<Rightarrow> host \<Rightarrow> host" where
  "route_accept from target nonce m raw h =
     (if (target, from, nonce) \<notin> set (h_link_requests h) then h
      else let h = h\<lparr>h_link_requests := remove1 (target, from, nonce) (h_link_requests h)\<rparr>
           in if is_linked (h_links h) from \<or> is_linked (h_links h) target
              then let answer = Unlink target from UR_Busy
                   in deliver_link close_connection from answer (encoded answer) h
              else announce_link close_connection target from True
                     (deliver_link close_connection target m raw
                        (h\<lparr>h_links := h_links h @ [(target, from)]\<rparr>)))"

definition route_decline ::
    "peer_id \<Rightarrow> peer_id \<Rightarrow> u32 \<Rightarrow> message \<Rightarrow> bytes \<Rightarrow> host \<Rightarrow> host" where
  "route_decline from target nonce m raw h =
     (if (target, from, nonce) \<notin> set (h_link_requests h) then h
      else deliver_link close_connection target m raw
             (h\<lparr>h_link_requests := remove1 (target, from, nonce) (h_link_requests h)\<rparr>))"

definition route_unlink :: "peer_id \<Rightarrow> peer_id \<Rightarrow> message \<Rightarrow> bytes \<Rightarrow> host \<Rightarrow> host" where
  "route_unlink from target m raw h =
     (let was_linked = are_linked (h_links h) from target;
          h = h\<lparr>h_link_requests := filter (\<lambda>(r, t, _).
                  \<not> ((r = from \<and> t = target) \<or> (r = target \<and> t = from))) (h_link_requests h),
                h_links := filter (\<lambda>(a, b).
                  \<not> ((a = from \<and> b = target) \<or> (a = target \<and> b = from))) (h_links h)\<rparr>
      in if \<not> was_linked then h
         else announce_link close_connection from target False (deliver_link close_connection target m raw h))"

text \<open>Whether a link exists is all that start and frame messages ask.\<close>

definition route_data :: "peer_id \<Rightarrow> peer_id \<Rightarrow> message \<Rightarrow> bytes \<Rightarrow> host \<Rightarrow> host" where
  "route_data from target m raw h =
     (if \<not> are_linked (h_links h) from target then h else deliver_link close_connection target m raw h)"

definition route_link :: "peer_id \<Rightarrow> message \<Rightarrow> bytes \<Rightarrow> host \<Rightarrow> host" where
  "route_link from m raw h = (case link_endpoints m of
     None \<Rightarrow> h
   | Some (_, target) \<Rightarrow>
       (if target = from then h
        else case m of
          LinkRequest _ _ nonce _ \<Rightarrow> route_request from target nonce m raw h
        | LinkAccept _ _ nonce \<Rightarrow> route_accept from target nonce m raw h
        | LinkDecline _ _ nonce _ \<Rightarrow> route_decline from target nonce m raw h
        | LinkStart _ _ _ _ _ _ _ _ \<Rightarrow> route_data from target m raw h
        | LinkFrame _ _ _ _ _ _ _ \<Rightarrow> route_data from target m raw h
        | Unlink _ _ _ \<Rightarrow> route_unlink from target m raw h
        | _ \<Rightarrow> h))"

end
