(* ===== verification/Host_Closing.thy ===== *)
theory Host_Closing
  imports Host
begin

text \<open>
  Closing connections, once and for all. What queueing, delivering, announcing and closing do to
  the host is a sequence of a few primitive steps; a set of host states closed under those is
  closed under all of them (\<open>host_closed\<close>). The first use is termination: the fuel of
  \<open>close_connection\<close> is enough, because every nested closing closes another connection.
\<close>

subsection \<open>The primitive steps\<close>

text \<open>A departure up to the first message it sends.\<close>

definition departed_conn :: "nat \<Rightarrow> leave_reason \<Rightarrow> bool \<Rightarrow> host \<Rightarrow> host" where
  "departed_conn n reason do_flush h =
     (let peer = peer_of h n; h = drop_conn n do_flush h
      in if peer = 0 then h
         else let h = push_event (SE_Left peer reason) (h\<lparr>h_coalescer := co_forget peer (h_coalescer h)\<rparr>)
              in if h_running h then purge_roster peer h else h)"

text \<open>The rest of \<open>unlink_departed\<close>.\<close>

definition notify_partners :: "closer \<Rightarrow> peer_id \<Rightarrow> peer_id list \<Rightarrow> host \<Rightarrow> host" where
  "notify_partners cl peer partners h =
     fold (\<lambda>partner h. let m = Unlink peer partner UR_PeerLeft in
         announce_link cl peer partner False (deliver_link cl partner m (encoded m) h)) partners h"

lemma peer_of_simps [simp]:
  "peer_of (push_event ev h) n = peer_of h n"
  "peer_of (purge_roster p h) n = peer_of h n"
  "peer_of (drop_conn m fl h) n = peer_of h n"
  "peer_of (h\<lparr>h_coalescer := c\<rparr>) n = peer_of h n"
  by (simp_all add: peer_of_def push_event_def purge_roster_def drop_conn_def on_conn_def
      begin_close_def Let_def)

lemma drop_conn_simps [simp]:
  "h_links (drop_conn n fl h) = h_links h"
  "h_link_requests (drop_conn n fl h) = h_link_requests h"
  "h_running (drop_conn n fl h) = h_running h"
  "h_conns (drop_conn n fl h) = filter (\<lambda>m. m \<noteq> n) (h_conns h)"
  "h_coalescer (drop_conn n fl h) = h_coalescer h"
  by (simp_all add: drop_conn_def on_conn_def Let_def)

lemma close_body_departed:
  "close_body cl n reason fl h =
     (if hc_closing (h_conn h n) then h
      else let peer = peer_of h n; slot = (if peer \<noteq> 0 then h_follows h peer else None);
               h' = departed_conn n reason fl h
           in if peer = 0 then h'
              else log_slot_end peer reason slot (end_link_sink peer reason
                (if h_running h
                 then broadcast cl (PeerLeft peer reason) peer
                        (notify_partners cl peer (link_partners peer (h_links h)) h')
                 else h')))"
  by (simp add: close_body_def departed_conn_def unlink_departed_def notify_partners_def Let_def
      push_event_def cong: if_cong)

subsection \<open>Sets of states closed under the steps\<close>

text \<open>
  A departure takes the peer's slot out first and tells its sink last; in between others may
  depart. So the sets are indexed by the slots that are out and not told yet.
\<close>

type_synonym untold = "(peer_id \<times> follow_slot option) list"

locale host_closed =
  fixes S :: "untold \<Rightarrow> host \<Rightarrow> bool"
  assumes S_push: "S u h \<Longrightarrow> S u (fst (try_push_to n item h))"
    and S_urgent: "S u h \<Longrightarrow> S u (fst (try_urgent_to n raw h))"
    and S_receive: "S u h \<Longrightarrow> S u (fst (host_receive_link m h))"
    and S_event: "S u h \<Longrightarrow> S u (push_event ev h)"
    and S_depart_pending: "S u h \<Longrightarrow> \<not> hc_closing (h_conn h n) \<Longrightarrow> peer_of h n = 0 \<Longrightarrow>
      S u (departed_conn n reason fl h)"
    and S_depart: "S u h \<Longrightarrow> \<not> hc_closing (h_conn h n) \<Longrightarrow> peer_of h n = p \<Longrightarrow> p \<noteq> 0 \<Longrightarrow>
      S ((p, h_follows h p) # u) (departed_conn n reason fl h)"
    and S_end_sink: "S u h \<Longrightarrow> S u (end_link_sink peer reason h)"
    and S_log_end: "S ((p, slot) # u) h \<Longrightarrow> S u (log_slot_end p reason slot h)"
begin

text \<open>Two transformers that do the same on the set and stay in it; two closers that do.\<close>

definition agree :: "(host \<Rightarrow> host) \<Rightarrow> (host \<Rightarrow> host) \<Rightarrow> bool" where
  "agree f g \<longleftrightarrow> (\<forall>u h. S u h \<longrightarrow> S u (f h) \<and> f h = g h)"

definition same :: "closer \<Rightarrow> closer \<Rightarrow> bool" where
  "same cl cl' \<longleftrightarrow> (\<forall>n r f. agree (cl n r f) (cl' n r f))"

lemma agreeI: "(\<And>u h. S u h \<Longrightarrow> S u (f h)) \<Longrightarrow> (\<And>u h. S u h \<Longrightarrow> f h = g h) \<Longrightarrow> agree f g"
  by (simp add: agree_def)

lemma agree_stays: "agree f g \<Longrightarrow> S u h \<Longrightarrow> S u (f h)"
  unfolding agree_def by blast

lemma agree_eq: "agree f g \<Longrightarrow> S u h \<Longrightarrow> f h = g h"
  unfolding agree_def by blast

lemma sameD: "same cl cl' \<Longrightarrow> agree (cl n r f) (cl' n r f)"
  by (simp add: same_def)

lemma sameI:
  "(\<And>n r f u h. S u h \<Longrightarrow> S u (cl n r f h)) \<Longrightarrow> (\<And>n r f u h. S u h \<Longrightarrow> cl n r f h = cl' n r f h) \<Longrightarrow> same cl cl'"
  unfolding same_def agree_def by blast

lemma agree_comp:
  assumes "agree f f'" and "agree g g'"
  shows "agree (\<lambda>h. g (f h)) (\<lambda>h. g' (f' h))"
proof (rule agreeI)
  fix u h
  assume "S u h"
  then have f: "S u (f h)" "f' h = f h" using assms(1) by (auto dest: agree_stays agree_eq [symmetric])
  then show "S u (g (f h))" using assms(2) by (auto dest: agree_stays)
  show "g (f h) = g' (f' h)" unfolding f(2) using f(1) assms(2) by (rule agree_eq [rotated])
qed

lemma agree_fold:
  assumes "\<And>x. agree (f x) (g x)"
  shows "agree (fold f xs) (fold g xs)"
proof (induction xs)
  case Nil
  then show ?case by (simp add: agree_def)
next
  case (Cons x xs)
  from agree_comp [OF assms Cons] show ?case by (simp add: comp_def fun_eq_iff)
qed

lemma agree_if: "agree f f' \<Longrightarrow> agree g g' \<Longrightarrow> agree (\<lambda>h. if P h then f h else g h) (\<lambda>h. if P h then f' h else g' h)"
  by (rule agreeI) (auto dest: agree_stays agree_eq)

lemma push_to_same:
  assumes "same cl cl'"
  shows "agree (push_to cl n item) (push_to cl' n item)"
proof (rule agreeI)
  fix u h
  assume "S u h"
  obtain h1 r where tp: "try_push_to n item h = (h1, r)" by (cases "try_push_to n item h")
  with S_push [OF \<open>S u h\<close>, of n item] have "S u h1" by simp
  then have cl: "S u (cl n LR_TooSlow False h1)" "cl n LR_TooSlow False h1 = cl' n LR_TooSlow False h1"
    using assms by (auto dest: sameD agree_stays agree_eq)
  show "S u (push_to cl n item h)"
    using cl(1) \<open>S u h1\<close> by (simp add: push_to_def tp split: sum.split push_error.split)
  show "push_to cl n item h = push_to cl' n item h"
    by (simp add: push_to_def tp cl(2) split: sum.split push_error.split)
qed

lemma push_all_same:
  assumes "same cl cl'"
  shows "agree (push_all cl x item) (push_all cl' x item)"
proof -
  have step: "agree (\<lambda>h. if peer_of h n \<noteq> x then push_to cl n item h else h)
      (\<lambda>h. if peer_of h n \<noteq> x then push_to cl' n item h else h)" for n
    by (rule agree_if [OF push_to_same [OF assms]]) (simp add: agree_def)
  show ?thesis
    unfolding push_all_def
    by (rule agreeI) (auto dest: agree_stays [OF agree_fold [OF step]] agree_eq [OF agree_fold [OF step]])
qed

lemma broadcast_same: "same cl cl' \<Longrightarrow> agree (broadcast cl m x) (broadcast cl' m x)"
  unfolding broadcast_def by (rule push_all_same)

lemma deliver_link_same:
  assumes "same cl cl'"
  shows "agree (deliver_link cl target m raw) (deliver_link cl' target m raw)"
proof (rule agreeI)
  fix u h
  assume h: "S u h"
  have "S u (deliver_link cl target m raw h) \<and> deliver_link cl target m raw h = deliver_link cl' target m raw h"
  proof (cases "target = HOST_PEER_ID")
    case True
    obtain h1 r where "host_receive_link m h = (h1, r)" by (cases "host_receive_link m h")
    with True S_receive [OF h, of m] S_event [of u h1] show ?thesis
      by (simp add: deliver_link_def split: option.split)
  next
    case False
    show ?thesis
    proof (cases "conn_for h target")
      case None
      with False h show ?thesis by (simp add: deliver_link_def)
    next
      case (Some n)
      obtain h1 r where tu: "try_urgent_to n raw h = (h1, r)" by (cases "try_urgent_to n raw h")
      with S_urgent [OF h, of n raw] have "S u h1" by simp
      then have "S u (cl n LR_TooSlow False h1)" "cl n LR_TooSlow False h1 = cl' n LR_TooSlow False h1"
        using assms by (auto dest: sameD agree_stays agree_eq)
      with False Some \<open>S u h1\<close> show ?thesis
        by (simp add: deliver_link_def tu split: sum.split push_error.split)
    qed
  qed
  then show "S u (deliver_link cl target m raw h)" "deliver_link cl target m raw h = deliver_link cl' target m raw h"
    by (rule conjunct1, rule conjunct2)
qed

lemma announce_link_same:
  assumes "same cl cl'"
  shows "agree (announce_link cl a b linked) (announce_link cl' a b linked)"
proof -
  have "agree (\<lambda>h. fst (host_receive_link m h)) (\<lambda>h. fst (host_receive_link m h))" for m
    by (rule agreeI) (rule S_receive, assumption, rule refl)
  from agree_comp [OF broadcast_same [OF assms] this] show ?thesis
    unfolding announce_link_def Let_def case_prod_conv by simp
qed

lemma notify_partners_same: "same cl cl' \<Longrightarrow> agree (notify_partners cl p ps) (notify_partners cl' p ps)"
  unfolding notify_partners_def Let_def
  by (rule agree_fold) (rule agree_comp [OF deliver_link_same announce_link_same])

text \<open>What follows a departure.\<close>

lemma after_departure_same:
  assumes "same cl cl'"
  shows "agree (\<lambda>h. end_link_sink p r (broadcast cl m p (notify_partners cl p ps h)))
    (\<lambda>h. end_link_sink p r (broadcast cl' m p (notify_partners cl' p ps h)))"
  by (rule agree_comp [OF agree_comp [OF notify_partners_same [OF assms] broadcast_same [OF assms]]])
    (auto intro: agreeI S_end_sink)

lemma close_body_closed:
  assumes "same cl cl" and "S u h"
  shows "S u (close_body cl n reason fl h)"
proof -
  consider "hc_closing (h_conn h n)" | "\<not> hc_closing (h_conn h n)" "peer_of h n = 0"
    | "\<not> hc_closing (h_conn h n)" "peer_of h n \<noteq> 0" by blast
  then show ?thesis
  proof cases
    case 3
    with assms(2) have "S ((peer_of h n, h_follows h (peer_of h n)) # u) (departed_conn n reason fl h)"
      by (intro S_depart) simp_all
    with agree_stays [OF after_departure_same [OF assms(1)]] 3 show ?thesis
      by (simp add: close_body_departed Let_def S_log_end S_end_sink)
  qed (use assms(2) S_depart_pending in \<open>simp_all add: close_body_departed Let_def\<close>)
qed

text \<open>One closing needs its closer to be right only on the states after the departure.\<close>

lemma close_body_eq:
  assumes "same cl cl'"
    and "\<not> hc_closing (h_conn h n) \<Longrightarrow> peer_of h n \<noteq> 0 \<Longrightarrow> S u (departed_conn n reason fl h)"
  shows "close_body cl n reason fl h = close_body cl' n reason fl h"
proof (cases "hc_closing (h_conn h n) \<or> peer_of h n = 0")
  case True
  then show ?thesis by (auto simp: close_body_departed Let_def)
next
  case False
  with agree_eq [OF after_departure_same [OF assms(1)] assms(2)] show ?thesis
    by (simp add: close_body_departed Let_def)
qed

lemma close_fuel_same: "same (close_fuel k) (close_fuel k)"
proof (induction k)
  case 0
  then show ?case by (simp add: same_def agree_def)
next
  case (Suc k)
  show ?case by (rule sameI) (simp_all add: close_body_closed [OF Suc])
qed

lemma close_connection_closed: "S u h \<Longrightarrow> S u (close_connection n r f h)"
  unfolding close_connection_def by (rule agree_stays [OF sameD [OF close_fuel_same]])

lemma close_connection_same: "same close_connection close_connection"
  by (rule sameI [OF close_connection_closed refl])

lemmas push_to_closed = agree_stays [OF push_to_same [OF close_connection_same]]
lemmas push_all_closed = agree_stays [OF push_all_same [OF close_connection_same]]
lemmas broadcast_closed = agree_stays [OF broadcast_same [OF close_connection_same]]
lemmas deliver_link_closed = agree_stays [OF deliver_link_same [OF close_connection_same]]
lemmas announce_link_closed = agree_stays [OF announce_link_same [OF close_connection_same]]

lemma send_to_closed: "S u h \<Longrightarrow> S u (send_to n m h)"
  unfolding send_to_def by (rule S_push)

lemma protocol_error_closed: "S u h \<Longrightarrow> S u (protocol_error e n text h)"
  unfolding protocol_error_def by (intro close_connection_closed send_to_closed S_event)

lemma refuse_closed: "S u h \<Longrightarrow> S u (refuse e n reason text h)"
  unfolding refuse_def by (intro close_connection_closed send_to_closed)

end

subsection \<open>The fuel is enough\<close>

text \<open>The session holds exactly the connections that are not closing, each once.\<close>

definition held :: "host \<Rightarrow> bool" where
  "held h \<longleftrightarrow> distinct (h_conns h) \<and> (\<forall>n. n \<in> set (h_conns h) \<longleftrightarrow> \<not> hc_closing (h_conn h n))"

definition held_at_most :: "nat \<Rightarrow> host \<Rightarrow> bool" where
  "held_at_most k h \<longleftrightarrow> held h \<and> length (h_conns h) \<le> k"

lemma held_on_conn:
  "(\<And>c. hc_closing (f c) = hc_closing c) \<Longrightarrow> held h \<Longrightarrow> held (on_conn n f h)"
  by (simp add: held_def on_conn_def)

lemma held_cong:
  "h_conns h = h_conns g \<Longrightarrow> h_conn h = h_conn g \<Longrightarrow> held g \<Longrightarrow> held h"
  by (simp add: held_def)

lemma departed_conn_conns:
  "h_conns (departed_conn n reason fl h) = filter (\<lambda>m. m \<noteq> n) (h_conns h)"
  "h_conn (departed_conn n reason fl h) = (h_conn h)(n := begin_close fl (h_conn h n))"
  by (simp_all add: departed_conn_def Let_def push_event_def purge_roster_def drop_conn_def on_conn_def)

lemma held_departed:
  assumes "held h" and "\<not> hc_closing (h_conn h n)"
  shows "held (departed_conn n reason fl h)"
    and "length (h_conns (departed_conn n reason fl h)) < length (h_conns h)"
proof -
  show "held (departed_conn n reason fl h)"
    using assms(1) by (simp add: held_def departed_conn_conns begin_close_def)
  have "n \<in> set (h_conns h)" using assms by (simp add: held_def)
  then show "length (h_conns (departed_conn n reason fl h)) < length (h_conns h)"
    by (simp add: departed_conn_conns) (rule length_filter_less [of n], simp_all)
qed

interpretation fuelled: host_closed "\<lambda>_. held_at_most k" for k
proof
  fix h n item raw m ev reason fl peer slot and u :: untold and p
  assume h: "held_at_most k h"
  then show "held_at_most k (fst (try_push_to n item h))" "held_at_most k (fst (try_urgent_to n raw h))"
    "held_at_most k (push_event ev h)" "held_at_most k (end_link_sink peer reason h)"
    by (simp_all add: held_at_most_def held_def try_push_to_def try_urgent_to_def on_conn_def
        push_event_def end_link_sink_def case_prod_beta)
  show "held_at_most k (fst (host_receive_link m h))" "held_at_most k (log_slot_end p reason slot h)"
    using h by (simp_all add: held_at_most_def held_def host_receive_link_def log_slot_end_def
        split: sum.split option.split)
  assume "\<not> hc_closing (h_conn h n)"
  then show "held_at_most k (departed_conn n reason fl h)" "held_at_most k (departed_conn n reason fl h)"
    using h held_departed [of h n reason fl] by (simp_all add: held_at_most_def)
qed

lemma close_fuel_enough:
  "held_at_most k h \<Longrightarrow> close_fuel (Suc k) n r f h = close_fuel k n r f h"
proof (induction k arbitrary: h n r f)
  case 0
  then have "hc_closing (h_conn h n)" by (auto simp: held_at_most_def held_def)
  then show ?case by (simp add: close_body_def)
next
  case (Suc k)
  have "fuelled.same k (close_fuel (Suc k)) (close_fuel k)"
    using Suc.IH fuelled.agree_stays [OF fuelled.sameD [OF fuelled.close_fuel_same]]
    by (intro fuelled.sameI) blast+
  moreover have "held_at_most k (departed_conn n r f h)" if "\<not> hc_closing (h_conn h n)"
    using held_departed [OF _ that, of r f] Suc.prems by (auto simp: held_at_most_def)
  ultimately have "close_body (close_fuel (Suc k)) n r f h = close_body (close_fuel k) n r f h"
    by (rule fuelled.close_body_eq)
  then show ?case by (simp only: close_fuel.simps)
qed

lemma close_fuel_more: "held h \<Longrightarrow> close_fuel (Suc (length (h_conns h)) + j) n r f h = close_connection n r f h"
proof (induction j)
  case 0
  then show ?case by (simp add: close_connection_def)
next
  case (Suc j)
  have "held_at_most (Suc (length (h_conns h)) + j) h" using Suc.prems by (simp add: held_at_most_def)
  from close_fuel_enough [OF this] Suc show ?case by (simp del: close_fuel.simps)
qed

text \<open>So the equation of the source holds: the closer closes with itself.\<close>

lemma close_connection_rec:
  assumes "held h"
  shows "close_connection n r f h = close_body close_connection n r f h"
proof -
  let ?k = "length (h_conns h)"
  have "fuelled.same ?k (close_fuel ?k) close_connection"
  proof -
    have "close_fuel ?k m r' f' g = close_connection m r' f' g" if "held_at_most ?k g" for m r' f' g
    proof -
      from that have g: "held g" "length (h_conns g) \<le> ?k" by (simp_all add: held_at_most_def)
      show ?thesis
      proof (cases "length (h_conns g) = ?k")
        case True
        then show ?thesis using close_fuel_enough [of ?k g m r' f'] that
          by (simp add: close_connection_def del: close_fuel.simps)
      next
        case False
        then have "?k = Suc (length (h_conns g)) + (?k - Suc (length (h_conns g)))" using g(2) by simp
        with close_fuel_more [OF g(1)] show ?thesis by metis
      qed
    qed
    then show ?thesis
      using fuelled.agree_stays [OF fuelled.sameD [OF fuelled.close_fuel_same]]
      by (intro fuelled.sameI) blast+
  qed
  moreover have "held_at_most ?k (departed_conn n r f h)" if "\<not> hc_closing (h_conn h n)"
    using held_departed [OF assms that, of r f] by (simp add: held_at_most_def)
  ultimately have "close_body (close_fuel ?k) n r f h = close_body close_connection n r f h"
    by (rule fuelled.close_body_eq)
  then show ?thesis by (simp add: close_connection_def)
qed

end
