(* ===== verification/Host_Handlers.thy ===== *)
theory Host_Handlers
  imports Host_Closing
begin

text \<open>
  What happens on a host, \<open>supershuckie-play-together/src/session/host.rs\<close>: admission of a
  connection on its \<open>Hello\<close>, the messages of an admitted peer, the reader and writer threads, the
  tick, and the application's calls. \<open>host_step\<close> is one of these, \<open>h_step\<close> a history entry.
\<close>

unbundle bit_operations_syntax

subsection \<open>Admission\<close>

definition sync_pause_message :: "host \<Rightarrow> message" where
  "sync_pause_message h = (let s = h_sync_pause h
     in SyncPause (sp_enabled s) (sp_paused s) (sp_host_only s))"

definition console_refused :: "host \<Rightarrow> replay_console_type \<Rightarrow> bool" where
  "console_refused h c \<longleftrightarrow>
     c = NintendoDS \<and> \<not> h_allow_nds h \<or> c = Nintendo3DS \<or> c = UnknownConsole"

text \<open>What the host makes of a newcomer: its record in the session.\<close>

definition new_participant ::
    "host \<Rightarrow> rstring \<Rightarrow> rstring \<Rightarrow> player_color \<Rightarrow> publisher_info \<Rightarrow> participant_info" where
  "new_participant h app_version display_name color publisher =
     (let peer = h_next_peer_id h; present = participants h;
          taken = pa_display_name (h_local h) # map pa_display_name present;
          taken_colors = pa_color (h_local h) # map pa_color present
      in \<lparr>pa_peer_id = peer,
          pa_display_name = unwrap_or (dedupe_display_name display_name taken) [],
          pa_color = assign_color color taken_colors
            (h_session_id h XOR (ucast peer * 0x9E3779B97F4A7C15)),
          pa_app_version = app_version, pa_publisher = publisher\<rparr>)"

text \<open>What a newcomer is sent, in this order, before its connection counts as admitted.\<close>

definition greet :: "nat \<Rightarrow> participant_info \<Rightarrow> participant_info list \<Rightarrow> host \<Rightarrow> host" where
  "greet n p present h =
     (let h = send_to n (Welcome (pa_peer_id p) (h_session_id h) (pa_display_name p) (pa_color p)
                (h_local h # present)) h;
          h = send_to n (sync_pause_message h) h;
          h = send_to n (LinkSpeed (h_link_speed h)) h
      in case h_start_state h of None \<Rightarrow> h | Some item \<Rightarrow> fst (try_push_to n (OStartState item) h))"

definition enrol :: "nat \<Rightarrow> participant_info \<Rightarrow> host \<Rightarrow> host" where
  "enrol n p h =
     (let present = participants h;
          h = h\<lparr>h_next_peer_id := h_next_peer_id h + 1\<rparr>;
          h = on_conn n (\<lambda>c. c\<lparr>hc_info := Some p\<rparr>) h;
          h = greet n p present h;
          h = on_conn n (\<lambda>c. c\<lparr>hc_peer_id := pa_peer_id p\<rparr>) h
      in h\<lparr>h_follows := (h_follows h)(pa_peer_id p \<mapsto> new_slot)\<rparr>)"

definition start_state_mismatch :: "host \<Rightarrow> publisher_info \<Rightarrow> follow_compatibility" where
  "start_state_mismatch h publisher =
     (if h_start_state h = None then Compatible
      else follow_compatibility (pi_metadata publisher) (pi_metadata (pa_publisher (h_local h))))"

definition admit ::
    "session_env \<Rightarrow> nat \<Rightarrow> u32 \<Rightarrow> u32 \<Rightarrow> rstring \<Rightarrow> rstring \<Rightarrow> player_color \<Rightarrow> publisher_info \<Rightarrow> host \<Rightarrow> host" where
  "admit e n protocol_version rversion app_version display_name color publisher h =
     (if \<not> h_running h then refuse e n RR_HostShuttingDown (RefusalText RR_HostShuttingDown) h
      else if protocol_version \<noteq> PROTOCOL_VERSION
        then refuse e n RR_ProtocolVersion (VersionText protocol_version) h
      else if rversion \<noteq> REPLAY_VERSION then refuse e n RR_ReplayVersion (VersionText rversion) h
      else if console_refused h (m_console_type (pi_metadata publisher))
        then refuse e n RR_ConsoleUnsupported (RefusalText RR_ConsoleUnsupported) h
      else if m_patch_format (pi_metadata publisher) \<noteq> Unpatched
        then refuse e n RR_PatchedRomUnsupported (RefusalText RR_PatchedRomUnsupported) h
      else if start_state_mismatch h publisher \<noteq> Compatible
        then refuse e n RR_StartStateMismatch (StartStateText (start_state_mismatch h publisher)) h
      else if h_max_participants h \<le> length (participants h) + 1
        then refuse e n RR_SessionFull (SessionFullText (h_max_participants h)) h
      else let p = new_participant h app_version display_name color publisher
           in push_event (SE_Joined p)
                (broadcast close_connection (PeerJoined p) (pa_peer_id p) (enrol n p h)))"

subsection \<open>Messages of an admitted peer\<close>

definition note_pause :: "peer_id \<Rightarrow> bool \<Rightarrow> host \<Rightarrow> host \<times> bool" where
  "note_pause from paused h =
     (let s = h_sync_pause h;
          counts = sp_enabled s \<and> (from = HOST_PEER_ID \<or> \<not> sp_host_only s)
      in (if counts then h\<lparr>h_sync_pause := s\<lparr>sp_paused := paused\<rparr>\<rparr> else h, counts))"

text \<open>Run an operation on a publisher's slot and note the calls it makes.\<close>

definition set_slot :: "peer_id \<Rightarrow> follow_slot \<Rightarrow> follow_call list \<Rightarrow> host \<Rightarrow> host" where
  "set_slot peer s calls h = h\<lparr>h_follows := (h_follows h)(peer \<mapsto> s),
     h_follow_calls := h_follow_calls h @ map (Pair peer) calls\<rparr>"

definition request_snapshot_from :: "session_env \<Rightarrow> peer_id \<Rightarrow> bool \<Rightarrow> host \<Rightarrow> host" where
  "request_snapshot_from e publisher force h = (case h_follows h publisher of
     None \<Rightarrow> h
   | Some slot \<Rightarrow>
       (let (slot', allowed) = may_request force (e_now e) slot; h = set_slot publisher slot' [] h
        in if \<not> allowed then h
           else case conn_for h publisher of
             None \<Rightarrow> h
           | Some n \<Rightarrow> send_to n (RequestSnapshot HOST_PEER_ID publisher) h))"

definition relay :: "peer_id \<Rightarrow> bytes \<Rightarrow> host \<Rightarrow> host" where
  "relay from raw h = push_all close_connection from (OEncoded raw) h"

definition handle_link :: "session_env \<Rightarrow> nat \<Rightarrow> peer_id \<Rightarrow> message \<Rightarrow> bytes \<Rightarrow> host \<Rightarrow> host" where
  "handle_link e n from m raw h =
     (case (case m of LinkFrame _ _ _ _ events _ _ \<Rightarrow> decode_link_events events | _ \<Rightarrow> Inr []) of
        Inl err \<Rightarrow> protocol_error e n (DecodeText err) h
      | Inr _ \<Rightarrow> route_link from (stamp_from m from) (stamp_peer_id raw from) h)"

definition handle_stream :: "session_env \<Rightarrow> nat \<Rightarrow> peer_id \<Rightarrow> u64 \<Rightarrow> bytes \<Rightarrow> bytes \<Rightarrow> host \<Rightarrow> host" where
  "handle_stream e n from first_frame bs raw h = (case decode_packets bs of
     Inl err \<Rightarrow> protocol_error e n (DecodeText err) h
   | Inr packets \<Rightarrow>
       (let h = relay from (stamp_peer_id raw from) h
        in case h_follows h from of
          None \<Rightarrow> h
        | Some slot \<Rightarrow>
            (let (slot', calls, outcome) = on_stream first_frame packets slot;
                 h = set_slot from slot' calls h
             in case outcome of
               Gap expected got \<Rightarrow> request_snapshot_from e from False
                 (push_event (SE_Warning (LostStream from expected got)) h)
             | _ \<Rightarrow> h)))"

definition handle_sync_hash :: "peer_id \<Rightarrow> u64 \<Rightarrow> bytes \<Rightarrow> bytes \<Rightarrow> host \<Rightarrow> host" where
  "handle_sync_hash from frame_no hash raw h =
     (let h = relay from (stamp_peer_id raw from) h
      in case h_follows h from of
        None \<Rightarrow> h
      | Some slot \<Rightarrow>
          (let (slot', calls, _) = on_sync_hash frame_no hash slot in set_slot from slot' calls h))"

definition handle_snapshot :: "session_env \<Rightarrow> nat \<Rightarrow> peer_id \<Rightarrow> wire_snapshot \<Rightarrow> bytes \<Rightarrow> host \<Rightarrow> host" where
  "handle_snapshot e n from w raw h =
     (let target = ws_target w; raw = stamp_peer_id raw from;
          h = (if target = 0 then relay from raw h
               else if target = HOST_PEER_ID then h
               else case conn_for h target of
                 None \<Rightarrow> h | Some m \<Rightarrow> push_to close_connection m (OEncoded raw) h)
      in if target = 0 \<or> target = HOST_PEER_ID
         then (case h_follows h from of
             None \<Rightarrow> h
           | Some slot \<Rightarrow>
               (if has_sink slot
                then (case into_snapshot (e_zstd e) w of
                    Inr snap \<Rightarrow> (let (slot', calls, _) = on_snapshot snap slot in set_slot from slot' calls h)
                  | Inl err \<Rightarrow> protocol_error e n (DecodeText err) h)
                else h))
         else h)"

fun handle_admitted :: "session_env \<Rightarrow> nat \<Rightarrow> peer_id \<Rightarrow> message \<Rightarrow> bytes \<Rightarrow> host \<Rightarrow> host" where
  "handle_admitted e n from (Hello _ _ _ _ _ _) raw h = protocol_error e n SecondHello h"
| "handle_admitted e n from (Welcome _ _ _ _ _) raw h = protocol_error e n HostOnlyMessage h"
| "handle_admitted e n from (Refused _ _) raw h = protocol_error e n HostOnlyMessage h"
| "handle_admitted e n from (PeerJoined _) raw h = protocol_error e n HostOnlyMessage h"
| "handle_admitted e n from (PeerLeft _ _) raw h = protocol_error e n HostOnlyMessage h"
| "handle_admitted e n from (ResetAll _ _) raw h = protocol_error e n HostOnlyMessage h"
| "handle_admitted e n from (SyncPause _ _ _) raw h = protocol_error e n HostOnlyMessage h"
| "handle_admitted e n from (LinkSpeed _) raw h = protocol_error e n HostOnlyMessage h"
| "handle_admitted e n from (StartState _) raw h = protocol_error e n HostOnlyMessage h"
| "handle_admitted e n from (PeerLinked _ _) raw h = protocol_error e n HostOnlyMessage h"
| "handle_admitted e n from (PeerUnlinked _ _) raw h = protocol_error e n HostOnlyMessage h"
| "handle_admitted e n from (Pause _ paused) raw h =
     (let (h, counts) = note_pause from paused h
      in if counts then push_event (SE_PauseChanged from paused) (relay from (stamp_peer_id raw from) h) else h)"
| "handle_admitted e n from (Stream _ first_frame bs) raw h = handle_stream e n from first_frame bs raw h"
| "handle_admitted e n from (SyncHash _ frame_no hash) raw h = handle_sync_hash from frame_no hash raw h"
| "handle_admitted e n from (Snapshot w) raw h = handle_snapshot e n from w raw h"
| "handle_admitted e n from (RequestSnapshot _ target) raw h =
     (if target = HOST_PEER_ID then h\<lparr>h_coalescer := co_request from (h_coalescer h)\<rparr>
      else case conn_for h target of
        None \<Rightarrow> h
      | Some m \<Rightarrow> push_to close_connection m (OEncoded (stamp_peer_id raw from)) h)"
| "handle_admitted e n from (Ping nonce sent) raw h = send_to n (Pong nonce sent) h"
| "handle_admitted e n from (Pong nonce _) raw h =
     (let (p, rtt) = on_pong nonce (e_now e) (hc_ping (h_conn h n)); h = on_conn n (\<lambda>c. c\<lparr>hc_ping := p\<rparr>) h
      in case rtt of None \<Rightarrow> h | Some t \<Rightarrow> push_event (SE_RttUpdated from t) h)"
| "handle_admitted e n from Goodbye raw h = close_connection n LR_Left False h"
| "handle_admitted e n from (ErrorText text) raw h =
     close_connection n LR_ProtocolError False (push_event (SE_Warning (PeerReported from text)) h)"
| "handle_admitted e n from (LinkRequest a b c d) raw h = handle_link e n from (LinkRequest a b c d) raw h"
| "handle_admitted e n from (LinkAccept a b c) raw h = handle_link e n from (LinkAccept a b c) raw h"
| "handle_admitted e n from (LinkDecline a b c d) raw h = handle_link e n from (LinkDecline a b c d) raw h"
| "handle_admitted e n from (LinkStart a b c d i r s sp) raw h =
     handle_link e n from (LinkStart a b c d i r s sp) raw h"
| "handle_admitted e n from (LinkFrame a b c d ev f g) raw h =
     handle_link e n from (LinkFrame a b c d ev f g) raw h"
| "handle_admitted e n from (Unlink a b c) raw h = handle_link e n from (Unlink a b c) raw h"

subsection \<open>The threads of a connection\<close>

definition add_connection :: "session_env \<Rightarrow> host \<Rightarrow> host" where
  "add_connection e h = (let n = h_conn_counter h
     in h\<lparr>h_conn_counter := n + 1,
          h_conn := (h_conn h)(n := conn_new (e_now e + h_handshake_timeout h)),
          h_conns := h_conns h @ [n]\<rparr>)"

text \<open>What the reader does with one frame it has read.\<close>

definition handle_frame :: "session_env \<Rightarrow> nat \<Rightarrow> bytes \<Rightarrow> host \<Rightarrow> host" where
  "handle_frame e n f h =
     (let h = h\<lparr>h_stats := (h_stats h)\<lparr>
           ss_bytes_in := ss_bytes_in (h_stats h) + of_nat (length f),
           ss_messages_in := ss_messages_in (h_stats h) + 1\<rparr>\<rparr>
      in if hc_closing (h_conn h n) then h
         else case decode_frame f of
           Inl (UnknownTag _) \<Rightarrow> h\<lparr>h_stats := (h_stats h)\<lparr>
             ss_unknown_skipped := ss_unknown_skipped (h_stats h) + 1\<rparr>\<rparr>
         | Inl err \<Rightarrow> protocol_error e n (DecodeText err) h
         | Inr m \<Rightarrow>
             (if peer_of h n = 0
              then (case m of
                  Hello protocol_version rversion app_version display_name color publisher \<Rightarrow>
                    admit e n protocol_version rversion app_version display_name color publisher h
                | Ping nonce sent \<Rightarrow> send_to n (Pong nonce sent) h
                | _ \<Rightarrow> protocol_error e n ExpectedHello h)
              else handle_admitted e n (peer_of h n) m f h))"

text \<open>Why a reader stops, when the connection was not closing already.\<close>

datatype reader_stop = ReaderEnd | ReaderIo | ReaderDecode decode_error | ReaderTimeout

fun reader_stopped :: "session_env \<Rightarrow> nat \<Rightarrow> reader_stop \<Rightarrow> host \<Rightarrow> host" where
  "reader_stopped e n ReaderEnd h = close_connection n LR_IoError False h"
| "reader_stopped e n ReaderIo h = close_connection n LR_IoError False h"
| "reader_stopped e n (ReaderDecode err) h = protocol_error e n (DecodeText err) h"
| "reader_stopped e n ReaderTimeout h = close_connection n LR_Timeout False h"

text \<open>The writer empties the queue; when it stops it shuts the socket down, and a failed one closes.\<close>

definition writer_drains :: "nat \<Rightarrow> host \<Rightarrow> host" where
  "writer_drains n h = on_conn n (\<lambda>c. c\<lparr>hc_queue := fst (drain_queue (hc_queue c))\<rparr>) h"

definition writer_pings :: "session_env \<Rightarrow> nat \<Rightarrow> u64 \<Rightarrow> host \<Rightarrow> host" where
  "writer_pings e n unix_millis h =
     on_conn n (\<lambda>c. c\<lparr>hc_ping := fst (make_ping (e_now e) unix_millis (hc_ping c))\<rparr>) h"

definition writer_stopped :: "nat \<Rightarrow> bool \<Rightarrow> host \<Rightarrow> host" where
  "writer_stopped n failed h =
     (let h = on_conn n (\<lambda>c. c\<lparr>hc_writer_done := True,
                hc_shut_down := hc_shut_down c \<or> hc_closing c \<or> failed\<rparr>) h
      in if failed then close_connection n LR_IoError False h else h)"

definition flush_coalescer :: "session_env \<Rightarrow> host \<Rightarrow> host" where
  "flush_coalescer e h = (case co_flush (e_now e) (h_coalescer h) of
     (c, None) \<Rightarrow> h\<lparr>h_coalescer := c\<rparr>
   | (c, Some requesters) \<Rightarrow> push_event (SE_SnapshotRequested requesters) (h\<lparr>h_coalescer := c\<rparr>))"

text \<open>One turn of the tick thread.\<close>

definition tick :: "session_env \<Rightarrow> host \<Rightarrow> host" where
  "tick e h =
     (let h = flush_coalescer e h;
          stale = filter (\<lambda>n. peer_of h n = 0 \<and> hc_deadline (h_conn h n) < e_now e) (h_conns h)
      in fold (\<lambda>n. close_connection n LR_Timeout False) stale h)"

subsection \<open>The application's calls\<close>

definition publish :: "outbound \<Rightarrow> peer_id \<Rightarrow> host \<Rightarrow> (publish_error + unit) \<times> host" where
  "publish item target h =
     (if h_left h then (Inl (PubDisconnected DR_Left), h)
      else (Inr (), fold (\<lambda>n h. if target = 0 \<or> peer_of h n = target then push_to close_connection n item h else h)
              (admitted_conns h) h))"

definition poll_events :: "session_env \<Rightarrow> host \<Rightarrow> session_event list \<times> host" where
  "poll_events e h = (let h = flush_coalescer e h in (h_events h, h\<lparr>h_events := []\<rparr>))"

definition subscribe :: "session_env \<Rightarrow> peer_id \<Rightarrow> host \<Rightarrow> (session_error + unit) \<times> host" where
  "subscribe e publisher h =
     (if h_left h then (Inl (SessDisconnected DR_Left), h)
      else case h_follows h publisher of
        None \<Rightarrow> (Inl (SessNoSuchPeer publisher), h)
      | Some slot \<Rightarrow> (let (slot', calls) = set_sink slot
          in (Inr (), request_snapshot_from e publisher True (set_slot publisher slot' calls h))))"

definition unsubscribe :: "peer_id \<Rightarrow> host \<Rightarrow> host" where
  "unsubscribe publisher h = (case h_follows h publisher of
     None \<Rightarrow> h
   | Some slot \<Rightarrow> (let (slot', calls) = clear_sink slot in set_slot publisher slot' calls h))"

text \<open>Milliseconds beyond a \<open>u32\<close> are sent as its maximum.\<close>

definition send_reset_all :: "session_env \<Rightarrow> nat \<Rightarrow> host \<Rightarrow> (session_error + u32) \<times> host" where
  "send_reset_all e countdown h =
     (if h_left h then (Inl (SessDisconnected DR_Left), h)
      else let race_id = h_race_counter h;
               h = h\<lparr>h_race_counter := race_id + 1\<rparr>;
               h = broadcast close_connection (ResetAll race_id (of_nat (min countdown 4294967295))) 0 h
           in (Inr race_id, push_event (SE_ResetAll race_id (e_now e + countdown)) h))"

definition set_sync_pause :: "bool \<Rightarrow> bool \<Rightarrow> bool \<Rightarrow> host \<Rightarrow> (session_error + unit) \<times> host" where
  "set_sync_pause enabled paused host_only h =
     (if h_left h then (Inl (SessDisconnected DR_Left), h)
      else (Inr (), broadcast close_connection (SyncPause enabled paused host_only) 0
        (h\<lparr>h_sync_pause := \<lparr>sp_enabled = enabled, sp_paused = paused, sp_host_only = host_only\<rparr>\<rparr>)))"

definition set_link_speed :: "speed \<Rightarrow> host \<Rightarrow> (session_error + unit) \<times> host" where
  "set_link_speed speed h =
     (if h_left h then (Inl (SessDisconnected DR_Left), h)
      else (Inr (), broadcast close_connection (LinkSpeed speed) 0 (h\<lparr>h_link_speed := speed\<rparr>)))"

definition send_pause :: "bool \<Rightarrow> host \<Rightarrow> (session_error + unit) \<times> host" where
  "send_pause paused h =
     (if h_left h then (Inl (SessDisconnected DR_Left), h)
      else let (h, counts) = note_pause HOST_PEER_ID paused h
           in (Inr (), if counts then broadcast close_connection (Pause HOST_PEER_ID paused) 0 h else h))"

definition set_start_state :: "start_state_data option \<Rightarrow> host \<Rightarrow> (session_error + unit) \<times> host" where
  "set_start_state state h =
     (if h_left h then (Inl (SessDisconnected DR_Left), h)
      else let h = h\<lparr>h_start_state := state\<rparr>
           in (Inr (), case state of
                Some item \<Rightarrow> fold (\<lambda>n. push_to close_connection n (OStartState item)) (admitted_conns h) h
              | None \<Rightarrow> broadcast close_connection (StartState start_cleared) 0 h))"

definition kick :: "peer_id \<Rightarrow> host \<Rightarrow> (session_error + unit) \<times> host" where
  "kick peer h =
     (if h_left h then (Inl (SessDisconnected DR_Left), h)
      else case conn_for h peer of
        None \<Rightarrow> (Inl (SessNoSuchPeer peer), h)
      | Some n \<Rightarrow> (Inr (), close_connection n LR_Kicked True (send_to n (PeerLeft peer LR_Kicked) h)))"

definition send_link :: "link_message \<Rightarrow> host \<Rightarrow> (session_error + unit) \<times> host" where
  "send_link lm h =
     (let target = lm_target lm
      in if h_left h then (Inl (SessDisconnected DR_Left), h)
         else if target = HOST_PEER_ID \<or> target = 0 then (Inl (SessNoSuchPeer target), h)
         else if conn_for h target = None then (Inl (SessNoSuchPeer target), h)
         else let m = from_link HOST_PEER_ID lm in (Inr (), route_link HOST_PEER_ID m (encoded m) h))"

definition set_link_sink :: "peer_id \<Rightarrow> bool \<Rightarrow> host \<Rightarrow> host" where
  "set_link_sink peer installed h = (let (sinks, calls) = sinks_set peer installed (h_link_sinks h)
     in h\<lparr>h_link_sinks := sinks, h_link_calls := h_link_calls h @ calls\<rparr>)"

text \<open>Slots end in an order the hash map decides; \<open>order\<close> is the peers in that order.\<close>

definition leave :: "peer_id list \<Rightarrow> host \<Rightarrow> host" where
  "leave order h =
     (if h_left h then h
      else let conns = h_conns h; follows = h_follows h;
               h = h\<lparr>h_left := True, h_running := False, h_conns := [], h_follows := (\<lambda>_. None)\<rparr>;
               h = fold (\<lambda>n h. let h = send_to n Goodbye h
                     in if hc_closing (h_conn h n) then h else on_conn n (begin_close True) h) conns h;
               h = fold (\<lambda>p. log_slot_end p LR_Left (follows p)) order h;
               (sinks, calls) = sinks_end_all LR_Left (h_link_sinks h);
               h = h\<lparr>h_link_sinks := sinks, h_link_calls := h_link_calls h @ calls\<rparr>;
               h = push_event (SE_Disconnected DR_Left) h
           in fold (\<lambda>n. on_conn n (\<lambda>c. c\<lparr>hc_shut_down := True\<rparr>)) conns h)"

subsection \<open>A new host\<close>

text \<open>
  A connection that was never accepted counts as closing: nothing holds it. The session's id is
  derived from the time, the address and the process; any non-zero value.
\<close>

definition host_new ::
    "nat \<Rightarrow> bool \<Rightarrow> nat \<Rightarrow> session_id \<Rightarrow> rstring \<Rightarrow> player_color \<Rightarrow> rstring \<Rightarrow> publisher_info \<Rightarrow> host" where
  "host_new max_participants allow_nds handshake_timeout sid display_name color app_version publisher =
     (let name = sanitize_display_name display_name; c = assign_color color [] sid
      in \<lparr>h_max_participants = min (max max_participants 1) MAX_PARTICIPANTS,
          h_allow_nds = allow_nds, h_handshake_timeout = handshake_timeout,
          h_local = \<lparr>pa_peer_id = HOST_PEER_ID, pa_display_name = name, pa_color = c,
            pa_app_version = app_version, pa_publisher = publisher\<rparr>,
          h_session_id = sid, h_running = True, h_left = False,
          h_conn = (\<lambda>_. (conn_new 0)\<lparr>hc_closing := True\<rparr>), h_conns = [],
          h_next_peer_id = HOST_PEER_ID + 1, h_follows = (\<lambda>_. None),
          h_links = [], h_link_requests = [],
          h_events = [SE_Connected sid HOST_PEER_ID name c []],
          h_stats = \<lparr>ss_bytes_in = 0, ss_messages_in = 0, ss_unknown_skipped = 0, ss_link_frames_received = 0\<rparr>,
          h_coalescer = coalescer_new, h_race_counter = 1, h_conn_counter = 1,
          h_sync_pause = \<lparr>sp_enabled = False, sp_paused = False, sp_host_only = False\<rparr>,
          h_link_speed = Speed 256, h_start_state = None, h_link_sinks = [],
          h_follow_calls = [], h_link_calls = []\<rparr>)"

end
