(* ===== verification/Host_Invariants.thy ===== *)
theory Host_Invariants
  imports Host_Handlers
begin

text \<open>
  The invariant of a host session and that the machinery of \<open>Host\<close> keeps it: the connections held
  are the open ones; every admitted peer has an id, a name and a colour of its own; follow slots
  belong to admitted peers; the link roster is a matching of participants; and the calls made on
  each peer's sink respect the protocol of \<open>Follow\<close>. \<open>Host_Run\<close> shows that every handler and
  every call of the application keeps it.
\<close>

subsection \<open>The invariant\<close>

definition peers :: "host \<Rightarrow> peer_id list" where
  "peers h = map (peer_of h) (admitted_conns h)"

definition members :: "host \<Rightarrow> peer_id set" where
  "members h = insert HOST_PEER_ID (set (peers h))"

definition info_of :: "host \<Rightarrow> nat \<Rightarrow> participant_info" where
  "info_of h n = the (hc_info (h_conn h n))"

definition conns_ok :: "host \<Rightarrow> bool" where
  "conns_ok h \<longleftrightarrow> held h \<and>
     (\<forall>n \<in> set (h_conns h). \<not> q_closed (queue_of h n) \<and> n < h_conn_counter h \<and>
        (case hc_info (h_conn h n) of
           None \<Rightarrow> peer_of h n = 0
         | Some p \<Rightarrow> peer_of h n \<noteq> 0 \<and> pa_peer_id p = peer_of h n \<and> participant_ok p))"

definition queues_ok :: "host \<Rightarrow> bool" where
  "queues_ok h \<longleftrightarrow> (\<forall>n. queue_ok (queue_of h n))"

definition ids_ok :: "host \<Rightarrow> bool" where
  "ids_ok h \<longleftrightarrow> distinct (peers h) \<and> HOST_PEER_ID < h_next_peer_id h \<and>
     (\<forall>p \<in> set (peers h). HOST_PEER_ID < p \<and> p < h_next_peer_id h)"

definition everyone :: "host \<Rightarrow> participant_info list" where
  "everyone h = h_local h # map (info_of h) (admitted_conns h)"

definition names_ok :: "host \<Rightarrow> bool" where
  "names_ok h \<longleftrightarrow> distinct (map pa_display_name (everyone h)) \<and> distinct (map pa_color (everyone h)) \<and>
     length (everyone h) \<le> h_max_participants h \<and> h_max_participants h \<le> MAX_PARTICIPANTS \<and>
     participant_ok (h_local h) \<and> pa_peer_id (h_local h) = HOST_PEER_ID"

definition follows_ok :: "host \<Rightarrow> bool" where
  "follows_ok h \<longleftrightarrow> (\<forall>p. h_follows h p \<noteq> None \<longleftrightarrow> p \<in> set (peers h))"

definition link_ends :: "(peer_id \<times> peer_id) list \<Rightarrow> peer_id list" where
  "link_ends links = concat (map (\<lambda>(a, b). [a, b]) links)"

text \<open>Nobody is linked twice, or with themselves; one request per requester; members only.\<close>

definition roster_ok :: "peer_id set \<Rightarrow> (peer_id \<times> peer_id) list \<Rightarrow> (peer_id \<times> peer_id \<times> u32) list \<Rightarrow> bool" where
  "roster_ok mem links requests \<longleftrightarrow>
     distinct (link_ends links) \<and> set (link_ends links) \<subseteq> mem \<and>
     distinct (map fst requests) \<and> (\<forall>(r, t, _) \<in> set requests. r \<noteq> t \<and> r \<in> mem \<and> t \<in> mem)"

definition shape_ok :: "host \<Rightarrow> bool" where
  "shape_ok h \<longleftrightarrow> conns_ok h \<and> ids_ok h \<and> names_ok h \<and> follows_ok h \<and>
     (h_running h \<longrightarrow> roster_ok (members h) (h_links h) (h_link_requests h))"

definition calls_of :: "peer_id \<Rightarrow> host \<Rightarrow> follow_call list" where
  "calls_of p h = map snd (filter (\<lambda>c. fst c = p) (h_follow_calls h))"

text \<open>The calls on each peer's sinks, for slots in place, slots taken out, and departed peers.\<close>

definition log_ok :: "untold \<Rightarrow> host \<Rightarrow> bool" where
  "log_ok u h \<longleftrightarrow> distinct (map fst u) \<and>
     (\<forall>p slot. (p, slot) \<in> set u \<longrightarrow> p < h_next_peer_id h \<and> h_follows h p = None \<and>
        (\<exists>s. slot = Some s \<and> follow_inv s (calls_of p h))) \<and>
     (\<forall>p s. h_follows h p = Some s \<longrightarrow> follow_inv s (calls_of p h)) \<and>
     (\<forall>p. h_follows h p = None \<longrightarrow>
        feed_run NoSink (calls_of p h) \<noteq> None \<and> (h_next_peer_id h \<le> p \<longrightarrow> calls_of p h = []))"

lemma log_okD:
  assumes "log_ok u h"
  shows "distinct (map fst u)"
    and "(q, sl) \<in> set u \<Longrightarrow> q < h_next_peer_id h \<and> h_follows h q = None \<and>
      (\<exists>s. sl = Some s \<and> follow_inv s (calls_of q h))"
    and "h_follows h q = Some s \<Longrightarrow> follow_inv s (calls_of q h)"
    and "h_follows h q = None \<Longrightarrow> feed_run NoSink (calls_of q h) \<noteq> None"
    and "h_follows h q = None \<Longrightarrow> h_next_peer_id h \<le> q \<Longrightarrow> calls_of q h = []"
  using assms unfolding log_ok_def by simp_all

lemma log_okI:
  assumes "distinct (map fst u)"
    and "\<And>q sl. (q, sl) \<in> set u \<Longrightarrow> q < h_next_peer_id h \<and> h_follows h q = None \<and>
      (\<exists>s. sl = Some s \<and> follow_inv s (calls_of q h))"
    and "\<And>q s. h_follows h q = Some s \<Longrightarrow> follow_inv s (calls_of q h)"
    and "\<And>q. h_follows h q = None \<Longrightarrow> feed_run NoSink (calls_of q h) \<noteq> None"
    and "\<And>q. h_follows h q = None \<Longrightarrow> h_next_peer_id h \<le> q \<Longrightarrow> calls_of q h = []"
  shows "log_ok u h"
  using assms unfolding log_ok_def by simp

definition host_inv :: "untold \<Rightarrow> host \<Rightarrow> bool" where
  "host_inv u h \<longleftrightarrow> queues_ok h \<and> shape_ok h \<and> log_ok u h"

subsection \<open>What the invariant looks at\<close>

text \<open>Everything but the contents of queues, events, calls on link sinks and counters.\<close>

definition shape_view :: "host \<Rightarrow> _" where
  "shape_view h = ((h_conns h, h_conn_counter h,
       (\<lambda>n. (peer_of h n, hc_info (h_conn h n), hc_closing (h_conn h n), q_closed (queue_of h n)))),
     (h_links h, h_link_requests h, (\<lambda>p. h_follows h p \<noteq> None)),
     (h_next_peer_id h, h_local h, h_max_participants h, h_running h))"

definition host_view :: "host \<Rightarrow> _" where
  "host_view h = (shape_view h, h_follows h, h_follow_calls h)"

lemma shape_viewD:
  assumes "shape_view h = shape_view g"
  shows "h_conns h = h_conns g" "h_conn_counter h = h_conn_counter g" "peer_of h = peer_of g"
    "hc_info (h_conn h n) = hc_info (h_conn g n)" "hc_closing (h_conn h n) = hc_closing (h_conn g n)"
    "q_closed (queue_of h n) = q_closed (queue_of g n)"
    "h_links h = h_links g" "h_link_requests h = h_link_requests g"
    "h_follows h p \<noteq> None \<longleftrightarrow> h_follows g p \<noteq> None"
    "h_next_peer_id h = h_next_peer_id g" "h_local h = h_local g"
    "h_max_participants h = h_max_participants g" "h_running h = h_running g"
  using assms by (simp_all add: shape_view_def fun_eq_iff)

lemma admitted_conns_view:
  assumes "shape_view h = shape_view g"
  shows "admitted_conns h = admitted_conns g"
  unfolding admitted_conns_def shape_viewD(1,3) [OF assms] ..

lemma peers_view:
  assumes "shape_view h = shape_view g"
  shows "peers h = peers g"
  unfolding peers_def admitted_conns_view [OF assms] shape_viewD(3) [OF assms] ..

lemma everyone_view:
  assumes "shape_view h = shape_view g"
  shows "everyone h = everyone g"
  unfolding everyone_def info_of_def admitted_conns_view [OF assms] shape_viewD(4,11) [OF assms] ..

lemma shape_ok_view:
  assumes "shape_view h = shape_view g"
  shows "shape_ok h = shape_ok g"
proof -
  note v = shape_viewD [OF assms]
  have "conns_ok h = conns_ok g" unfolding conns_ok_def held_def v(1-6) ..
  moreover have "ids_ok h = ids_ok g" unfolding ids_ok_def peers_view [OF assms] v(10) ..
  moreover have "names_ok h = names_ok g"
    unfolding names_ok_def everyone_view [OF assms] v(11,12) ..
  moreover have "follows_ok h = follows_ok g" unfolding follows_ok_def peers_view [OF assms] v(9) ..
  ultimately show ?thesis unfolding shape_ok_def members_def peers_view [OF assms] v(7,8,13) by simp
qed

lemma host_view_shape: "host_view h = host_view g \<Longrightarrow> shape_view h = shape_view g"
  by (simp add: host_view_def)

lemma log_ok_view:
  assumes "host_view h = host_view g"
  shows "log_ok u h = log_ok u g"
proof -
  have "h_follows h = h_follows g" "h_follow_calls h = h_follow_calls g" using assms by (simp_all add: host_view_def)
  moreover from this have "calls_of p h = calls_of p g" for p by (simp add: calls_of_def)
  ultimately show ?thesis
    unfolding log_ok_def shape_viewD(10) [OF host_view_shape [OF assms]] by simp
qed

lemma host_inv_view:
  assumes "host_view h = host_view g" and "queues_ok h" and "host_inv u g"
  shows "host_inv u h"
  using assms(2,3)
  unfolding host_inv_def log_ok_view [OF assms(1)] shape_ok_view [OF host_view_shape [OF assms(1)]] by simp

lemma queue_ok_push: "queue_ok q \<Longrightarrow> queue_ok (fst (try_push item q))"
  by (auto simp: try_push_def queue_ok_def)

lemma queue_ok_urgent: "queue_ok q \<Longrightarrow> queue_ok (fst (try_push_urgent bs q))"
  by (auto simp: try_push_urgent_def queue_ok_def)

lemma queue_ok_drain: "queue_ok (fst (drain_queue q))"
  by (simp add: drain_queue_def queue_ok_def)

lemma queue_ok_close: "queue_ok q \<Longrightarrow> queue_ok (queue_close d q)"
  by (simp add: queue_close_def queue_ok_def Let_def)

lemma q_closed_push [simp]: "q_closed (fst (try_push item q)) = q_closed q"
  "q_closed (fst (try_push_urgent bs q)) = q_closed q" "q_closed (fst (drain_queue q)) = q_closed q"
  by (auto simp: try_push_def try_push_urgent_def drain_queue_def)

lemma queues_ok_on_conn:
  "(\<And>c. queue_ok (hc_queue c) \<Longrightarrow> queue_ok (hc_queue (f c))) \<Longrightarrow> queues_ok h \<Longrightarrow> queues_ok (on_conn n f h)"
  by (simp add: queues_ok_def queue_of_def on_conn_def)

lemma queues_ok_cong: "h_conn h = h_conn g \<Longrightarrow> queues_ok g \<Longrightarrow> queues_ok h"
  by (simp add: queues_ok_def queue_of_def)

lemma view_on_conn:
  assumes "\<And>c. hc_peer_id (f c) = hc_peer_id c \<and> hc_info (f c) = hc_info c \<and>
    hc_closing (f c) = hc_closing c \<and> q_closed (hc_queue (f c)) = q_closed (hc_queue c)"
  shows "host_view (on_conn n f h) = host_view h"
  using assms by (simp add: host_view_def shape_view_def on_conn_def peer_of_def queue_of_def fun_eq_iff)

lemma view_push [simp]:
  "host_view (fst (try_push_to n item h)) = host_view h"
  "host_view (fst (try_urgent_to n raw h)) = host_view h"
  "host_view (send_to n m h) = host_view h"
  by (simp_all add: host_view_def shape_view_def send_to_def try_push_to_def try_urgent_to_def case_prod_beta on_conn_def peer_of_def
      queue_of_def fun_eq_iff)

lemma view_other [simp]:
  "host_view (push_event ev h) = host_view h"
  "host_view (fst (host_receive_link m h)) = host_view h"
  "host_view (end_link_sink p r h) = host_view h"
  by (simp_all add: host_view_def shape_view_def push_event_def host_receive_link_def end_link_sink_def
      case_prod_beta peer_of_def queue_of_def split: sum.split)

lemma queues_ok_steps [simp]:
  "queues_ok h \<Longrightarrow> queues_ok (fst (try_push_to n item h))"
  "queues_ok h \<Longrightarrow> queues_ok (fst (try_urgent_to n raw h))"
  "queues_ok h \<Longrightarrow> queues_ok (send_to n m h)"
  "queues_ok h \<Longrightarrow> queues_ok (push_event ev h)"
  "queues_ok h \<Longrightarrow> queues_ok (fst (host_receive_link m' h))"
  "queues_ok h \<Longrightarrow> queues_ok (end_link_sink p r h)"
  "queues_ok h \<Longrightarrow> queues_ok (log_slot_end p r slot h)"
  by (simp_all add: queues_ok_def queue_of_def send_to_def try_push_to_def try_urgent_to_def
      case_prod_beta on_conn_def queue_ok_push queue_ok_urgent push_event_def host_receive_link_def
      end_link_sink_def log_slot_end_def split: sum.split option.split)

subsection \<open>The roster\<close>

lemma link_ends_simps [simp]:
  "link_ends [] = []" "link_ends ((a, b) # ls) = a # b # link_ends ls"
  "link_ends (ls @ ms) = link_ends ls @ link_ends ms"
  by (simp_all add: link_ends_def)

lemma set_link_ends_filter: "set (link_ends (filter P links)) \<subseteq> set (link_ends links)"
  by (auto simp: link_ends_def)

lemma distinct_link_ends_filter: "distinct (link_ends links) \<Longrightarrow> distinct (link_ends (filter P links))"
proof (induction links)
  case (Cons l links)
  then show ?case using set_link_ends_filter [of P links] by (cases l) auto
qed simp

lemma link_ends_iff: "p \<in> set (link_ends links) \<longleftrightarrow> (\<exists>q. (p, q) \<in> set links \<or> (q, p) \<in> set links)"
  by (induction links) auto

lemma is_linked_iff: "is_linked links p \<longleftrightarrow> p \<in> set (link_ends links)"
  by (induction links) (auto simp: is_linked_def)

lemma are_linked_iff: "are_linked links a b \<longleftrightarrow> (a, b) \<in> set links \<or> (b, a) \<in> set links"
  by (induction links) (auto simp: are_linked_def)

lemma roster_ok_mono: "roster_ok mem links requests \<Longrightarrow> mem \<subseteq> mem' \<Longrightarrow> roster_ok mem' links requests"
  by (fastforce simp: roster_ok_def)

lemma distinct_fst_filter: "distinct (map fst xs) \<Longrightarrow> distinct (map fst (filter P xs))"
  by (rule distinct_map_filter)

lemma roster_ok_filter:
  "roster_ok mem links requests \<Longrightarrow> roster_ok mem (filter P links) (filter Q requests)"
  using set_link_ends_filter [of P links]
  by (auto simp: roster_ok_def distinct_link_ends_filter distinct_fst_filter)

lemma roster_ok_purge:
  assumes "roster_ok mem links requests"
  shows "roster_ok (mem - {p}) (filter (\<lambda>(a, b). a \<noteq> p \<and> b \<noteq> p) links)
    (filter (\<lambda>(r, t, _). r \<noteq> p \<and> t \<noteq> p) requests)"
proof -
  let ?ls = "filter (\<lambda>(a, b). a \<noteq> p \<and> b \<noteq> p) links"
  have "p \<notin> set (link_ends ?ls)" by (auto simp: link_ends_iff)
  with roster_ok_filter [OF assms, of "\<lambda>(a, b). a \<noteq> p \<and> b \<noteq> p" "\<lambda>(r, t, _). r \<noteq> p \<and> t \<noteq> p"]
  have links: "distinct (link_ends ?ls)" "set (link_ends ?ls) \<subseteq> mem - {p}"
    and fsts: "distinct (map fst (filter (\<lambda>(r, t, _). r \<noteq> p \<and> t \<noteq> p) requests))"
    unfolding roster_ok_def by blast+
  moreover have "\<forall>(r, t, _) \<in> set (filter (\<lambda>(r, t, _). r \<noteq> p \<and> t \<noteq> p) requests). r \<noteq> t \<and> r \<in> mem - {p} \<and> t \<in> mem - {p}"
    using assms unfolding roster_ok_def by auto
  ultimately show ?thesis unfolding roster_ok_def by blast
qed

lemma roster_ok_link:
  assumes "roster_ok mem links requests" and "a \<in> mem" "b \<in> mem" "a \<noteq> b"
    and "\<not> is_linked links a" "\<not> is_linked links b"
  shows "roster_ok mem (links @ [(a, b)]) requests"
  using assms by (auto simp: roster_ok_def is_linked_iff)

lemma roster_ok_request:
  assumes "roster_ok mem links requests" and "a \<in> mem" "b \<in> mem" "a \<noteq> b"
  shows "roster_ok mem links (filter (\<lambda>(r, _, _). r \<noteq> a) requests @ [(a, b, nonce)])"
proof -
  have "distinct (map fst (filter (\<lambda>(r, _, _). r \<noteq> a) requests @ [(a, b, nonce)]))"
    using assms(1) by (auto simp: roster_ok_def distinct_fst_filter)
  with assms show ?thesis by (auto simp: roster_ok_def)
qed

lemma roster_ok_remove1:
  assumes "roster_ok mem links requests"
  shows "roster_ok mem links (remove1 r requests)"
proof -
  have "distinct requests" using assms by (auto simp: roster_ok_def distinct_map)
  then have "remove1 r requests = filter (\<lambda>x. x \<noteq> r) requests" by (rule distinct_remove1_removeAll [THEN trans])
    (simp add: removeAll_filter_not_eq eq_commute)
  with roster_ok_filter [OF assms, of "\<lambda>_. True"] show ?thesis by simp
qed

subsection \<open>Departures\<close>

lemma map_filter_distinct:
  "distinct (map f xs) \<Longrightarrow> n \<in> set xs \<Longrightarrow> map f (filter (\<lambda>m. m \<noteq> n) xs) = filter (\<lambda>y. y \<noteq> f n) (map f xs)"
proof (induction xs)
  case (Cons x xs)
  show ?case
  proof (cases "x = n")
    case True
    then have "f n \<notin> f ` set xs" using Cons.prems(1) by simp
    then have "filter (\<lambda>m. m \<noteq> n) xs = xs" "filter (\<lambda>y. y \<noteq> f n) (map f xs) = map f xs"
      by (intro filter_True; force)+
    with True show ?thesis by simp
  next
    case False
    with Cons show ?thesis by auto
  qed
qed simp

lemma departed_fields:
  "h_next_peer_id (departed_conn n r fl h) = h_next_peer_id h"
  "h_local (departed_conn n r fl h) = h_local h"
  "h_max_participants (departed_conn n r fl h) = h_max_participants h"
  "h_running (departed_conn n r fl h) = h_running h"
  "h_conn_counter (departed_conn n r fl h) = h_conn_counter h"
  "h_follow_calls (departed_conn n r fl h) = h_follow_calls h"
  "h_follows (departed_conn n r fl h) = (if peer_of h n \<noteq> 0 then (h_follows h)(peer_of h n := None) else h_follows h)"
  "h_links (departed_conn n r fl h) = (if peer_of h n \<noteq> 0 \<and> h_running h
     then filter (\<lambda>(a, b). a \<noteq> peer_of h n \<and> b \<noteq> peer_of h n) (h_links h) else h_links h)"
  "h_link_requests (departed_conn n r fl h) = (if peer_of h n \<noteq> 0 \<and> h_running h
     then filter (\<lambda>(r, t, _). r \<noteq> peer_of h n \<and> t \<noteq> peer_of h n) (h_link_requests h) else h_link_requests h)"
  by (simp_all add: departed_conn_def Let_def push_event_def purge_roster_def drop_conn_def on_conn_def
      peer_of_def begin_close_def)

lemma departed_conn_fields:
  "peer_of (departed_conn n r fl h) = peer_of h"
  "info_of (departed_conn n r fl h) = info_of h"
  "hc_info (h_conn (departed_conn n r fl h) m) = hc_info (h_conn h m)"
  "m \<noteq> n \<Longrightarrow> queue_of (departed_conn n r fl h) m = queue_of h m"
  by (auto simp: peer_of_def info_of_def queue_of_def departed_conn_conns begin_close_def fun_eq_iff)

lemma departed_admitted:
  "admitted_conns (departed_conn n r fl h) = filter (\<lambda>m. m \<noteq> n) (admitted_conns h)"
  by (simp add: admitted_conns_def departed_conn_fields departed_conn_conns) (metis filter_filter conj_commute)

lemma departed_peers:
  assumes "shape_ok h" and "\<not> hc_closing (h_conn h n)"
  shows "peers (departed_conn n r fl h) = filter (\<lambda>p. p \<noteq> peer_of h n) (peers h)"
proof (cases "peer_of h n = 0")
  case True
  have "filter (\<lambda>m. m \<noteq> n) (admitted_conns h) = admitted_conns h"
    by (intro filter_True) (auto simp: admitted_conns_def True)
  moreover have "filter (\<lambda>p. p \<noteq> 0) (peers h) = peers h"
    by (auto simp: peers_def admitted_conns_def filter_id_conv)
  ultimately show ?thesis by (simp add: peers_def departed_admitted departed_conn_fields True)
next
  case False
  have "n \<in> set (h_conns h)" using assms by (simp add: shape_ok_def conns_ok_def held_def)
  with False have "n \<in> set (admitted_conns h)" by (simp add: admitted_conns_def)
  moreover have "distinct (map (peer_of h) (admitted_conns h))"
    using assms(1) by (simp add: shape_ok_def ids_ok_def peers_def)
  ultimately show ?thesis
    unfolding peers_def departed_admitted departed_conn_fields by (intro map_filter_distinct)
qed

lemma departed_shape_ok:
  assumes "shape_ok h" and "\<not> hc_closing (h_conn h n)"
  shows "shape_ok (departed_conn n r fl h)"
proof -
  let ?h = "departed_conn n r fl h"
  from assms have ok: "conns_ok h" "ids_ok h" "names_ok h" "follows_ok h"
    "h_running h \<Longrightarrow> roster_ok (members h) (h_links h) (h_link_requests h)"
    by (simp_all add: shape_ok_def)
  note peers = departed_peers [OF assms, of r fl]
  have "held ?h" using held_departed(1) [OF _ assms(2)] ok(1) by (simp add: conns_ok_def)
  moreover have "m \<noteq> n \<and> m \<in> set (h_conns h)" if "m \<in> set (h_conns ?h)" for m
    using that by (simp add: departed_conn_conns)
  ultimately have "conns_ok ?h"
    using ok(1) unfolding conns_ok_def departed_conn_fields(1,3) departed_fields
    by (simp add: departed_conn_fields(4))
  moreover have "ids_ok ?h"
    using ok(2) by (simp add: ids_ok_def peers departed_fields)
  moreover have "names_ok ?h"
  proof -
    have sub: "set (map f (filter P xs)) \<subseteq> set (map f xs)" for f P and xs :: "nat list" by auto
    have "length (filter (\<lambda>m. m \<noteq> n) (admitted_conns h)) \<le> length (admitted_conns h)" by simp
    with ok(3) show ?thesis
      unfolding names_ok_def everyone_def departed_admitted departed_conn_fields departed_fields
      by (auto simp: comp_def intro: distinct_map_filter order.trans [rotated])
  qed
  moreover have "follows_ok ?h"
    using ok(4) by (auto simp: follows_ok_def peers departed_fields)
      (auto simp: peers_def admitted_conns_def)
  moreover have "roster_ok (members ?h) (h_links ?h) (h_link_requests ?h)" if "h_running h"
  proof (cases "peer_of h n = 0")
    case True
    have "set (peers ?h) = set (peers h)"
      using True by (auto simp: peers) (auto simp: peers_def admitted_conns_def)
    with ok(5) [OF that] True show ?thesis by (simp add: members_def departed_fields)
  next
    case False
    have "n \<in> set (h_conns h)" using assms ok(1) by (simp add: conns_ok_def held_def)
    with False have "peer_of h n \<in> set (peers h)" by (auto simp: peers_def admitted_conns_def)
    with ok(2) have "HOST_PEER_ID < peer_of h n" by (simp add: ids_ok_def)
    then have "members ?h = members h - {peer_of h n}" by (auto simp: members_def peers)
    with roster_ok_purge [OF ok(5) [OF that]] that False show ?thesis by (simp add: departed_fields)
  qed
  ultimately show ?thesis by (simp add: shape_ok_def departed_fields)
qed

text \<open>The log: a slot taken out is one more untold peer.\<close>

lemma calls_of_append: "calls_of p (h\<lparr>h_follow_calls := h_follow_calls h @ map (Pair q) cs\<rparr>) =
    calls_of p h @ (if p = q then cs else [])"
  by (simp add: calls_of_def filter_map comp_def)

lemma follow_inv_run: "follow_inv s log \<Longrightarrow> feed_run NoSink log \<noteq> None"
  by (auto simp: follow_inv_def)

lemma departed_log_ok:
  assumes "log_ok u h" and "shape_ok h" and "\<not> hc_closing (h_conn h n)" and "peer_of h n \<noteq> 0"
  shows "log_ok ((peer_of h n, h_follows h (peer_of h n)) # u) (departed_conn n r fl h)"
proof -
  let ?p = "peer_of h n"
  have "n \<in> set (h_conns h)" using assms by (simp add: shape_ok_def conns_ok_def held_def)
  with assms(4) have mem: "?p \<in> set (peers h)" by (auto simp: peers_def admitted_conns_def)
  with assms(2) obtain s where s: "h_follows h ?p = Some s" by (auto simp: shape_ok_def follows_ok_def)
  have next_id: "?p < h_next_peer_id h" using assms(2) mem by (simp add: shape_ok_def ids_ok_def)
  have inv: "follow_inv s (calls_of ?p h)" using assms(1) s by (simp add: log_ok_def)
  have fresh: "?p \<notin> fst ` set u" using assms(1) s by (auto simp: log_ok_def)
  have calls: "calls_of q (departed_conn n r fl h) = calls_of q h" for q
    by (simp add: calls_of_def departed_fields)
  let ?f = "(h_follows h)(?p := None)"
  have rest: "\<forall>q s. ?f q = Some s \<longrightarrow> follow_inv s (calls_of q h)"
    "\<forall>q. ?f q = None \<longrightarrow> feed_run NoSink (calls_of q h) \<noteq> None \<and> (h_next_peer_id h \<le> q \<longrightarrow> calls_of q h = [])"
    using assms(1) follow_inv_run [OF inv] next_id by (auto simp: log_ok_def)
  have "\<forall>q slot. (q, slot) \<in> set ((?p, Some s) # u) \<longrightarrow> q < h_next_peer_id h \<and> ((h_follows h)(?p := None)) q = None \<and>
      (\<exists>s. slot = Some s \<and> follow_inv s (calls_of q h))"
    using assms(1) inv next_id by (fastforce simp: log_ok_def)
  moreover have "distinct (map fst ((?p, Some s) # u))" using assms(1) fresh by (simp add: log_ok_def)
  ultimately show ?thesis
    using rest unfolding s log_ok_def calls departed_fields by (simp only: assms(4) if_True not_False_eq_True simp_thms)
qed

lemma pending_log_ok:
  assumes "log_ok u h" and "peer_of h n = 0"
  shows "log_ok u (departed_conn n r fl h)"
  using assms(1) unfolding log_ok_def calls_of_def departed_fields by (simp add: assms(2))

lemma told_log_ok:
  assumes "log_ok ((p, slot) # u) h"
  shows "log_ok u (log_slot_end p r slot h)"
proof -
  let ?h = "log_slot_end p r slot h"
  note log = log_okD [OF assms]
  have mine: "p < h_next_peer_id h" "h_follows h p = None" "p \<notin> fst ` set u"
    using log(2) [of p slot] log(1) by simp_all
  obtain s where s: "slot = Some s" "follow_inv s (calls_of p h)" using log(2) [of p slot] by auto
  have "follow_step (OpEnd r) s = (fst (end_slot r s), snd (end_slot r s))" by simp
  with s(2) have ended: "follow_inv (fst (end_slot r s)) (calls_of p h @ snd (end_slot r s))"
    by (rule follow_step_keeps)
  have calls: "calls_of q ?h = (if q = p then calls_of p h @ snd (end_slot r s) else calls_of q h)" for q
    by (simp add: log_slot_end_def s(1) calls_of_append)
  have fields: "h_follows ?h = h_follows h" "h_next_peer_id ?h = h_next_peer_id h"
    by (simp_all add: log_slot_end_def s(1))
  show ?thesis
  proof (rule log_okI, unfold fields)
    show "distinct (map fst u)" using log(1) by simp
    fix q sl
    assume "(q, sl) \<in> set u"
    moreover from this have "q \<noteq> p" using mine(3) by force
    ultimately show "q < h_next_peer_id h \<and> h_follows h q = None \<and> (\<exists>s. sl = Some s \<and> follow_inv s (calls_of q ?h))"
      using log(2) [of q sl] by (simp add: calls)
  next
    fix q t
    assume "h_follows h q = Some t"
    with mine(2) log(3) [of q t] show "follow_inv t (calls_of q ?h)" by (auto simp: calls)
  next
    fix q
    assume "h_follows h q = None"
    with log(4) [of q] follow_inv_run [OF ended] show "feed_run NoSink (calls_of q ?h) \<noteq> None"
      by (simp add: calls)
  next
    fix q
    assume "h_follows h q = None" "h_next_peer_id h \<le> q"
    with log(5) [of q] mine(1) show "calls_of q ?h = []" by (auto simp: calls)
  qed
qed

lemma log_slot_end_shape: "shape_ok (log_slot_end p r slot h) = shape_ok h"
  by (rule shape_ok_view) (simp add: shape_view_def log_slot_end_def peer_of_def queue_of_def fun_eq_iff split: option.split)

lemma departed_queues_ok: "queues_ok h \<Longrightarrow> queues_ok (departed_conn n r fl h)"
  by (simp add: queues_ok_def queue_of_def departed_conn_conns begin_close_def queue_ok_close)

interpretation session: host_closed host_inv
proof
  fix u h n item raw m ev reason fl peer slot p
  assume h: "host_inv u h"
  then have q: "queues_ok h" by (simp add: host_inv_def)
  show "host_inv u (fst (try_push_to n item h))" "host_inv u (fst (try_urgent_to n raw h))"
    "host_inv u (fst (host_receive_link m h))" "host_inv u (push_event ev h)"
    "host_inv u (end_link_sink peer reason h)"
    using q by (auto intro: host_inv_view [OF _ _ h])
  assume open_conn: "\<not> hc_closing (h_conn h n)"
  show "host_inv u (departed_conn n reason fl h)" if "peer_of h n = 0"
    using h that open_conn by (simp add: host_inv_def departed_shape_ok pending_log_ok departed_queues_ok)
  show "host_inv ((p, h_follows h p) # u) (departed_conn n reason fl h)" if "peer_of h n = p" "p \<noteq> 0"
    using h that open_conn departed_log_ok [of u h n] by (auto simp: host_inv_def departed_shape_ok departed_queues_ok)
next
  fix u p slot reason h
  assume "host_inv ((p, slot) # u) h"
  then show "host_inv u (log_slot_end p reason slot h)"
    by (simp add: host_inv_def told_log_ok log_slot_end_shape)
qed

end
