(* ===== verification/Host_Run.thy ===== *)
theory Host_Run
  imports Host_Invariants Runs
begin

text \<open>
  A host's life: any sequence of accepted connections, frames, thread stops and calls of the
  application. \<open>host_step\<close> is one of them at one time; the invariant of \<open>Host_Invariants\<close> holds
  after every history (\<open>hosting.history_inv\<close>) as long as the peer ids do not run out.
\<close>

subsection \<open>One step\<close>

datatype host_op =
    HAddConnection
  | HFrame nat bytes
  | HReaderStop nat reader_stop
  | HWriterDrain nat
  | HWriterPing nat u64
  | HWriterStop nat bool
  | HTick
  | HPublish outbound peer_id
  | HPoll
  | HSubscribe peer_id
  | HUnsubscribe peer_id
  | HRequestSnapshot peer_id
  | HSendResetAll nat
  | HSetSyncPause bool bool bool
  | HSetLinkSpeed speed
  | HSendPause bool
  | HSetStartState "start_state_data option"
  | HKick peer_id
  | HSendLink link_message
  | HSetLinkSink peer_id bool
  | HLeave "peer_id list"

fun host_op_step :: "session_env \<Rightarrow> host_op \<Rightarrow> host \<Rightarrow> host" where
  "host_op_step e HAddConnection h = add_connection e h"
| "host_op_step e (HFrame n f) h = handle_frame e n f h"
| "host_op_step e (HReaderStop n stop) h = reader_stopped e n stop h"
| "host_op_step e (HWriterDrain n) h = writer_drains n h"
| "host_op_step e (HWriterPing n t) h = writer_pings e n t h"
| "host_op_step e (HWriterStop n failed) h = writer_stopped n failed h"
| "host_op_step e HTick h = tick e h"
| "host_op_step e (HPublish item target) h = snd (publish item target h)"
| "host_op_step e HPoll h = snd (poll_events e h)"
| "host_op_step e (HSubscribe p) h = snd (subscribe e p h)"
| "host_op_step e (HUnsubscribe p) h = unsubscribe p h"
| "host_op_step e (HRequestSnapshot p) h = request_snapshot_from e p False h"
| "host_op_step e (HSendResetAll countdown) h = snd (send_reset_all e countdown h)"
| "host_op_step e (HSetSyncPause a b c) h = snd (set_sync_pause a b c h)"
| "host_op_step e (HSetLinkSpeed sp) h = snd (set_link_speed sp h)"
| "host_op_step e (HSendPause b) h = snd (send_pause b h)"
| "host_op_step e (HSetStartState st) h = snd (set_start_state st h)"
| "host_op_step e (HKick p) h = snd (kick p h)"
| "host_op_step e (HSendLink lm) h = snd (send_link lm h)"
| "host_op_step e (HSetLinkSink p b) h = set_link_sink p b h"
| "host_op_step e (HLeave order) h = leave order h"

text \<open>The output of a step: the events an application polls.\<close>

definition host_step :: "session_env \<times> host_op \<Rightarrow> host \<Rightarrow> host \<times> session_event list" where
  "host_step eo h = (host_op_step (fst eo) (snd eo) h,
     if snd eo = HPoll then fst (poll_events (fst eo) h) else [])"

text \<open>
  What the invariant asks of a step: ids are left to hand out (there are 65,534, and they are never
  reused), and leaving goes through the slots each once, in whatever order.
\<close>

definition host_admits :: "session_env \<times> host_op \<Rightarrow> host \<Rightarrow> bool" where
  "host_admits eo h \<longleftrightarrow> h_next_peer_id h \<noteq> - 1 \<and>
     (case snd eo of
        HLeave order \<Rightarrow> distinct order \<and> set order = {p. h_follows h p \<noteq> None}
      | _ \<Rightarrow> True)"

subsection \<open>Slots\<close>

lemma set_slot_inv:
  assumes "host_inv u h" and "h_follows h p = Some s" and "follow_step a s = (s', calls)"
  shows "host_inv u (set_slot p s' calls h)"
proof -
  let ?h = "set_slot p s' calls h"
  from assms(1) have q: "queues_ok h" and shape: "shape_ok h" and log: "log_ok u h"
    by (simp_all add: host_inv_def)
  have "queues_ok ?h" using q by (rule queues_ok_cong [rotated]) (simp add: set_slot_def)
  moreover have "shape_view ?h = shape_view h"
    using assms(2) by (simp add: shape_view_def set_slot_def peer_of_def queue_of_def fun_eq_iff)
  then have "shape_ok ?h" using shape shape_ok_view by blast
  moreover have "log_ok u ?h"
  proof -
    have calls: "calls_of q ?h = (if q = p then calls_of p h @ calls else calls_of q h)" for q
      by (simp add: set_slot_def calls_of_def filter_map comp_def)
    have fields: "h_follows ?h = (h_follows h)(p \<mapsto> s')" "h_next_peer_id ?h = h_next_peer_id h"
      by (simp_all add: set_slot_def)
    note log = log_okD [OF log]
    have new: "follow_inv s' (calls_of p h @ calls)"
      using log(3) [OF assms(2)] assms(3) by (rule follow_step_keeps)
    show ?thesis
    proof (rule log_okI, unfold fields)
      show "distinct (map fst u)" by (rule log(1))
      fix q sl
      assume "(q, sl) \<in> set u"
      from log(2) [OF this] assms(2) show "q < h_next_peer_id h \<and> ((h_follows h)(p \<mapsto> s')) q = None \<and>
          (\<exists>s. sl = Some s \<and> follow_inv s (calls_of q ?h))" by (auto simp: calls)
    next
      fix q t
      assume "((h_follows h)(p \<mapsto> s')) q = Some t"
      with log(3) [of q t] new show "follow_inv t (calls_of q ?h)" by (simp add: calls split: if_splits)
    next
      fix q
      assume "((h_follows h)(p \<mapsto> s')) q = None"
      then have q: "q \<noteq> p" "h_follows h q = None" by (auto split: if_splits)
      with log(4) [of q] show "feed_run NoSink (calls_of q ?h) \<noteq> None" by (simp add: calls)
      assume "h_next_peer_id h \<le> q"
      with log(5) [of q] q show "calls_of q ?h = []" by (simp add: calls)
    qed
  qed
  ultimately show ?thesis by (simp add: host_inv_def)
qed

lemma request_snapshot_inv:
  assumes "host_inv u h"
  shows "host_inv u (request_snapshot_from e p force h)"
proof (cases "h_follows h p")
  case None
  with assms show ?thesis by (simp add: request_snapshot_from_def)
next
  case (Some s)
  obtain s' allowed where r: "may_request force (e_now e) s = (s', allowed)" by (cases "may_request force (e_now e) s")
  have "host_inv u (set_slot p s' [] h)"
    by (rule set_slot_inv [OF assms Some, of "OpMayRequest force (e_now e)"]) (simp add: r)
  with r Some show ?thesis
    by (simp add: request_snapshot_from_def Let_def session.send_to_closed split: option.split)
qed

subsection \<open>Messages between peers\<close>

lemma conn_for_mem:
  assumes "conn_for h p = Some n"
  shows "n \<in> set (h_conns h)" and "peer_of h n = p" and "p \<noteq> 0" and "p \<in> set (peers h)"
proof -
  have "p \<noteq> 0" and find: "List.find (\<lambda>n. peer_of h n = p) (h_conns h) = Some n"
    using assms by (auto simp: conn_for_def split: if_splits)
  from find show n: "n \<in> set (h_conns h)" "peer_of h n = p" by (auto simp: find_Some_iff)
  show "p \<noteq> 0" by fact
  with n show "p \<in> set (peers h)" by (auto simp: peers_def admitted_conns_def)
qed

lemma conn_for_peer:
  assumes "p \<in> set (peers h)"
  shows "conn_for h p \<noteq> None"
proof -
  from assms have "p \<noteq> 0" "\<exists>n \<in> set (h_conns h). peer_of h n = p" by (auto simp: peers_def admitted_conns_def)
  then show ?thesis using find_None_iff [of "\<lambda>n. peer_of h n = p" "h_conns h"]
    by (auto simp: conn_for_def)
qed

lemma console_of_member: "console_of h p = Some c \<Longrightarrow> p \<in> members h"
  by (auto simp: console_of_def members_def dest: conn_for_mem(4) split: if_splits option.splits)

text \<open>A change of the roster that keeps it well-formed.\<close>

lemma roster_inv:
  assumes "host_inv u h"
    and "h_running h \<Longrightarrow> roster_ok (members h) links requests"
  shows "host_inv u (h\<lparr>h_link_requests := requests, h_links := links\<rparr>)"
proof -
  let ?h = "h\<lparr>h_link_requests := requests, h_links := links\<rparr>"
  have same: "peer_of ?h = peer_of h" "admitted_conns ?h = admitted_conns h" "info_of ?h = info_of h"
    "queue_of ?h = queue_of h"
    by (simp_all add: peer_of_def admitted_conns_def info_of_def queue_of_def fun_eq_iff)
  have "conns_ok ?h = conns_ok h" "ids_ok ?h = ids_ok h" "names_ok ?h = names_ok h"
    "follows_ok ?h = follows_ok h" "members ?h = members h" "queues_ok ?h = queues_ok h"
    unfolding conns_ok_def held_def ids_ok_def names_ok_def everyone_def follows_ok_def members_def
      peers_def queues_ok_def same by simp_all
  moreover have "log_ok u ?h = log_ok u h" by (simp add: log_ok_def calls_of_def)
  ultimately show ?thesis
    using assms by (simp add: host_inv_def shape_ok_def)
qed

lemma members_running: "host_inv u h \<Longrightarrow> h_running h \<Longrightarrow> roster_ok (members h) (h_links h) (h_link_requests h)"
  by (simp add: host_inv_def shape_ok_def)

lemma requests_inv:
  assumes "host_inv u h" and "h_running h \<Longrightarrow> roster_ok (members h) (h_links h) requests"
  shows "host_inv u (h\<lparr>h_link_requests := requests\<rparr>)"
  using roster_inv [of u h "h_links h" requests] assms by simp

lemma route_request_inv:
  assumes "host_inv u h" and "from \<in> members h" and "target \<noteq> from"
  shows "host_inv u (route_request from target nonce m raw h)"
proof (cases "console_of h target")
  case None
  with assms(1) show ?thesis by (simp add: route_request_def Let_def session.deliver_link_closed)
next
  case (Some c)
  let ?r = "filter (\<lambda>(r, _, _). r \<noteq> from) (h_link_requests h) @ [(from, target, nonce)]"
  have "host_inv u (h\<lparr>h_link_requests := ?r\<rparr>)"
    using assms console_of_member [OF Some]
    by (intro requests_inv [OF assms(1)]) (auto intro: roster_ok_request members_running [OF assms(1)])
  with Some assms(1) show ?thesis
    by (simp add: route_request_def Let_def session.deliver_link_closed)
qed

lemma route_accept_inv:
  assumes "host_inv u h"
  shows "host_inv u (route_accept from target nonce m raw h)"
proof (cases "(target, from, nonce) \<in> set (h_link_requests h)")
  case False
  with assms show ?thesis by (simp add: route_accept_def)
next
  case True
  let ?r = "remove1 (target, from, nonce) (h_link_requests h)"
  let ?h = "h\<lparr>h_link_requests := ?r\<rparr>"
  have h: "host_inv u ?h"
    by (rule requests_inv [OF assms]) (rule roster_ok_remove1, rule members_running [OF assms])
  show ?thesis
  proof (cases "is_linked (h_links h) from \<or> is_linked (h_links h) target")
    case linked: True
    with True h show ?thesis by (simp add: route_accept_def Let_def session.deliver_link_closed)
  next
    case False
    have "host_inv u (h\<lparr>h_link_requests := ?r, h_links := h_links h @ [(target, from)]\<rparr>)"
    proof (rule roster_inv [OF assms])
      assume run: "h_running h"
      have ok: "roster_ok (members h) (h_links h) ?r"
        by (rule roster_ok_remove1) (rule members_running [OF assms run])
      have "target \<in> members h \<and> from \<in> members h \<and> target \<noteq> from"
        using members_running [OF assms run] True by (auto simp: roster_ok_def)
      with False show "roster_ok (members h) (h_links h @ [(target, from)]) ?r"
        by (intro roster_ok_link [OF ok]) auto
    qed
    with True False show ?thesis
      by (simp add: route_accept_def Let_def session.deliver_link_closed session.announce_link_closed)
  qed
qed

lemma route_decline_inv:
  assumes "host_inv u h"
  shows "host_inv u (route_decline from target nonce m raw h)"
proof -
  have "host_inv u (h\<lparr>h_link_requests := remove1 (target, from, nonce) (h_link_requests h)\<rparr>)"
    by (rule requests_inv [OF assms]) (rule roster_ok_remove1, rule members_running [OF assms])
  with assms show ?thesis by (simp add: route_decline_def session.deliver_link_closed)
qed

lemma route_unlink_inv:
  assumes "host_inv u h"
  shows "host_inv u (route_unlink from target m raw h)"
proof -
  have "host_inv u (h\<lparr>h_link_requests := filter Q (h_link_requests h), h_links := filter P (h_links h)\<rparr>)" for P Q
    by (rule roster_inv [OF assms]) (rule roster_ok_filter, rule members_running [OF assms])
  then show ?thesis
    by (simp add: route_unlink_def Let_def session.deliver_link_closed session.announce_link_closed)
qed

lemma route_link_inv:
  assumes "host_inv u h" and "from \<in> members h"
  shows "host_inv u (route_link from m raw h)"
proof (cases "link_endpoints m")
  case None
  with assms show ?thesis by (simp add: route_link_def)
next
  case (Some ends)
  obtain x target where ends: "ends = (x, target)" by (cases ends)
  have data: "host_inv u (route_data from target m' raw h)" for m'
    using assms(1) by (simp add: route_data_def session.deliver_link_closed)
  show ?thesis
  proof (cases "target = from")
    case True
    with Some ends assms show ?thesis by (simp add: route_link_def)
  next
    case False
    with Some ends assms data show ?thesis
      by (simp add: route_link_def route_request_inv route_accept_inv route_decline_inv route_unlink_inv
          split: message.split)
  qed
qed

lemma relay_inv: "host_inv u h \<Longrightarrow> host_inv u (relay from raw h)"
  unfolding relay_def by (rule session.push_all_closed)

lemma handle_link_inv:
  "host_inv u h \<Longrightarrow> from \<in> members h \<Longrightarrow> host_inv u (handle_link e n from m raw h)"
  by (simp add: handle_link_def session.protocol_error_closed route_link_inv split: sum.split)

lemma slot_op_inv:
  assumes "host_inv u h" and "h_follows h p = Some s" and "follow_step a s = (s', calls)"
  shows "host_inv u (set_slot p s' calls h)"
  using assms by (rule set_slot_inv)

lemma handle_stream_inv:
  assumes "host_inv u h"
  shows "host_inv u (handle_stream e n from first_frame bs raw h)"
proof (cases "decode_packets bs")
  case (Inl err)
  with assms show ?thesis by (simp add: handle_stream_def session.protocol_error_closed)
next
  case (Inr packets)
  let ?h = "relay from (stamp_peer_id raw from) h"
  have h: "host_inv u ?h" by (rule relay_inv [OF assms])
  show ?thesis
  proof (cases "h_follows ?h from")
    case None
    with Inr h show ?thesis by (simp add: handle_stream_def Let_def)
  next
    case (Some s)
    obtain s' calls outcome where os: "on_stream first_frame packets s = (s', calls, outcome)"
      by (cases "on_stream first_frame packets s")
    have "host_inv u (set_slot from s' calls ?h)"
      by (rule set_slot_inv [OF h Some, of "OpStream first_frame packets"]) (simp add: os)
    with Inr Some os show ?thesis
      by (simp add: handle_stream_def Let_def request_snapshot_inv session.S_event split: stream_outcome.split)
  qed
qed

lemma handle_sync_hash_inv:
  assumes "host_inv u h"
  shows "host_inv u (handle_sync_hash from frame_no hash raw h)"
proof -
  let ?h = "relay from (stamp_peer_id raw from) h"
  have h: "host_inv u ?h" by (rule relay_inv [OF assms])
  show ?thesis
  proof (cases "h_follows ?h from")
    case None
    with h show ?thesis by (simp add: handle_sync_hash_def Let_def)
  next
    case (Some s)
    obtain s' calls r where os: "on_sync_hash frame_no hash s = (s', calls, r)"
      by (cases "on_sync_hash frame_no hash s")
    have "host_inv u (set_slot from s' calls ?h)"
      by (rule set_slot_inv [OF h Some, of "OpHash frame_no hash"]) (simp add: os)
    with Some os show ?thesis by (simp add: handle_sync_hash_def Let_def)
  qed
qed

lemma handle_snapshot_inv:
  assumes "host_inv u h"
  shows "host_inv u (handle_snapshot e n from w raw h)"
proof -
  define h1 where "h1 = (if ws_target w = 0 then relay from (stamp_peer_id raw from) h
     else if ws_target w = HOST_PEER_ID then h
     else case conn_for h (ws_target w) of None \<Rightarrow> h
       | Some m \<Rightarrow> push_to close_connection m (OEncoded (stamp_peer_id raw from)) h)"
  have h: "host_inv u h1"
    using assms by (simp add: h1_def relay_inv session.push_to_closed split: option.split)
  have eq: "handle_snapshot e n from w raw h =
      (if ws_target w = 0 \<or> ws_target w = HOST_PEER_ID
       then (case h_follows h1 from of None \<Rightarrow> h1 | Some slot \<Rightarrow>
         if has_sink slot then (case into_snapshot (e_zstd e) w of
             Inr snap \<Rightarrow> (let (slot', calls, _) = on_snapshot snap slot in set_slot from slot' calls h1)
           | Inl err \<Rightarrow> protocol_error e n (DecodeText err) h1) else h1)
       else h1)"
    by (simp only: handle_snapshot_def h1_def Let_def)
  show ?thesis
  proof (cases "h_follows h1 from")
    case None
    with h show ?thesis by (simp add: eq)
  next
    case (Some s)
    have "host_inv u (let (slot', calls, _) = on_snapshot snap s in set_slot from slot' calls h1)" for snap
    proof -
      obtain s' calls r where os: "on_snapshot snap s = (s', calls, r)" by (cases "on_snapshot snap s")
      have "host_inv u (set_slot from s' calls h1)"
        by (rule set_slot_inv [OF h Some, of "OpSnapshot snap"]) (simp add: os)
      then show ?thesis by (simp add: os)
    qed
    with h Some show ?thesis
      by (simp add: eq session.protocol_error_closed split: sum.split)
  qed
qed

subsection \<open>Admission\<close>

lemma participants_everyone:
  assumes "conns_ok h"
  shows "participants h = map (info_of h) (admitted_conns h)"
proof -
  have "hc_info (h_conn h n) \<noteq> None \<longleftrightarrow> peer_of h n \<noteq> 0" if "n \<in> set (h_conns h)" for n
    using assms that by (auto simp: conns_ok_def split: option.splits)
  then have "filter (\<lambda>n. hc_info (h_conn h n) \<noteq> None) (h_conns h) = admitted_conns h"
    unfolding admitted_conns_def by (rule filter_cong [OF refl])
  then show ?thesis by (simp add: participants_def List.map_filter_def comp_def info_of_def)
qed

lemma everyone_participants: "conns_ok h \<Longrightarrow> everyone h = h_local h # participants h"
  by (simp add: everyone_def participants_everyone)

text \<open>The state after \<open>enrol\<close>, up to the queue of the newcomer.\<close>

definition enrolled :: "nat \<Rightarrow> participant_info \<Rightarrow> host \<Rightarrow> host" where
  "enrolled n p h = (on_conn n (\<lambda>c. c\<lparr>hc_info := Some p, hc_peer_id := pa_peer_id p\<rparr>) h)
     \<lparr>h_next_peer_id := h_next_peer_id h + 1, h_follows := (h_follows h)(pa_peer_id p \<mapsto> new_slot)\<rparr>"

lemma greet_view [simp]: "host_view (greet n p present h) = host_view h"
  by (simp add: greet_def Let_def split: option.split)

lemma greet_queues_ok [simp]: "queues_ok h \<Longrightarrow> queues_ok (greet n p present h)"
  by (simp add: greet_def Let_def split: option.split)

lemma enrol_view: "host_view (enrol n p h) = host_view (enrolled n p h)"
proof -
  define h1 where "h1 = on_conn n (\<lambda>c. c\<lparr>hc_info := Some p\<rparr>) (h\<lparr>h_next_peer_id := h_next_peer_id h + 1\<rparr>)"
  define h2 where "h2 = greet n p (participants h) h1"
  have "host_view h2 = host_view h1" by (simp add: h2_def)
  then have v: "shape_view h2 = shape_view h1" "h_follows h2 = h_follows h1" "h_follow_calls h2 = h_follow_calls h1"
    by (simp_all add: host_view_def)
  note d = shape_viewD [OF v(1)]
  have "enrol n p h = (on_conn n (\<lambda>c. c\<lparr>hc_peer_id := pa_peer_id p\<rparr>) h2)
      \<lparr>h_follows := (h_follows h2)(pa_peer_id p \<mapsto> new_slot)\<rparr>"
    by (simp add: enrol_def h2_def h1_def Let_def on_conn_def)
  moreover have "peer_of h2 m = peer_of h1 m" for m by (simp add: d(3))
  ultimately show ?thesis
    using d(1,2,7,8,10-13) v(2,3) d(4-6)
    by (simp add: host_view_def shape_view_def on_conn_def peer_of_def queue_of_def fun_eq_iff h1_def enrolled_def)
qed

lemma enrol_queues_ok: "queues_ok h \<Longrightarrow> queues_ok (enrol n p h)"
proof -
  assume "queues_ok h"
  then have q: "queues_ok (on_conn n (\<lambda>c. c\<lparr>hc_info := Some p\<rparr>) (h\<lparr>h_next_peer_id := h_next_peer_id h + 1\<rparr>))"
    by (intro queues_ok_on_conn) (simp_all add: queues_ok_def queue_of_def)
  define h2 where "h2 = greet n p (participants h) (on_conn n (\<lambda>c. c\<lparr>hc_info := Some p\<rparr>)
     (h\<lparr>h_next_peer_id := h_next_peer_id h + 1\<rparr>))"
  have "queues_ok h2" using q by (simp add: h2_def)
  then have "queues_ok (on_conn n (\<lambda>c. c\<lparr>hc_peer_id := pa_peer_id p\<rparr>) h2)"
    by (intro queues_ok_on_conn) (simp_all add: queues_ok_def queue_of_def)
  moreover have "enrol n p h = (on_conn n (\<lambda>c. c\<lparr>hc_peer_id := pa_peer_id p\<rparr>) h2)
      \<lparr>h_follows := (h_follows h2)(pa_peer_id p \<mapsto> new_slot)\<rparr>"
    by (simp add: enrol_def h2_def Let_def on_conn_def)
  ultimately show ?thesis by (simp add: queues_ok_def queue_of_def)
qed

lemma enrolled_fields:
  "h_conns (enrolled n p h) = h_conns h" "h_conn_counter (enrolled n p h) = h_conn_counter h"
  "peer_of (enrolled n p h) m = (if m = n then pa_peer_id p else peer_of h m)"
  "info_of (enrolled n p h) m = (if m = n then p else info_of h m)"
  "hc_info (h_conn (enrolled n p h) m) = (if m = n then Some p else hc_info (h_conn h m))"
  "hc_closing (h_conn (enrolled n p h) m) = hc_closing (h_conn h m)"
  "queue_of (enrolled n p h) m = queue_of h m"
  "h_links (enrolled n p h) = h_links h" "h_link_requests (enrolled n p h) = h_link_requests h"
  "h_follows (enrolled n p h) = (h_follows h)(pa_peer_id p \<mapsto> new_slot)"
  "h_follow_calls (enrolled n p h) = h_follow_calls h"
  "h_next_peer_id (enrolled n p h) = h_next_peer_id h + 1"
  "h_local (enrolled n p h) = h_local h" "h_max_participants (enrolled n p h) = h_max_participants h"
  "h_running (enrolled n p h) = h_running h"
  by (simp_all add: enrolled_def on_conn_def peer_of_def info_of_def queue_of_def)

text \<open>What is asked of the newcomer.\<close>

definition newcomer :: "nat \<Rightarrow> participant_info \<Rightarrow> host \<Rightarrow> bool" where
  "newcomer n p h \<longleftrightarrow> n \<in> set (h_conns h) \<and> peer_of h n = 0 \<and> pa_peer_id p = h_next_peer_id h \<and>
     participant_ok p \<and> pa_display_name p \<notin> pa_display_name ` set (everyone h) \<and>
     pa_color p \<notin> pa_color ` set (everyone h) \<and> length (everyone h) < h_max_participants h \<and>
     h_next_peer_id h \<noteq> - 1"

lemma word_less_add_1: "(x :: 'a :: len word) \<noteq> - 1 \<Longrightarrow> x < x + 1"
  by (rule ccontr) (simp add: not_less inc_less_eq_self_iff_eq)

lemma enrolled_admitted:
  assumes "newcomer n p h" and "shape_ok h"
  shows "set (admitted_conns (enrolled n p h)) = insert n (set (admitted_conns h))"
    and "distinct (admitted_conns (enrolled n p h))" and "n \<notin> set (admitted_conns h)"
    and "length (admitted_conns (enrolled n p h)) = Suc (length (admitted_conns h))"
proof -
  from assms have n: "n \<in> set (h_conns h)" "peer_of h n = 0" "pa_peer_id p \<noteq> 0"
    by (auto simp: newcomer_def participant_ok_def)
  then show set: "set (admitted_conns (enrolled n p h)) = insert n (set (admitted_conns h))"
    by (auto simp: admitted_conns_def enrolled_fields split: if_splits)
  have d: "distinct (h_conns h)" using assms(2) by (simp add: shape_ok_def conns_ok_def held_def)
  then show d': "distinct (admitted_conns (enrolled n p h))" by (simp add: admitted_conns_def enrolled_fields)
  show fresh: "n \<notin> set (admitted_conns h)" using n(2) by (simp add: admitted_conns_def)
  have d0: "distinct (admitted_conns h)" using d by (simp add: admitted_conns_def)
  have "card (set (admitted_conns (enrolled n p h))) = Suc (card (set (admitted_conns h)))"
    using fresh by (simp add: set)
  then show "length (admitted_conns (enrolled n p h)) = Suc (length (admitted_conns h))"
    unfolding distinct_card [OF d'] distinct_card [OF d0] .
qed

text \<open>A field that told the old ones apart and is new for the newcomer tells all apart.\<close>

lemma enrolled_distinct:
  assumes "newcomer n p h" and "shape_ok h" and "distinct (map f (everyone h))" and "f p \<notin> f ` set (everyone h)"
  shows "distinct (map f (everyone (enrolled n p h)))"
proof -
  let ?g = "enrolled n p h"
  note adm = enrolled_admitted [OF assms(1,2)]
  have old: "info_of ?g m = info_of h m" if "m \<in> set (admitted_conns h)" for m
    using that adm(3) by (auto simp: enrolled_fields)
  have "inj_on (\<lambda>m. f (info_of h m)) (set (admitted_conns h))"
    using assms(3) by (simp add: everyone_def distinct_map comp_def)
  moreover have "f p \<noteq> f (info_of h m)" "f (info_of h m) \<noteq> f p" if "m \<in> set (admitted_conns h)" for m
    using assms(4) that by (auto simp: everyone_def image_iff)
  ultimately have "inj_on (\<lambda>m. f (info_of ?g m)) (insert n (set (admitted_conns h)))"
    using adm(3) old by (auto simp: inj_on_def enrolled_fields)
  then have "distinct (map (\<lambda>m. f (info_of ?g m)) (admitted_conns ?g))"
    using adm(1,2) by (simp add: distinct_map)
  moreover have "f (h_local h) \<noteq> f (info_of ?g m)" if "m \<in> insert n (set (admitted_conns h))" for m
  proof (cases "m = n")
    case True
    with assms(4) show ?thesis by (auto simp: everyone_def enrolled_fields)
  next
    case False
    with that old have "info_of ?g m = info_of h m" "m \<in> set (admitted_conns h)" by simp_all
    with assms(3) show ?thesis by (auto simp: everyone_def)
  qed
  ultimately show ?thesis
    by (simp add: everyone_def comp_def enrolled_fields(13) adm(1)) (simp add: image_iff)
qed

lemma enrolled_peers:
  assumes "newcomer n p h" and "shape_ok h"
  shows "set (peers (enrolled n p h)) = insert (pa_peer_id p) (set (peers h))" and "distinct (peers (enrolled n p h))"
proof -
  let ?g = "enrolled n p h"
  note adm = enrolled_admitted [OF assms]
  have old: "peer_of ?g m = peer_of h m" if "m \<in> set (admitted_conns h)" for m
    using that adm(3) by (auto simp: enrolled_fields)
  show "set (peers ?g) = insert (pa_peer_id p) (set (peers h))"
    using old adm(3) by (auto simp: peers_def adm(1) enrolled_fields image_iff)
  have ids: "distinct (peers h)" "\<And>q. q \<in> set (peers h) \<Longrightarrow> q < h_next_peer_id h"
    using assms(2) by (simp_all add: shape_ok_def ids_ok_def)
  then have "inj_on (peer_of h) (set (admitted_conns h))" by (simp add: peers_def distinct_map)
  moreover have "pa_peer_id p \<noteq> peer_of h m" "peer_of h m \<noteq> pa_peer_id p" if "m \<in> set (admitted_conns h)" for m
    using ids(2) [of "peer_of h m"] that assms(1) by (auto simp: peers_def newcomer_def)
  ultimately have "inj_on (peer_of ?g) (insert n (set (admitted_conns h)))"
    using adm(3) old by (auto simp: inj_on_def enrolled_fields)
  then show "distinct (peers ?g)" using adm(1,2) by (simp add: peers_def distinct_map)
qed

lemma enrolled_shape_ok:
  assumes "newcomer n p h" and "shape_ok h"
  shows "shape_ok (enrolled n p h)"
proof -
  let ?g = "enrolled n p h"
  from assms(2) have ok: "conns_ok h" "ids_ok h" "names_ok h" "follows_ok h"
    "h_running h \<Longrightarrow> roster_ok (members h) (h_links h) (h_link_requests h)"
    by (simp_all add: shape_ok_def)
  from assms(1) have p: "pa_peer_id p = h_next_peer_id h" "participant_ok p" "h_next_peer_id h \<noteq> - 1"
    unfolding newcomer_def by blast+
  then have p4: "pa_peer_id p \<noteq> 0" by (simp add: participant_ok_def)
  note peers = enrolled_peers [OF assms] and adm = enrolled_admitted [OF assms]
  have "conns_ok ?g"
    unfolding conns_ok_def held_def enrolled_fields using ok(1) p p4
    by (simp add: conns_ok_def held_def split: option.splits)
  moreover have "ids_ok ?g"
  proof -
    have "h_next_peer_id h < h_next_peer_id h + 1" using p(3) by (rule word_less_add_1)
    with ok(2) peers p(1) show ?thesis
      by (auto simp: ids_ok_def enrolled_fields intro: less_trans)
  qed
  moreover have "names_ok ?g"
    using ok(3) assms(1) enrolled_distinct [OF assms, of pa_display_name] enrolled_distinct [OF assms, of pa_color]
    by (simp add: names_ok_def newcomer_def enrolled_fields) (simp add: everyone_def adm(4))
  moreover have "follows_ok ?g"
    using ok(4) by (simp add: follows_ok_def peers(1) enrolled_fields)
  moreover have "roster_ok (members ?g) (h_links ?g) (h_link_requests ?g)" if "h_running h"
    using roster_ok_mono [OF ok(5) [OF that], of "members ?g"] by (auto simp: members_def peers(1) enrolled_fields)
  ultimately show ?thesis by (simp add: shape_ok_def enrolled_fields)
qed

lemma enrolled_log_ok:
  assumes "newcomer n p h" and "log_ok u h" and "ids_ok h" and "follows_ok h"
  shows "log_ok u (enrolled n p h)"
proof -
  let ?g = "enrolled n p h"
  note log = log_okD [OF assms(2)]
  have p: "pa_peer_id p = h_next_peer_id h" "h_next_peer_id h \<noteq> - 1" using assms(1) by (simp_all add: newcomer_def)
  have less: "h_next_peer_id h < h_next_peer_id h + 1" using p(2) by (rule word_less_add_1)
  have "h_next_peer_id h \<notin> set (peers h)" using assms(3) by (auto simp: ids_ok_def)
  then have none: "h_follows h (h_next_peer_id h) = None" using assms(4) by (auto simp: follows_ok_def)
  have calls: "calls_of q ?g = calls_of q h" for q by (simp add: calls_of_def enrolled_fields)
  show ?thesis
  proof (rule log_okI, unfold calls enrolled_fields p(1))
    show "distinct (map fst u)" by (rule log(1))
    fix q sl
    assume "(q, sl) \<in> set u"
    from log(2) [OF this] less show "q < h_next_peer_id h + 1 \<and> ((h_follows h)(h_next_peer_id h \<mapsto> new_slot)) q = None \<and>
        (\<exists>s. sl = Some s \<and> follow_inv s (calls_of q h))" by auto
  next
    fix q s
    assume "((h_follows h)(h_next_peer_id h \<mapsto> new_slot)) q = Some s"
    with log(3) [of q s] log(5) [OF none] new_slot_inv show "follow_inv s (calls_of q h)" by (auto split: if_splits)
  next
    fix q
    assume q: "((h_follows h)(h_next_peer_id h \<mapsto> new_slot)) q = None"
    then have "h_follows h q = None" by (auto split: if_splits)
    from log(4) [OF this] show "feed_run NoSink (calls_of q h) \<noteq> None" .
    assume "h_next_peer_id h + 1 \<le> q"
    with less have "h_next_peer_id h \<le> q" by (auto intro: order.trans less_imp_le)
    from log(5) [OF \<open>h_follows h q = None\<close> this] show "calls_of q h = []" .
  qed
qed

lemma enrol_inv:
  assumes "newcomer n p h" and "host_inv u h"
  shows "host_inv u (enrol n p h)"
proof -
  from assms(2) have h: "queues_ok h" "shape_ok h" "log_ok u h" by (simp_all add: host_inv_def)
  have "shape_ok (enrol n p h)"
    using enrolled_shape_ok [OF assms(1) h(2)] shape_ok_view [OF host_view_shape [OF enrol_view]] by simp
  moreover have "log_ok u (enrol n p h)"
    using enrolled_log_ok [OF assms(1) h(3)] h(2) log_ok_view [OF enrol_view] by (simp add: shape_ok_def)
  ultimately show ?thesis using enrol_queues_ok [OF h(1)] by (simp add: host_inv_def)
qed

lemma new_participant_newcomer:
  assumes "host_inv u h" and "\<not> hc_closing (h_conn h n)" and "peer_of h n = 0" and "h_next_peer_id h \<noteq> - 1"
    and "length (participants h) + 1 < h_max_participants h"
    and "text_ok MAX_APP_VERSION_BYTES app_version" and "utf8_valid display_name" and "publisher_ok publisher"
  shows "newcomer n (new_participant h app_version display_name color publisher) h"
proof -
  let ?p = "new_participant h app_version display_name color publisher"
  let ?taken = "pa_display_name (h_local h) # map pa_display_name (participants h)"
  let ?colors = "pa_color (h_local h) # map pa_color (participants h)"
  have ok: "conns_ok h" "ids_ok h" "names_ok h" using assms(1) by (simp_all add: host_inv_def shape_ok_def)
  have all: "everyone h = h_local h # participants h" using ok(1) by (rule everyone_participants)
  have few: "length (participants h) + 1 < 8" using ok(3) assms(5) by (simp add: names_ok_def MAX_PARTICIPANTS_def)
  obtain s where s: "dedupe_display_name display_name ?taken = Some s" "s \<notin> set ?taken" "utf8_valid s"
    "length s \<le> MAX_DISPLAY_NAME_BYTES"
    using dedupe_found [OF assms(7), of ?taken] few by auto
  have "length ?colors < unat COLOR_COUNT" using few by simp
  then have col: "pa_color ?p \<notin> set ?colors" "is_valid_color (pa_color ?p)"
    unfolding new_participant_def Let_def by (simp_all only: participant_info.simps assign_color_free assign_color_valid not_False_eq_True)
  have fields: "pa_peer_id ?p = h_next_peer_id h" "pa_display_name ?p = s" "pa_app_version ?p = app_version"
    "pa_publisher ?p = publisher"
    by (simp_all add: new_participant_def Let_def s(1))
  have "n \<in> set (h_conns h)" using ok(1) assms(2) by (simp add: conns_ok_def held_def)
  moreover have "h_next_peer_id h \<noteq> 0" using ok(2) by (auto simp: ids_ok_def HOST_PEER_ID_def)
  ultimately show ?thesis
    using assms s(2-4) col unfolding newcomer_def participant_ok_def fields all text_ok_def by simp
qed

lemma admit_inv:
  assumes "host_inv u h" and "\<not> hc_closing (h_conn h n)" and "peer_of h n = 0" and "h_next_peer_id h \<noteq> - 1"
    and "message_ok (Hello pv rv app_version display_name color publisher)"
  shows "host_inv u (admit e n pv rv app_version display_name color publisher h)"
proof -
  let ?p = "new_participant h app_version display_name color publisher"
  have "host_inv u (push_event (SE_Joined ?p) (broadcast close_connection (PeerJoined ?p) (pa_peer_id ?p) (enrol n ?p h)))"
    if "length (participants h) + 1 < h_max_participants h"
    using that assms by (intro session.S_event session.broadcast_closed enrol_inv
        new_participant_newcomer) (simp_all add: text_ok_def)
  with assms(1) show ?thesis by (simp add: admit_def Let_def session.refuse_closed)
qed

subsection \<open>Frames\<close>

text \<open>Changes of what no part of the invariant looks at.\<close>

lemma same_view_inv:
  assumes "host_inv u h" and "h_conn g = h_conn h" and "host_view g = host_view h"
  shows "host_inv u g"
  using assms by (intro host_inv_view [OF assms(3) queues_ok_cong [OF assms(2)]]) (simp_all add: host_inv_def)

lemma same_view_updates [simp]:
  "host_view (h\<lparr>h_stats := st\<rparr>) = host_view h" "host_view (h\<lparr>h_coalescer := co\<rparr>) = host_view h"
  "host_view (h\<lparr>h_sync_pause := sp\<rparr>) = host_view h" "host_view (h\<lparr>h_events := ev\<rparr>) = host_view h"
  "host_view (h\<lparr>h_race_counter := rc\<rparr>) = host_view h" "host_view (h\<lparr>h_link_speed := ls\<rparr>) = host_view h"
  "host_view (h\<lparr>h_start_state := ss\<rparr>) = host_view h"
  "host_view (h\<lparr>h_link_sinks := sinks, h_link_calls := lc\<rparr>) = host_view h"
  by (simp_all add: host_view_def shape_view_def peer_of_def queue_of_def)

lemma host_inv_updates [simp]:
  "host_inv u h \<Longrightarrow> host_inv u (h\<lparr>h_stats := st\<rparr>)" "host_inv u h \<Longrightarrow> host_inv u (h\<lparr>h_coalescer := co\<rparr>)"
  "host_inv u h \<Longrightarrow> host_inv u (h\<lparr>h_sync_pause := sp\<rparr>)" "host_inv u h \<Longrightarrow> host_inv u (h\<lparr>h_events := ev\<rparr>)"
  "host_inv u h \<Longrightarrow> host_inv u (h\<lparr>h_race_counter := rc\<rparr>)" "host_inv u h \<Longrightarrow> host_inv u (h\<lparr>h_link_speed := ls\<rparr>)"
  "host_inv u h \<Longrightarrow> host_inv u (h\<lparr>h_start_state := ss\<rparr>)"
  "host_inv u h \<Longrightarrow> host_inv u (h\<lparr>h_link_sinks := sinks, h_link_calls := lc\<rparr>)"
  by (rule same_view_inv; simp)+

lemma on_conn_inv:
  assumes "host_inv u h"
    and "\<And>c. hc_peer_id (f c) = hc_peer_id c \<and> hc_info (f c) = hc_info c \<and>
      hc_closing (f c) = hc_closing c \<and> q_closed (hc_queue (f c)) = q_closed (hc_queue c)"
    and "\<And>c. queue_ok (hc_queue c) \<Longrightarrow> queue_ok (hc_queue (f c))"
  shows "host_inv u (on_conn n f h)"
  using assms(1) by (intro host_inv_view [OF view_on_conn [OF assms(2)] queues_ok_on_conn [OF assms(3)]])
    (simp_all add: host_inv_def)

lemma note_pause_inv: "host_inv u h \<Longrightarrow> host_inv u (fst (note_pause from paused h))"
  by (simp add: note_pause_def Let_def)

lemmas host_intros = session.S_event session.send_to_closed session.push_to_closed
  session.push_all_closed session.broadcast_closed session.protocol_error_closed session.refuse_closed
  session.close_connection_closed relay_inv host_inv_updates note_pause_inv request_snapshot_inv

lemma admitted_member:
  assumes "host_inv u h" and "\<not> hc_closing (h_conn h n)" and "peer_of h n \<noteq> 0"
  shows "peer_of h n \<in> members h"
proof -
  have "n \<in> set (h_conns h)" using assms by (simp add: host_inv_def shape_ok_def conns_ok_def held_def)
  with assms(3) show ?thesis by (auto simp: members_def peers_def admitted_conns_def)
qed

lemma handle_pause_inv:
  assumes "host_inv u h"
  shows "host_inv u (handle_admitted e n from (Pause p paused) raw h)"
proof -
  obtain h' c where np: "note_pause from paused h = (h', c)" by (cases "note_pause from paused h")
  have "host_inv u h'" using note_pause_inv [OF assms, of "from" paused] np by simp
  with np show ?thesis by (simp add: host_intros)
qed

lemma handle_pong_inv:
  assumes "host_inv u h"
  shows "host_inv u (handle_admitted e n from (Pong nonce t) raw h)"
proof -
  have "host_inv u (on_conn n (\<lambda>c. c\<lparr>hc_ping := pg\<rparr>) h)" for pg
    by (rule on_conn_inv [OF assms]) simp_all
  then show ?thesis by (simp add: Let_def case_prod_beta host_intros split: option.split)
qed

lemma handle_admitted_inv:
  assumes "host_inv u h" and "from \<in> members h"
  shows "host_inv u (handle_admitted e n from m raw h)"
proof (cases m)
  case (Pause p paused)
  then show ?thesis using handle_pause_inv [OF assms(1)] by simp
next
  case (Pong nonce t)
  then show ?thesis using handle_pong_inv [OF assms(1)] by simp
qed (use assms in \<open>simp_all add: host_intros handle_link_inv handle_stream_inv handle_sync_hash_inv
    handle_snapshot_inv split: option.split\<close>)

lemma handle_frame_inv:
  assumes "host_inv u h" and "h_next_peer_id h \<noteq> - 1"
  shows "host_inv u (handle_frame e n f h)"
proof -
  define g where "g = h\<lparr>h_stats := (h_stats h)\<lparr>
           ss_bytes_in := ss_bytes_in (h_stats h) + of_nat (length f),
           ss_messages_in := ss_messages_in (h_stats h) + 1\<rparr>\<rparr>"
  have g: "host_inv u g" "h_next_peer_id g \<noteq> - 1" using assms by (simp_all add: g_def)
  show ?thesis
  proof (cases "hc_closing (h_conn g n)")
    case True
    with g(1) show ?thesis by (simp add: handle_frame_def Let_def flip: g_def)
  next
    case False
    show ?thesis
    proof (cases "decode_frame f")
      case (Inl err)
      with False g(1) show ?thesis
        by (simp add: handle_frame_def Let_def host_intros flip: g_def split: decode_error.split)
    next
      case (Inr m)
      then have ok: "message_ok m" by (auto simp: decode_frame_def dest: decode_sound split: if_splits)
      show ?thesis
      proof (cases "peer_of g n = 0")
        case True
        with False Inr g ok show ?thesis
          by (cases m) (simp_all add: handle_frame_def Let_def host_intros admit_inv flip: g_def)
      next
        case peer: False
        with False Inr g show ?thesis
          by (simp add: handle_frame_def Let_def handle_admitted_inv admitted_member flip: g_def)
      qed
    qed
  qed
qed

subsection \<open>Connections and threads\<close>

lemma add_connection_inv:
  assumes "host_inv u h"
  shows "host_inv u (add_connection e h)"
proof -
  let ?n = "h_conn_counter h"
  let ?g = "add_connection e h"
  from assms have ok: "queues_ok h" "conns_ok h" "shape_ok h" "log_ok u h" by (simp_all add: host_inv_def shape_ok_def)
  have fresh: "?n \<notin> set (h_conns h)" using ok(2) by (auto simp: conns_ok_def)
  have fields: "h_conns ?g = h_conns h @ [?n]" "h_conn_counter ?g = ?n + 1"
    "h_conn ?g = (h_conn h)(?n := conn_new (e_now e + h_handshake_timeout h))"
    "h_links ?g = h_links h" "h_link_requests ?g = h_link_requests h" "h_follows ?g = h_follows h"
    "h_next_peer_id ?g = h_next_peer_id h" "h_local ?g = h_local h" "h_running ?g = h_running h"
    "h_max_participants ?g = h_max_participants h" "h_follow_calls ?g = h_follow_calls h"
    by (simp_all add: add_connection_def Let_def)
  have new: "hc_info (h_conn ?g ?n) = None" "peer_of ?g ?n = 0" "\<not> hc_closing (h_conn ?g ?n)"
    "queue_of ?g ?n = queue_new"
    by (simp_all add: fields conn_new_def peer_of_def queue_of_def)
  have old: "h_conn ?g m = h_conn h m" "peer_of ?g m = peer_of h m" "info_of ?g m = info_of h m"
    "queue_of ?g m = queue_of h m" if "m \<noteq> ?n" for m
    using that by (simp_all add: fields peer_of_def info_of_def queue_of_def)
  have "filter (\<lambda>m. peer_of ?g m \<noteq> 0) (h_conns h) = filter (\<lambda>m. peer_of h m \<noteq> 0) (h_conns h)"
  proof (rule filter_cong [OF refl])
    fix m
    assume "m \<in> set (h_conns h)"
    with fresh have "m \<noteq> ?n" by blast
    then show "(peer_of ?g m \<noteq> 0) = (peer_of h m \<noteq> 0)" using old(2) [of m] by simp
  qed
  then have adm: "admitted_conns ?g = admitted_conns h" by (simp add: admitted_conns_def fields(1) new(2))
  have closing: "hc_closing (h_conn ?g m) = (if m = ?n then False else hc_closing (h_conn h m))" for m
    by (simp add: fields conn_new_def)
  have mem: "m \<noteq> ?n" if "m \<in> set (admitted_conns h)" for m
    using fresh that by (auto simp: admitted_conns_def)
  have peers: "peers ?g = peers h" and all: "everyone ?g = everyone h"
    unfolding peers_def everyone_def adm fields by (simp_all add: old mem)
  have "held ?g" using ok(2) fresh by (auto simp: conns_ok_def held_def fields(1) closing)
  moreover have "\<not> q_closed (queue_of ?g m) \<and> m < h_conn_counter ?g \<and> (case hc_info (h_conn ?g m) of
      None \<Rightarrow> peer_of ?g m = 0
    | Some p \<Rightarrow> peer_of ?g m \<noteq> 0 \<and> pa_peer_id p = peer_of ?g m \<and> participant_ok p)"
    if "m \<in> set (h_conns ?g)" for m
  proof (cases "m = ?n")
    case True
    then show ?thesis by (simp add: new fields(2)) (simp add: queue_new_def)
  next
    case False
    with that have "m \<in> set (h_conns h)" by (simp add: fields(1))
    with ok(2) have "\<not> q_closed (queue_of h m)" "m < ?n" "case hc_info (h_conn h m) of
      None \<Rightarrow> peer_of h m = 0 | Some p \<Rightarrow> peer_of h m \<noteq> 0 \<and> pa_peer_id p = peer_of h m \<and> participant_ok p"
      by (simp_all add: conns_ok_def)
    then show ?thesis unfolding old [OF False] fields(2) by simp
  qed
  ultimately have "conns_ok ?g" by (simp add: conns_ok_def)
  moreover have "queues_ok ?g"
  proof -
    have "queue_ok queue_new" by (simp add: queue_ok_def queue_new_def)
    with ok(1) show ?thesis by (simp add: queues_ok_def queue_of_def fields conn_new_def)
  qed
  moreover have "log_ok u ?g"
    using ok(4) by (simp add: log_ok_def calls_of_def fields)
  ultimately show ?thesis
    using ok(3) by (simp add: host_inv_def shape_ok_def ids_ok_def names_ok_def follows_ok_def members_def
        peers all fields)
qed

lemma reader_stopped_inv: "host_inv u h \<Longrightarrow> host_inv u (reader_stopped e n stop h)"
  by (cases stop) (simp_all add: host_intros)

lemma writer_drains_inv: "host_inv u h \<Longrightarrow> host_inv u (writer_drains n h)"
  unfolding writer_drains_def by (rule on_conn_inv) (simp_all add: queue_ok_drain)

lemma writer_pings_inv: "host_inv u h \<Longrightarrow> host_inv u (writer_pings e n t h)"
  unfolding writer_pings_def by (rule on_conn_inv) simp_all

lemma writer_stopped_inv:
  assumes "host_inv u h"
  shows "host_inv u (writer_stopped n failed h)"
proof -
  have "host_inv u (on_conn n (\<lambda>c. c\<lparr>hc_writer_done := True,
      hc_shut_down := hc_shut_down c \<or> hc_closing c \<or> failed\<rparr>) h)"
    using assms by (rule on_conn_inv) simp_all
  from session.close_connection_closed [OF this] this show ?thesis
    unfolding writer_stopped_def Let_def by (simp only: simp_thms split: if_split)
qed

lemma flush_coalescer_inv: "host_inv u h \<Longrightarrow> host_inv u (flush_coalescer e h)"
  by (simp add: flush_coalescer_def case_prod_beta host_intros split: option.split)

text \<open>Steps taken for each of a list of connections.\<close>

lemma fold_inv: "(\<And>x h. I h \<Longrightarrow> I (f x h)) \<Longrightarrow> I h \<Longrightarrow> I (fold f xs h)"
  by (induction xs arbitrary: h) simp_all

lemma tick_inv: "host_inv u h \<Longrightarrow> host_inv u (tick e h)"
  unfolding tick_def Let_def by (rule fold_inv [where I = "host_inv u"]) (simp_all add: host_intros flush_coalescer_inv)

subsection \<open>The application's calls\<close>

lemma publish_inv: "host_inv u h \<Longrightarrow> host_inv u (snd (publish item target h))"
  by (simp add: publish_def) (intro impI fold_inv [where I = "host_inv u"]; simp add: host_intros)

lemma slot_changed_inv:
  "host_inv u h \<Longrightarrow> h_follows h p = Some s \<Longrightarrow>
    (\<exists>a. follow_step a s = (s', calls)) \<Longrightarrow> host_inv u (set_slot p s' calls h)"
  using set_slot_inv by blast

lemma subscribe_inv:
  assumes "host_inv u h"
  shows "host_inv u (snd (subscribe e p h))"
proof (cases "h_follows h p")
  case (Some s)
  obtain s' calls where r: "set_sink s = (s', calls)" by (cases "set_sink s")
  then have "host_inv u (set_slot p s' calls h)" by (intro set_slot_inv [OF assms Some, of OpSetSink]) simp
  with assms Some r show ?thesis by (simp add: subscribe_def host_intros)
qed (use assms in \<open>simp add: subscribe_def\<close>)

lemma unsubscribe_inv:
  assumes "host_inv u h"
  shows "host_inv u (unsubscribe p h)"
proof (cases "h_follows h p")
  case (Some s)
  obtain s' calls where r: "clear_sink s = (s', calls)" by (cases "clear_sink s")
  then have "host_inv u (set_slot p s' calls h)" by (intro set_slot_inv [OF assms Some, of OpClearSink]) simp
  with assms Some r show ?thesis by (simp add: unsubscribe_def)
qed (use assms in \<open>simp add: unsubscribe_def\<close>)

lemma send_pause_inv:
  assumes "host_inv u h"
  shows "host_inv u (snd (send_pause b h))"
proof -
  obtain h' c where np: "note_pause HOST_PEER_ID b h = (h', c)" by (cases "note_pause HOST_PEER_ID b h")
  have "host_inv u h'" using note_pause_inv [OF assms, of HOST_PEER_ID b] np by simp
  with assms np show ?thesis by (simp add: send_pause_def host_intros)
qed

lemma set_start_state_inv: "host_inv u h \<Longrightarrow> host_inv u (snd (set_start_state st h))"
  by (simp add: set_start_state_def Let_def host_intros split: option.split)
    (intro impI allI fold_inv [where I = "host_inv u"]; simp add: host_intros)

lemma kick_inv: "host_inv u h \<Longrightarrow> host_inv u (snd (kick p h))"
  by (simp add: kick_def host_intros split: option.split)

lemma send_link_inv: "host_inv u h \<Longrightarrow> host_inv u (snd (send_link lm h))"
  by (simp add: send_link_def Let_def route_link_inv members_def)

lemma set_link_sink_inv: "host_inv u h \<Longrightarrow> host_inv u (set_link_sink p b h)"
  by (simp add: set_link_sink_def case_prod_beta)

subsection \<open>Leaving\<close>

definition say_goodbye :: "nat \<Rightarrow> host \<Rightarrow> host" where
  "say_goodbye n h = (let h = send_to n Goodbye h
     in if hc_closing (h_conn h n) then h else on_conn n (begin_close True) h)"

lemma say_goodbye_fields:
  "h_conns (say_goodbye n h) = h_conns h" "h_conn_counter (say_goodbye n h) = h_conn_counter h"
  "h_follows (say_goodbye n h) = h_follows h" "h_follow_calls (say_goodbye n h) = h_follow_calls h"
  "h_next_peer_id (say_goodbye n h) = h_next_peer_id h" "h_local (say_goodbye n h) = h_local h"
  "h_max_participants (say_goodbye n h) = h_max_participants h" "h_running (say_goodbye n h) = h_running h"
  "hc_closing (h_conn (say_goodbye n h) m) = (m = n \<or> hc_closing (h_conn h m))"
  by (auto simp: say_goodbye_def send_to_def try_push_to_def case_prod_beta on_conn_def begin_close_def Let_def)

lemma say_goodbye_queues: "queues_ok h \<Longrightarrow> queues_ok (say_goodbye n h)"
  unfolding say_goodbye_def Let_def
  by (auto intro!: queues_ok_on_conn simp: begin_close_def queue_ok_close)

lemma goodbyes_fields:
  "h_conns (fold say_goodbye ns h) = h_conns h" "h_conn_counter (fold say_goodbye ns h) = h_conn_counter h"
  "h_follows (fold say_goodbye ns h) = h_follows h" "h_follow_calls (fold say_goodbye ns h) = h_follow_calls h"
  "h_next_peer_id (fold say_goodbye ns h) = h_next_peer_id h" "h_local (fold say_goodbye ns h) = h_local h"
  "h_max_participants (fold say_goodbye ns h) = h_max_participants h" "h_running (fold say_goodbye ns h) = h_running h"
  "hc_closing (h_conn (fold say_goodbye ns h) m) = (m \<in> set ns \<or> hc_closing (h_conn h m))"
  by (induction ns arbitrary: h) (auto simp: say_goodbye_fields)

lemma slot_ends_inv:
  "host_inv (map (\<lambda>p. (p, f p)) order) h \<Longrightarrow> host_inv [] (fold (\<lambda>p. log_slot_end p r (f p)) order h)"
  by (induction order arbitrary: h) (simp_all add: session.S_log_end)

lemma departing_inv:
  assumes "host_inv [] h" and "distinct order" and "set order = {p. h_follows h p \<noteq> None}"
  shows "host_inv (map (\<lambda>p. (p, h_follows h p)) order)
    (fold say_goodbye (h_conns h) (h\<lparr>h_left := True, h_running := False, h_conns := [], h_follows := (\<lambda>_. None)\<rparr>))"
proof -
  let ?h0 = "h\<lparr>h_left := True, h_running := False, h_conns := [], h_follows := (\<lambda>_. None)\<rparr>"
  let ?g = "fold say_goodbye (h_conns h) ?h0"
  from assms(1) have ok: "queues_ok h" "conns_ok h" "ids_ok h" "names_ok h" "follows_ok h" "log_ok [] h"
    by (simp_all add: host_inv_def shape_ok_def)
  have "queues_ok ?h0" by (rule queues_ok_cong [OF _ ok(1)]) simp
  then have "queues_ok ?g" by (intro fold_inv [where I = queues_ok] say_goodbye_queues)
  moreover have "shape_ok ?g"
  proof -
    have none: "admitted_conns ?g = []" by (simp add: admitted_conns_def goodbyes_fields)
    have "hc_closing (h_conn ?g m)" for m
      using ok(2) by (auto simp: goodbyes_fields conns_ok_def held_def)
    then have "conns_ok ?g" by (simp add: conns_ok_def held_def goodbyes_fields)
    then show ?thesis
      using ok(3,4) by (auto simp: shape_ok_def ids_ok_def names_ok_def follows_ok_def peers_def everyone_def
          none goodbyes_fields)
  qed
  moreover have "log_ok (map (\<lambda>p. (p, h_follows h p)) order) ?g"
  proof -
    have calls: "calls_of q ?g = calls_of q h" for q by (simp add: calls_of_def goodbyes_fields)
    note log = log_okD [OF ok(6)]
    have known: "p < h_next_peer_id h" if "h_follows h p \<noteq> None" for p
      using that ok(3,5) by (simp add: follows_ok_def ids_ok_def)
    show ?thesis
    proof (rule log_okI, unfold calls goodbyes_fields)
      show "distinct (map fst (map (\<lambda>p. (p, h_follows h p)) order))" using assms(2) by (simp add: comp_def)
      fix q sl
      assume "(q, sl) \<in> set (map (\<lambda>p. (p, h_follows h p)) order)"
      with assms(3) obtain s where s: "sl = Some s" "h_follows h q = Some s" by auto
      with log(3) [OF s(2)] known [of q]
      show "q < h_next_peer_id ?h0 \<and> h_follows ?h0 q = None \<and> (\<exists>s. sl = Some s \<and> follow_inv s (calls_of q h))" by simp
    next
      fix q
      show "feed_run NoSink (calls_of q h) \<noteq> None"
        using log(3,4) [of q] follow_inv_run by (cases "h_follows h q") auto
      assume "h_next_peer_id ?h0 \<le> q"
      then have "h_follows h q = None" using known [of q] by fastforce
      with log(5) [OF this] \<open>h_next_peer_id ?h0 \<le> q\<close> show "calls_of q h = []" by simp
    qed simp
  qed
  ultimately show ?thesis by (simp add: host_inv_def)
qed

lemma leave_inv:
  assumes "host_inv [] h" and "distinct order" and "set order = {p. h_follows h p \<noteq> None}"
  shows "host_inv [] (leave order h)"
proof -
  define g where "g = fold (\<lambda>p. log_slot_end p LR_Left (h_follows h p)) order
     (fold say_goodbye (h_conns h) (h\<lparr>h_left := True, h_running := False, h_conns := [], h_follows := (\<lambda>_. None)\<rparr>))"
  have g: "host_inv [] g" unfolding g_def by (rule slot_ends_inv) (rule departing_inv [OF assms])
  obtain sinks calls where s: "sinks_end_all LR_Left (h_link_sinks g) = (sinks, calls)"
    by (cases "sinks_end_all LR_Left (h_link_sinks g)")
  have eq: "leave order h = (if h_left h then h else
      fold (\<lambda>n. on_conn n (\<lambda>c. c\<lparr>hc_shut_down := True\<rparr>)) (h_conns h) (push_event (SE_Disconnected DR_Left)
        (g\<lparr>h_link_sinks := sinks, h_link_calls := h_link_calls g @ calls\<rparr>)))"
    using s by (simp add: leave_def g_def Let_def flip: say_goodbye_def [unfolded Let_def])
  have "host_inv [] (fold (\<lambda>n. on_conn n (\<lambda>c. c\<lparr>hc_shut_down := True\<rparr>)) ns h')" if "host_inv [] h'" for ns h'
    using that by (rule fold_inv [where I = "host_inv []", rotated]) (rule on_conn_inv; simp)
  with g assms(1) show ?thesis unfolding eq by (simp add: session.S_event)
qed

subsection \<open>Histories\<close>

lemma host_op_step_inv:
  assumes "host_inv [] h" and "host_admits (e, a) h"
  shows "host_inv [] (host_op_step e a h)"
  using assms
  by (cases a) (simp_all add: host_admits_def add_connection_inv handle_frame_inv reader_stopped_inv
      writer_drains_inv writer_pings_inv writer_stopped_inv tick_inv publish_inv subscribe_inv unsubscribe_inv
      request_snapshot_inv send_reset_all_def set_sync_pause_def set_link_speed_def host_intros send_pause_inv
      set_start_state_inv kick_inv send_link_inv set_link_sink_inv leave_inv poll_events_def Let_def flush_coalescer_inv)

interpretation hosting: history host_step host_admits "\<lambda>h _. host_inv [] h"
  by unfold_locales (auto simp: host_step_def intro: host_op_step_inv)

lemma host_new_inv:
  assumes "utf8_valid display_name" and "text_ok MAX_APP_VERSION_BYTES app_version" and "publisher_ok publisher"
  shows "host_inv [] (host_new k nds timeout sid display_name color app_version publisher)"
proof -
  let ?h = "host_new k nds timeout sid display_name color app_version publisher"
  have none: "admitted_conns ?h = []" by (simp add: admitted_conns_def host_new_def Let_def)
  have name: "text_ok MAX_DISPLAY_NAME_BYTES (sanitize_display_name display_name)"
    using clean_name_valid [OF sanitize_clean [OF assms(1)]] by (simp add: text_ok_def)
  have "participant_ok (h_local ?h)"
    using assms(2,3) name by (simp add: host_new_def Let_def participant_ok_def HOST_PEER_ID_def assign_color_valid)
  moreover have "queues_ok ?h"
    by (simp add: queues_ok_def queue_of_def host_new_def Let_def conn_new_def queue_ok_def queue_new_def)
  moreover have "conns_ok ?h" by (simp add: conns_ok_def held_def host_new_def Let_def)
  moreover have "ids_ok ?h" by (simp add: ids_ok_def peers_def none) (simp add: host_new_def Let_def HOST_PEER_ID_def)
  moreover have "log_ok [] ?h" by (simp add: log_ok_def calls_of_def) (simp add: host_new_def Let_def)
  moreover have "1 \<le> h_max_participants ?h" "h_max_participants ?h \<le> MAX_PARTICIPANTS" "h_links ?h = []"
    "h_link_requests ?h = []" "h_follows ?h = (\<lambda>_. None)" "pa_peer_id (h_local ?h) = HOST_PEER_ID"
    by (simp_all add: host_new_def Let_def MAX_PARTICIPANTS_def)
  ultimately show ?thesis
    by (simp add: host_inv_def shape_ok_def names_ok_def everyone_def none follows_ok_def peers_def roster_ok_def)
qed

subsection \<open>What the invariant says\<close>

lemma participants_ids: "conns_ok h \<Longrightarrow> map pa_peer_id (participants h) = peers h"
  by (auto simp: participants_everyone peers_def info_of_def conns_ok_def admitted_conns_def split: option.splits)

lemma participants_ok: "conns_ok h \<Longrightarrow> list_all participant_ok (participants h)"
  by (auto simp: participants_everyone info_of_def list_all_iff conns_ok_def admitted_conns_def split: option.splits)

lemma host_inv_participants:
  assumes "host_inv u h"
  shows "let everybody = h_local h # participants h
     in distinct (map pa_peer_id everybody) \<and> distinct (map pa_display_name everybody) \<and>
        distinct (map pa_color everybody) \<and> list_all participant_ok everybody \<and>
        length everybody \<le> h_max_participants h \<and> h_max_participants h \<le> MAX_PARTICIPANTS"
proof -
  have ok: "conns_ok h" "ids_ok h" "names_ok h" using assms by (simp_all add: host_inv_def shape_ok_def)
  have "distinct (HOST_PEER_ID # peers h)" using ok(2) by (auto simp: ids_ok_def)
  with ok(3) participants_ids [OF ok(1)] participants_ok [OF ok(1)] show ?thesis
    by (simp add: names_ok_def everyone_participants [OF ok(1)] Let_def)
qed

lemma host_inv_roster:
  assumes "host_inv u h"
  shows "let ids = insert HOST_PEER_ID (pa_peer_id ` set (participants h))
     in h_running h \<longrightarrow> distinct (link_ends (h_links h)) \<and> set (link_ends (h_links h)) \<subseteq> ids \<and>
          distinct (map fst (h_link_requests h)) \<and>
          (\<forall>(r, t, _) \<in> set (h_link_requests h). r \<noteq> t \<and> r \<in> ids \<and> t \<in> ids)"
proof -
  have ok: "conns_ok h" "h_running h \<Longrightarrow> roster_ok (members h) (h_links h) (h_link_requests h)"
    using assms by (simp_all add: host_inv_def shape_ok_def)
  have "insert HOST_PEER_ID (pa_peer_id ` set (participants h)) = members h"
    using arg_cong [OF participants_ids [OF ok(1)], of set] by (simp add: members_def)
  with ok(2) show ?thesis by (simp add: roster_ok_def Let_def)
qed

lemma host_inv_feeds: "host_inv u h \<Longrightarrow> feed_run NoSink (calls_of p h) \<noteq> None"
  using log_okD(3,4) [of u h p] by (cases "h_follows h p") (auto simp: host_inv_def dest: follow_inv_run)

lemmas host_history_inv = hosting.history_inv [OF host_new_inv]
lemmas host_participants = host_inv_participants [OF host_history_inv]
lemmas host_roster = host_inv_roster [OF host_history_inv]
lemmas host_feeds = host_inv_feeds [OF host_history_inv]

end
