(* ===== verification/Host_Ids.thy ===== *)
theory Host_Ids
  imports Host_Run
begin

text \<open>
  How peer ids are used up: a step of the host hands out one id at most, and only a frame can. So
  histories with fewer frames than ids are admitted by \<open>host_admits\<close>, as far as ids go.
\<close>

interpretation id_counter: host_closed "\<lambda>_ h. h_next_peer_id h = k" for k
  by unfold_locales
    (auto simp: try_push_to_def try_urgent_to_def host_receive_link_def push_event_def departed_fields
      end_link_sink_def log_slot_end_def on_conn_def case_prod_beta split: sum.split option.split)

text \<open>The counter through the machinery and the operations.\<close>

lemmas same_next_id = id_counter.push_to_closed id_counter.push_all_closed id_counter.broadcast_closed
  id_counter.deliver_link_closed id_counter.announce_link_closed id_counter.send_to_closed
  id_counter.protocol_error_closed id_counter.refuse_closed id_counter.close_connection_closed
  id_counter.S_event id_counter.S_push

lemma next_id_set_slot [simp]: "h_next_peer_id (set_slot p s calls h) = h_next_peer_id h"
  by (simp add: set_slot_def)

lemma next_id_request [simp]: "h_next_peer_id (request_snapshot_from e p force h) = h_next_peer_id h"
  by (simp add: request_snapshot_from_def case_prod_beta Let_def same_next_id split: option.split)

lemma next_id_relay [simp]: "h_next_peer_id (relay from raw h) = h_next_peer_id h"
  by (simp add: relay_def same_next_id)

lemma next_id_route [simp]: "h_next_peer_id (route_link from m raw h) = h_next_peer_id h"
  by (cases m) (simp_all add: route_link_def route_request_def route_accept_def route_decline_def route_unlink_def
      route_data_def Let_def same_next_id split: option.split)

lemma next_id_link [simp]: "h_next_peer_id (handle_link e n from m raw h) = h_next_peer_id h"
  by (simp add: handle_link_def same_next_id split: sum.split)

lemma next_id_stream [simp]: "h_next_peer_id (handle_stream e n from f bs raw h) = h_next_peer_id h"
  by (simp add: handle_stream_def Let_def case_prod_beta same_next_id push_event_def
      split: sum.split option.split stream_outcome.split)

lemma next_id_hash [simp]: "h_next_peer_id (handle_sync_hash from f hash raw h) = h_next_peer_id h"
  by (simp add: handle_sync_hash_def Let_def case_prod_beta split: option.split)

lemma next_id_snapshot [simp]: "h_next_peer_id (handle_snapshot e n from w raw h) = h_next_peer_id h"
  by (simp add: handle_snapshot_def Let_def case_prod_beta same_next_id split: option.split sum.split)

lemma next_id_admitted [simp]: "h_next_peer_id (handle_admitted e n from m raw h) = h_next_peer_id h"
  by (cases m) (simp_all add: same_next_id note_pause_def Let_def case_prod_beta on_conn_def push_event_def
      split: option.split)

lemma next_id_admit:
  "h_next_peer_id (admit e n pv rv av dn c p h) \<in> {h_next_peer_id h, h_next_peer_id h + 1}"
proof -
  have "h_next_peer_id (enrol n q h) = h_next_peer_id h + 1" for q
    by (simp add: enrol_def greet_def Let_def on_conn_def same_next_id split: option.split)
  then show ?thesis by (simp add: admit_def Let_def same_next_id)
qed

lemma next_id_frame:
  "h_next_peer_id (handle_frame e n f h) \<in> {h_next_peer_id h, h_next_peer_id h + 1}"
proof -
  define g where "g = h\<lparr>h_stats := (h_stats h)\<lparr>
           ss_bytes_in := ss_bytes_in (h_stats h) + of_nat (length f),
           ss_messages_in := ss_messages_in (h_stats h) + 1\<rparr>\<rparr>"
  have g: "h_next_peer_id g = h_next_peer_id h" by (simp add: g_def)
  show ?thesis
    using next_id_admit [of e n _ _ _ _ _ _ g] g
    by (auto simp: handle_frame_def Let_def same_next_id simp flip: g_def
        split: sum.split decode_error.split message.split)
qed

lemma next_id_fold: "(\<And>x h. h_next_peer_id (f x h) = h_next_peer_id h) \<Longrightarrow> h_next_peer_id (fold f xs h) = h_next_peer_id h"
  by (induction xs arbitrary: h) simp_all

lemma next_id_flush [simp]: "h_next_peer_id (flush_coalescer e h) = h_next_peer_id h"
  by (simp add: flush_coalescer_def case_prod_beta push_event_def split: option.split)

lemma next_id_leave [simp]: "h_next_peer_id (leave order h) = h_next_peer_id h"
proof -
  have ends: "h_next_peer_id (fold (\<lambda>p. log_slot_end p LR_Left (f p)) order g) = h_next_peer_id g" for f g
    by (rule next_id_fold) (simp add: log_slot_end_def split: option.split)
  have shut: "h_next_peer_id (fold (\<lambda>n. on_conn n (\<lambda>c. c\<lparr>hc_shut_down := True\<rparr>)) ns g) = h_next_peer_id g" for ns g
    by (rule next_id_fold) (simp add: on_conn_def)
  show ?thesis
    by (simp add: leave_def Let_def case_prod_beta shut push_event_def ends goodbyes_fields
        flip: say_goodbye_def [unfolded Let_def])
qed

definition is_frame :: "host_op \<Rightarrow> bool" where
  "is_frame a \<longleftrightarrow> (case a of HFrame _ _ \<Rightarrow> True | _ \<Rightarrow> False)"

lemma next_id_step:
  assumes "\<not> is_frame a"
  shows "h_next_peer_id (host_op_step e a h) = h_next_peer_id h"
proof (cases a)
  case (HReaderStop n stop)
  then show ?thesis by (cases stop) (simp_all add: same_next_id)
next
  case HTick
  then show ?thesis by (simp add: tick_def Let_def next_id_fold same_next_id)
next
  case (HPublish item target)
  then show ?thesis by (simp add: publish_def next_id_fold same_next_id)
next
  case (HSetStartState st)
  then show ?thesis by (simp add: set_start_state_def next_id_fold same_next_id Let_def split: option.split)
qed (use assms in \<open>simp_all add: is_frame_def add_connection_def writer_drains_def writer_pings_def writer_stopped_def
    poll_events_def subscribe_def unsubscribe_def send_reset_all_def set_sync_pause_def set_link_speed_def
    send_pause_def note_pause_def kick_def send_link_def set_link_sink_def on_conn_def Let_def case_prod_beta
    push_event_def same_next_id split: option.split\<close>)

text \<open>Operations that do not leave are admitted as long as their frames cannot use up the ids.\<close>

lemma stays_admitted:
  "list_all (\<lambda>(_, a). \<nexists>order. a = HLeave order) ops \<Longrightarrow>
   unat (h_next_peer_id h) + length (filter (is_frame \<circ> snd) ops) < 2 ^ 16 - 1 \<Longrightarrow>
   admitted_run host_step host_admits ops h"
proof (induction ops arbitrary: h)
  case (Cons a ops)
  obtain e b where a: "a = (e, b)" by (cases a)
  let ?h = "host_op_step e b h"
  have "unat (h_next_peer_id h) \<noteq> 2 ^ 16 - 1" using Cons.prems(2) by simp
  moreover have "unat (- 1 :: peer_id) = 2 ^ 16 - 1" by (simp add: unsigned_minus_1_eq_mask mask_eq_exp_minus_1)
  ultimately have ne: "h_next_peer_id h \<noteq> - 1" by metis
  then have "host_admits a h"
    using Cons.prems(1) a by (auto simp: host_admits_def split: host_op.split)
  moreover have "unat (h_next_peer_id ?h) + length (filter (is_frame \<circ> snd) ops) < 2 ^ 16 - 1"
  proof (cases "is_frame b")
    case True
    then obtain n f where b: "b = HFrame n f" by (auto simp: is_frame_def split: host_op.splits)
    have "unat (h_next_peer_id h + 1) \<le> unat (h_next_peer_id h) + 1"
      by (simp add: unat_word_ariths)
    moreover have "h_next_peer_id ?h \<in> {h_next_peer_id h, h_next_peer_id h + 1}"
      using next_id_frame [of e n f h] by (simp add: b)
    ultimately have "unat (h_next_peer_id ?h) \<le> unat (h_next_peer_id h) + 1" by auto
    with Cons.prems(2) True a show ?thesis by (simp add: comp_def)
  next
    case False
    with Cons.prems(2) a show ?thesis by (simp add: next_id_step comp_def)
  qed
  ultimately show ?case
    using Cons.IH [of ?h] Cons.prems(1) a by (simp add: host_step_def comp_def)
qed simp

end
