(* ===== verification/Memory_Values.thy ===== *)
theory Memory_Values
  imports Prelude
begin

text \<open>
  Typed values in a console's memory, \<open>supershuckie-memory-tools/src/value.rs\<close>: formats, and
  reading and writing numbers. Floating point is a parameter (\<open>float_lib\<close>); every integer and BCD
  operation is written out. An operation that would panic returns \<open>Panics\<close>; overflow of an integer
  counts as a panic, as in builds that check for it.
\<close>

unbundle bit_operations_syntax

subsection \<open>Formats\<close>

datatype value_type = U8 | I8 | U16 | I16 | U32 | I32 | F32 | Bcd | Bytes | Text

definition ALL_TYPES :: "value_type list" where
  "ALL_TYPES = [U8, I8, U16, I16, U32, I32, F32, Bcd, Bytes, Text]"

fun fixed_size :: "value_type \<Rightarrow> u8 option" where
  "fixed_size U8 = Some 1" | "fixed_size I8 = Some 1"
| "fixed_size U16 = Some 2" | "fixed_size I16 = Some 2"
| "fixed_size U32 = Some 4" | "fixed_size I32 = Some 4" | "fixed_size F32 = Some 4"
| "fixed_size Bcd = None" | "fixed_size Bytes = None" | "fixed_size Text = None"

definition is_signed :: "value_type \<Rightarrow> bool" where
  "is_signed ty \<longleftrightarrow> ty = I8 \<or> ty = I16 \<or> ty = I32"

definition is_numeric :: "value_type \<Rightarrow> bool" where
  "is_numeric ty \<longleftrightarrow> \<not> (ty = Bytes \<or> ty = Text)"

definition is_integer :: "value_type \<Rightarrow> bool" where
  "is_integer ty \<longleftrightarrow> is_numeric ty \<and> ty \<noteq> F32"

definition has_endianness :: "value_type \<Rightarrow> bool" where
  "has_endianness ty \<longleftrightarrow> ty = U16 \<or> ty = I16 \<or> ty = U32 \<or> ty = I32 \<or> ty = F32 \<or> ty = Bcd"

definition MAX_VALUE_SIZE :: nat where
  "MAX_VALUE_SIZE = 64"

record value_format =
  vf_ty :: value_type
  vf_size :: u8
  vf_big_endian :: bool

definition clamp :: "'a::linorder \<Rightarrow> 'a \<Rightarrow> 'a \<Rightarrow> 'a" where
  "clamp x lo hi = (if x < lo then lo else if hi < x then hi else x)"

definition value_format_new :: "value_type \<Rightarrow> u8 \<Rightarrow> bool \<Rightarrow> value_format" where
  "value_format_new ty sz big_endian =
     (let sz = (case fixed_size ty of
          Some fixed \<Rightarrow> fixed
        | None \<Rightarrow> if ty = Bcd then clamp sz 1 4 else clamp sz 1 (of_nat MAX_VALUE_SIZE))
      in \<lparr>vf_ty = ty, vf_size = sz, vf_big_endian = (big_endian \<and> has_endianness ty)\<rparr>)"

definition vf_len :: "value_format \<Rightarrow> nat" where
  "vf_len f = unat (vf_size f)"

subsection \<open>Numbers\<close>

text \<open>The operations on \<open>f64\<close> and \<open>f32\<close> that the code uses.\<close>

record 'f float_lib =
  fl_of_int :: "i64 \<Rightarrow> 'f"
  fl_of_f32 :: "u32 \<Rightarrow> 'f"
  fl_to_f32 :: "'f \<Rightarrow> u32"
  fl_sub :: "'f \<Rightarrow> 'f \<Rightarrow> 'f"
  fl_abs :: "'f \<Rightarrow> 'f"
  fl_lt :: "'f \<Rightarrow> 'f \<Rightarrow> bool"
  fl_le :: "'f \<Rightarrow> 'f \<Rightarrow> bool"

datatype 'f number = IntNumber i64 | FloatNumber 'f

fun as_f64 :: "('f, 'x) float_lib_scheme \<Rightarrow> 'f number \<Rightarrow> 'f" where
  "as_f64 fl (IntNumber i) = fl_of_int fl i"
| "as_f64 fl (FloatNumber f) = f"

definition raw_bits :: "value_format \<Rightarrow> bytes \<Rightarrow> u64" where
  "raw_bits f bs =
     (let bs = take (min (min (length bs) (vf_len f)) 8) bs
      in foldl (\<lambda>raw b. push_bit 8 raw OR ucast b) 0 (if vf_big_endian f then bs else rev bs))"

text \<open>Two decimal digits of a BCD byte; the digits of a value, most significant first.\<close>

definition bcd_push :: "i64 option \<Rightarrow> u8 \<Rightarrow> i64 option" where
  "bcd_push acc b = (case acc of
     None \<Rightarrow> None
   | Some v \<Rightarrow>
       (let hi = drop_bit 4 b; lo = b AND 0xF
        in if 9 < hi \<or> 9 < lo then None else Some (v * 100 + ucast (hi * 10 + lo))))"

definition decode_bcd :: "value_format \<Rightarrow> bytes \<Rightarrow> i64 option" where
  "decode_bcd f bs = (let bs = take (vf_len f) bs
     in foldl bcd_push (Some 0) (if vf_big_endian f then bs else rev bs))"

definition decode_number :: "('f, 'x) float_lib_scheme \<Rightarrow> value_format \<Rightarrow> bytes \<Rightarrow> 'f number option" where
  "decode_number fl f bs =
     (if length bs < vf_len f then None
      else let raw = raw_bits f bs
           in case vf_ty f of
               U8 \<Rightarrow> Some (IntNumber raw) | U16 \<Rightarrow> Some (IntNumber raw) | U32 \<Rightarrow> Some (IntNumber raw)
             | I8 \<Rightarrow> Some (IntNumber (scast (ucast raw :: u8)))
             | I16 \<Rightarrow> Some (IntNumber (scast (ucast raw :: u16)))
             | I32 \<Rightarrow> Some (IntNumber (scast (ucast raw :: u32)))
             | F32 \<Rightarrow> Some (FloatNumber (fl_of_f32 fl (ucast raw)))
             | Bcd \<Rightarrow> map_option IntNumber (decode_bcd f bs)
             | Bytes \<Rightarrow> None | Text \<Rightarrow> None)"

subsection \<open>Writing numbers\<close>

datatype 'a rust = Panics | Returns 'a

text \<open>The bytes of a BCD value, least significant first.\<close>

primrec bcd_bytes :: "nat \<Rightarrow> nat \<Rightarrow> bytes" where
  "bcd_bytes 0 v = []"
| "bcd_bytes (Suc n) v =
     (let two = v mod 100 in (push_bit 4 (of_nat (two div 10)) OR of_nat (two mod 10)) # bcd_bytes n (v div 100))"

definition order_bytes :: "value_format \<Rightarrow> bytes \<Rightarrow> bytes" where
  "order_bytes f out = (if vf_big_endian f then rev out else out)"

definition write_raw :: "value_format \<Rightarrow> u64 \<Rightarrow> bytes option rust" where
  "write_raw f raw = (if 8 < vf_len f then Panics
     else Returns (Some (order_bytes f (take (vf_len f) (to_le 8 raw)))))"

definition encode_number ::
    "('f, 'x) float_lib_scheme \<Rightarrow> value_format \<Rightarrow> 'f number \<Rightarrow> bytes option rust" where
  "encode_number fl f number =
     (let len = vf_len f in case (vf_ty f, number) of
        (F32, n) \<Rightarrow> write_raw f (ucast (fl_to_f32 fl (as_f64 fl n)))
      | (Bcd, IntNumber v) \<Rightarrow>
          (if sint v < 0 then Returns None
           else if 2 ^ 63 \<le> (100 :: nat) ^ len then Panics
           else if 100 ^ len \<le> nat (sint v) then Returns None
           else Returns (Some (order_bytes f (bcd_bytes len (nat (sint v))))))
      | (ty, IntNumber v) \<Rightarrow>
          (if \<not> is_integer ty then Returns None
           else if len = 0 \<or> 8 \<le> len then Panics
           else if sint v < - (2 ^ (len * 8 - 1)) \<or> 2 ^ (len * 8) - 1 < sint v then Returns None
           else write_raw f v)
      | _ \<Rightarrow> Returns None)"

subsection \<open>Formats are in range\<close>

text \<open>What \<open>ValueFormat::new\<close> makes; formats that were read from a file need not be like this.\<close>

definition format_ok :: "value_format \<Rightarrow> bool" where
  "format_ok f \<longleftrightarrow> (case fixed_size (vf_ty f) of
       Some n \<Rightarrow> vf_size f = n
     | None \<Rightarrow> 1 \<le> vf_len f \<and> vf_len f \<le> (if vf_ty f = Bcd then 4 else MAX_VALUE_SIZE)) \<and>
     (vf_big_endian f \<longrightarrow> has_endianness (vf_ty f))"

lemma value_format_new_ok: "format_ok (value_format_new ty sz be)"
  by (cases ty) (auto simp: format_ok_def value_format_new_def Let_def vf_len_def clamp_def has_endianness_def
      MAX_VALUE_SIZE_def word_less_nat_alt not_less)

lemma value_format_new_id: "format_ok f \<Longrightarrow> value_format_new (vf_ty f) (vf_size f) (vf_big_endian f) = f"
  by (cases "vf_ty f") (auto simp: format_ok_def value_format_new_def Let_def vf_len_def clamp_def
      MAX_VALUE_SIZE_def word_less_nat_alt intro!: value_format.equality)

lemma format_ok_len:
  assumes "format_ok f"
  shows "1 \<le> vf_len f" and "vf_len f \<le> MAX_VALUE_SIZE" and "is_numeric (vf_ty f) \<Longrightarrow> vf_len f \<le> 4"
  using assms by (cases "vf_ty f"; simp add: format_ok_def vf_len_def is_numeric_def MAX_VALUE_SIZE_def)+

subsection \<open>Bytes and words\<close>

lemma push_or: "push_bit 8 (acc :: u64) OR ucast (b :: u8) = acc * 256 + ucast b"
proof -
  have "push_bit 8 acc + ucast b = push_bit 8 acc OR ucast b"
    by (rule disjunctive_add) (auto simp: bit_push_bit_iff bit_ucast_iff dest: bit_imp_le_length)
  then show ?thesis by (simp add: push_bit_eq_mult mult.commute)
qed

lemma foldl_bytes:
  "foldl (\<lambda>raw b. push_bit 8 raw OR ucast b) (acc :: u64) xs = acc * 256 ^ length xs + of_nat (le_nat (rev xs))"
proof (induction xs rule: rev_induct)
  case (snoc x xs)
  then show ?case by (simp add: push_or algebra_simps)
qed simp

lemma raw_bits_le:
  assumes "vf_len f \<le> 8" and "length bs = vf_len f"
  shows "raw_bits f bs = from_le (order_bytes f bs)"
  using assms by (simp add: raw_bits_def foldl_bytes from_le_def order_bytes_def)

lemma order_bytes_twice [simp]: "order_bytes f (order_bytes f bs) = bs"
  by (simp add: order_bytes_def)

lemma length_order_bytes [simp]: "length (order_bytes f bs) = length bs"
  by (simp add: order_bytes_def)

text \<open>What is written is read back, up to the bits the value has.\<close>

lemma write_raw_bits:
  assumes "write_raw f raw = Returns (Some bs)"
  shows "length bs = vf_len f" and "raw_bits f bs = take_bit (8 * vf_len f) raw"
proof -
  from assms have len: "vf_len f \<le> 8" and bs: "bs = order_bytes f (take (vf_len f) (to_le 8 raw))"
    by (auto simp: write_raw_def split: if_splits)
  then show length: "length bs = vf_len f" by simp
  have "le_nat (take k (nat_le 8 n)) = n mod 256 ^ k" if "k \<le> 8" for k n
  proof -
    have "take k (nat_le (k + j) n) = nat_le k n" for j
      by (induction k arbitrary: n) simp_all
    from this [of "8 - k"] that show ?thesis by (simp add: le_nat_nat_le)
  qed
  then have "le_nat (take (vf_len f) (to_le 8 raw)) = unat raw mod 256 ^ vf_len f"
    using len by (simp add: to_le_def)
  then have "raw_bits f bs = of_nat (unat raw mod 256 ^ vf_len f)"
    using raw_bits_le [OF len length] by (simp add: bs from_le_def)
  also have "\<dots> = take_bit (8 * vf_len f) raw"
  proof (rule word_unat_eq_iff [THEN iffD2])
    have "unat raw mod 256 ^ vf_len f \<le> unat raw" by simp
    also have "unat raw < 2 ^ 64" using unsigned_less [of raw] by simp
    finally have "unat (of_nat (unat raw mod 256 ^ vf_len f) :: u64) = unat raw mod 256 ^ vf_len f"
      by (simp add: unat_of_nat)
    then show "unat (of_nat (unat raw mod 256 ^ vf_len f) :: u64) = unat (take_bit (8 * vf_len f) raw)"
      by (simp only: unsigned_take_bit_eq) (simp add: take_bit_eq_mod power_mult)
  qed
  finally show "raw_bits f bs = take_bit (8 * vf_len f) raw" .
qed

subsection \<open>BCD\<close>

abbreviation bcd_byte :: "nat \<Rightarrow> u8" where
  "bcd_byte two \<equiv> push_bit 4 (of_nat (two div 10)) OR of_nat (two mod 10)"

lemma bcd_byte_digits:
  assumes "two < 100"
  shows "drop_bit 4 (bcd_byte two) = of_nat (two div 10)" and "bcd_byte two AND 0xF = of_nat (two mod 10)"
    and "\<not> 9 < (of_nat (two div 10) :: u8)" and "\<not> 9 < (of_nat (two mod 10) :: u8)"
proof -
  have "\<forall>two \<in> set [0..<100]. drop_bit 4 (bcd_byte two) = of_nat (two div 10) \<and> bcd_byte two AND 0xF = of_nat (two mod 10)
      \<and> \<not> 9 < (of_nat (two div 10) :: u8) \<and> \<not> 9 < (of_nat (two mod 10) :: u8)"
    by code_simp
  with assms show "drop_bit 4 (bcd_byte two) = of_nat (two div 10)" "bcd_byte two AND 0xF = of_nat (two mod 10)"
    "\<not> 9 < (of_nat (two div 10) :: u8)" "\<not> 9 < (of_nat (two mod 10) :: u8)" by simp_all
qed

lemma bcd_digits_byte:
  assumes "\<not> 9 < drop_bit 4 b" and "\<not> 9 < b AND 0xF"
  shows "b = bcd_byte (10 * unat (drop_bit 4 b) + unat (b AND 0xF))"
    and "10 * unat (drop_bit 4 b) + unat (b AND 0xF) < 100"
proof -
  let ?hi = "drop_bit 4 b" and ?lo = "b AND 0xF"
  have nine: "unat (9 :: u8) = 9" by simp
  have small: "unat ?hi \<le> 9" "unat ?lo \<le> 9" using assms by (simp_all add: word_less_nat_alt nine not_less)
  then have "(10 * unat ?hi + unat ?lo) div 10 = unat ?hi" "(10 * unat ?hi + unat ?lo) mod 10 = unat ?lo" by simp_all
  moreover have "b = push_bit 4 ?hi OR ?lo"
  proof (rule bit_word_eqI)
    fix n
    assume n: "n < LENGTH(8)"
    have "(0xF :: u8) = mask 4" by (simp add: mask_eq_exp_minus_1)
    then have "bit (0xF :: u8) n \<longleftrightarrow> n < 4" using n by (simp only: bit_mask_iff) simp
    with n show "bit b n = bit (push_bit 4 ?hi OR ?lo) n"
      by (auto simp: bit_or_iff bit_and_iff bit_push_bit_iff bit_drop_bit_eq not_less)
  qed
  ultimately show "b = bcd_byte (10 * unat ?hi + unat ?lo)" by simp
  show "10 * unat ?hi + unat ?lo < 100" using small by simp
qed

lemma bcd_bytes_bytes: "length (bcd_bytes n v) = n"
  by (induction n arbitrary: v) (simp_all add: Let_def)

lemma bcd_push_byte:
  assumes "two < 100"
  shows "bcd_push (Some a) (bcd_byte two) = Some (a * 100 + of_nat two)"
proof -
  note d = bcd_byte_digits [OF assms]
  have two: "two = two div 10 * 10 + two mod 10" by simp
  have "two div 10 * 10 + two mod 10 < 256" using assms by simp
  have "(ucast (of_nat (two div 10) * 10 + of_nat (two mod 10) :: u8) :: i64) = of_nat two"
  proof -
    have "(of_nat (two div 10) * 10 + of_nat (two mod 10) :: u8) = of_nat two"
      by (metis div_mult_mod_eq of_nat_add of_nat_mult of_nat_numeral)
    moreover have "two < 256" using assms by simp
    ultimately show ?thesis by (simp add: unsigned_of_nat take_bit_nat_eq_self)
  qed
  then show ?thesis using d(3,4) unfolding bcd_push_def Let_def d(1,2) by simp
qed

lemma decode_bcd_bytes:
  "v < 100 ^ n \<Longrightarrow> foldl bcd_push (Some a) (rev (bcd_bytes n v)) = Some (a * 100 ^ n + of_nat v)"
proof (induction n arbitrary: v)
  case (Suc n)
  have "v div 100 < 100 ^ n" using Suc.prems by (simp add: less_mult_imp_div_less mult.commute)
  from Suc.IH [OF this] have "foldl bcd_push (Some a) (rev (bcd_bytes (Suc n) v)) =
      Some ((a * 100 ^ n + of_nat (v div 100)) * 100 + of_nat (v mod 100))"
    by (simp add: Let_def bcd_push_byte)
  moreover have "(of_nat v :: i64) = of_nat (v div 100 * 100 + v mod 100)" by simp
  ultimately show ?case by (simp only: of_nat_add of_nat_mult) (simp add: algebra_simps)
qed simp

lemma bcd_push_None [simp]: "bcd_push None b = None"
  by (simp add: bcd_push_def)

lemma decode_bcd_inverse:
  "foldl bcd_push (Some 0) (rev out) = Some v \<Longrightarrow>
   \<exists>n < 100 ^ length out. v = of_nat n \<and> bcd_bytes (length out) n = out"
proof (induction out arbitrary: v)
  case (Cons b out)
  then obtain u where u: "foldl bcd_push (Some 0) (rev out) = Some u" "bcd_push (Some u) b = Some v"
    by (cases "foldl bcd_push (Some 0) (rev out)") simp_all
  from Cons.IH [OF u(1)] obtain n where n: "n < 100 ^ length out" "u = of_nat n" "bcd_bytes (length out) n = out"
    by blast
  define two where "two = 10 * unat (drop_bit 4 b) + unat (b AND 0xF)"
  have digits: "\<not> 9 < drop_bit 4 b" "\<not> 9 < b AND 0xF" using u(2) by (auto simp: bcd_push_def Let_def split: if_splits)
  from bcd_digits_byte [OF this] have b: "b = bcd_byte two" "two < 100" by (simp_all add: two_def)
  have "v = u * 100 + of_nat two" using u(2) bcd_push_byte [OF b(2), of u] unfolding b(1) [symmetric] by simp
  then have "v = of_nat (n * 100 + two)" by (simp add: n(2))
  moreover have "n * 100 + two < 100 ^ length (b # out)" using n(1) b(2) by simp
  moreover have "bcd_bytes (length (b # out)) (n * 100 + two) = b # out"
    using b n(3) by (simp add: Let_def)
  ultimately show ?case by blast
qed simp

subsection \<open>Reading back what was written\<close>

text \<open>The values a format can hold, and those that may be typed into it.\<close>

definition value_range :: "value_format \<Rightarrow> int set" where
  "value_range f = (let bits = 8 * vf_len f in
     if vf_ty f = Bcd then {0 ..< 100 ^ vf_len f}
     else if is_signed (vf_ty f) then {- (2 ^ (bits - 1)) ..< 2 ^ (bits - 1)}
     else {0 ..< 2 ^ bits})"

definition typed_range :: "value_format \<Rightarrow> int set" where
  "typed_range f = (let bits = 8 * vf_len f in
     if vf_ty f = Bcd then {0 ..< 100 ^ vf_len f} else {- (2 ^ (bits - 1)) ..< 2 ^ bits})"

lemma integer_types: "is_integer ty \<longleftrightarrow> ty \<in> {U8, I8, U16, I16, U32, I32, Bcd}"
  by (cases ty) (simp_all add: is_integer_def is_numeric_def)

lemma pow100: "n \<le> 4 \<Longrightarrow> (100 :: nat) ^ n \<le> 100000000"
  using power_increasing [of n 4 "100 :: nat"] by simp

text \<open>Encoding a whole number never panics, and refuses exactly what does not fit.\<close>

lemma encode_integer:
  assumes "format_ok f" and "is_integer (vf_ty f)"
  shows "encode_number fl f (IntNumber v) =
    (if sint v \<in> typed_range f
     then Returns (Some (order_bytes f (if vf_ty f = Bcd then bcd_bytes (vf_len f) (nat (sint v))
       else take (vf_len f) (to_le 8 v))))
     else Returns None)"
proof (cases "vf_ty f = Bcd")
  case True
  have "vf_len f \<le> 4" using format_ok_len(3) [OF assms(1)] assms(2) by (simp add: is_integer_def)
  from pow100 [OF this] have "\<not> 2 ^ 63 \<le> (100 :: nat) ^ vf_len f" by simp
  moreover have "(100 ^ vf_len f \<le> nat (sint v)) = (100 ^ vf_len f \<le> sint v)" if "0 \<le> sint v"
    using that by (metis nat_int of_nat_numeral of_nat_power nat_le_eq_zle)
  ultimately show ?thesis
    using True by (auto simp: encode_number_def typed_range_def Let_def)
next
  case False
  have len: "vf_len f \<noteq> 0" "vf_len f \<le> 4" using format_ok_len [OF assms(1)] assms(2) by (auto simp: is_integer_def)
  have "encode_number fl f (IntNumber v) =
      (if sint v < - (2 ^ (vf_len f * 8 - 1)) \<or> 2 ^ (vf_len f * 8) - 1 < sint v then Returns None else write_raw f v)"
    using False assms(2) len by (cases "vf_ty f") (simp_all add: encode_number_def is_integer_def is_numeric_def)
  moreover have "sint v \<in> typed_range f \<longleftrightarrow> \<not> (sint v < - (2 ^ (vf_len f * 8 - 1)) \<or> 2 ^ (vf_len f * 8) - 1 < sint v)"
    using False by (auto simp: typed_range_def Let_def mult.commute)
  ultimately show ?thesis using len(2) False by (simp add: write_raw_def)
qed

text \<open>What decoding gives for the bytes of a format.\<close>

lemma scast_range: "- (2 ^ (LENGTH('a) - 1)) \<le> sint (scast (x :: 'a::len word) :: u64) \<and>
    sint (scast x :: u64) < 2 ^ (LENGTH('a) - 1)" if "LENGTH('a) \<le> 64"
proof -
  have "sint (scast x :: u64) = sint x" using that by (simp add: sint_up_scast is_up_def source_size_def target_size_def word_size)
  then show ?thesis using sint_greater_eq [of x] sint_lt [of x] by simp
qed

lemma scast_bits: "take_bit LENGTH('a) (scast (ucast raw :: 'a::len word) :: u64) = take_bit LENGTH('a) (raw :: u64)"
  if "LENGTH('a) \<le> 64"
proof (rule bit_word_eqI)
  fix n
  assume n: "n < LENGTH(64)"
  have "bit (scast (ucast raw :: 'a word) :: u64) n = bit raw n" if "n < LENGTH('a)"
  proof -
    from that have "n = LENGTH('a) - 1 \<or> n < LENGTH('a) - 1" by linarith
    with that n show ?thesis by (auto simp: bit_signed_iff bit_ucast_iff min_def)
  qed
  then show "bit (take_bit LENGTH('a) (scast (ucast raw :: 'a word) :: u64)) n = bit (take_bit LENGTH('a) raw) n"
    by (auto simp: bit_take_bit_iff)
qed

lemma decode_bits:
  assumes "format_ok f" and "is_integer (vf_ty f)" and "vf_ty f \<noteq> Bcd" and "length bs = vf_len f"
  shows "\<exists>w. decode_number fl f bs = Some (IntNumber w) \<and> sint w \<in> value_range f \<and>
    take_bit (8 * vf_len f) w = take_bit (8 * vf_len f) (raw_bits f bs)"
proof -
  let ?raw = "raw_bits f bs"
  have len: "vf_len f \<le> 8" using format_ok_len(3) [OF assms(1)] assms(2) by (simp add: is_integer_def)
  have raw: "?raw = take_bit (8 * vf_len f) ?raw"
  proof -
    have "unat ?raw < 256 ^ vf_len f"
      using le_nat_bound [of "order_bytes f bs"] assms(4) raw_bits_le [OF len assms(4)]
      by (simp add: from_le_def unat_of_nat)
    then have "unat ?raw = take_bit (8 * vf_len f) (unat ?raw)"
      by (simp add: take_bit_eq_mod power_mult)
    then show ?thesis by (simp only: word_unat_eq_iff unsigned_take_bit_eq)
  qed
  have unsigned: "sint ?raw = uint ?raw \<and> uint ?raw < 2 ^ (8 * vf_len f)" if "vf_len f \<le> 4"
  proof -
    have "uint ?raw = take_bit (8 * vf_len f) (uint ?raw)" using arg_cong [OF raw, of uint] by (simp add: unsigned_take_bit_eq)
    then have "uint ?raw < 2 ^ (8 * vf_len f)" by (metis take_bit_int_less_exp)
    also have "(2 :: int) ^ (8 * vf_len f) \<le> 2 ^ 32" using that by (intro power_increasing) simp_all
    finally have "uint ?raw < 2 ^ 32" .
    then have "sint ?raw = uint ?raw"
      unfolding sint_uint by (intro signed_take_bit_int_eq_self) (simp_all add: order_trans [OF _ uint_ge_0])
    with \<open>uint ?raw < 2 ^ (8 * vf_len f)\<close> show ?thesis by simp
  qed
  have range: "sint ?raw \<in> {0 ..< 2 ^ (8 * vf_len f)}" if "vf_len f \<le> 4"
    using unsigned [OF that] by simp
  consider "vf_ty f \<in> {U8, U16, U32}" "\<not> is_signed (vf_ty f)" "vf_len f \<le> 4"
    | "vf_ty f = I8" "vf_len f = 1" | "vf_ty f = I16" "vf_len f = 2" | "vf_ty f = I32" "vf_len f = 4"
    using assms(1-3) by (cases "vf_ty f") (auto simp: integer_types is_signed_def format_ok_def vf_len_def)
  then show ?thesis
  proof cases
    case 1
    then have "decode_number fl f bs = Some (IntNumber ?raw)" using assms(4) by (auto simp: decode_number_def)
    with range [OF 1(3)] 1(2) assms(3) show ?thesis by (simp add: value_range_def)
  next
    case 2
    let ?w = "scast (ucast ?raw :: u8) :: u64"
    have "decode_number fl f bs = Some (IntNumber ?w)" using 2 assms(4) by (simp add: decode_number_def)
    with 2 scast_range [of "ucast ?raw :: u8"] scast_bits [where 'a = 8, of ?raw] show ?thesis
      by (simp add: value_range_def is_signed_def)
  next
    case 3
    let ?w = "scast (ucast ?raw :: u16) :: u64"
    have "decode_number fl f bs = Some (IntNumber ?w)" using 3 assms(4) by (simp add: decode_number_def)
    with 3 scast_range [of "ucast ?raw :: u16"] scast_bits [where 'a = 16, of ?raw] show ?thesis
      by (simp add: value_range_def is_signed_def)
  next
    case 4
    let ?w = "scast (ucast ?raw :: u32) :: u64"
    have "decode_number fl f bs = Some (IntNumber ?w)" using 4 assms(4) by (simp add: decode_number_def)
    with 4 scast_range [of "ucast ?raw :: u32"] scast_bits [where 'a = 32, of ?raw] show ?thesis
      by (simp add: value_range_def is_signed_def)
  qed
qed

text \<open>A value is determined by its low bits and its range.\<close>

lemma sint_of_bits:
  assumes "take_bit k (v :: u64) = take_bit k w" and "k \<le> 64"
    and "sint v \<in> {a ..< a + 2 ^ k}" and "sint w \<in> {a ..< a + 2 ^ k}"
  shows "v = w"
proof -
  have low: "take_bit k (sint x) = uint (take_bit k x)" for x :: u64
    unfolding unsigned_take_bit_eq using assms(2) by (simp add: uint_sint min_def)
  have "sint v mod 2 ^ k = sint w mod 2 ^ k"
    using low [of v] low [of w] assms(1) by (simp add: take_bit_eq_mod)
  then have "(sint v - a) mod 2 ^ k = (sint w - a) mod 2 ^ k" by (rule mod_diff_cong) simp
  then have "sint v - a = sint w - a" using assms(3,4) by simp
  then have "sint v = sint w" by simp
  then show ?thesis by (rule signed_word_eqI)
qed

lemma value_range_width:
  assumes "format_ok f" and "vf_ty f \<noteq> Bcd"
  obtains a where "value_range f = {a ..< a + 2 ^ (8 * vf_len f)}"
proof (cases "is_signed (vf_ty f)")
  case True
  obtain k where "8 * vf_len f = Suc k" using format_ok_len(1) [OF assms(1)] by (cases "8 * vf_len f") auto
  then have "value_range f = {- (2 ^ k) ..< - (2 ^ k) + 2 ^ (8 * vf_len f)}"
    using True assms(2) by (simp add: value_range_def)
  then show thesis by (rule that)
next
  case False
  then have "value_range f = {0 ..< 0 + 2 ^ (8 * vf_len f)}" using assms(2) by (simp add: value_range_def)
  then show thesis by (rule that)
qed

lemma value_range_typed:
  assumes "format_ok f" and "v \<in> value_range f"
  shows "v \<in> typed_range f"
proof -
  define k where "k = 8 * vf_len f - 1"
  then have k: "8 * vf_len f = Suc k" using format_ok_len(1) [OF assms(1)] by simp
  have "(0 :: int) < 2 ^ k" by simp
  with assms(2) show ?thesis by (simp add: value_range_def typed_range_def Let_def k split: if_splits)
qed

lemma decode_bcd_order:
  assumes "length bs = vf_len f"
  shows "decode_bcd f bs = foldl bcd_push (Some 0) (rev (order_bytes f bs))"
  using assms by (simp add: decode_bcd_def order_bytes_def)

lemma sint_of_nat: "n < 2 ^ 63 \<Longrightarrow> sint (of_nat n :: i64) = int n"
  by (simp add: signed_of_nat signed_take_bit_int_eq_self)

lemma of_nat_sint: "0 \<le> sint (v :: i64) \<Longrightarrow> of_nat (nat (sint v)) = v"
  by (rule signed_word_eqI) (simp add: sint_of_nat sint_lt)

lemma bcd_nat_range:
  assumes "format_ok f" and "vf_ty f = Bcd" and "(n :: nat) < 100 ^ vf_len f"
  shows "n < 2 ^ 63"
proof -
  have "vf_len f \<le> 4" using format_ok_len(3) [OF assms(1)] assms(2) by (simp add: is_numeric_def)
  from pow100 [OF this] assms(3) show ?thesis by simp
qed

lemma decode_encode_bits:
  assumes f: "format_ok f" "is_integer (vf_ty f)" and "encode_number fl f (IntNumber v) = Returns (Some bs)"
  shows "length bs = vf_len f \<and> sint v \<in> typed_range f \<and> (\<exists>w. decode_number fl f bs = Some (IntNumber w) \<and>
    sint w \<in> value_range f \<and> (if vf_ty f = Bcd then w = v else take_bit (8 * vf_len f) w = take_bit (8 * vf_len f) v))"
proof (cases "vf_ty f = Bcd")
  case True
  from assms(3) have v: "sint v \<in> typed_range f" and bs: "bs = order_bytes f (bcd_bytes (vf_len f) (nat (sint v)))"
    using True encode_integer [OF f, of fl v] by (simp_all split: if_splits)
  have len: "length bs = vf_len f" using bs by (simp add: bcd_bytes_bytes)
  have pos: "0 \<le> sint v" and "sint v < 100 ^ vf_len f" using v True by (simp_all add: typed_range_def)
  then have "nat (sint v) < 100 ^ vf_len f" by (simp add: nat_less_iff)
  from decode_bcd_bytes [OF this, of 0] have "decode_bcd f bs = Some v"
    unfolding decode_bcd_order [OF len] using pos by (simp add: bs of_nat_sint)
  then show ?thesis using True len v by (simp add: decode_number_def value_range_def typed_range_def)
next
  case False
  from assms(3) have v: "sint v \<in> typed_range f" and bs: "bs = order_bytes f (take (vf_len f) (to_le 8 v))"
    using False encode_integer [OF f, of fl v] by (simp_all split: if_splits)
  have "vf_len f \<le> 8" using format_ok_len(3) [OF f(1)] f(2) by (simp add: is_integer_def)
  then have "write_raw f v = Returns (Some bs)" by (simp add: write_raw_def bs)
  note raw = write_raw_bits [OF this]
  from decode_bits [OF f False raw(1), of fl] show ?thesis using False raw v by auto
qed

lemma decode_encode:
  assumes "format_ok f" and "is_integer (vf_ty f)" and "sint v \<in> value_range f"
  shows "\<exists>bs. encode_number fl f (IntNumber v) = Returns (Some bs) \<and> length bs = vf_len f \<and>
    decode_number fl f bs = Some (IntNumber v)"
proof -
  obtain bs where bs: "encode_number fl f (IntNumber v) = Returns (Some bs)"
    using encode_integer [OF assms(1,2), of fl v] value_range_typed [OF assms(1,3)] by simp
  from decode_encode_bits [OF assms(1,2) bs] obtain w where w: "length bs = vf_len f"
    "decode_number fl f bs = Some (IntNumber w)" "sint w \<in> value_range f"
    "if vf_ty f = Bcd then w = v else take_bit (8 * vf_len f) w = take_bit (8 * vf_len f) v" by blast
  have "w = v"
  proof (cases "vf_ty f = Bcd")
    case False
    obtain a where a: "value_range f = {a ..< a + 2 ^ (8 * vf_len f)}" by (rule value_range_width [OF assms(1) False])
    have "8 * vf_len f \<le> 64" using format_ok_len(3) [OF assms(1)] assms(2) by (simp add: is_integer_def)
    from sint_of_bits [OF _ this] show ?thesis using w(3,4) assms(3) False unfolding a by simp
  qed (use w(4) in simp)
  with w bs show ?thesis by blast
qed

lemma encode_decode:
  assumes f: "format_ok f" "is_integer (vf_ty f)" and len: "length bs = vf_len f"
    and dec: "decode_number fl f bs = Some (IntNumber v)"
  shows "encode_number fl f (IntNumber v) = Returns (Some bs)"
proof (cases "vf_ty f = Bcd")
  case True
  from dec have "foldl bcd_push (Some 0) (rev (order_bytes f bs)) = Some v"
    using True len by (simp add: decode_number_def decode_bcd_order split: if_splits)
  from decode_bcd_inverse [OF this] obtain n where n: "n < 100 ^ vf_len f" "v = of_nat n"
    "bcd_bytes (vf_len f) n = order_bytes f bs" using len by auto
  have "sint v = int n" using bcd_nat_range [OF f(1) True n(1)] by (simp add: n(2) sint_of_nat)
  moreover from this n(1) have "sint v \<in> typed_range f" using True by (simp add: typed_range_def)
  ultimately show ?thesis using True by (simp add: encode_integer [OF f] n(3))
next
  case False
  from decode_bits [OF f False len, of fl] dec have v: "sint v \<in> value_range f"
    "take_bit (8 * vf_len f) v = take_bit (8 * vf_len f) (raw_bits f bs)" by simp_all
  obtain cs where enc: "encode_number fl f (IntNumber v) = Returns (Some cs)"
    using encode_integer [OF f, of fl v] value_range_typed [OF f(1) v(1)] by simp
  have len8: "vf_len f \<le> 8" using format_ok_len(3) [OF f(1)] f(2) by (simp add: is_integer_def)
  have cs: "cs = order_bytes f (take (vf_len f) (to_le 8 v))"
    using False enc encode_integer [OF f, of fl v] by (simp split: if_splits)
  then have "write_raw f v = Returns (Some cs)" using len8 by (simp add: write_raw_def)
  note raw = write_raw_bits [OF this]
  have bound: "unat (raw_bits f xs) = le_nat (order_bytes f xs)" if "length xs = vf_len f" for xs
  proof -
    have "le_nat (order_bytes f xs) < 256 ^ vf_len f" using le_nat_bound [of "order_bytes f xs"] that by simp
    also have "(256 :: nat) ^ vf_len f \<le> 256 ^ 8" using len8 by (intro power_increasing) simp_all
    finally show ?thesis using raw_bits_le [OF len8 that] by (simp add: from_le_def unat_of_nat)
  qed
  have "take_bit (8 * vf_len f) (raw_bits f bs) = raw_bits f bs"
  proof (rule word_unat_eq_iff [THEN iffD2])
    have "le_nat (order_bytes f bs) < 256 ^ vf_len f" using le_nat_bound [of "order_bytes f bs"] len by simp
    then have "take_bit (8 * vf_len f) (unat (raw_bits f bs)) = unat (raw_bits f bs)"
      by (simp add: bound [OF len] take_bit_eq_mod power_mult)
    then show "unat (take_bit (8 * vf_len f) (raw_bits f bs)) = unat (raw_bits f bs)"
      by (simp only: unsigned_take_bit_eq)
  qed
  with raw(2) v(2) have "raw_bits f cs = raw_bits f bs" by simp
  then have "le_nat (order_bytes f cs) = le_nat (order_bytes f bs)" using bound [OF raw(1)] bound [OF len] by simp
  then have "order_bytes f cs = order_bytes f bs"
    using nat_le_le_nat [of "order_bytes f cs"] nat_le_le_nat [of "order_bytes f bs"] raw(1) len by simp
  then have "cs = bs" by (metis order_bytes_twice)
  with enc show ?thesis by simp
qed

end
