(* ===== verification/Bitset.thy ===== *)
theory Bitset
  imports Prelude
begin

text \<open>
  Sets of slots as 64-bit words, one bit per slot, as the RAM search keeps its candidates: the
  standard library's \<open>trailing_zeros\<close> and \<open>count_ones\<close>, the loop that takes the lowest bit off a
  word until none is left, and the list of slots that a list of words stands for.
\<close>

unbundle bit_operations_syntax

subsection \<open>The bits of a word\<close>

definition bits_of :: "u64 \<Rightarrow> nat list" where
  "bits_of w = filter (bit w) [0..<64]"

definition trailing_zeros :: "u64 \<Rightarrow> nat" where
  "trailing_zeros w = length (takeWhile (\<lambda>n. \<not> bit w n) [0..<64])"

definition count_ones :: "u64 \<Rightarrow> nat" where
  "count_ones w = length (bits_of w)"

lemma bits_of_0 [simp]: "bits_of 0 = []"
  by (simp add: bits_of_def)

lemma bits_of_lt: "b \<in> set (bits_of w) \<Longrightarrow> b < 64"
  by (auto simp: bits_of_def)

lemma in_bits_of: "b \<in> set (bits_of w) \<longleftrightarrow> bit w b"
  using bit_imp_le_length [of w b] by (auto simp: bits_of_def)

lemma bits_of_eq_Nil: "bits_of w = [] \<longleftrightarrow> w = 0"
proof
  assume empty: "bits_of w = []"
  show "w = 0"
  proof (rule bit_word_eqI)
    fix n
    show "bit w n = bit 0 n" using in_bits_of [of n w] empty by simp
  qed
qed simp

lemma bits_of_distinct [simp]: "distinct (bits_of w)"
  by (simp add: bits_of_def)

lemma bits_of_sorted: "sorted (bits_of w)"
  unfolding bits_of_def by (rule sorted_wrt_filter) (rule sorted_upt)

text \<open>The lowest bit.\<close>

lemma filter_first: "filter P xs \<noteq> [] \<Longrightarrow>
  hd (filter P xs) = xs ! length (takeWhile (\<lambda>x. \<not> P x) xs) \<and> length (takeWhile (\<lambda>x. \<not> P x) xs) < length xs"
  by (induction xs) auto

lemma trailing_zeros_hd:
  assumes "w \<noteq> 0"
  shows "trailing_zeros w = hd (bits_of w)"
proof -
  have "bits_of w \<noteq> []" using assms by (simp add: bits_of_eq_Nil)
  from filter_first [of "bit w" "[0..<64]"] this show ?thesis
    by (simp add: trailing_zeros_def bits_of_def)
qed

lemma trailing_zeros_least:
  assumes "w \<noteq> 0"
  shows "bit w (trailing_zeros w)" and "n < trailing_zeros w \<Longrightarrow> \<not> bit w n" and "trailing_zeros w < 64"
proof -
  have ne: "bits_of w \<noteq> []" using assms by (simp add: bits_of_eq_Nil)
  then have mem: "trailing_zeros w \<in> set (bits_of w)" by (simp add: trailing_zeros_hd assms)
  then show "bit w (trailing_zeros w)" by (simp add: in_bits_of)
  show "trailing_zeros w < 64" using mem by (rule bits_of_lt)
  assume less: "n < trailing_zeros w"
  show "\<not> bit w n"
  proof
    assume "bit w n"
    then have "n \<in> set (bits_of w)" by (simp add: in_bits_of)
    then have "hd (bits_of w) \<le> n"
      using bits_of_sorted [of w] by (cases "bits_of w") auto
    with less show False by (simp add: trailing_zeros_hd assms)
  qed
qed

text \<open>Taking the lowest bit off: \<open>w &= w - 1\<close>.\<close>

lemma and_pred_nat_bits:
  fixes x :: int
  assumes "0 < x"
  shows "bit (x AND (x - 1)) n \<longleftrightarrow> bit x n \<and> (\<exists>m < n. bit x m)"
  using assms
proof (induction n arbitrary: x)
  case 0
  then show ?case by (auto simp: bit_0 even_and_iff)
next
  case (Suc n)
  have split: "bit (x AND (x - 1)) (Suc n) \<longleftrightarrow> bit (x div 2) n \<and> bit ((x - 1) div 2) n"
    by (subst bit_and_iff) (simp only: bit_Suc)
  have up: "bit x (Suc n) \<longleftrightarrow> bit (x div 2) n" by (simp only: bit_Suc)
  show ?case
  proof (cases "odd x")
    case True
    then have "(x - 1) div 2 = x div 2" by presburger
    moreover have "bit x 0" using True by (simp add: bit_0)
    ultimately show ?thesis unfolding split up by auto
  next
    case False
    then have half: "(x - 1) div 2 = x div 2 - 1" and pos: "0 < x div 2" using Suc.prems by presburger+
    have "(\<exists>m < Suc n. bit x m) \<longleftrightarrow> (\<exists>m < n. bit (x div 2) m)"
    proof
      assume "\<exists>m < Suc n. bit x m"
      then obtain m where m: "m < Suc n" "bit x m" by blast
      with False have "m \<noteq> 0" by (cases m) (simp_all add: bit_0)
      then obtain k where "m = Suc k" by (cases m) auto
      with m show "\<exists>m < n. bit (x div 2) m" by (auto simp: bit_Suc)
    next
      assume "\<exists>m < n. bit (x div 2) m"
      then obtain m where "m < n" "bit (x div 2) m" by blast
      then show "\<exists>m < Suc n. bit x m" by (intro exI [of _ "Suc m"]) (simp add: bit_Suc)
    qed
    then show ?thesis
      using Suc.IH [OF pos] unfolding split up half by (simp add: bit_and_iff)
  qed
qed

lemma bit_and_pred:
  fixes w :: u64
  assumes "w \<noteq> 0"
  shows "bit (w AND (w - 1)) n \<longleftrightarrow> bit w n \<and> (\<exists>m < n. bit w m)"
proof -
  let ?x = "uint w"
  have nat: "uint v = int (unat v)" for v :: u64 by (rule uint_nat)
  have unat: "0 < unat w" using assms by (simp add: unat_gt_0)
  then have pos: "0 < ?x" unfolding nat by (simp only: of_nat_0_less_iff)
  have pred: "uint (w - 1) = ?x - 1"
    using unat unfolding nat unat_minus_one [OF assms] by linarith
  have bits: "bit (uint v) k \<longleftrightarrow> bit v k" for v :: u64 and k
    using bit_imp_le_length [of v k] by (auto simp: bit_uint_iff)
  have "bit (?x AND uint (w - 1)) n \<longleftrightarrow> bit (w AND (w - 1)) n"
    by (simp only: bit_and_iff bits)
  then show ?thesis using and_pred_nat_bits [OF pos, of n] unfolding pred bits by simp
qed

lemma bits_of_and_pred:
  assumes "w \<noteq> 0"
  shows "bits_of (w AND (w - 1)) = tl (bits_of w)"
proof -
  have ne: "bits_of w \<noteq> []" using assms by (simp add: bits_of_eq_Nil)
  have "bits_of (w AND (w - 1)) = filter (\<lambda>n. n \<noteq> trailing_zeros w) (bits_of w)"
    unfolding bits_of_def filter_filter
  proof (rule filter_cong [OF refl])
    fix n
    show "bit (w AND (w - 1)) n \<longleftrightarrow> bit w n \<and> n \<noteq> trailing_zeros w"
      unfolding bit_and_pred [OF assms]
      using trailing_zeros_least [OF assms] by (metis linorder_neqE_nat)
  qed
  also have "\<dots> = tl (bits_of w)"
  proof -
    obtain b bs where bs: "bits_of w = b # bs" using ne by (cases "bits_of w") auto
    have "b = trailing_zeros w" using bs by (simp add: trailing_zeros_hd assms)
    moreover have "b \<notin> set bs" using bits_of_distinct [of w] by (simp add: bs)
    then have "filter (\<lambda>n. n \<noteq> b) bs = bs" by (intro filter_True) auto
    ultimately show ?thesis using bs by simp
  qed
  finally show ?thesis .
qed

text \<open>The loop over the bits of a word, lowest first.\<close>

function bit_loop :: "(nat \<Rightarrow> 'a \<Rightarrow> 'a) \<Rightarrow> u64 \<Rightarrow> 'a \<Rightarrow> 'a" where
  "bit_loop f bits acc = (if bits = 0 then acc
     else bit_loop f (bits AND (bits - 1)) (f (trailing_zeros bits) acc))"
  by pat_completeness auto
termination
proof (relation "measure (\<lambda>(_, bits, _). length (bits_of bits))")
  show "wf (measure (\<lambda>(_ :: nat \<Rightarrow> 'a \<Rightarrow> 'a, bits, _). length (bits_of bits)))" by simp
next
  fix f :: "nat \<Rightarrow> 'a \<Rightarrow> 'a" and bits :: u64 and acc :: 'a
  assume ne: "bits \<noteq> 0"
  then have "bits_of bits \<noteq> []" by (simp add: bits_of_eq_Nil)
  then show "((f, bits AND (bits - 1), f (trailing_zeros bits) acc), (f, bits, acc))
      \<in> measure (\<lambda>(_, bits, _). length (bits_of bits))"
    by (simp add: bits_of_and_pred [OF ne])
qed

declare bit_loop.simps [simp del]

lemma bit_loop_fold: "bit_loop f w acc = fold f (bits_of w) acc"
proof (induction f w acc rule: bit_loop.induct)
  case (1 f bits acc)
  show ?case
  proof (cases "bits = 0")
    case True
    then show ?thesis by (simp add: bit_loop.simps)
  next
    case False
    then obtain b bs where bs: "bits_of bits = b # bs"
      by (cases "bits_of bits") (simp_all add: bits_of_eq_Nil)
    with 1 [OF False] False show ?thesis
      by (subst bit_loop.simps) (simp add: bits_of_and_pred trailing_zeros_hd)
  qed
qed

subsection \<open>The slots of a list of words\<close>

fun slots_from :: "nat \<Rightarrow> u64 list \<Rightarrow> nat list" where
  "slots_from i [] = []"
| "slots_from i (w # ws) = map (\<lambda>b. i * 64 + b) (bits_of w) @ slots_from (Suc i) ws"

definition slots :: "u64 list \<Rightarrow> nat list" where
  "slots ws = slots_from 0 ws"

definition has_slot :: "u64 list \<Rightarrow> nat \<Rightarrow> bool" where
  "has_slot ws s \<longleftrightarrow> s div 64 < length ws \<and> bit (ws ! (s div 64)) (s mod 64)"

lemma slots_from_filter:
  "slots_from i ws = filter (\<lambda>s. has_slot ws (s - i * 64)) [i * 64 ..< (i + length ws) * 64]"
proof (induction i ws rule: slots_from.induct)
  case (2 i w ws)
  have cut: "[i * 64 ..< (i + length (w # ws)) * 64] =
      [i * 64 ..< i * 64 + 64] @ [Suc i * 64 ..< (Suc i + length ws) * 64]"
    using upt_add_eq_append [of "i * 64" "i * 64 + 64" "length ws * 64"] by (simp add: algebra_simps)
  have shift: "[i * 64 ..< i * 64 + 64] = map (\<lambda>b. i * 64 + b) [0..<64]"
    using map_add_upt [of "i * 64" 64] by (simp add: add.commute)
  have "filter (\<lambda>s. has_slot (w # ws) (s - i * 64)) [i * 64 ..< i * 64 + 64] =
      map (\<lambda>b. i * 64 + b) (filter (bit w) [0..<64])"
    unfolding shift filter_map by (intro arg_cong2 [of _ _ _ _ map] filter_cong) (auto simp: has_slot_def)
  moreover have "filter (\<lambda>s. has_slot (w # ws) (s - i * 64)) [Suc i * 64 ..< (Suc i + length ws) * 64] =
      filter (\<lambda>s. has_slot ws (s - Suc i * 64)) [Suc i * 64 ..< (Suc i + length ws) * 64]"
  proof (rule filter_cong [OF refl])
    fix s
    assume "s \<in> set [Suc i * 64 ..< (Suc i + length ws) * 64]"
    then obtain t where "s = Suc i * 64 + t" by (metis atLeastLessThan_iff atLeastLessThan_upt le_Suc_ex)
    then have "s - i * 64 = 64 + t" "s - Suc i * 64 = t" by simp_all
    then show "has_slot (w # ws) (s - i * 64) = has_slot ws (s - Suc i * 64)"
      by (simp add: has_slot_def div_add_self1)
  qed
  ultimately show ?case
    unfolding cut filter_append slots_from.simps 2 by (simp add: bits_of_def)
qed simp

lemma slots_filter: "slots ws = filter (has_slot ws) [0 ..< length ws * 64]"
  using slots_from_filter [of 0 ws] by (simp add: slots_def)

lemma in_slots: "s \<in> set (slots ws) \<longleftrightarrow> has_slot ws s"
  by (auto simp: slots_filter has_slot_def)

lemma slots_sorted: "sorted (slots ws)"
  unfolding slots_filter by (rule sorted_wrt_filter) (rule sorted_upt)

lemma slots_distinct [simp]: "distinct (slots ws)"
  by (simp add: slots_filter)

lemma slots_cong:
  assumes "length ws = length vs" and "\<And>s. has_slot ws s \<longleftrightarrow> has_slot vs s"
  shows "slots ws = slots vs"
proof -
  have "has_slot ws = has_slot vs" using assms(2) by (rule ext)
  with assms(1) show ?thesis unfolding slots_filter by simp
qed

lemma slots_from_append: "slots_from i (ws @ vs) = slots_from i ws @ slots_from (i + length ws) vs"
  by (induction i ws rule: slots_from.induct) simp_all

lemma slots_empty [simp]: "slots (replicate n 0) = []"
proof -
  have "slots_from i (replicate n 0) = []" for i by (induction n arbitrary: i) simp_all
  then show ?thesis by (simp add: slots_def)
qed

text \<open>Setting a slot.\<close>

definition set_slot_bit :: "nat \<Rightarrow> u64 list \<Rightarrow> u64 list" where
  "set_slot_bit s ws = ws[s div 64 := (ws ! (s div 64)) OR push_bit (s mod 64) 1]"

lemma length_set_slot_bit [simp]: "length (set_slot_bit s ws) = length ws"
  by (simp add: set_slot_bit_def)

lemma has_slot_set:
  assumes "s < length ws * 64"
  shows "has_slot (set_slot_bit s ws) t \<longleftrightarrow> t = s \<or> has_slot ws t"
proof (cases "t div 64 = s div 64")
  case True
  have inside: "s div 64 < length ws" using assms by (simp add: less_mult_imp_div_less)
  have "bit (push_bit (s mod 64) 1 :: u64) (t mod 64) \<longleftrightarrow> t mod 64 = s mod 64"
    by (auto simp: bit_exp_iff)
  moreover have "t mod 64 = s mod 64 \<longleftrightarrow> t = s" using True by (metis div_mult_mod_eq)
  ultimately show ?thesis
    using inside True by (auto simp: has_slot_def set_slot_bit_def bit_or_iff)
next
  case False
  then show ?thesis by (auto simp: has_slot_def set_slot_bit_def)
qed

end
