(* ===== verification/Memory_Search.thy ===== *)
theory Memory_Search
  imports Memory_Values Bitset
begin

text \<open>
  The RAM search, \<open>supershuckie-memory-tools/src/search.rs\<close>, on snapshots of the regions of
  \<open>region.rs\<close>: the first scan, narrowing scans over a bitset or a list, the switch from one to the
  other, undo and redo, and pages of results. \<open>\<lambda>region chunk\<close> functions called \<open>cancel\<close> stand for what
  the cancel flag, which another thread sets, reads as at each check. The buffers a scan hands back
  for reuse and the progress it reports are left out.
\<close>

unbundle bit_operations_syntax

subsection \<open>Results that may be panics or errors\<close>

definition rbind :: "'a rust \<Rightarrow> ('a \<Rightarrow> 'b rust) \<Rightarrow> 'b rust" where
  "rbind m f = (case m of Panics \<Rightarrow> Panics | Returns x \<Rightarrow> f x)"

lemma rbind_simps [simp]: "rbind Panics f = Panics" "rbind (Returns x) f = f x"
  by (simp_all add: rbind_def)

text \<open>The operator \<open>?\<close> on a \<open>Result\<close>.\<close>

definition try_bind :: "('e + 'a) rust \<Rightarrow> ('a \<Rightarrow> ('e + 'b) rust) \<Rightarrow> ('e + 'b) rust" where
  "try_bind m f = rbind m (\<lambda>r. case r of Inl e \<Rightarrow> Returns (Inl e) | Inr x \<Rightarrow> f x)"

lemma try_bind_simps [simp]:
  "try_bind Panics f = Panics" "try_bind (Returns (Inl e)) f = Returns (Inl e)"
  "try_bind (Returns (Inr x)) f = f x"
  by (simp_all add: try_bind_def)

primrec rfold :: "('a \<Rightarrow> 'b \<Rightarrow> 'b rust) \<Rightarrow> 'a list \<Rightarrow> 'b \<Rightarrow> 'b rust" where
  "rfold f [] acc = Returns acc"
| "rfold f (x # xs) acc = rbind (f x acc) (rfold f xs)"

text \<open>\<open>&bytes[start..end]\<close>, \<open>bytes.get(start..end)\<close> and \<open>v[i]\<close>.\<close>

definition slice_at :: "'a list \<Rightarrow> nat \<Rightarrow> nat \<Rightarrow> 'a list rust" where
  "slice_at bs start e = (if start \<le> e \<and> e \<le> length bs then Returns (take (e - start) (drop start bs)) else Panics)"

definition get_slice :: "'a list \<Rightarrow> nat \<Rightarrow> nat \<Rightarrow> 'a list option" where
  "get_slice bs start e = (if start \<le> e \<and> e \<le> length bs then Some (take (e - start) (drop start bs)) else None)"

definition index_at :: "'a list \<Rightarrow> nat \<Rightarrow> 'a rust" where
  "index_at xs i = (if i < length xs then Returns (xs ! i) else Panics)"

subsection \<open>Regions and snapshots\<close>

record region_info =
  ri_name :: rstring
  ri_short_name :: rstring
  ri_base :: u32
  ri_len :: u32
  ri_big_endian :: bool
  ri_writable :: bool

definition region_end :: "region_info \<Rightarrow> u64" where
  "region_end r = ucast (ri_base r) + ucast (ri_len r)"

definition region_contains :: "region_info \<Rightarrow> u32 \<Rightarrow> bool" where
  "region_contains r address \<longleftrightarrow> ri_base r \<le> address \<and> ucast address < region_end r"

definition offset_of :: "region_info \<Rightarrow> u32 \<Rightarrow> nat \<Rightarrow> u32 option" where
  "offset_of r address len =
     (if address < ri_base r then None
      else let offset = address - ri_base r
           in if unat offset + len \<le> unat (ri_len r) then Some offset else None)"

fun find_region_from :: "nat \<Rightarrow> region_info list \<Rightarrow> u32 \<Rightarrow> nat option" where
  "find_region_from i [] address = None"
| "find_region_from i (r # rs) address =
     (if region_contains r address then Some i else find_region_from (Suc i) rs address)"

definition find_region :: "region_info list \<Rightarrow> u32 \<Rightarrow> nat option" where
  "find_region rs address = find_region_from 0 rs address"

record snapshot_region =
  sr_region :: region_info
  sr_offset :: nat
  sr_available :: nat

record memory_snapshot =
  ms_frame :: u64
  ms_epoch :: u64
  ms_layout :: "snapshot_region list"
  ms_bytes :: bytes

definition region_bytes :: "memory_snapshot \<Rightarrow> nat \<Rightarrow> bytes rust" where
  "region_bytes s index = rbind (index_at (ms_layout s) index)
     (\<lambda>layout. slice_at (ms_bytes s) (sr_offset layout) (sr_offset layout + sr_available layout))"

definition same_layout :: "memory_snapshot \<Rightarrow> memory_snapshot \<Rightarrow> bool" where
  "same_layout s other \<longleftrightarrow> length (ms_layout s) = length (ms_layout other) \<and>
     list_all (\<lambda>(a, b). sr_region a = sr_region b) (zip (ms_layout s) (ms_layout other))"

fun locate_from :: "nat \<Rightarrow> snapshot_region list \<Rightarrow> u32 \<Rightarrow> nat \<Rightarrow> (nat \<times> nat) option" where
  "locate_from index [] address len = None"
| "locate_from index (layout # rest) address len =
     (case offset_of (sr_region layout) address len of
        Some offset \<Rightarrow>
          if unat offset + len \<le> sr_available layout then Some (index, unat offset)
          else locate_from (Suc index) rest address len
      | None \<Rightarrow> locate_from (Suc index) rest address len)"

definition locate :: "memory_snapshot \<Rightarrow> u32 \<Rightarrow> nat \<Rightarrow> (nat \<times> nat) option" where
  "locate s address len = locate_from 0 (ms_layout s) address len"

subsection \<open>Comparisons and settings\<close>

record pattern_byte =
  pb_value :: u8
  pb_mask :: u8

datatype 'f comparison =
    Unknown
  | Equal "'f number" | NotEqual "'f number"
  | Less "'f number" | LessOrEqual "'f number"
  | Greater "'f number" | GreaterOrEqual "'f number"
  | Between "'f number" "'f number"
  | InSet "'f number list"
  | Pattern "pattern_byte list"
  | Changed | Unchanged | Increased | Decreased
  | IncreasedBy "'f number" | DecreasedBy "'f number"
  | ChangedBy "'f number" | ChangedByAtLeast "'f number"
  | EqualToFirst | NotEqualToFirst | IncreasedSinceFirst | DecreasedSinceFirst

fun needs_previous :: "'f comparison \<Rightarrow> bool" where
  "needs_previous Changed = True" | "needs_previous Unchanged = True"
| "needs_previous Increased = True" | "needs_previous Decreased = True"
| "needs_previous (IncreasedBy _) = True" | "needs_previous (DecreasedBy _) = True"
| "needs_previous (ChangedBy _) = True" | "needs_previous (ChangedByAtLeast _) = True"
| "needs_previous _ = False"

fun needs_first :: "'f comparison \<Rightarrow> bool" where
  "needs_first EqualToFirst = True" | "needs_first NotEqualToFirst = True"
| "needs_first IncreasedSinceFirst = True" | "needs_first DecreasedSinceFirst = True"
| "needs_first _ = False"

definition is_initial :: "'f comparison \<Rightarrow> bool" where
  "is_initial c \<longleftrightarrow> \<not> needs_previous c \<and> \<not> needs_first c"

fun works_on_bytes :: "'f comparison \<Rightarrow> bool" where
  "works_on_bytes Unknown = True" | "works_on_bytes (Pattern _) = True"
| "works_on_bytes Changed = True" | "works_on_bytes Unchanged = True"
| "works_on_bytes EqualToFirst = True" | "works_on_bytes NotEqualToFirst = True"
| "works_on_bytes _ = False"

record 'f search_settings =
  ss_format :: value_format
  ss_alignment :: u8
  ss_regions :: "nat list"
  ss_range :: "(u32 \<times> u32) option"
  ss_epsilon :: 'f

datatype bad_comparison = OnlyAsBytes value_type | PatternLength nat nat | NeedsEarlierScan | UnknownOnlyStarts

datatype search_error = Cancelled | LayoutChanged | BadComparison bad_comparison

definition check_comparison :: "'f search_settings \<Rightarrow> 'f comparison \<Rightarrow> search_error + unit" where
  "check_comparison ss c =
     (if \<not> is_numeric (vf_ty (ss_format ss)) \<and> \<not> works_on_bytes c
      then Inl (BadComparison (OnlyAsBytes (vf_ty (ss_format ss))))
      else case c of
          Pattern p \<Rightarrow>
            if length p \<noteq> vf_len (ss_format ss)
            then Inl (BadComparison (PatternLength (length p) (vf_len (ss_format ss)))) else Inr ()
        | _ \<Rightarrow> Inr ())"

subsection \<open>Reading and comparing candidates\<close>

record 'f reader =
  rd_format :: value_format
  rd_len :: nat
  rd_epsilon :: 'f

definition settings_reader :: "'f search_settings \<Rightarrow> 'f reader" where
  "settings_reader ss = \<lparr>rd_format = ss_format ss, rd_len = vf_len (ss_format ss), rd_epsilon = ss_epsilon ss\<rparr>"

text \<open>\<open>[b[0], \<dots>, b[n - 1]]\<close>.\<close>

definition first_of :: "nat \<Rightarrow> bytes \<Rightarrow> bytes rust" where
  "first_of n b = (if n \<le> length b then Returns (take n b) else Panics)"

definition reader_number ::
    "('f, 'x) float_lib_scheme \<Rightarrow> 'f reader \<Rightarrow> bytes \<Rightarrow> nat \<Rightarrow> 'f number option rust" where
  "reader_number fl rd bs offset = rbind (slice_at bs offset (offset + rd_len rd))
     (\<lambda>b. case (vf_ty (rd_format rd), vf_big_endian (rd_format rd)) of
          (U8, _) \<Rightarrow> rbind (index_at b 0) (\<lambda>v. Returns (Some (IntNumber (ucast v))))
        | (I8, _) \<Rightarrow> rbind (index_at b 0) (\<lambda>v. Returns (Some (IntNumber (scast v))))
        | (U16, False) \<Rightarrow> rbind (first_of 2 b) (\<lambda>v. Returns (Some (IntNumber (ucast (from_le v :: u16)))))
        | (U16, True) \<Rightarrow> rbind (first_of 2 b) (\<lambda>v. Returns (Some (IntNumber (ucast (from_le (rev v) :: u16)))))
        | (I16, False) \<Rightarrow> rbind (first_of 2 b) (\<lambda>v. Returns (Some (IntNumber (scast (from_le v :: u16)))))
        | (I16, True) \<Rightarrow> rbind (first_of 2 b) (\<lambda>v. Returns (Some (IntNumber (scast (from_le (rev v) :: u16)))))
        | (U32, False) \<Rightarrow> rbind (first_of 4 b) (\<lambda>v. Returns (Some (IntNumber (ucast (from_le v :: u32)))))
        | (U32, True) \<Rightarrow> rbind (first_of 4 b) (\<lambda>v. Returns (Some (IntNumber (ucast (from_le (rev v) :: u32)))))
        | (I32, False) \<Rightarrow> rbind (first_of 4 b) (\<lambda>v. Returns (Some (IntNumber (scast (from_le v :: u32)))))
        | (I32, True) \<Rightarrow> rbind (first_of 4 b) (\<lambda>v. Returns (Some (IntNumber (scast (from_le (rev v) :: u32)))))
        | _ \<Rightarrow> Returns (decode_number fl (rd_format rd) b))"

definition reader_equal :: "('f, 'x) float_lib_scheme \<Rightarrow> 'f reader \<Rightarrow> 'f number \<Rightarrow> 'f number \<Rightarrow> bool" where
  "reader_equal fl rd a b = (case (a, b) of
     (IntNumber a, IntNumber b) \<Rightarrow> a = b
   | (a, b) \<Rightarrow> fl_le fl (fl_abs fl (fl_sub fl (as_f64 fl a) (as_f64 fl b))) (rd_epsilon rd))"

definition reader_less :: "('f, 'x) float_lib_scheme \<Rightarrow> 'f reader \<Rightarrow> 'f number \<Rightarrow> 'f number \<Rightarrow> bool" where
  "reader_less fl rd a b = (case (a, b) of
     (IntNumber a, IntNumber b) \<Rightarrow> sint a < sint b
   | (a, b) \<Rightarrow> fl_lt fl (as_f64 fl a) (as_f64 fl b) \<and> \<not> reader_equal fl rd a b)"

definition reader_difference :: "('f, 'x) float_lib_scheme \<Rightarrow> 'f number \<Rightarrow> 'f number \<Rightarrow> 'f number" where
  "reader_difference fl new old = (case (new, old) of
     (IntNumber n, IntNumber m) \<Rightarrow> IntNumber (n - m)
   | (n, m) \<Rightarrow> FloatNumber (fl_sub fl (as_f64 fl n) (as_f64 fl m)))"

definition wrapping_abs :: "i64 \<Rightarrow> i64" where
  "wrapping_abs i = (if sint i < 0 then - i else i)"

fun reader_abs :: "('f, 'x) float_lib_scheme \<Rightarrow> 'f number \<Rightarrow> 'f number" where
  "reader_abs fl (IntNumber i) = IntNumber (wrapping_abs i)"
| "reader_abs fl (FloatNumber f) = FloatNumber (fl_abs fl f)"

text \<open>Whether a candidate passes; \<open>previous\<close> and \<open>first\<close> are its bytes at those scans, if they are known.\<close>

definition number_of :: "('f, 'x) float_lib_scheme \<Rightarrow> 'f reader \<Rightarrow> bytes option \<Rightarrow> 'f number option rust" where
  "number_of fl rd bs = (case bs of None \<Rightarrow> Returns None | Some b \<Rightarrow> reader_number fl rd b 0)"

definition number_and ::
    "('f, 'x) float_lib_scheme \<Rightarrow> 'f reader \<Rightarrow> bytes option \<Rightarrow> ('f number \<Rightarrow> bool) \<Rightarrow> bool rust" where
  "number_and fl rd bs test = rbind (number_of fl rd bs)
     (\<lambda>n. Returns (case n of None \<Rightarrow> False | Some p \<Rightarrow> test p))"

definition matches_pattern :: "pattern_byte list \<Rightarrow> bytes \<Rightarrow> bool" where
  "matches_pattern pattern current \<longleftrightarrow> list_all (\<lambda>(p, b). b AND pb_mask p = pb_value p) (zip pattern current)"

fun compare_value :: "('f, 'x) float_lib_scheme \<Rightarrow> 'f reader \<Rightarrow> 'f comparison \<Rightarrow> 'f number \<Rightarrow>
    bytes option \<Rightarrow> bytes option \<Rightarrow> bool rust" where
  "compare_value fl rd (Equal v) value prev first = Returns (reader_equal fl rd value v)"
| "compare_value fl rd (NotEqual v) value prev first = Returns (\<not> reader_equal fl rd value v)"
| "compare_value fl rd (Less v) value prev first = Returns (reader_less fl rd value v)"
| "compare_value fl rd (LessOrEqual v) value prev first = Returns (\<not> reader_less fl rd v value)"
| "compare_value fl rd (Greater v) value prev first = Returns (reader_less fl rd v value)"
| "compare_value fl rd (GreaterOrEqual v) value prev first = Returns (\<not> reader_less fl rd value v)"
| "compare_value fl rd (Between a b) value prev first =
     Returns (\<not> reader_less fl rd value a \<and> \<not> reader_less fl rd b value)"
| "compare_value fl rd (InSet vs) value prev first = Returns (list_ex (reader_equal fl rd value) vs)"
| "compare_value fl rd Increased value prev first = number_and fl rd prev (\<lambda>p. reader_less fl rd p value)"
| "compare_value fl rd Decreased value prev first = number_and fl rd prev (\<lambda>p. reader_less fl rd value p)"
| "compare_value fl rd (IncreasedBy d) value prev first =
     number_and fl rd prev (\<lambda>p. reader_equal fl rd (reader_difference fl value p) d)"
| "compare_value fl rd (DecreasedBy d) value prev first =
     number_and fl rd prev (\<lambda>p. reader_equal fl rd (reader_difference fl p value) d)"
| "compare_value fl rd (ChangedBy d) value prev first =
     number_and fl rd prev (\<lambda>p. reader_equal fl rd (reader_abs fl (reader_difference fl value p)) (reader_abs fl d))"
| "compare_value fl rd (ChangedByAtLeast d) value prev first =
     number_and fl rd prev (\<lambda>p. let change = reader_abs fl (reader_difference fl value p) in
       \<not> reader_less fl rd change (reader_abs fl d) \<and> change \<noteq> IntNumber 0)"
| "compare_value fl rd IncreasedSinceFirst value prev first = number_and fl rd first (\<lambda>f. reader_less fl rd f value)"
| "compare_value fl rd DecreasedSinceFirst value prev first = number_and fl rd first (\<lambda>f. reader_less fl rd value f)"
| "compare_value fl rd _ value prev first = Panics"

definition passes :: "('f, 'x) float_lib_scheme \<Rightarrow> 'f reader \<Rightarrow> 'f comparison \<Rightarrow> bytes \<Rightarrow>
    bytes option \<Rightarrow> bytes option \<Rightarrow> bool rust" where
  "passes fl rd c current prev first = (case c of
     Unknown \<Rightarrow> Returns True
   | Pattern pattern \<Rightarrow> Returns (matches_pattern pattern current)
   | Changed \<Rightarrow> Returns (case prev of None \<Rightarrow> False | Some p \<Rightarrow> p \<noteq> current)
   | Unchanged \<Rightarrow> Returns (case prev of None \<Rightarrow> False | Some p \<Rightarrow> p = current)
   | EqualToFirst \<Rightarrow> Returns (case first of None \<Rightarrow> False | Some f \<Rightarrow> f = current)
   | NotEqualToFirst \<Rightarrow> Returns (case first of None \<Rightarrow> False | Some f \<Rightarrow> f \<noteq> current)
   | _ \<Rightarrow> rbind (reader_number fl rd current 0)
       (\<lambda>n. case n of None \<Rightarrow> Returns False | Some value \<Rightarrow> compare_value fl rd c value prev first))"

subsection \<open>Bitsets with ranks\<close>

record dense_region =
  dr_words :: "u64 list"
  dr_count :: nat
  dr_rank :: "nat list"

definition ones_of :: "u64 list \<Rightarrow> nat" where
  "ones_of ws = sum_list (map count_ones ws)"

fun rank_blocks :: "nat \<Rightarrow> u64 list \<Rightarrow> nat list \<times> nat" where
  "rank_blocks before [] = ([], before)"
| "rank_blocks before (w # ws) =
     (let block = take 64 (w # ws); (rank, t) = rank_blocks (before + ones_of block) (drop 64 (w # ws))
      in (before # rank, t))"

definition build_rank :: "dense_region \<Rightarrow> dense_region" where
  "build_rank d = (let (rank, before) = rank_blocks 0 (dr_words d)
     in d\<lparr>dr_rank := rank, dr_count := before\<rparr>)"

fun nth_slot_from :: "nat \<Rightarrow> u64 list \<Rightarrow> nat \<Rightarrow> nat option" where
  "nth_slot_from w [] remaining = None"
| "nth_slot_from w (word # rest) remaining =
     (let ones = count_ones word in
      if remaining < ones
      then Some (w * 64 + trailing_zeros (((\<lambda>v. v AND (v - 1)) ^^ remaining) word))
      else nth_slot_from (Suc w) rest (remaining - ones))"

definition nth_slot :: "dense_region \<Rightarrow> nat \<Rightarrow> nat option rust" where
  "nth_slot d n =
     (if dr_count d \<le> n then Returns None
      else case length (takeWhile (\<lambda>before. before \<le> n) (dr_rank d)) of
          0 \<Rightarrow> Panics
        | Suc block \<Rightarrow> Returns (nth_slot_from (block * 64) (drop (block * 64) (dr_words d)) (n - dr_rank d ! block)))"

text \<open>\<open>same\<close>: whether the two snapshots of a bitset are one shared snapshot (\<open>Arc::ptr_eq\<close>).\<close>

datatype candidates =
    Dense (dc_regions: "dense_region list") (dc_previous: memory_snapshot) (dc_first: memory_snapshot) (dc_same: bool)
  | Sparse (sc_addresses: "u32 list") (sc_regions: "u16 list") (sc_previous: bytes) (sc_first: bytes)

fun candidates_count :: "candidates \<Rightarrow> nat" where
  "candidates_count (Dense regions _ _ _) = sum_list (map dr_count regions)"
| "candidates_count (Sparse addresses _ _ _) = length addresses"

fun history_bytes :: "candidates \<Rightarrow> nat" where
  "history_bytes (Dense regions prev _ _) =
     sum_list (map (\<lambda>r. length (dr_words r) * 8 + length (dr_rank r) * 8) regions) + length (ms_bytes prev)"
| "history_bytes (Sparse addresses regions prev first) =
     length addresses * 4 + length regions * 2 + length prev + length first"

definition MAX_HISTORY_STEPS :: nat where
  "MAX_HISTORY_STEPS = 16"

definition MAX_HISTORY_BYTES :: nat where
  "MAX_HISTORY_BYTES = 128 * 1024 * 1024"

definition CHUNK_SLOTS :: nat where
  "CHUNK_SLOTS = 64 * 1024"

record 'f search =
  se_settings :: "'f search_settings"
  se_candidates :: candidates
  se_history :: "candidates list"
  se_redo :: "candidates list"
  se_steps :: u32
  se_last_frame :: u64
  se_last_epoch :: u64

definition alignment_of :: "'f search_settings \<Rightarrow> nat" where
  "alignment_of ss = max (unat (ss_alignment ss)) 1"

definition div_ceil :: "nat \<Rightarrow> nat \<Rightarrow> nat" where
  "div_ceil a b = a div b + (if a mod b = 0 then 0 else 1)"

subsection \<open>The first scan\<close>

definition set_slot :: "nat \<Rightarrow> u64 list \<Rightarrow> u64 list rust" where
  "set_slot s words = (if s div 64 < length words then Returns (set_slot_bit s words) else Panics)"

definition scan_slot :: "('f, 'x) float_lib_scheme \<Rightarrow> 'f reader \<Rightarrow> 'f comparison \<Rightarrow> nat \<Rightarrow> bytes \<Rightarrow>
    nat \<Rightarrow> u64 list \<Rightarrow> u64 list rust" where
  "scan_slot fl rd c alignment bs s words = (case c of
     Unknown \<Rightarrow> set_slot s words
   | _ \<Rightarrow> let offset = s * alignment in
       rbind (slice_at bs offset (offset + rd_len rd)) (\<lambda>current.
       rbind (passes fl rd c current None None) (\<lambda>ok. if ok then set_slot s words else Returns words)))"

function scan_chunks :: "(nat \<Rightarrow> bool) \<Rightarrow> (nat \<Rightarrow> u64 list \<Rightarrow> u64 list rust) \<Rightarrow> nat \<Rightarrow> nat \<Rightarrow> u64 list \<Rightarrow>
    (search_error + u64 list) rust" where
  "scan_chunks cancel scan slot end_slot words =
     (if end_slot \<le> slot then Returns (Inr words)
      else if cancel slot then Returns (Inl Cancelled)
      else let chunk_end = min (slot + CHUNK_SLOTS) end_slot in
        rbind (rfold scan [slot ..< chunk_end] words) (scan_chunks cancel scan chunk_end end_slot))"
  by pat_completeness auto
termination
  by (relation "measure (\<lambda>(_, _, slot, end_slot, _). end_slot - slot)") (auto simp: CHUNK_SLOTS_def)

declare scan_chunks.simps [simp del]

text \<open>The slots of a region whose value is mapped and in the address range.\<close>

definition scan_bounds :: "'f search_settings \<Rightarrow> region_info \<Rightarrow> nat \<Rightarrow> nat \<times> nat" where
  "scan_bounds ss region mapped =
     (let alignment = alignment_of ss; len = vf_len (ss_format ss); end_slot = (mapped - len) div alignment + 1
      in case ss_range ss of
          None \<Rightarrow> (0, end_slot)
        | Some (start, e) \<Rightarrow>
            let base = unat (ri_base region);
                range_end_slot = (if unat e < base + len then 0 else (unat e - (base + len)) div alignment + 1)
            in (div_ceil (unat start - base) alignment, min end_slot range_end_slot))"

definition scan_region :: "('f, 'x) float_lib_scheme \<Rightarrow> (nat \<Rightarrow> nat \<Rightarrow> bool) \<Rightarrow> 'f search_settings \<Rightarrow>
    'f comparison \<Rightarrow> memory_snapshot \<Rightarrow> nat \<Rightarrow> snapshot_region \<Rightarrow> (search_error + dense_region) rust" where
  "scan_region fl cancel ss c snapshot index layout =
     rbind (region_bytes snapshot index) (\<lambda>bs.
       let rd = settings_reader ss; alignment = alignment_of ss;
           slots = div_ceil (unat (ri_len (sr_region layout))) alignment;
           words = replicate (div_ceil slots 64) 0;
           included = (ss_regions ss = [] \<or> index \<in> set (ss_regions ss));
           finish = (\<lambda>words. Returns (Inr (build_rank \<lparr>dr_words = words, dr_count = 0, dr_rank = []\<rparr>)))
       in if included \<and> rd_len rd \<le> length bs
          then let (first_slot, end_slot) = scan_bounds ss (sr_region layout) (length bs) in
            try_bind (scan_chunks (cancel index) (scan_slot fl rd c alignment bs) first_slot end_slot words) finish
          else finish words)"

fun scan_regions :: "(nat \<Rightarrow> snapshot_region \<Rightarrow> (search_error + dense_region) rust) \<Rightarrow> nat \<Rightarrow>
    snapshot_region list \<Rightarrow> (search_error + dense_region list) rust" where
  "scan_regions scan index [] = Returns (Inr [])"
| "scan_regions scan index (layout # rest) =
     try_bind (scan index layout) (\<lambda>dense.
     try_bind (scan_regions scan (Suc index) rest) (\<lambda>regions. Returns (Inr (dense # regions))))"

subsection \<open>Checked arithmetic\<close>

text \<open>\<open>+\<close> and \<open>-\<close> on \<open>u32\<close> and \<open>usize\<close>: leaving the type is a panic, as in a build with overflow checks.\<close>

definition add_u32 :: "u32 \<Rightarrow> u32 \<Rightarrow> u32 rust" where
  "add_u32 a b = (if unat a + unat b < 2 ^ 32 then Returns (a + b) else Panics)"

definition sub_u32 :: "u32 \<Rightarrow> u32 \<Rightarrow> u32 rust" where
  "sub_u32 a b = (if b \<le> a then Returns (a - b) else Panics)"

definition add_usize :: "nat \<Rightarrow> nat \<Rightarrow> nat rust" where
  "add_usize a b = (if a + b < usize_limit then Returns (a + b) else Panics)"

subsection \<open>From bitsets to a list\<close>

text \<open>The loop over the candidates of a region: over the words, and over the bits of each.\<close>

fun for_slots :: "(nat \<Rightarrow> 'a \<Rightarrow> 'a rust) \<Rightarrow> nat \<Rightarrow> u64 list \<Rightarrow> 'a rust \<Rightarrow> 'a rust" where
  "for_slots f w [] acc = acc"
| "for_slots f w (word # rest) acc =
     for_slots f (Suc w) rest (bit_loop (\<lambda>b acc. rbind acc (f (w * 64 + b))) word acc)"

record search_row =
  sw_address :: u32
  sw_region :: nat
  sw_previous :: bytes
  sw_first :: bytes

text \<open>The address, the previous value and the first value of a slot.\<close>

definition slot_row :: "nat \<Rightarrow> nat \<Rightarrow> u32 \<Rightarrow> bytes \<Rightarrow> bytes \<Rightarrow> nat \<Rightarrow> nat \<Rightarrow> search_row rust" where
  "slot_row alignment len base prev firsts index slot =
     (let offset = slot * alignment in
      rbind (add_u32 base (of_nat offset)) (\<lambda>address.
      rbind (slice_at prev offset (offset + len)) (\<lambda>p.
      Returns \<lparr>sw_address = address, sw_region = index, sw_previous = p,
        sw_first = (case get_slice firsts offset (offset + len) of Some f \<Rightarrow> f | None \<Rightarrow> p)\<rparr>)))"

type_synonym sparse_lists = "u32 list \<times> u16 list \<times> bytes \<times> bytes"

definition push_candidate :: "search_row \<Rightarrow> sparse_lists \<Rightarrow> sparse_lists" where
  "push_candidate row vecs = (case vecs of (addresses, regions, prev, first) \<Rightarrow>
     (addresses @ [sw_address row], regions @ [of_nat (sw_region row)], prev @ sw_previous row, first @ sw_first row))"

fun sparse_regions :: "nat \<Rightarrow> nat \<Rightarrow> memory_snapshot \<Rightarrow> memory_snapshot \<Rightarrow> nat \<Rightarrow> dense_region list \<Rightarrow>
    sparse_lists \<Rightarrow> sparse_lists rust" where
  "sparse_regions alignment len prev first index [] vecs = Returns vecs"
| "sparse_regions alignment len prev first index (dense # rest) vecs =
     rbind (index_at (ms_layout prev) index) (\<lambda>layout.
     rbind (region_bytes prev index) (\<lambda>ps.
     rbind (region_bytes first index) (\<lambda>fs.
     rbind (for_slots (\<lambda>slot vecs. rbind (slot_row alignment len (ri_base (sr_region layout)) ps fs index slot)
              (\<lambda>row. Returns (push_candidate row vecs))) 0 (dr_words dense) (Returns vecs))
       (sparse_regions alignment len prev first (Suc index) rest))))"

definition dense_bytes :: "dense_region list \<Rightarrow> memory_snapshot \<Rightarrow> memory_snapshot \<Rightarrow> bool \<Rightarrow> nat" where
  "dense_bytes regions prev first same =
     sum_list (map (\<lambda>r. length (dr_words r) * 8) regions) + length (ms_bytes prev) +
     (if same then 0 else length (ms_bytes first))"

definition maybe_make_sparse :: "'f search \<Rightarrow> 'f search rust" where
  "maybe_make_sparse s = (case se_candidates s of
     Sparse _ _ _ _ \<Rightarrow> Returns s
   | Dense regions prev first same \<Rightarrow>
       let len = vf_len (ss_format (se_settings s)); alignment = alignment_of (se_settings s);
           sparse_bytes = candidates_count (se_candidates s) * (4 + 2 + len * 2)
       in if dense_bytes regions prev first same \<le> sparse_bytes then Returns s
          else rbind (sparse_regions alignment len prev first 0 regions ([], [], [], []))
            (\<lambda>(addresses, indices, ps, fs). Returns (s\<lparr>se_candidates := Sparse addresses indices ps fs\<rparr>)))"

definition search_new :: "('f, 'x) float_lib_scheme \<Rightarrow> (nat \<Rightarrow> nat \<Rightarrow> bool) \<Rightarrow> 'f search_settings \<Rightarrow> 'f comparison \<Rightarrow>
    memory_snapshot \<Rightarrow> (search_error + 'f search) rust" where
  "search_new fl cancel ss c snapshot = try_bind (Returns (check_comparison ss c)) (\<lambda>_.
     if \<not> is_initial c then Returns (Inl (BadComparison NeedsEarlierScan))
     else try_bind (scan_regions (scan_region fl cancel ss c snapshot) 0 (ms_layout snapshot)) (\<lambda>regions.
       rbind (maybe_make_sparse
           \<lparr>se_settings = ss, se_candidates = Dense regions snapshot snapshot True, se_history = [], se_redo = [],
            se_steps = 1, se_last_frame = ms_frame snapshot, se_last_epoch = ms_epoch snapshot\<rparr>)
         (\<lambda>s. Returns (Inr s))))"

subsection \<open>Narrowing\<close>

text \<open>One word of a bitset; \<open>bytes_at\<close> compares the part of both snapshots that the word covers.\<close>

definition refine_word :: "('f, 'x) float_lib_scheme \<Rightarrow> 'f reader \<Rightarrow> 'f comparison \<Rightarrow> nat \<Rightarrow> bytes \<Rightarrow> bytes \<Rightarrow>
    bytes \<Rightarrow> nat \<Rightarrow> u64 \<Rightarrow> u64 rust" where
  "refine_word fl rd c alignment current prev firsts word_index word =
     (if word = 0 then Returns 0
      else let start_offset = word_index * 64 * alignment;
               end_offset = min (min (start_offset + 64 * alignment + rd_len rd - 1) (length current)) (length prev)
           in if (c = Changed \<or> c = Unchanged) \<and> start_offset < end_offset \<and>
                 slice_at current start_offset end_offset = slice_at prev start_offset end_offset
              then Returns (if c = Unchanged then word else 0)
              else bit_loop (\<lambda>bit kept.
                let offset = start_offset + bit * alignment; e = offset + rd_len rd in
                if length current < e then kept
                else rbind kept (\<lambda>kept.
                  rbind (slice_at current offset e) (\<lambda>cur.
                  rbind (passes fl rd c cur (get_slice prev offset e) (get_slice firsts offset e)) (\<lambda>ok.
                  Returns (if ok then kept OR push_bit bit 1 else kept))))) word (Returns 0))"

text \<open>The words of a region, in chunks; the flag is read before each chunk.\<close>

fun refine_words :: "(nat \<Rightarrow> bool) \<Rightarrow> (nat \<Rightarrow> u64 \<Rightarrow> u64 rust) \<Rightarrow> nat \<Rightarrow> u64 list \<Rightarrow>
    (search_error + u64 list) rust" where
  "refine_words cancel f i [] = Returns (Inr [])"
| "refine_words cancel f i (word # rest) =
     (if i mod (CHUNK_SLOTS div 64) = 0 \<and> cancel (i div (CHUNK_SLOTS div 64)) then Returns (Inl Cancelled)
      else rbind (f i word) (\<lambda>kept.
        try_bind (refine_words cancel f (Suc i) rest) (\<lambda>words. Returns (Inr (kept # words)))))"

fun refine_regions :: "('f, 'x) float_lib_scheme \<Rightarrow> (nat \<Rightarrow> nat \<Rightarrow> bool) \<Rightarrow> 'f reader \<Rightarrow> 'f comparison \<Rightarrow> nat \<Rightarrow>
    memory_snapshot \<Rightarrow> memory_snapshot \<Rightarrow> memory_snapshot \<Rightarrow> nat \<Rightarrow> dense_region list \<Rightarrow>
    (search_error + dense_region list) rust" where
  "refine_regions fl cancel rd c alignment snapshot prev first index [] = Returns (Inr [])"
| "refine_regions fl cancel rd c alignment snapshot prev first index (dense # rest) =
     rbind (region_bytes snapshot index) (\<lambda>current.
     rbind (region_bytes prev index) (\<lambda>ps.
     rbind (region_bytes first index) (\<lambda>fs.
     try_bind (refine_words (cancel index) (refine_word fl rd c alignment current ps fs) 0 (dr_words dense)) (\<lambda>words.
     try_bind (refine_regions fl cancel rd c alignment snapshot prev first (Suc index) rest) (\<lambda>regions.
     Returns (Inr (build_rank \<lparr>dr_words = words, dr_count = 0, dr_rank = []\<rparr> # regions)))))))"

fun refine_list :: "('f, 'x) float_lib_scheme \<Rightarrow> (nat \<Rightarrow> bool) \<Rightarrow> 'f reader \<Rightarrow> 'f comparison \<Rightarrow> memory_snapshot \<Rightarrow>
    bytes \<Rightarrow> bytes \<Rightarrow> nat \<Rightarrow> (u32 \<times> u16) list \<Rightarrow> sparse_lists \<Rightarrow> (search_error + sparse_lists) rust" where
  "refine_list fl cancel rd c snapshot prev first i [] vecs = Returns (Inr vecs)"
| "refine_list fl cancel rd c snapshot prev first i ((address, region) # rest) vecs =
     (if i mod CHUNK_SLOTS = 0 \<and> cancel i then Returns (Inl Cancelled)
      else let len = rd_len rd in case locate snapshot address len of
          None \<Rightarrow> refine_list fl cancel rd c snapshot prev first (Suc i) rest vecs
        | Some (index, offset) \<Rightarrow>
            if index \<noteq> unat region then Returns (Inl LayoutChanged)
            else rbind (region_bytes snapshot index) (\<lambda>bs.
              rbind (slice_at bs offset (offset + len)) (\<lambda>current.
              rbind (slice_at prev (i * len) (Suc i * len)) (\<lambda>p.
              rbind (slice_at first (i * len) (Suc i * len)) (\<lambda>f.
              rbind (passes fl rd c current (Some p) (Some f)) (\<lambda>ok.
              refine_list fl cancel rd c snapshot prev first (Suc i) rest
                (if ok then push_candidate \<lparr>sw_address = address, sw_region = unat region,
                     sw_previous = current, sw_first = f\<rparr> vecs
                 else vecs)))))))"

fun trim_history :: "candidates list \<Rightarrow> candidates list" where
  "trim_history [] = []"
| "trim_history (h # hs) =
     (if length (h # hs) \<le> MAX_HISTORY_STEPS \<and> sum_list (map history_bytes (h # hs)) \<le> MAX_HISTORY_BYTES
      then h # hs else trim_history hs)"

fun refine_candidates :: "('f, 'x) float_lib_scheme \<Rightarrow> (nat \<Rightarrow> nat \<Rightarrow> bool) \<Rightarrow> 'f search_settings \<Rightarrow> 'f comparison \<Rightarrow>
    memory_snapshot \<Rightarrow> candidates \<Rightarrow> (search_error + candidates) rust" where
  "refine_candidates fl cancel ss c snapshot (Dense regions prev first same) =
     (if \<not> same_layout snapshot prev then Returns (Inl LayoutChanged)
      else try_bind (refine_regions fl cancel (settings_reader ss) c (alignment_of ss) snapshot prev first 0 regions)
        (\<lambda>regions. Returns (Inr (Dense regions snapshot first False))))"
| "refine_candidates fl cancel ss c snapshot (Sparse addresses regions prev first) =
     try_bind (refine_list fl (cancel 0) (settings_reader ss) c snapshot prev first 0 (zip addresses regions) ([], [], [], []))
       (\<lambda>(as, rs, ps, fs). Returns (Inr (Sparse as rs ps fs)))"

definition search_refine :: "('f, 'x) float_lib_scheme \<Rightarrow> (nat \<Rightarrow> nat \<Rightarrow> bool) \<Rightarrow> 'f comparison \<Rightarrow> memory_snapshot \<Rightarrow>
    'f search \<Rightarrow> (search_error + 'f search) rust" where
  "search_refine fl cancel c snapshot s = try_bind (Returns (check_comparison (se_settings s) c)) (\<lambda>_.
     if c = Unknown then Returns (Inl (BadComparison UnknownOnlyStarts))
     else try_bind (refine_candidates fl cancel (se_settings s) c snapshot (se_candidates s)) (\<lambda>next.
       rbind (add_u32 (se_steps s) 1) (\<lambda>steps.
       rbind (maybe_make_sparse (s\<lparr>se_candidates := next,
           se_history := trim_history (se_history s @ [se_candidates s]), se_redo := [],
           se_steps := steps, se_last_frame := ms_frame snapshot, se_last_epoch := ms_epoch snapshot\<rparr>))
         (\<lambda>s. Returns (Inr s)))))"

subsection \<open>Undo and redo\<close>

definition search_undo :: "'f search \<Rightarrow> (bool \<times> 'f search) rust" where
  "search_undo s = (if se_history s = [] then Returns (False, s)
     else rbind (sub_u32 (se_steps s) 1) (\<lambda>steps.
       Returns (True, s\<lparr>se_candidates := last (se_history s), se_history := butlast (se_history s),
         se_redo := se_redo s @ [se_candidates s], se_steps := steps\<rparr>)))"

definition search_redo :: "'f search \<Rightarrow> (bool \<times> 'f search) rust" where
  "search_redo s = (if se_redo s = [] then Returns (False, s)
     else rbind (add_u32 (se_steps s) 1) (\<lambda>steps.
       Returns (True, s\<lparr>se_candidates := last (se_redo s), se_redo := butlast (se_redo s),
         se_history := se_history s @ [se_candidates s], se_steps := steps\<rparr>)))"

subsection \<open>Pages of results\<close>

function page_bits :: "(nat \<Rightarrow> 'r rust) \<Rightarrow> nat \<Rightarrow> u64 \<Rightarrow> 'r list \<Rightarrow> 'r list rust" where
  "page_bits row n bits rows =
     (if bits \<noteq> 0 \<and> length rows < n
      then rbind (row (trailing_zeros bits)) (\<lambda>r. page_bits row n (bits AND (bits - 1)) (rows @ [r]))
      else Returns rows)"
  by pat_completeness auto
termination
  by (relation "measure (\<lambda>(_, n, _, rows). n - length rows)") auto

declare page_bits.simps [simp del]

fun page_words :: "(nat \<Rightarrow> 'r rust) \<Rightarrow> nat \<Rightarrow> nat \<Rightarrow> u64 \<Rightarrow> u64 list \<Rightarrow> 'r list \<Rightarrow> 'r list rust" where
  "page_words row n w bits [] rows = page_bits (\<lambda>b. row (w * 64 + b)) n bits rows"
| "page_words row n w bits (word # rest) rows =
     rbind (page_bits (\<lambda>b. row (w * 64 + b)) n bits rows)
       (\<lambda>rows. if n \<le> length rows then Returns rows else page_words row n (Suc w) word rest rows)"

fun page_regions :: "nat \<Rightarrow> nat \<Rightarrow> memory_snapshot \<Rightarrow> memory_snapshot \<Rightarrow> nat \<Rightarrow> nat \<Rightarrow> dense_region list \<Rightarrow> nat \<Rightarrow>
    search_row list \<Rightarrow> search_row list rust" where
  "page_regions alignment len prev first n index [] skip rows = Returns rows"
| "page_regions alignment len prev first n index (dense # rest) skip rows =
     (if n \<le> length rows then Returns rows
      else if dr_count dense \<le> skip
      then page_regions alignment len prev first n (Suc index) rest (skip - dr_count dense) rows
      else rbind (nth_slot dense skip) (\<lambda>start. case start of
          None \<Rightarrow> page_regions alignment len prev first n (Suc index) rest skip rows
        | Some start_slot \<Rightarrow>
            rbind (index_at (ms_layout prev) index) (\<lambda>layout.
            rbind (region_bytes prev index) (\<lambda>ps.
            rbind (region_bytes first index) (\<lambda>fs.
            let w = start_slot div 64 in
            rbind (index_at (dr_words dense) w) (\<lambda>word.
            rbind (page_words (slot_row alignment len (ri_base (sr_region layout)) ps fs index) n w
                (word AND push_bit (start_slot mod 64) (NOT 0)) (drop (Suc w) (dr_words dense)) rows)
              (page_regions alignment len prev first n (Suc index) rest 0)))))))"

definition sparse_row :: "nat \<Rightarrow> u32 list \<Rightarrow> u16 list \<Rightarrow> bytes \<Rightarrow> bytes \<Rightarrow> nat \<Rightarrow> search_row list \<Rightarrow> search_row list rust" where
  "sparse_row len addresses regions prev first i rows =
     rbind (index_at addresses i) (\<lambda>address.
     rbind (index_at regions i) (\<lambda>region.
     rbind (slice_at prev (i * len) (Suc i * len)) (\<lambda>p.
     rbind (slice_at first (i * len) (Suc i * len)) (\<lambda>f.
     Returns (rows @ [\<lparr>sw_address = address, sw_region = unat region, sw_previous = p, sw_first = f\<rparr>])))))"

fun is_sparse :: "candidates \<Rightarrow> bool" where
  "is_sparse (Dense _ _ _ _) \<longleftrightarrow> False"
| "is_sparse (Sparse _ _ _ _) \<longleftrightarrow> True"

definition search_results :: "'f search \<Rightarrow> nat \<Rightarrow> nat \<Rightarrow> search_row list rust" where
  "search_results s offset n =
     (let len = vf_len (ss_format (se_settings s)); alignment = alignment_of (se_settings s) in
      case se_candidates s of
        Sparse addresses regions prev first \<Rightarrow>
          let start = min offset (length addresses)
          in rbind (add_usize start n) (\<lambda>e.
             rfold (sparse_row len addresses regions prev first) [start ..< min e (length addresses)] [])
      | Dense regions prev first _ \<Rightarrow> page_regions alignment len prev first n 0 regions offset [])"

end
