(* ===== verification/Memory_Candidates.thy ===== *)
theory Memory_Candidates
  imports Memory_Search
begin

text \<open>
  What the parts of the RAM search compute: the fast reader is the general decoder, a comparison
  never panics, ranked bitsets find their nth candidate, and the rows that a set of candidates
  stands for.
\<close>

unbundle bit_operations_syntax

subsection \<open>The fast reader is the general decoder\<close>

definition reader_ok :: "'f reader \<Rightarrow> bool" where
  "reader_ok rd \<longleftrightarrow> format_ok (rd_format rd) \<and> rd_len rd = vf_len (rd_format rd)"

lemma ucast_from_le:
  assumes "8 * length bs \<le> LENGTH('a::len)" and "LENGTH('a) \<le> 64"
  shows "ucast (from_le bs :: u64) = (from_le bs :: 'a word)"
    and "ucast (from_le bs :: 'a word) = (from_le bs :: u64)"
proof -
  have "le_nat bs < 256 ^ length bs" by (rule le_nat_bound)
  also have "(256 :: nat) ^ length bs = 2 ^ (8 * length bs)" by (simp add: power_mult)
  also have "\<dots> \<le> 2 ^ LENGTH('a)" using assms(1) by (intro power_increasing) simp_all
  finally have small: "le_nat bs < 2 ^ LENGTH('a)" .
  also have "(2 :: nat) ^ LENGTH('a) \<le> 2 ^ 64" using assms(2) by (intro power_increasing) simp_all
  finally have "le_nat bs < 2 ^ 64" .
  with small show "ucast (from_le bs :: u64) = (from_le bs :: 'a word)"
    "ucast (from_le bs :: 'a word) = (from_le bs :: u64)"
    by (simp_all add: from_le_def unsigned_of_nat take_bit_nat_eq_self)
qed

lemma length_1E: "length b = 1 \<Longrightarrow> \<exists>x. b = [x]"
  by (cases b) auto

lemma from_le_1: "from_le [x :: u8] = (ucast x :: 'a::len word)"
  by (simp add: from_le_def)

lemma ucast_up_down: "ucast (ucast (x :: u8) :: u64) = x"
  by (rule bit_word_eqI) (simp add: bit_ucast_iff)

lemma raw_bits_order: "length bs = vf_len f \<Longrightarrow> vf_len f \<le> 8 \<Longrightarrow> raw_bits f bs = from_le (order_bytes f bs)"
  by (rule raw_bits_le)

lemma reader_number_decode:
  assumes rd: "reader_ok rd" and range: "offset + rd_len rd \<le> length bs"
  shows "reader_number fl rd bs offset =
    Returns (decode_number fl (rd_format rd) (take (rd_len rd) (drop offset bs)))"
proof -
  define b where "b = take (rd_len rd) (drop offset bs)"
  let ?f = "rd_format rd"
  have slice: "slice_at bs offset (offset + rd_len rd) = Returns b"
    using range by (simp add: slice_at_def b_def)
  have f: "format_ok ?f" and len: "length b = vf_len ?f" using rd range by (simp_all add: reader_ok_def b_def)
  have number: "reader_number fl rd bs offset = Returns (decode_number fl ?f b)"
  proof (cases "is_integer (vf_ty ?f) \<and> vf_ty ?f \<noteq> Bcd")
    case False
    then have "vf_ty ?f \<in> {F32, Bcd, Bytes, Text}" by (cases "vf_ty ?f") (simp_all add: integer_types)
    then show ?thesis by (auto simp: reader_number_def slice split: bool.splits)
  next
    case True
    then have "vf_len ?f \<le> 4" using format_ok_len(3) [OF f] by (simp add: is_integer_def)
    then have raw: "raw_bits ?f b = from_le (order_bytes ?f b)" using raw_bits_order [OF len] by simp
    note cast = ucast_from_le(1) [where 'a = 8, of "order_bytes ?f b"] ucast_from_le [where 'a = 16, of "order_bytes ?f b"]
      ucast_from_le [where 'a = 32, of "order_bytes ?f b"]
    show ?thesis
    proof (cases "vf_len ?f = 1")
      case one: True
      then obtain x where x: "b = [x]" using length_1E len by metis
      have "vf_ty ?f \<in> {U8, I8}" using True one f
        by (cases "vf_ty ?f") (auto simp: integer_types format_ok_def vf_len_def)
      then show ?thesis using len
        by (auto simp: reader_number_def slice decode_number_def raw [unfolded x] order_bytes_def x index_at_def from_le_1 ucast_id ucast_up_down)
    next
      case False
      then have "vf_ty ?f \<in> {U16, I16} \<and> vf_len ?f = 2 \<or> vf_ty ?f \<in> {U32, I32} \<and> vf_len ?f = 4"
        using True f by (cases "vf_ty ?f") (auto simp: integer_types format_ok_def vf_len_def)
      then show ?thesis using len cast(2-5)
        by (auto simp: reader_number_def slice decode_number_def raw order_bytes_def first_of_def split: bool.splits)
    qed
  qed
  then show ?thesis by (simp add: b_def)
qed

text \<open>A comparison of bytes of the right length never panics.\<close>

lemma number_of_returns:
  assumes "reader_ok rd" and "\<And>b. bs = Some b \<Longrightarrow> length b = rd_len rd"
  shows "number_of fl rd bs =
    Returns (case bs of None \<Rightarrow> None | Some b \<Rightarrow> decode_number fl (rd_format rd) b)"
proof (cases bs)
  case (Some b)
  then have "length b = rd_len rd" using assms(2) by simp
  with reader_number_decode [OF assms(1), of 0 b fl] Some show ?thesis by (simp add: number_of_def)
qed (simp add: number_of_def)

lemma passes_returns:
  assumes "reader_ok rd" and "length current = rd_len rd"
    and "\<And>b. prev = Some b \<Longrightarrow> length b = rd_len rd" and "\<And>b. first = Some b \<Longrightarrow> length b = rd_len rd"
  shows "passes fl rd c current prev first \<noteq> Panics"
  using number_of_returns [of rd prev fl] number_of_returns [of rd first fl] assms
    reader_number_decode [OF assms(1), of 0 current fl]
  by (cases c) (auto simp: passes_def number_and_def split: option.splits)

lemma rust_cases: "(m :: bool rust) \<noteq> Panics \<Longrightarrow> m = Returns (m = Returns True)"
  by (cases m) auto

subsection \<open>Loops\<close>

lemma rfold_append: "rfold f (xs @ ys) acc = rbind (rfold f xs acc) (rfold f ys)"
proof (induction xs arbitrary: acc)
  case (Cons x xs)
  then show ?case by (cases "f x acc") simp_all
qed simp

lemma rbind_fold: "fold (\<lambda>x acc. rbind acc (f x)) xs acc = rbind acc (rfold f xs)"
proof (induction xs arbitrary: acc)
  case Nil
  then show ?case by (cases acc) simp_all
next
  case (Cons x xs)
  then show ?case by (cases acc) simp_all
qed

lemma rbind_assoc: "rbind (rbind m f) g = rbind m (\<lambda>x. rbind (f x) g)"
  by (cases m) simp_all

lemma rfold_map: "rfold f (map g xs) = rfold (\<lambda>x. f (g x)) xs"
proof (rule ext)
  fix acc
  show "rfold f (map g xs) acc = rfold (\<lambda>x. f (g x)) xs acc"
  proof (induction xs arbitrary: acc)
    case (Cons x xs)
    then show ?case by (cases "f (g x) acc") simp_all
  qed simp
qed

lemma for_slots_rfold: "for_slots f w ws acc = rbind acc (rfold f (slots_from w ws))"
proof (induction f w ws acc rule: for_slots.induct)
  case (1 f w acc)
  then show ?case by (cases acc) simp_all
next
  case (2 f w word rest acc)
  have "bit_loop (\<lambda>b acc. rbind acc (f (w * 64 + b))) word acc =
      rbind acc (rfold f (map (\<lambda>b. w * 64 + b) (bits_of word)))"
    by (simp add: bit_loop_fold rbind_fold rfold_map)
  with 2 show ?case by (cases acc) (simp_all add: rfold_append)
qed

subsection \<open>The nth candidate of a bitset\<close>

lemma ones_of_slots: "ones_of ws = length (slots_from i ws)"
  by (induction i ws rule: slots_from.induct) (simp_all add: ones_of_def count_ones_def)

lemma ones_of_append [simp]: "ones_of (xs @ ys) = ones_of xs + ones_of ys"
  by (simp add: ones_of_def)

lemma div_ceil_add: "div_ceil (n + 64) 64 = Suc (div_ceil n 64)"
  by (simp add: div_ceil_def)

lemma upt_shift: "[0 ..< Suc n] = 0 # map Suc [0 ..< n]"
  by (simp add: upt_conv_Cons map_Suc_upt del: upt_Suc)

lemma rank_blocks_step:
  assumes "ws \<noteq> []"
  shows "rank_blocks before ws = (before # fst (rank_blocks (before + ones_of (take 64 ws)) (drop 64 ws)),
    snd (rank_blocks (before + ones_of (take 64 ws)) (drop 64 ws)))"
  proof (cases ws)
  case (Cons w rest)
  show ?thesis unfolding Cons by (simp only: rank_blocks.simps Let_def split_def)
qed (use assms in simp)

lemma rank_blocks_spec:
  "rank_blocks before ws = (map (\<lambda>k. before + ones_of (take (k * 64) ws)) [0 ..< div_ceil (length ws) 64], before + ones_of ws)"
proof (induction "length ws" arbitrary: before ws rule: less_induct)
  case less
  show ?case
  proof (cases "ws = []")
    case True
    then show ?thesis by (simp add: div_ceil_def ones_of_def)
  next
    case False
    define xs ys where "xs = take 64 ws" and "ys = drop 64 ws"
    have ws: "ws = xs @ ys" by (simp add: xs_def ys_def)
    have "length ys < length ws" using False by (simp add: ys_def)
    from less [OF this] have ih: "rank_blocks (before + ones_of xs) ys =
        (map (\<lambda>k. before + ones_of xs + ones_of (take (k * 64) ys)) [0 ..< div_ceil (length ys) 64], before + ones_of xs + ones_of ys)" .
    have step: "rank_blocks before ws = (before # fst (rank_blocks (before + ones_of xs) ys), snd (rank_blocks (before + ones_of xs) ys))"
      unfolding xs_def ys_def by (rule rank_blocks_step [OF False])
    have blocks: "div_ceil (length ws) 64 = Suc (div_ceil (length ys) 64)"
    proof (cases "length ws \<le> 64")
      case True
      with False have "length ws < 64 \<or> length ws = 64" "length ws \<noteq> 0" "length ys = 0" by (auto simp: ys_def)
      then show ?thesis by (auto simp: div_ceil_def)
    next
      case False
      then have "length ws = length ys + 64" by (simp add: ys_def)
      then show ?thesis by (simp add: div_ceil_add)
    qed
    have take: "ones_of (take (Suc k * 64) ws) = ones_of xs + ones_of (take (k * 64) ys)" for k
      using take_add [of 64 "k * 64" ws] by (simp add: xs_def ys_def)
    have zero: "ones_of (take (0 * 64) ws) = 0" by (simp add: ones_of_def)
    show ?thesis
      unfolding step ih blocks upt_shift list.map map_map o_def take zero
      by (simp add: ws add.assoc)
  qed
qed

lemma drop_bits:
  "k \<le> length (bits_of w) \<Longrightarrow> bits_of (((\<lambda>v. v AND (v - 1)) ^^ k) w) = drop k (bits_of w)"
proof (induction k)
  case (Suc k)
  then have eq: "bits_of (((\<lambda>v. v AND (v - 1)) ^^ k) w) = drop k (bits_of w)" by simp
  then have "((\<lambda>v. v AND (v - 1)) ^^ k) w \<noteq> 0" using Suc.prems bits_of_eq_Nil by fastforce
  with eq show ?case by (simp add: bits_of_and_pred drop_Suc tl_drop)
qed simp

lemma nth_slot_from_spec:
  "nth_slot_from w ws n = (if n < length (slots_from w ws) then Some (slots_from w ws ! n) else None)"
proof (induction w ws n rule: nth_slot_from.induct)
  case (2 w word rest n)
  show ?case
  proof (cases "n < count_ones word")
    case True
    then have n: "n < length (bits_of word)" by (simp add: count_ones_def)
    let ?v = "((\<lambda>v. v AND (v - 1)) ^^ n) word"
    have bits: "bits_of ?v = drop n (bits_of word)" using n by (simp add: drop_bits)
    then have "?v \<noteq> 0" using n bits_of_eq_Nil by fastforce
    then have "trailing_zeros ?v = bits_of word ! n" using n by (simp add: trailing_zeros_hd bits hd_drop_conv_nth)
    with True n show ?thesis by (simp add: nth_append)
  next
    case False
    then show ?thesis using 2 by (simp add: count_ones_def nth_append Let_def) linarith
  qed
qed simp

lemma nth_slot_spec:
  "nth_slot (build_rank d) n =
    Returns (if n < length (slots (dr_words d)) then Some (slots (dr_words d) ! n) else None)"
proof -
  let ?ws = "dr_words d" and ?d = "build_rank d"
  have d: "dr_words ?d = ?ws" "dr_count ?d = length (slots ?ws)"
    "dr_rank ?d = map (\<lambda>k. ones_of (take (k * 64) ?ws)) [0 ..< div_ceil (length ?ws) 64]"
    by (simp_all add: build_rank_def rank_blocks_spec slots_def ones_of_slots [of _ 0])
  show ?thesis
  proof (cases "n < length (slots ?ws)")
    case False
    then show ?thesis by (simp add: nth_slot_def d)
  next
    case True
    let ?t = "takeWhile (\<lambda>before. before \<le> n) (dr_rank ?d)"
    have "?ws \<noteq> []" using True by (auto simp: slots_def)
    then have "0 < div_ceil (length ?ws) 64" by (cases "length ?ws < 64") (auto simp: div_ceil_def div_greater_zero_iff)
    then have "\<exists>rs. dr_rank ?d = 0 # rs" by (simp add: d upt_conv_Cons ones_of_def)
    then obtain block where block: "length ?t = Suc block" by auto
    then have "block < length ?t" by simp
    then have in_rank: "block < length (dr_rank ?d)" using length_takeWhile_le less_le_trans by blast
    have "?t ! block \<in> set ?t" using \<open>block < length ?t\<close> by (rule nth_mem)
    then have "?t ! block \<le> n" by (rule set_takeWhileD [THEN conjunct2])
    then have "dr_rank ?d ! block \<le> n" using takeWhile_nth [OF \<open>block < length ?t\<close>] by simp
    moreover have "block < div_ceil (length ?ws) 64" using in_rank by (simp add: d)
    then have "block * 64 \<le> length ?ws" by (simp add: div_ceil_def split: if_splits)
    then have split: "slots ?ws = slots (take (block * 64) ?ws) @ slots_from (block * 64) (drop (block * 64) ?ws)"
      using slots_from_append [of 0 "take (block * 64) ?ws" "drop (block * 64) ?ws"] by (simp add: slots_def min_absorb2)
    moreover have before: "dr_rank ?d ! block = length (slots (take (block * 64) ?ws))"
      using in_rank by (simp add: d slots_def ones_of_slots [of _ 0])
    ultimately have n: "length (slots (take (block * 64) ?ws)) \<le> n"
      "n - length (slots (take (block * 64) ?ws)) < length (slots_from (block * 64) (drop (block * 64) ?ws))"
      using True by simp_all
    have "nth_slot ?d n = Returns (nth_slot_from (block * 64) (drop (block * 64) ?ws) (n - dr_rank ?d ! block))"
      using True block by (simp add: nth_slot_def d(1,2))
    also have "\<dots> = Returns (Some (slots_from (block * 64) (drop (block * 64) ?ws) ! (n - length (slots (take (block * 64) ?ws)))))"
      unfolding nth_slot_from_spec before using n(2) by simp
    also have "\<dots> = Returns (Some (slots ?ws ! n))"
      unfolding split nth_append using n(1) by simp
    finally show ?thesis using True by simp
  qed
qed

subsection \<open>Layouts\<close>

text \<open>
  \<open>R\<close> is the game's list of regions. Regions do not overlap and do not run past the address space;
  a snapshot of \<open>R\<close> holds the mapped front part of every region.
\<close>

definition regions_ok :: "region_info list \<Rightarrow> bool" where
  "regions_ok R \<longleftrightarrow> length R \<le> 65536 \<and> (\<forall>r \<in> set R. unat (ri_base r) + unat (ri_len r) \<le> 2 ^ 32) \<and>
     sorted_wrt (\<lambda>a b. unat (ri_base a) + unat (ri_len a) \<le> unat (ri_base b) \<or>
       unat (ri_base b) + unat (ri_len b) \<le> unat (ri_base a)) R"

definition snapshot_of :: "region_info list \<Rightarrow> memory_snapshot \<Rightarrow> bool" where
  "snapshot_of R s \<longleftrightarrow> map sr_region (ms_layout s) = R \<and>
     (\<forall>l \<in> set (ms_layout s). sr_offset l + sr_available l \<le> length (ms_bytes s) \<and>
        sr_available l \<le> unat (ri_len (sr_region l)))"

definition region_data :: "memory_snapshot \<Rightarrow> nat \<Rightarrow> bytes" where
  "region_data s i = take (sr_available (ms_layout s ! i)) (drop (sr_offset (ms_layout s ! i)) (ms_bytes s))"

lemma snapshot_of_length: "snapshot_of R s \<Longrightarrow> length (ms_layout s) = length R"
  by (metis length_map snapshot_of_def)

lemma snapshot_of_region: "snapshot_of R s \<Longrightarrow> i < length R \<Longrightarrow> sr_region (ms_layout s ! i) = R ! i"
  by (auto simp: snapshot_of_def)

lemma region_data:
  assumes "snapshot_of R s" and "i < length R"
  shows "region_bytes s i = Returns (region_data s i)"
    and "length (region_data s i) = sr_available (ms_layout s ! i)"
    and "sr_available (ms_layout s ! i) \<le> unat (ri_len (R ! i))"
proof -
  have i: "i < length (ms_layout s)" using assms by (simp add: snapshot_of_length)
  then have l: "ms_layout s ! i \<in> set (ms_layout s)" by simp
  then have bound: "sr_offset (ms_layout s ! i) + sr_available (ms_layout s ! i) \<le> length (ms_bytes s)"
    using assms(1) by (simp add: snapshot_of_def)
  with i show "region_bytes s i = Returns (region_data s i)"
    by (simp add: region_bytes_def index_at_def slice_at_def region_data_def)
  from bound show "length (region_data s i) = sr_available (ms_layout s ! i)" by (simp add: region_data_def)
  show "sr_available (ms_layout s ! i) \<le> unat (ri_len (R ! i))"
    using assms l by (auto simp: snapshot_of_def)
qed

lemma same_layout_regions:
  assumes "snapshot_of R s" and "map sr_region (ms_layout t) = Q"
  shows "same_layout s t \<longleftrightarrow> Q = R"
proof -
  have "same_layout s t \<longleftrightarrow> map sr_region (ms_layout s) = map sr_region (ms_layout t)"
    by (auto simp: same_layout_def list_all_length list_eq_iff_nth_eq)
  with assms show ?thesis by (auto simp: snapshot_of_def)
qed

text \<open>Where an address is: the offset in its region.\<close>

definition address_at :: "region_info list \<Rightarrow> nat \<Rightarrow> nat \<Rightarrow> u32" where
  "address_at R i offset = ri_base (R ! i) + of_nat offset"

lemma address_at_unat:
  assumes "regions_ok R" and "i < length R" and "offset + len \<le> unat (ri_len (R ! i))" and "1 \<le> len"
  shows "unat (address_at R i offset) = unat (ri_base (R ! i)) + offset"
    and "add_u32 (ri_base (R ! i)) (of_nat offset) = Returns (address_at R i offset)"
proof -
  have "unat (ri_base (R ! i)) + unat (ri_len (R ! i)) \<le> 2 ^ 32" using assms(1,2) by (simp add: regions_ok_def)
  then have small: "unat (ri_base (R ! i)) + offset < 2 ^ 32" using assms(3,4) by linarith
  then have "unat (of_nat offset :: u32) = offset" by (simp add: unat_of_nat)
  with small show "unat (address_at R i offset) = unat (ri_base (R ! i)) + offset"
    "add_u32 (ri_base (R ! i)) (of_nat offset) = Returns (address_at R i offset)"
    by (simp_all add: address_at_def add_u32_def unat_word_ariths)
qed

lemma offset_of_Some:
  "offset_of r a len = Some off \<longleftrightarrow> unat (ri_base r) \<le> unat a \<and> unat off = unat a - unat (ri_base r) \<and>
     unat a - unat (ri_base r) + len \<le> unat (ri_len r)"
proof (cases "ri_base r \<le> a")
  case True
  then have "unat (a - ri_base r) = unat a - unat (ri_base r)" by (simp add: unat_sub_if' word_le_nat_alt)
  with True show ?thesis
    by (auto simp: offset_of_def word_le_nat_alt word_less_nat_alt word_unat_eq_iff)
next
  case False
  then show ?thesis by (simp add: offset_of_def word_le_nat_alt word_less_nat_alt)
qed

lemma offset_of_address_at:
  assumes "regions_ok R" and "i < length R" and "offset + len \<le> unat (ri_len (R ! i))" and "1 \<le> len"
  shows "\<exists>off. offset_of (R ! i) (address_at R i offset) len = Some off \<and> unat off = offset"
proof -
  note u = address_at_unat(1) [OF assms]
  have "unat (ri_len (R ! i)) < 2 ^ 32" using unsigned_less [of "ri_len (R ! i)"] by simp
  then have "offset < 2 ^ 32" using assms(3) by linarith
  then have "unat (of_nat offset :: u32) = offset" by (simp add: unat_of_nat)
  with assms(3) u show ?thesis by (intro exI [of _ "of_nat offset"]) (simp add: offset_of_Some)
qed

text \<open>An address is in one region only, so \<open>locate\<close> finds a candidate in the region it came from.\<close>

lemma offset_of_unique:
  assumes R: "regions_ok R" and i: "i < length R" "offset_of (R ! i) a len = Some x"
    and j: "j < length R" "offset_of (R ! j) a len = Some y" and len: "1 \<le> len"
  shows "i = j"
proof (rule ccontr)
  assume "i \<noteq> j"
  then have "\<exists>p q. p < q \<and> {p, q} = {i, j}" by (meson doubleton_eq_iff linorder_neqE_nat)
  then obtain p q where pq: "p < q" "{p, q} = {i, j}" by blast
  then have in_both: "p < length R" "q < length R" "offset_of (R ! p) a len \<noteq> None" "offset_of (R ! q) a len \<noteq> None"
    using i j by (auto simp: doubleton_eq_iff)
  have "unat (ri_base (R ! p)) + unat (ri_len (R ! p)) \<le> unat (ri_base (R ! q)) \<or>
      unat (ri_base (R ! q)) + unat (ri_len (R ! q)) \<le> unat (ri_base (R ! p))"
    using R sorted_wrt_nth_less [OF _ pq(1) in_both(2)] by (fastforce simp: regions_ok_def)
  with in_both(3,4) len show False by (auto simp: offset_of_Some)
qed

lemma locate_from_spec:
  "locate_from k ls a len = Some (i, off) \<longleftrightarrow>
    k \<le> i \<and> i < k + length ls \<and> (\<exists>x. offset_of (sr_region (ls ! (i - k))) a len = Some x \<and> unat x = off) \<and>
    off + len \<le> sr_available (ls ! (i - k)) \<and>
    (\<forall>j < i - k. \<forall>x. offset_of (sr_region (ls ! j)) a len = Some x \<longrightarrow> sr_available (ls ! j) < unat x + len)"
proof (induction k ls a len rule: locate_from.induct)
  case (2 k l ls a len)
  let ?hit = "\<exists>x. offset_of (sr_region l) a len = Some x \<and> unat x + len \<le> sr_available l"
  show ?case
  proof (cases ?hit)
    case True
    then obtain x where x: "offset_of (sr_region l) a len = Some x" "unat x + len \<le> sr_available l" by blast
    then have "locate_from k (l # ls) a len = Some (k, unat x)" by simp
    moreover have "i = k" if "\<forall>j < i - k. \<forall>x. offset_of (sr_region ((l # ls) ! j)) a len = Some x \<longrightarrow>
        sr_available ((l # ls) ! j) < unat x + len" "k \<le> i"
    proof (rule ccontr)
      assume "i \<noteq> k"
      then have "0 < i - k" using that(2) by simp
      with that(1) x have "sr_available l < unat x + len" by fastforce
      with x(2) show False by simp
    qed
    ultimately show ?thesis using x by auto
  next
    case False
    then have step: "locate_from k (l # ls) a len = locate_from (Suc k) ls a len"
      by (auto split: option.splits)
    have miss: "\<forall>x. offset_of (sr_region l) a len = Some x \<longrightarrow> sr_available l < unat x + len"
      using False by (auto simp: not_le)
    have ih: "locate_from (Suc k) ls a len = Some (i, off) \<longleftrightarrow>
      Suc k \<le> i \<and> i < Suc k + length ls \<and> (\<exists>x. offset_of (sr_region (ls ! (i - Suc k))) a len = Some x \<and> unat x = off) \<and>
      off + len \<le> sr_available (ls ! (i - Suc k)) \<and>
      (\<forall>j < i - Suc k. \<forall>x. offset_of (sr_region (ls ! j)) a len = Some x \<longrightarrow> sr_available (ls ! j) < unat x + len)"
      using 2 False by (cases "offset_of (sr_region l) a len") auto
    consider "i < k" | "i = k" | "Suc k \<le> i" by linarith
    then show ?thesis
    proof cases
      case 3
      then have "i - k = Suc (i - Suc k)" by simp
      with 3 miss show ?thesis unfolding step ih by (auto simp: All_less_Suc2)
    qed (use miss step ih in auto)
  qed
qed simp

lemma locate_spec:
  assumes R: "regions_ok R" and s: "snapshot_of R s" and i: "i < length R"
    and off: "off + len \<le> unat (ri_len (R ! i))" and len: "1 \<le> len"
  shows "locate s (address_at R i off) len =
    (if off + len \<le> sr_available (ms_layout s ! i) then Some (i, off) else None)"
proof -
  obtain x where x: "offset_of (R ! i) (address_at R i off) len = Some x" "unat x = off"
    using offset_of_address_at [OF R i off len] by blast
  have regions: "j < length R \<Longrightarrow> sr_region (ms_layout s ! j) = R ! j" for j
    by (rule snapshot_of_region [OF s])
  note length = snapshot_of_length [OF s]
  have only: "j = i" if "j < length R" "offset_of (R ! j) (address_at R i off) len = Some y" for j y
    by (rule offset_of_unique [OF R that i x(1) len])
  have hit: "locate s (address_at R i off) len = Some (j, y) \<Longrightarrow>
      j = i \<and> y = off \<and> off + len \<le> sr_available (ms_layout s ! i)" for j y
    unfolding locate_def locate_from_spec using only regions x length by fastforce
  show ?thesis
  proof (cases "off + len \<le> sr_available (ms_layout s ! i)")
    case True
    have "\<forall>j < i. \<forall>y. offset_of (sr_region (ms_layout s ! j)) (address_at R i off) len = Some y \<longrightarrow>
        sr_available (ms_layout s ! j) < unat y + len"
      using only regions i by (metis less_irrefl less_trans)
    then have "locate s (address_at R i off) len = Some (i, off)"
      unfolding locate_def locate_from_spec using True x regions i length by simp
    with True show ?thesis by simp
  next
    case False
    then have "locate s (address_at R i off) len = None"
      using hit by (cases "locate s (address_at R i off) len") auto
    with False show ?thesis by simp
  qed
qed

end
