(* ===== verification/Memory_Rows.thy ===== *)
theory Memory_Rows
  imports Memory_Candidates
begin

text \<open>
  The rows a set of candidates stands for, as a bitset and as a list; the switch from one to the
  other keeps them; a page of results is the part of them that was asked for.
\<close>

unbundle bit_operations_syntax

subsection \<open>Rows of a bitset\<close>

definition row_at :: "region_info list \<Rightarrow> nat \<Rightarrow> nat \<Rightarrow> memory_snapshot \<Rightarrow> memory_snapshot \<Rightarrow> nat \<Rightarrow> nat \<Rightarrow> search_row" where
  "row_at R al len prev first i slot =
     \<lparr>sw_address = address_at R i (slot * al), sw_region = i,
      sw_previous = take len (drop (slot * al) (region_data prev i)),
      sw_first = take len (drop (slot * al) (region_data first i))\<rparr>"

definition slot_ok :: "nat \<Rightarrow> nat \<Rightarrow> memory_snapshot \<Rightarrow> memory_snapshot \<Rightarrow> nat \<Rightarrow> nat \<Rightarrow> bool" where
  "slot_ok al len prev first i slot \<longleftrightarrow>
     slot * al + len \<le> sr_available (ms_layout prev ! i) \<and> slot * al + len \<le> sr_available (ms_layout first ! i)"

fun dense_rows :: "region_info list \<Rightarrow> nat \<Rightarrow> nat \<Rightarrow> memory_snapshot \<Rightarrow> memory_snapshot \<Rightarrow> nat \<Rightarrow> dense_region list \<Rightarrow>
    search_row list" where
  "dense_rows R al len prev first i [] = []"
| "dense_rows R al len prev first i (d # ds) =
     map (row_at R al len prev first i) (slots (dr_words d)) @ dense_rows R al len prev first (Suc i) ds"

fun dense_ok :: "region_info list \<Rightarrow> nat \<Rightarrow> nat \<Rightarrow> memory_snapshot \<Rightarrow> memory_snapshot \<Rightarrow> nat \<Rightarrow> dense_region list \<Rightarrow>
    bool" where
  "dense_ok R al len prev first i [] = True"
| "dense_ok R al len prev first i (d # ds) \<longleftrightarrow> i < length R \<and> build_rank d = d \<and>
     list_all (slot_ok al len prev first i) (slots (dr_words d)) \<and> dense_ok R al len prev first (Suc i) ds"

lemma slot_row_returns:
  assumes R: "regions_ok R" "snapshot_of R prev" "snapshot_of R first" "1 \<le> len" "i < length R"
    and slot: "slot_ok al len prev first i slot"
  shows "slot_row al len (ri_base (sr_region (ms_layout prev ! i))) (region_data prev i) (region_data first i) i slot =
    Returns (row_at R al len prev first i slot)"
proof -
  note p = region_data(2,3) [OF R(2,5)] and f = region_data(2) [OF R(3,5)]
  have "slot * al + len \<le> unat (ri_len (R ! i))" using slot p(2) by (simp add: slot_ok_def)
  note a = address_at_unat(2) [OF R(1,5) this R(4)]
  show ?thesis
    using slot by (simp add: slot_row_def Let_def snapshot_of_region [OF R(2,5)] a slice_at_def get_slice_def
        slot_ok_def p(1) f row_at_def del: of_nat_mult)
qed

subsection \<open>Rows of a list\<close>

definition lists_of :: "search_row list \<Rightarrow> sparse_lists" where
  "lists_of rows = (map sw_address rows, map (\<lambda>r. of_nat (sw_region r)) rows,
     concat (map sw_previous rows), concat (map sw_first rows))"

definition row_ok :: "region_info list \<Rightarrow> nat \<Rightarrow> search_row \<Rightarrow> bool" where
  "row_ok R len row \<longleftrightarrow> sw_region row < length R \<and> offset_of (R ! sw_region row) (sw_address row) len \<noteq> None \<and>
     length (sw_previous row) = len \<and> length (sw_first row) = len"

definition row_of_lists :: "nat \<Rightarrow> sparse_lists \<Rightarrow> nat \<Rightarrow> search_row" where
  "row_of_lists len vecs i = (case vecs of (as, rs, ps, fs) \<Rightarrow>
     \<lparr>sw_address = as ! i, sw_region = unat (rs ! i), sw_previous = take len (drop (i * len) ps),
      sw_first = take len (drop (i * len) fs)\<rparr>)"

definition rows_of_lists :: "nat \<Rightarrow> sparse_lists \<Rightarrow> search_row list" where
  "rows_of_lists len vecs = map (row_of_lists len vecs) [0 ..< length (fst vecs)]"

lemma push_candidate_lists: "push_candidate row (lists_of rows) = lists_of (rows @ [row])"
  by (simp add: push_candidate_def lists_of_def)

lemma concat_take_drop:
  assumes "\<forall>x \<in> set xs. length (f x) = len" and "i < length xs"
  shows "take len (drop (i * len) (concat (map f xs))) = f (xs ! i)"
  using assms
proof (induction xs arbitrary: i)
  case (Cons x xs)
  then show ?case by (cases i) auto
qed simp

lemma length_concat_rows: "\<forall>x \<in> set xs. length (f x) = len \<Longrightarrow> length (concat (map f xs)) = length xs * len"
  by (induction xs) auto

lemma row_region_small: "regions_ok R \<Longrightarrow> row_ok R len row \<Longrightarrow> unat (of_nat (sw_region row) :: u16) = sw_region row"
  by (simp add: row_ok_def regions_ok_def unat_of_nat)

lemma row_of_lists_of:
  assumes "regions_ok R" and "list_all (row_ok R len) rows" and "i < length rows"
  shows "row_of_lists len (lists_of rows) i = rows ! i"
proof -
  have "\<forall>r \<in> set rows. length (sw_previous r) = len" "\<forall>r \<in> set rows. length (sw_first r) = len"
    using assms(2) by (simp_all add: list_all_iff row_ok_def)
  moreover have "unat (of_nat (sw_region (rows ! i)) :: u16) = sw_region (rows ! i)"
    using assms(2,3) by (intro row_region_small [OF assms(1), where len = len]) (simp add: list_all_iff)
  ultimately show ?thesis using assms(3) by (simp add: row_of_lists_def lists_of_def concat_take_drop)
qed

lemma rows_of_lists_of:
  assumes "regions_ok R" and "list_all (row_ok R len) rows"
  shows "rows_of_lists len (lists_of rows) = rows"
  by (rule nth_equalityI) (simp_all add: rows_of_lists_def lists_of_def row_of_lists_of [OF assms, unfolded lists_of_def])

lemma row_at_ok:
  assumes R: "regions_ok R" "snapshot_of R prev" "snapshot_of R first" "1 \<le> len" "i < length R"
    and slot: "slot_ok al len prev first i slot"
  shows "row_ok R len (row_at R al len prev first i slot)"
proof -
  note p = region_data(2,3) [OF R(2,5)] and f = region_data(2) [OF R(3,5)]
  have "slot * al + len \<le> unat (ri_len (R ! i))" using slot p(2) by (simp add: slot_ok_def)
  from offset_of_address_at [OF R(1,5) this R(4)] slot R(5) p(1) f show ?thesis
    by (auto simp: row_ok_def row_at_def slot_ok_def)
qed

lemma dense_rows_ok:
  assumes R: "regions_ok R" "snapshot_of R prev" "snapshot_of R first" "1 \<le> len"
  shows "dense_ok R al len prev first i ds \<Longrightarrow> list_all (row_ok R len) (dense_rows R al len prev first i ds)"
  using row_at_ok [OF R] by (induction i ds rule: dense_rows.induct) (auto simp: list_all_iff)

subsection \<open>Candidates and their rows\<close>

definition search_len :: "'f search_settings \<Rightarrow> nat" where
  "search_len ss = vf_len (ss_format ss)"

fun candidate_rows :: "region_info list \<Rightarrow> 'f search_settings \<Rightarrow> candidates \<Rightarrow> search_row list" where
  "candidate_rows R ss (Dense regions prev first _) = dense_rows R (alignment_of ss) (search_len ss) prev first 0 regions"
| "candidate_rows R ss (Sparse as rs ps fs) = rows_of_lists (search_len ss) (as, rs, ps, fs)"

fun candidates_ok :: "region_info list \<Rightarrow> 'f search_settings \<Rightarrow> candidates \<Rightarrow> bool" where
  "candidates_ok R ss (Dense regions prev first _) \<longleftrightarrow> snapshot_of R prev \<and> snapshot_of R first \<and>
     length regions = length R \<and> dense_ok R (alignment_of ss) (search_len ss) prev first 0 regions"
| "candidates_ok R ss (Sparse as rs ps fs) \<longleftrightarrow>
     (let rows = rows_of_lists (search_len ss) (as, rs, ps, fs)
      in lists_of rows = (as, rs, ps, fs) \<and> list_all (row_ok R (search_len ss)) rows)"

definition search_ok :: "region_info list \<Rightarrow> 'f search \<Rightarrow> bool" where
  "search_ok R s \<longleftrightarrow> format_ok (ss_format (se_settings s)) \<and>
     list_all (candidates_ok R (se_settings s)) (se_candidates s # se_history s @ se_redo s) \<and>
     length (se_history s) < unat (se_steps s) \<and> unat (se_steps s) + length (se_redo s) < 2 ^ 32"

definition search_rows :: "region_info list \<Rightarrow> 'f search \<Rightarrow> search_row list" where
  "search_rows R s = candidate_rows R (se_settings s) (se_candidates s)"

lemma search_len_pos: "format_ok (ss_format ss) \<Longrightarrow> 1 \<le> search_len ss"
  unfolding search_len_def by (rule format_ok_len(1))

lemma sparse_candidates:
  assumes "regions_ok R" and "list_all (row_ok R (search_len ss)) rows" and "lists_of rows = (as, rs, ps, fs)"
  shows "candidates_ok R ss (Sparse as rs ps fs)" and "candidate_rows R ss (Sparse as rs ps fs) = rows"
  using rows_of_lists_of [OF assms(1,2)] assms(2,3) by simp_all

text \<open>The number of candidates is the number of rows.\<close>

lemma count_dense:
  assumes "dense_ok R al len prev first i ds"
  shows "sum_list (map dr_count ds) = length (dense_rows R al len prev first i ds)"
  using assms
proof (induction R al len prev first i ds rule: dense_ok.induct)
  case (2 R al len prev first i d ds)
  then have "dr_count d = dr_count (build_rank d)" by simp
  also have "\<dots> = length (slots (dr_words d))"
    by (simp add: build_rank_def rank_blocks_spec slots_def ones_of_slots [of _ 0])
  finally show ?case using 2 by simp
qed simp

lemma candidates_count_rows: "candidates_ok R ss c \<Longrightarrow> candidates_count c = length (candidate_rows R ss c)"
  by (cases c) (simp_all add: count_dense rows_of_lists_def)

subsection \<open>From bitsets to a list\<close>

lemma push_slots:
  assumes "\<And>x. x \<in> set xs \<Longrightarrow> row x = Returns (g x)"
  shows "rfold (\<lambda>slot vecs. rbind (row slot) (\<lambda>r. Returns (push_candidate r vecs))) xs (lists_of rows) =
    Returns (lists_of (rows @ map g xs))"
  using assms
proof (induction xs arbitrary: rows)
  case (Cons x xs)
  then show ?case by (simp add: push_candidate_lists)
qed simp

lemma sparse_regions_rows:
  assumes R: "regions_ok R" "snapshot_of R prev" "snapshot_of R first" "1 \<le> len"
  shows "dense_ok R al len prev first i ds \<Longrightarrow>
    sparse_regions al len prev first i ds (lists_of rows) = Returns (lists_of (rows @ dense_rows R al len prev first i ds))"
proof (induction ds arbitrary: i rows)
  case (Cons d ds)
  have i: "i < length R" using Cons.prems by simp
  then have layout: "index_at (ms_layout prev) i = Returns (ms_layout prev ! i)"
    by (simp add: index_at_def snapshot_of_length [OF R(2)])
  have slots: "slot_row al len (ri_base (sr_region (ms_layout prev ! i))) (region_data prev i) (region_data first i) i slot =
      Returns (row_at R al len prev first i slot)" if "slot \<in> set (slots (dr_words d))" for slot
    using slot_row_returns [OF R i] that Cons.prems by (simp add: list_all_iff)
  have "for_slots (\<lambda>slot vecs. rbind (slot_row al len (ri_base (sr_region (ms_layout prev ! i))) (region_data prev i)
        (region_data first i) i slot) (\<lambda>row. Returns (push_candidate row vecs))) 0 (dr_words d) (Returns (lists_of rows)) =
      Returns (lists_of (rows @ map (row_at R al len prev first i) (slots (dr_words d))))"
    unfolding for_slots_rfold rbind_simps slots_def [symmetric] by (rule push_slots) (rule slots)
  with Cons show ?case by (simp add: layout region_data(1) [OF R(2) i] region_data(1) [OF R(3) i])
qed simp

text \<open>Switching to a list changes neither the rows nor anything else of the search.\<close>

lemma maybe_make_sparse_rows:
  assumes R: "regions_ok R" and f: "format_ok (ss_format (se_settings s))"
    and ok: "candidates_ok R (se_settings s) (se_candidates s)"
  shows "\<exists>c. maybe_make_sparse s = Returns (s\<lparr>se_candidates := c\<rparr>) \<and> candidates_ok R (se_settings s) c \<and>
    candidate_rows R (se_settings s) c = search_rows R s"
proof (cases "se_candidates s")
  case (Sparse as rs ps fs)
  then have "maybe_make_sparse s = Returns (s\<lparr>se_candidates := se_candidates s\<rparr>)" by (simp add: maybe_make_sparse_def)
  with ok show ?thesis unfolding search_rows_def by blast
next
  case (Dense ds prev first same)
  have d: "snapshot_of R prev" "snapshot_of R first" "dense_ok R (alignment_of (se_settings s)) (search_len (se_settings s)) prev first 0 ds"
    using ok Dense by simp_all
  let ?rows = "dense_rows R (alignment_of (se_settings s)) (search_len (se_settings s)) prev first 0 ds"
  note len = search_len_pos [OF f]
  have rows: "search_rows R s = ?rows" by (simp add: search_rows_def Dense)
  have "maybe_make_sparse s = Returns s \<or> maybe_make_sparse s = rbind (sparse_regions (alignment_of (se_settings s)) (search_len (se_settings s)) prev first 0 ds ([], [], [], []))
        (\<lambda>(as, rs, ps, fs). Returns (s\<lparr>se_candidates := Sparse as rs ps fs\<rparr>))"
    by (simp add: maybe_make_sparse_def Dense Let_def search_len_def)
  then show ?thesis
  proof
    assume "maybe_make_sparse s = Returns s"
    then have "maybe_make_sparse s = Returns (s\<lparr>se_candidates := se_candidates s\<rparr>)" by simp
    with ok show ?thesis unfolding search_rows_def by blast
  next
    assume sparse: "maybe_make_sparse s = rbind (sparse_regions (alignment_of (se_settings s)) (search_len (se_settings s))
      prev first 0 ds ([], [], [], [])) (\<lambda>(as, rs, ps, fs). Returns (s\<lparr>se_candidates := Sparse as rs ps fs\<rparr>))"
    obtain as rs ps fs where l: "lists_of ?rows = (as, rs, ps, fs)" by (cases "lists_of ?rows") auto
    have "([], [], [], []) = lists_of []" by (simp add: lists_of_def)
    then have "maybe_make_sparse s = Returns (s\<lparr>se_candidates := Sparse as rs ps fs\<rparr>)"
      using sparse sparse_regions_rows [OF R d(1,2) len d(3), of "[]"] l by simp
    with sparse_candidates [OF R dense_rows_ok [OF R d(1,2) len d(3)] l] rows show ?thesis by auto
  qed
qed

subsection \<open>Pages of results\<close>

lemma page_bits_spec:
  assumes "\<And>b. b \<in> set (bits_of bits) \<Longrightarrow> row b = Returns (g b)"
  shows "page_bits row n bits rows = Returns (rows @ take (n - length rows) (map g (bits_of bits)))"
  using assms
proof (induction row n bits rows rule: page_bits.induct)
  case (1 row n bits rows)
  show ?case
  proof (cases "bits \<noteq> 0 \<and> length rows < n")
    case False
    then show ?thesis by (subst page_bits.simps) auto
  next
    case True
    then obtain b bs where bs: "bits_of bits = b # bs" by (cases "bits_of bits") (auto simp: bits_of_eq_Nil)
    have row: "row (trailing_zeros bits) = Returns (g b)" using True 1(2) bs by (simp add: trailing_zeros_hd)
    have rest: "bits_of (bits AND (bits - 1)) = bs" using True bs by (simp add: bits_of_and_pred)
    have "page_bits row n (bits AND (bits - 1)) (rows @ [g b]) =
        Returns ((rows @ [g b]) @ take (n - length (rows @ [g b])) (map g bs))"
      using 1(1) [OF True] 1(2) bs by (simp add: rest)
    moreover have "n - length rows = Suc (n - Suc (length rows))" using True by linarith
    ultimately show ?thesis using True row bs by (subst page_bits.simps) simp
  qed
qed

lemma page_words_spec:
  assumes "\<And>s. s \<in> set (map (\<lambda>b. w * 64 + b) (bits_of bits) @ slots_from (Suc w) rest) \<Longrightarrow> row s = Returns (g s)"
  shows "page_words row n w bits rest rows =
    Returns (rows @ take (n - length rows) (map g (map (\<lambda>b. w * 64 + b) (bits_of bits) @ slots_from (Suc w) rest)))"
  using assms
proof (induction row n w bits rest rows rule: page_words.induct)
  case (1 row n w bits rows)
  then show ?case by (simp add: page_bits_spec [where g = "\<lambda>b. g (w * 64 + b)"] o_def)
next
  case (2 row n w bits word rest rows)
  let ?rows = "rows @ take (n - length rows) (map (\<lambda>b. g (w * 64 + b)) (bits_of bits))"
  have first: "page_bits (\<lambda>b. row (w * 64 + b)) n bits rows = Returns ?rows"
    using 2(2) by (intro page_bits_spec) simp
  show ?case
  proof (cases "n \<le> length ?rows")
    case True
    then have "n - length rows \<le> length (bits_of bits)" by simp
    with True first show ?thesis by (simp add: o_def)
  next
    case False
    from 2(1) [OF this] 2(2) have "page_words row n (Suc w) word rest ?rows =
        Returns (?rows @ take (n - length ?rows) (map g (slots_from (Suc w) (word # rest))))" by simp
    moreover have "n - length ?rows = n - length rows - length (bits_of bits)" "length (bits_of bits) \<le> n - length rows"
      using False by auto
    ultimately show ?thesis using first False by (simp add: o_def)
  qed
qed

lemma bits_of_mask: "bits_of (word AND NOT (mask b)) = filter (\<lambda>n. b \<le> n) (bits_of word)"
  unfolding bits_of_def filter_filter
  by (rule filter_cong [OF refl]) (auto simp: bit_and_iff bit_not_iff bit_mask_iff)

lemma sorted_drop_filter: "sorted xs \<Longrightarrow> distinct xs \<Longrightarrow> k < length xs \<Longrightarrow> filter (\<lambda>x. xs ! k \<le> x) xs = drop k xs"
proof (induction xs arbitrary: k)
  case (Cons x xs)
  show ?case
  proof (cases k)
    case 0
    with Cons.prems show ?thesis by (auto intro!: filter_True)
  next
    case (Suc j)
    with Cons.prems have "xs ! j \<in> set xs" by simp
    with Cons.prems have "\<not> xs ! j \<le> x" by force
    with Cons Suc show ?thesis by simp
  qed
qed simp

lemma slots_from_ge: "s \<in> set (slots_from i ws) \<Longrightarrow> i * 64 \<le> s"
  by (auto simp: slots_from_filter)

text \<open>Starting from the nth candidate, the loop over a region visits the candidates from there on.\<close>

lemma slots_tail:
  assumes "k < length (slots ws)"
  defines "s \<equiv> slots ws ! k"
  shows "s div 64 < length ws" and "drop k (slots ws) =
    map (\<lambda>b. s div 64 * 64 + b) (bits_of (ws ! (s div 64) AND push_bit (s mod 64) (NOT 0))) @
    slots_from (Suc (s div 64)) (drop (Suc (s div 64)) ws)"
proof -
  let ?w = "s div 64"
  have mem: "s \<in> set (slots ws)" unfolding s_def using assms(1) by (rule nth_mem)
  then show w: "?w < length ws" by (simp add: in_slots has_slot_def)
  have "ws = take ?w ws @ ws ! ?w # drop (Suc ?w) ws" using w by (simp add: id_take_nth_drop)
  then have all: "slots ws = slots_from 0 (take ?w ws) @ map (\<lambda>b. ?w * 64 + b) (bits_of (ws ! ?w)) @
      slots_from (Suc ?w) (drop (Suc ?w) ws)"
    unfolding slots_def using w slots_from_append [of 0 "take ?w ws" "ws ! ?w # drop (Suc ?w) ws"] by simp
  have "drop k (slots ws) = filter (\<lambda>x. s \<le> x) (slots ws)"
    unfolding s_def using sorted_drop_filter [OF slots_sorted _ assms(1)] by simp
  moreover have "filter (\<lambda>x. s \<le> x) (slots_from 0 (take ?w ws)) = []"
  proof -
    have "\<not> s \<le> x" if "x \<in> set (slots_from 0 (take ?w ws))" for x
    proof -
      from that have "x < length (take ?w ws) * 64" by (auto simp: slots_from_filter)
      then have "x < ?w * 64" using w by simp
      moreover have "?w * 64 \<le> s" by simp
      ultimately show ?thesis by linarith
    qed
    then show ?thesis by (simp add: filter_empty_conv)
  qed
  moreover have "filter (\<lambda>x. s \<le> x) (slots_from (Suc ?w) (drop (Suc ?w) ws)) = slots_from (Suc ?w) (drop (Suc ?w) ws)"
  proof (rule filter_True, rule ballI)
    fix x
    assume "x \<in> set (slots_from (Suc ?w) (drop (Suc ?w) ws))"
    then have "Suc ?w * 64 \<le> x" by (rule slots_from_ge)
    then show "s \<le> x" by simp
  qed
  moreover have "filter (\<lambda>x. s \<le> x) (map (\<lambda>b. ?w * 64 + b) (bits_of (ws ! ?w))) =
      map (\<lambda>b. ?w * 64 + b) (bits_of (ws ! ?w AND push_bit (s mod 64) (NOT 0)))"
  proof -
    have "s \<le> ?w * 64 + b \<longleftrightarrow> s mod 64 \<le> b" for b by presburger
    then show ?thesis by (simp add: filter_map o_def bits_of_mask)
  qed
  ultimately show "drop k (slots ws) =
    map (\<lambda>b. ?w * 64 + b) (bits_of (ws ! ?w AND push_bit (s mod 64) (NOT 0))) @ slots_from (Suc ?w) (drop (Suc ?w) ws)"
    by (simp add: all)
qed

lemma page_regions_spec:
  assumes R: "regions_ok R" "snapshot_of R prev" "snapshot_of R first" "1 \<le> len"
  shows "dense_ok R al len prev first i ds \<Longrightarrow> page_regions al len prev first n i ds skip rows =
    Returns (rows @ take (n - length rows) (drop skip (dense_rows R al len prev first i ds)))"
proof (induction ds arbitrary: i skip rows)
  case (Cons d ds)
  let ?rest = "dense_rows R al len prev first (Suc i) ds" and ?row = "row_at R al len prev first i"
  have i: "i < length R" and d: "build_rank d = d"
    and ok: "\<And>s. s \<in> set (slots (dr_words d)) \<Longrightarrow> slot_ok al len prev first i s"
    using Cons.prems by (simp_all add: list_all_iff)
  have count: "dr_count d = length (slots (dr_words d))"
    using arg_cong [OF d, of dr_count] by (simp add: build_rank_def rank_blocks_spec slots_def ones_of_slots [of _ 0])
  note ih = Cons.IH [of "Suc i"]
  show ?case
  proof (cases "n \<le> length rows")
    case True
    then show ?thesis by simp
  next
    case more: False
    show ?thesis
    proof (cases "dr_count d \<le> skip")
      case True
      with more count ih Cons.prems show ?thesis by simp
    next
      case False
      then have skip: "skip < length (slots (dr_words d))" by (simp add: count)
      define s where "s = slots (dr_words d) ! skip"
      note tail = slots_tail [OF skip, folded s_def]
      have nth: "nth_slot d skip = Returns (Some s)" using nth_slot_spec [of d skip] skip by (simp add: d s_def)
      have layout: "index_at (ms_layout prev) i = Returns (ms_layout prev ! i)"
        by (simp add: index_at_def snapshot_of_length [OF R(2)] i)
      have word: "index_at (dr_words d) (s div 64) = Returns (dr_words d ! (s div 64))"
        using tail(1) by (simp add: index_at_def)
      have "slot_row al len (ri_base (sr_region (ms_layout prev ! i))) (region_data prev i) (region_data first i) i t =
          Returns (?row t)" if "t \<in> set (drop skip (slots (dr_words d)))" for t
        using slot_row_returns [OF R i ok] set_drop_subset that by fastforce
      then have "page_words (slot_row al len (ri_base (sr_region (ms_layout prev ! i))) (region_data prev i) (region_data first i) i)
          n (s div 64) (dr_words d ! (s div 64) AND push_bit (s mod 64) (NOT 0)) (drop (Suc (s div 64)) (dr_words d)) rows =
        Returns (rows @ take (n - length rows) (map ?row (drop skip (slots (dr_words d)))))"
        unfolding tail(2) by (rule page_words_spec)
      then have "page_regions al len prev first n i (d # ds) skip rows = page_regions al len prev first n (Suc i) ds 0
          (rows @ take (n - length rows) (map ?row (drop skip (slots (dr_words d)))))"
        using more False tail(1)
        by (simp add: nth layout word region_data(1) [OF R(2) i] region_data(1) [OF R(3) i])
      also have "\<dots> = Returns (rows @ take (n - length rows) (map ?row (drop skip (slots (dr_words d))) @ ?rest))"
      proof -
        have "n - (length rows + min a (n - length rows)) = n - (length rows + a)" for a by (simp add: min_def)
        then show ?thesis using ih Cons.prems by simp
      qed
      finally show ?thesis using skip by (simp add: drop_map)
    qed
  qed
qed simp

lemma rfold_rows:
  assumes "\<And>i. i \<in> set xs \<Longrightarrow> f i = (\<lambda>rows. Returns (rows @ [g i]))"
  shows "rfold f xs rows = Returns (rows @ map g xs)"
  using assms by (induction xs arbitrary: rows) simp_all

text \<open>
  A page; the end of a page of a list is computed by an addition that can leave \<open>usize\<close>.
\<close>

lemma search_results_rows:
  assumes R: "regions_ok R" and ok: "search_ok R s"
  shows "search_results s offset n =
    (if is_sparse (se_candidates s) \<and> usize_limit \<le> min offset (length (search_rows R s)) + n then Panics
     else Returns (take n (drop offset (search_rows R s))))"
proof (cases "se_candidates s")
  case (Dense ds prev first same)
  have f: "format_ok (ss_format (se_settings s))" using ok by (simp add: search_ok_def)
  have "snapshot_of R prev" "snapshot_of R first"
    "dense_ok R (alignment_of (se_settings s)) (search_len (se_settings s)) prev first 0 ds"
    using ok Dense by (simp_all add: search_ok_def)
  from page_regions_spec [OF R this(1,2) search_len_pos [OF f] this(3), of n offset "[]"] show ?thesis
    by (simp add: search_results_def Dense Let_def search_rows_def search_len_def)
next
  case (Sparse as rs ps fs)
  let ?len = "search_len (se_settings s)"
  define rows where "rows = rows_of_lists ?len (as, rs, ps, fs)"
  have l: "lists_of rows = (as, rs, ps, fs)" and rok: "list_all (row_ok R ?len) rows"
    using ok Sparse by (simp_all add: search_ok_def rows_def Let_def)
  have len: "length as = length rows" "length rs = length rows" using l by (auto simp: lists_of_def)
  have pf: "length ps = length rows * ?len" "length fs = length rows * ?len"
    using l rok by (auto simp: lists_of_def list_all_iff row_ok_def intro!: length_concat_rows)
  have row: "sparse_row ?len as rs ps fs i = (\<lambda>acc. Returns (acc @ [rows ! i]))" if "i < length rows" for i
  proof
    fix acc
    have "row_of_lists ?len (as, rs, ps, fs) i = rows ! i"
      using row_of_lists_of [OF R rok that] unfolding l .
    moreover have "i * ?len + ?len \<le> length rows * ?len" using that mult_le_mono1 [of "Suc i" "length rows" ?len] by simp
    ultimately show "sparse_row ?len as rs ps fs i acc = Returns (acc @ [rows ! i])"
      using that by (simp add: sparse_row_def index_at_def len slice_at_def pf row_of_lists_def add.commute)
  qed
  let ?start = "min offset (length rows)" and ?e = "min (min offset (length rows) + n) (length rows)"
  have "rfold (sparse_row ?len as rs ps fs) [?start ..< ?e] [] = Returns ([] @ map (\<lambda>i. rows ! i) [?start ..< ?e])"
    by (rule rfold_rows) (simp add: row)
  also have "map (\<lambda>i. rows ! i) [?start ..< ?e] = take n (drop offset rows)"
    by (rule nth_equalityI) (auto simp: min_def split: if_splits)
  finally show ?thesis
    by (simp add: search_results_def add_usize_def not_less Sparse Let_def search_rows_def search_len_def len rows_def)
qed

end
