(* ===== verification/Memory_Refine.thy ===== *)
theory Memory_Refine
  imports Memory_Rows
begin

text \<open>
  Narrowing a search: whatever form the candidates have, a scan keeps exactly the rows whose bytes
  in the new snapshot pass the comparison, and gives them their new values.
\<close>

unbundle bit_operations_syntax

subsection \<open>What a scan does to a row\<close>

definition refine_row :: "('f, 'x) float_lib_scheme \<Rightarrow> 'f search_settings \<Rightarrow> 'f comparison \<Rightarrow> memory_snapshot \<Rightarrow>
    search_row \<Rightarrow> search_row option" where
  "refine_row fl ss c snapshot row = (case locate snapshot (sw_address row) (search_len ss) of
     None \<Rightarrow> None
   | Some (i, offset) \<Rightarrow>
       let current = take (search_len ss) (drop offset (region_data snapshot i)) in
       if passes fl (settings_reader ss) c current (Some (sw_previous row)) (Some (sw_first row)) = Returns True
       then Some (row\<lparr>sw_previous := current\<rparr>) else None)"

lemma map_filter_append: "List.map_filter f (xs @ ys) = List.map_filter f xs @ List.map_filter f ys"
  by (simp add: List.map_filter_def)

lemma map_filter_map_filter: "(\<And>x. x \<in> set xs \<Longrightarrow> f (g x) = (if P x then Some (h x) else None)) \<Longrightarrow>
    List.map_filter f (map g xs) = map h (filter P xs)"
  by (induction xs) (simp_all add: List.map_filter_def)

lemma settings_reader_ok:
  "format_ok (ss_format ss) \<Longrightarrow> reader_ok (settings_reader ss)" "rd_len (settings_reader ss) = search_len ss"
  by (simp_all add: reader_ok_def settings_reader_def search_len_def)

lemma alignment_pos: "1 \<le> alignment_of ss"
  by (simp add: alignment_of_def)

text \<open>A scan either is cancelled or ends as it should.\<close>

definition done_or_cancelled :: "bool \<Rightarrow> 'a \<Rightarrow> (search_error + 'a) rust \<Rightarrow> bool" where
  "done_or_cancelled cancelled x r \<longleftrightarrow> r = Returns (Inr x) \<or> cancelled \<and> r = Returns (Inl Cancelled)"

lemma done_or_cancelled_bind:
  assumes "done_or_cancelled b x r" and "done_or_cancelled b y (f x)"
  shows "done_or_cancelled b y (try_bind r f)"
  using assms by (auto simp: done_or_cancelled_def)

lemma done_returns: "done_or_cancelled b x (Returns (Inr x))"
  by (simp add: done_or_cancelled_def)

subsection \<open>Bitsets\<close>

lemma bit_of_kept:
  assumes "\<And>b. b \<in> set bs \<Longrightarrow> b < 64"
  shows "bit (fold (\<lambda>b kept. if P b then kept OR push_bit b 1 else kept) bs (acc :: u64)) n \<longleftrightarrow>
    bit acc n \<or> n \<in> set bs \<and> P n"
  using assms
proof (induction bs arbitrary: acc)
  case (Cons b bs)
  then have "bit (push_bit b 1 :: u64) n \<longleftrightarrow> n = b" by (auto simp: bit_exp_iff)
  with Cons show ?case by (auto simp: bit_or_iff)
qed simp

lemma fold_returns:
  assumes "\<And>b acc. b \<in> set bs \<Longrightarrow> f b (Returns acc) = Returns (g b acc)"
  shows "fold f bs (Returns acc) = Returns (fold g bs acc)"
  using assms by (induction bs arbitrary: acc) simp_all

text \<open>The bytes of a slot are part of the bytes that the word of the slot covers.\<close>

lemma slice_of_slices:
  assumes "slice_at xs start e = slice_at ys start e" and "start \<le> e" "e \<le> length xs" "e \<le> length ys"
    and "start \<le> a" "a + len \<le> e"
  shows "take len (drop a xs) = take len (drop a ys)"
proof -
  have eq: "take (e - start) (drop start xs) = take (e - start) (drop start ys)"
    using assms(1-4) by (simp add: slice_at_def)
  have part: "take len (drop a zs) = take len (drop (a - start) (take (e - start) (drop start zs)))" for zs :: "'a list"
    using assms(5,6) by (simp add: drop_take take_take min_absorb1)
  show ?thesis unfolding part [of xs] part [of ys] eq ..
qed

definition slot_passes :: "('f, 'x) float_lib_scheme \<Rightarrow> 'f reader \<Rightarrow> 'f comparison \<Rightarrow> nat \<Rightarrow> bytes \<Rightarrow> bytes \<Rightarrow>
    bytes \<Rightarrow> nat \<Rightarrow> bool" where
  "slot_passes fl rd c al current prev firsts slot \<longleftrightarrow>
     slot * al + rd_len rd \<le> length current \<and>
     passes fl rd c (take (rd_len rd) (drop (slot * al) current)) (Some (take (rd_len rd) (drop (slot * al) prev)))
       (Some (take (rd_len rd) (drop (slot * al) firsts))) = Returns True"

lemma refine_word_spec:
  assumes rd: "reader_ok rd" and al: "1 \<le> al"
    and ok: "\<And>b. bit word b \<Longrightarrow> (w * 64 + b) * al + rd_len rd \<le> length prev \<and> (w * 64 + b) * al + rd_len rd \<le> length firsts"
    and grown: "c = Unchanged \<Longrightarrow> length prev \<le> length current"
  shows "\<exists>kept. refine_word fl rd c al current prev firsts w word = Returns kept \<and>
    (\<forall>b. bit kept b \<longleftrightarrow> bit word b \<and> slot_passes fl rd c al current prev firsts (w * 64 + b))"
proof -
  let ?start = "w * 64 * al" and ?len = "rd_len rd"
  let ?e = "min (min (?start + 64 * al + ?len - 1) (length current)) (length prev)"
  let ?P = "\<lambda>b. slot_passes fl rd c al current prev firsts (w * 64 + b)"
  have offset: "(w * 64 + b) * al = ?start + b * al" for b by (simp add: algebra_simps)
  have len: "1 \<le> ?len" using rd format_ok_len(1) by (simp add: reader_ok_def)
  consider (zero) "word = 0"
    | (same) "word \<noteq> 0" "(c = Changed \<or> c = Unchanged) \<and> ?start < ?e \<and> slice_at current ?start ?e = slice_at prev ?start ?e"
    | (scan) "word \<noteq> 0" "\<not> ((c = Changed \<or> c = Unchanged) \<and> ?start < ?e \<and> slice_at current ?start ?e = slice_at prev ?start ?e)"
    by blast
  then show ?thesis
  proof cases
    case zero
    then show ?thesis by (simp add: refine_word_def)
  next
    case same
    have bytes: "take ?len (drop (?start + b * al) current) = take ?len (drop (?start + b * al) prev)"
      if "bit word b" "?start + b * al + ?len \<le> length current" for b
    proof -
      have "b \<le> 63" using bit_imp_le_length [OF that(1)] by simp
      then have "b * al \<le> 63 * al" by (rule mult_le_mono1)
      then have "?start + b * al + ?len \<le> ?start + 64 * al + ?len - 1" using al by linarith
      then have "?start + b * al + ?len \<le> ?e" using that ok [OF that(1)] by (simp add: offset)
      with same(2) show ?thesis by (intro slice_of_slices [of _ ?start ?e]) auto
    qed
    have "bit (if c = Unchanged then word else 0) b \<longleftrightarrow> bit word b \<and> ?P b" for b
      using same(2) bytes [of b] ok [of b] grown
      by (auto simp: slot_passes_def passes_def offset)
    with same show ?thesis by (auto simp: refine_word_def Let_def)
  next
    case scan
    let ?f = "\<lambda>bit kept.
                let offset = ?start + bit * al; e = offset + ?len in
                if length current < e then kept
                else rbind kept (\<lambda>kept.
                  rbind (slice_at current offset e) (\<lambda>cur.
                  rbind (passes fl rd c cur (get_slice prev offset e) (get_slice firsts offset e)) (\<lambda>ok.
                  Returns (if ok then kept OR push_bit bit 1 else kept))))"
    have step: "?f b (Returns kept) = Returns (if ?P b then kept OR push_bit b 1 else kept)"
      if b: "b \<in> set (bits_of word)" for b kept
    proof (cases "?start + b * al + ?len \<le> length current")
      case False
      then show ?thesis by (simp add: slot_passes_def offset)
    next
      case True
      let ?cut = "\<lambda>xs. take ?len (drop (?start + b * al) xs)"
      have mapped: "?start + b * al + ?len \<le> length prev" "?start + b * al + ?len \<le> length firsts"
        using ok [of b] b by (simp_all add: in_bits_of offset)
      have "passes fl rd c (?cut current) (Some (?cut prev)) (Some (?cut firsts)) \<noteq> Panics"
        using True mapped by (intro passes_returns [OF rd]) auto
      then obtain v where "passes fl rd c (?cut current) (Some (?cut prev)) (Some (?cut firsts)) = Returns v"
        by (cases "passes fl rd c (?cut current) (Some (?cut prev)) (Some (?cut firsts))") simp_all
      with True mapped show ?thesis by (simp add: slot_passes_def offset slice_at_def get_slice_def)
    qed
    have "refine_word fl rd c al current prev firsts w word = bit_loop ?f word (Returns 0)"
      using scan by (auto simp: refine_word_def Let_def)
    also have "\<dots> = Returns (fold (\<lambda>b kept. if ?P b then kept OR push_bit b 1 else kept) (bits_of word) 0)"
      unfolding bit_loop_fold by (rule fold_returns) (rule step)
    finally show ?thesis using bit_of_kept [of "bits_of word" ?P 0] by (simp add: bits_of_lt in_bits_of)
  qed
qed

lemma refine_words_spec:
  assumes "\<And>k. k < length ws \<Longrightarrow> f (i + k) (ws ! k) = Returns (vs ! k)" and "length vs = length ws"
  shows "done_or_cancelled (\<exists>n. cancel n) vs (refine_words cancel f i ws)"
  using assms
proof (induction ws arbitrary: i vs)
  case Nil
  then show ?case by (simp add: done_or_cancelled_def)
next
  case (Cons w ws)
  then obtain v vs' where vs: "vs = v # vs'" by (cases vs) auto
  have "f i w = Returns v" using Cons.prems(1) [of 0] by (simp add: vs)
  moreover have "done_or_cancelled (\<exists>n. cancel n) vs' (refine_words cancel f (Suc i) ws)"
    using Cons.prems(1) [of "Suc k" for k] Cons.prems(2) by (intro Cons.IH) (simp_all add: vs)
  ultimately show ?case by (auto simp: done_or_cancelled_def vs)
qed

text \<open>All words of a region: the slots that pass.\<close>

lemma refine_region_words:
  assumes rd: "reader_ok rd" and al: "1 \<le> al"
    and ok: "\<And>s. s \<in> set (slots ws) \<Longrightarrow> s * al + rd_len rd \<le> length prev \<and> s * al + rd_len rd \<le> length firsts"
    and grown: "c = Unchanged \<Longrightarrow> length prev \<le> length current"
  shows "\<exists>vs. done_or_cancelled (\<exists>n. cancel n) vs (refine_words cancel (refine_word fl rd c al current prev firsts) 0 ws) \<and>
    slots vs = filter (slot_passes fl rd c al current prev firsts) (slots ws)"
proof -
  let ?f = "refine_word fl rd c al current prev firsts"
  have bits: "(w * 64 + b) * al + rd_len rd \<le> length prev \<and> (w * 64 + b) * al + rd_len rd \<le> length firsts"
    if "w < length ws" "bit (ws ! w) b" for w b
  proof -
    have "b < 64" using bit_imp_le_length [OF that(2)] by simp
    then have "w * 64 + b \<in> set (slots ws)" using that by (simp add: in_slots has_slot_def)
    then show ?thesis by (rule ok)
  qed
  have "\<exists>kept. w < length ws \<longrightarrow> ?f w (ws ! w) = Returns kept \<and>
      (\<forall>b. bit kept b \<longleftrightarrow> bit (ws ! w) b \<and> slot_passes fl rd c al current prev firsts (w * 64 + b))" for w
    using refine_word_spec [OF rd al bits grown, where w = w and word = "ws ! w"] by blast
  then obtain k where k: "\<And>w. w < length ws \<Longrightarrow> ?f w (ws ! w) = Returns (k w) \<and>
      (\<forall>b. bit (k w) b \<longleftrightarrow> bit (ws ! w) b \<and> slot_passes fl rd c al current prev firsts (w * 64 + b))"
    by metis
  define vs where "vs = map k [0 ..< length ws]"
  have "done_or_cancelled (\<exists>n. cancel n) vs (refine_words cancel ?f 0 ws)"
    by (rule refine_words_spec) (simp_all add: vs_def k)
  moreover have "slots vs = filter (slot_passes fl rd c al current prev firsts) (slots ws)"
  proof -
    have "has_slot vs s \<longleftrightarrow> has_slot ws s \<and> slot_passes fl rd c al current prev firsts s" for s
      by (auto simp: has_slot_def vs_def k)
    then have "has_slot vs = (\<lambda>s. has_slot ws s \<and> slot_passes fl rd c al current prev firsts s)" by blast
    then show ?thesis unfolding slots_filter filter_filter by (simp add: vs_def)
  qed
  ultimately show ?thesis by blast
qed

lemma build_rank_words [simp]: "dr_words (build_rank d) = dr_words d"
  by (simp add: build_rank_def split_def Let_def)

lemma build_rank_twice [simp]: "build_rank (build_rank d) = build_rank d"
  by (simp add: build_rank_def split_def Let_def)

lemma refine_row_at:
  assumes R: "regions_ok R" "snapshot_of R prev" "snapshot_of R first" "snapshot_of R snapshot" "i < length R"
    and f: "format_ok (ss_format ss)"
    and slot: "slot_ok (alignment_of ss) (search_len ss) prev first i s"
  shows "refine_row fl ss c snapshot (row_at R (alignment_of ss) (search_len ss) prev first i s) =
    (if slot_passes fl (settings_reader ss) c (alignment_of ss) (region_data snapshot i) (region_data prev i) (region_data first i) s
     then Some (row_at R (alignment_of ss) (search_len ss) snapshot first i s) else None)"
proof -
  let ?off = "s * alignment_of ss"
  note len = search_len_pos [OF f]
  note p = region_data(2,3) [OF R(2,5)]
  have "?off + search_len ss \<le> unat (ri_len (R ! i))" using slot p(2) by (simp add: slot_ok_def)
  from locate_spec [OF R(1,4,5) this len] show ?thesis
    using region_data(2) [OF R(4,5)]
    by (simp add: refine_row_def row_at_def slot_passes_def settings_reader_ok Let_def)
qed

text \<open>\<open>still_mapped\<close>: the new snapshot maps at least what the previous one maps, in every region.\<close>

definition still_mapped :: "memory_snapshot \<Rightarrow> memory_snapshot \<Rightarrow> bool" where
  "still_mapped prev snapshot \<longleftrightarrow>
     list_all2 (\<lambda>a b. sr_available a \<le> sr_available b) (ms_layout prev) (ms_layout snapshot)"

lemma refine_regions_rows:
  assumes R: "regions_ok R" "snapshot_of R prev" "snapshot_of R first" "snapshot_of R snapshot"
    and f: "format_ok (ss_format ss)" and grown: "c = Unchanged \<Longrightarrow> still_mapped prev snapshot"
  defines "al \<equiv> alignment_of ss" and "len \<equiv> search_len ss"
  shows "dense_ok R al len prev first i ds \<Longrightarrow>
    \<exists>es. done_or_cancelled (\<exists>m n. cancel m n) es
        (refine_regions fl cancel (settings_reader ss) c al snapshot prev first i ds) \<and>
      length es = length ds \<and> dense_ok R al len snapshot first i es \<and>
      dense_rows R al len snapshot first i es =
        List.map_filter (refine_row fl ss c snapshot) (dense_rows R al len prev first i ds)"
proof (induction ds arbitrary: i)
  case Nil
  then show ?case by (auto simp: done_or_cancelled_def List.map_filter_def)
next
  case (Cons d ds)
  let ?rd = "settings_reader ss"
  have i: "i < length R" and slots: "\<And>s. s \<in> set (slots (dr_words d)) \<Longrightarrow> slot_ok al len prev first i s"
    using Cons.prems by (simp_all add: list_all_iff)
  note data = region_data [OF R(2) i] region_data [OF R(3) i] region_data [OF R(4) i]
  let ?P = "slot_passes fl ?rd c al (region_data snapshot i) (region_data prev i) (region_data first i)"
  have "c = Unchanged \<Longrightarrow> length (region_data prev i) \<le> length (region_data snapshot i)"
    using grown i snapshot_of_length [OF R(2)] data by (auto simp: still_mapped_def list_all2_conv_all_nth)
  moreover have "\<And>s. s \<in> set (slots (dr_words d)) \<Longrightarrow>
      s * al + rd_len ?rd \<le> length (region_data prev i) \<and> s * al + rd_len ?rd \<le> length (region_data first i)"
    using slots data by (simp add: slot_ok_def len_def settings_reader_ok)
  ultimately obtain vs where vs: "done_or_cancelled (\<exists>n. cancel i n) vs (refine_words (cancel i)
      (refine_word fl ?rd c al (region_data snapshot i) (region_data prev i) (region_data first i)) 0 (dr_words d))"
    "slots vs = filter ?P (slots (dr_words d))"
    using refine_region_words [where rd = ?rd and al = al and c = c and ws = "dr_words d" and cancel = "cancel i"
        and current = "region_data snapshot i" and prev = "region_data prev i" and firsts = "region_data first i"]
      settings_reader_ok(1) [OF f] alignment_pos [of ss] unfolding al_def by blast
  from Cons obtain es where es: "done_or_cancelled (\<exists>m n. cancel m n) es
        (refine_regions fl cancel ?rd c al snapshot prev first (Suc i) ds)"
    "length es = length ds" "dense_ok R al len snapshot first (Suc i) es"
    "dense_rows R al len snapshot first (Suc i) es =
        List.map_filter (refine_row fl ss c snapshot) (dense_rows R al len prev first (Suc i) ds)" by auto
  let ?e = "build_rank \<lparr>dr_words = vs, dr_count = 0, dr_rank = []\<rparr>"
  have "done_or_cancelled (\<exists>m n. cancel m n) (?e # es)
      (refine_regions fl cancel ?rd c al snapshot prev first i (d # ds))"
    using vs(1) es(1) by (auto simp: data done_or_cancelled_def)
  moreover have "list_all (slot_ok al len snapshot first i) (slots vs)"
    using slots data by (auto simp: list_all_iff vs(2) slot_passes_def slot_ok_def len_def settings_reader_ok)
  then have "dense_ok R al len snapshot first i (?e # es)" using i es(3) by simp
  moreover have "List.map_filter (refine_row fl ss c snapshot) (map (row_at R al len prev first i) (slots (dr_words d))) =
      map (row_at R al len snapshot first i) (filter ?P (slots (dr_words d)))"
  proof (rule map_filter_map_filter)
    fix s
    assume "s \<in> set (slots (dr_words d))"
    then have "slot_ok al len prev first i s" by (rule slots)
    then show "refine_row fl ss c snapshot (row_at R al len prev first i s) =
        (if ?P s then Some (row_at R al len snapshot first i s) else None)"
      unfolding al_def len_def by (rule refine_row_at [OF R i f])
  qed
  then have "dense_rows R al len snapshot first i (?e # es) =
      List.map_filter (refine_row fl ss c snapshot) (dense_rows R al len prev first i (d # ds))"
    by (simp add: vs(2) es(4) map_filter_append)
  ultimately show ?case using es(2) by (intro exI [of _ "?e # es"]) simp
qed

subsection \<open>Lists\<close>

lemma concat_slice:
  assumes "\<forall>x \<in> set xs. length (f x) = len" and "i < length xs"
  shows "slice_at (concat (map f xs)) (i * len) (Suc i * len) = Returns (f (xs ! i))"
proof -
  have "Suc i * len \<le> length xs * len" using assms(2) by (intro mult_le_mono1) simp
  then show ?thesis using concat_take_drop [OF assms] by (simp add: slice_at_def length_concat_rows [OF assms(1)])
qed

lemma row_address:
  assumes "row_ok R len row"
  obtains off where "sw_address row = address_at R (sw_region row) off"
    and "off + len \<le> unat (ri_len (R ! sw_region row))"
proof -
  obtain x where x: "offset_of (R ! sw_region row) (sw_address row) len = Some x"
    using assms by (auto simp: row_ok_def)
  then have at: "unat (ri_base (R ! sw_region row)) \<le> unat (sw_address row)" "unat x = unat (sw_address row) - unat (ri_base (R ! sw_region row))"
    unfolding offset_of_Some by blast+
  moreover have "unat x + len \<le> unat (ri_len (R ! sw_region row))" using x at(2) unfolding offset_of_Some by presburger
  ultimately have
    "unat (ri_base (R ! sw_region row)) \<le> unat (sw_address row)" "unat x = unat (sw_address row) - unat (ri_base (R ! sw_region row))"
    "unat x + len \<le> unat (ri_len (R ! sw_region row))" by blast+
  then have "sw_address row = address_at R (sw_region row) (unat x)"
    using unsigned_less [of "sw_address row"] by (simp add: address_at_def word_unat_eq_iff unat_word_ariths)
  with that \<open>unat x + len \<le> _\<close> show thesis by blast
qed

text \<open>A candidate of a list is found again in its own region, if it is still mapped.\<close>

lemma refine_row_list:
  assumes R: "regions_ok R" "snapshot_of R snapshot" and f: "format_ok (ss_format ss)"
    and row: "row_ok R (search_len ss) row"
  shows "locate snapshot (sw_address row) (search_len ss) = None \<and> refine_row fl ss c snapshot row = None \<or>
    (\<exists>off v. locate snapshot (sw_address row) (search_len ss) = Some (sw_region row, off) \<and>
      off + search_len ss \<le> length (region_data snapshot (sw_region row)) \<and>
      region_bytes snapshot (sw_region row) = Returns (region_data snapshot (sw_region row)) \<and>
      passes fl (settings_reader ss) c (take (search_len ss) (drop off (region_data snapshot (sw_region row))))
        (Some (sw_previous row)) (Some (sw_first row)) = Returns v \<and>
      refine_row fl ss c snapshot row = (if v then Some (row\<lparr>sw_previous :=
        take (search_len ss) (drop off (region_data snapshot (sw_region row)))\<rparr>) else None))"
proof -
  let ?i = "sw_region row" and ?len = "search_len ss"
  have i: "?i < length R" using row by (simp add: row_ok_def)
  obtain off where off: "sw_address row = address_at R ?i off" "off + ?len \<le> unat (ri_len (R ! ?i))"
    by (rule row_address [OF row])
  note data = region_data [OF R(2) i]
  note loc = locate_spec [OF R i off(2) search_len_pos [OF f], folded off(1)]
  show ?thesis
  proof (cases "off + ?len \<le> sr_available (ms_layout snapshot ! ?i)")
    case False
    then show ?thesis using loc by (simp add: refine_row_def)
  next
    case True
    let ?cur = "take ?len (drop off (region_data snapshot ?i))"
    have "passes fl (settings_reader ss) c ?cur (Some (sw_previous row)) (Some (sw_first row)) \<noteq> Panics"
      using row True data by (intro passes_returns settings_reader_ok(1) [OF f]) (auto simp: settings_reader_ok row_ok_def)
    then obtain v where "passes fl (settings_reader ss) c ?cur (Some (sw_previous row)) (Some (sw_first row)) = Returns v"
      by (cases "passes fl (settings_reader ss) c ?cur (Some (sw_previous row)) (Some (sw_first row))") simp_all
    with True loc data show ?thesis by (auto simp: refine_row_def Let_def)
  qed
qed

lemma refine_list_rows:
  assumes R: "regions_ok R" "snapshot_of R snapshot" and f: "format_ok (ss_format ss)"
    and all: "list_all (row_ok R (search_len ss)) all"
    and ps: "ps = concat (map sw_previous all)" and fs: "fs = concat (map sw_first all)"
  shows "all = before @ rows \<Longrightarrow> done_or_cancelled (\<exists>n. cancel n)
      (lists_of (acc @ List.map_filter (refine_row fl ss c snapshot) rows))
      (refine_list fl cancel (settings_reader ss) c snapshot ps fs (length before)
        (zip (map sw_address rows) (map (\<lambda>r. of_nat (sw_region r)) rows)) (lists_of acc))"
proof (induction rows arbitrary: before acc)
  case Nil
  then show ?case by (simp add: done_or_cancelled_def List.map_filter_def)
next
  case (Cons row rows)
  let ?i = "length before" and ?len = "search_len ss"
  have row: "row_ok R ?len row" and at: "all ! ?i = row" "?i < length all"
    using all Cons.prems by (simp_all add: nth_append)
  have lengths: "\<forall>r \<in> set all. length (sw_previous r) = ?len" "\<forall>r \<in> set all. length (sw_first r) = ?len"
    using all by (simp_all add: list_all_iff row_ok_def)
  have slices: "slice_at ps (?i * ?len) (Suc ?i * ?len) = Returns (sw_previous row)"
    "slice_at fs (?i * ?len) (Suc ?i * ?len) = Returns (sw_first row)"
    unfolding ps fs using concat_slice [OF lengths(1) at(2)] concat_slice [OF lengths(2) at(2)] by (simp_all only: at(1))
  note region = row_region_small [OF R(1) row]
  have rest: "done_or_cancelled (\<exists>n. cancel n) (lists_of (acc' @ List.map_filter (refine_row fl ss c snapshot) rows))
      (refine_list fl cancel (settings_reader ss) c snapshot ps fs (Suc ?i)
        (zip (map sw_address rows) (map (\<lambda>r. of_nat (sw_region r)) rows)) (lists_of acc'))" for acc'
    using Cons.IH [of "before @ [row]" acc'] Cons.prems by simp
  show ?case
  proof (cases "?i mod CHUNK_SLOTS = 0 \<and> cancel ?i")
    case True
    then show ?thesis by (auto simp: done_or_cancelled_def)
  next
    case False
    from refine_row_list [OF R f row, of fl c] show ?thesis
    proof (elim disjE exE conjE)
      assume "locate snapshot (sw_address row) ?len = None" "refine_row fl ss c snapshot row = None"
      with rest [of acc] show ?thesis
        by (simp only: list.map zip_Cons_Cons refine_list.simps if_not_P [OF False] settings_reader_ok Let_def option.case map_filter_simps)
    next
      fix off v
      let ?cur = "take ?len (drop off (region_data snapshot (sw_region row)))"
      assume h: "locate snapshot (sw_address row) ?len = Some (sw_region row, off)"
        "off + ?len \<le> length (region_data snapshot (sw_region row))"
        "region_bytes snapshot (sw_region row) = Returns (region_data snapshot (sw_region row))"
        "passes fl (settings_reader ss) c ?cur (Some (sw_previous row)) (Some (sw_first row)) = Returns v"
        "refine_row fl ss c snapshot row = (if v then Some (row\<lparr>sw_previous := ?cur\<rparr>) else None)"
      have cur: "slice_at (region_data snapshot (sw_region row)) off (off + ?len) = Returns ?cur"
        using h(2) by (simp add: slice_at_def)
      have new: "\<lparr>sw_address = sw_address row, sw_region = sw_region row, sw_previous = ?cur, sw_first = sw_first row\<rparr> =
          row\<lparr>sw_previous := ?cur\<rparr>" by simp
      have "refine_list fl cancel (settings_reader ss) c snapshot ps fs ?i
          (zip (map sw_address (row # rows)) (map (\<lambda>r. of_nat (sw_region r)) (row # rows))) (lists_of acc) =
        refine_list fl cancel (settings_reader ss) c snapshot ps fs (Suc ?i)
          (zip (map sw_address rows) (map (\<lambda>r. of_nat (sw_region r)) rows))
          (lists_of (if v then acc @ [row\<lparr>sw_previous := ?cur\<rparr>] else acc))"
        unfolding list.map zip_Cons_Cons refine_list.simps if_not_P [OF False]
        by (simp add: settings_reader_ok Let_def region cur slices h(1,3,4) push_candidate_lists new del: mult_Suc)
      moreover have "acc @ List.map_filter (refine_row fl ss c snapshot) (row # rows) =
          (if v then acc @ [row\<lparr>sw_previous := ?cur\<rparr>] else acc) @ List.map_filter (refine_row fl ss c snapshot) rows"
        using h(5) by (simp add: List.map_filter_def)
      ultimately show ?thesis using rest by (simp only:)
    qed
  qed
qed

lemma refine_row_ok:
  assumes R: "regions_ok R" "snapshot_of R snapshot" and f: "format_ok (ss_format ss)"
    and row: "row_ok R (search_len ss) row" and new: "refine_row fl ss c snapshot row = Some new"
  shows "row_ok R (search_len ss) new"
  using refine_row_list [OF R f row, of fl c] new row by (auto simp: row_ok_def split: if_splits)

lemma map_filter_all: "list_all P xs \<Longrightarrow> (\<And>x y. P x \<Longrightarrow> f x = Some y \<Longrightarrow> Q y) \<Longrightarrow> list_all Q (List.map_filter f xs)"
  by (induction xs) (auto simp: List.map_filter_def)

subsection \<open>A whole scan\<close>

lemma refine_dense_rows:
  assumes R: "regions_ok R" "snapshot_of R snapshot" and f: "format_ok (ss_format ss)"
    and ok: "candidates_ok R ss (Dense ds prev first same)"
    and grown: "c = Unchanged \<Longrightarrow> still_mapped prev snapshot"
  shows "\<exists>es. done_or_cancelled (\<exists>m n. cancel m n) (Dense es snapshot first False)
      (refine_candidates fl cancel ss c snapshot (Dense ds prev first same)) \<and>
    candidates_ok R ss (Dense es snapshot first False) \<and>
    candidate_rows R ss (Dense es snapshot first False) =
      List.map_filter (refine_row fl ss c snapshot) (candidate_rows R ss (Dense ds prev first same))"
proof -
  have prev: "snapshot_of R prev" "snapshot_of R first" "length ds = length R"
    "dense_ok R (alignment_of ss) (search_len ss) prev first 0 ds" using ok by simp_all
  have layout: "same_layout snapshot prev"
    using prev(1) same_layout_regions [OF R(2), of prev] by (simp add: snapshot_of_def)
  obtain es where es: "done_or_cancelled (\<exists>m n. cancel m n) es
        (refine_regions fl cancel (settings_reader ss) c (alignment_of ss) snapshot prev first 0 ds)"
      "length es = length ds" "dense_ok R (alignment_of ss) (search_len ss) snapshot first 0 es"
      "dense_rows R (alignment_of ss) (search_len ss) snapshot first 0 es =
        List.map_filter (refine_row fl ss c snapshot) (dense_rows R (alignment_of ss) (search_len ss) prev first 0 ds)"
    using refine_regions_rows [OF R(1) prev(1,2) R(2) f grown prev(4), where fl = fl and cancel = cancel] by blast
  have "done_or_cancelled (\<exists>m n. cancel m n) (Dense es snapshot first False)
      (refine_candidates fl cancel ss c snapshot (Dense ds prev first same))"
    unfolding refine_candidates.simps using layout by (simp add: done_or_cancelled_bind [OF es(1)] done_returns)
  then show ?thesis using es(2-4) prev(2,3) R(2) by (intro exI [of _ es]) simp
qed

lemma refine_sparse_rows:
  assumes R: "regions_ok R" "snapshot_of R snapshot" and f: "format_ok (ss_format ss)"
    and ok: "candidates_ok R ss (Sparse as rs ps fs)"
  shows "\<exists>as' rs' ps' fs'. done_or_cancelled (\<exists>m n. cancel m n) (Sparse as' rs' ps' fs')
      (refine_candidates fl cancel ss c snapshot (Sparse as rs ps fs)) \<and>
    candidates_ok R ss (Sparse as' rs' ps' fs') \<and>
    candidate_rows R ss (Sparse as' rs' ps' fs') =
      List.map_filter (refine_row fl ss c snapshot) (candidate_rows R ss (Sparse as rs ps fs))"
proof -
  define rows where "rows = rows_of_lists (search_len ss) (as, rs, ps, fs)"
  have l: "lists_of rows = (as, rs, ps, fs)" and rok: "list_all (row_ok R (search_len ss)) rows"
    using ok by (simp_all add: rows_def Let_def)
  define new where "new = List.map_filter (refine_row fl ss c snapshot) rows"
  obtain as' rs' ps' fs' where l': "lists_of new = (as', rs', ps', fs')" by (cases "lists_of new") auto
  have new_ok: "list_all (row_ok R (search_len ss)) new"
    unfolding new_def using rok refine_row_ok [OF R f] by (rule map_filter_all)
  have cols: "as = map sw_address rows" "rs = map (\<lambda>r. of_nat (sw_region r)) rows"
    "ps = concat (map sw_previous rows)" "fs = concat (map sw_first rows)" using l by (auto simp: lists_of_def)
  have "lists_of [] = ([], [], [], [])" by (simp add: lists_of_def)
  then have "done_or_cancelled (\<exists>n. cancel 0 n) (lists_of new)
      (refine_list fl (cancel 0) (settings_reader ss) c snapshot ps fs 0 (zip as rs) ([], [], [], []))"
    using refine_list_rows [OF R f rok cols(3,4), of "[]" rows "cancel 0" "[]" fl c] unfolding cols(1,2) new_def by simp
  then have "done_or_cancelled (\<exists>m n. cancel m n) (Sparse as' rs' ps' fs')
      (refine_candidates fl cancel ss c snapshot (Sparse as rs ps fs))"
    unfolding l' refine_candidates.simps done_or_cancelled_def by (elim disjE conjE) auto
  moreover note sparse_candidates [OF R(1) new_ok l']
  moreover have "candidate_rows R ss (Sparse as rs ps fs) = rows" by (simp add: rows_def)
  ultimately show ?thesis unfolding new_def by blast
qed

text \<open>
  One scan, whatever form the candidates have. A scan of a bitset for what did not change skips
  words without looking whether their candidates are still mapped: \<open>memory_kept\<close> rules out that they
  are not.
\<close>

definition memory_kept :: "'f comparison \<Rightarrow> memory_snapshot \<Rightarrow> candidates \<Rightarrow> bool" where
  "memory_kept c snapshot cs \<longleftrightarrow>
     (case cs of Dense _ prev _ _ \<Rightarrow> c = Unchanged \<longrightarrow> still_mapped prev snapshot | Sparse _ _ _ _ \<Rightarrow> True)"

lemma refine_candidates_rows:
  assumes "regions_ok R" "snapshot_of R snapshot" "format_ok (ss_format ss)" "candidates_ok R ss cs"
    and "memory_kept c snapshot cs"
  shows "\<exists>res. done_or_cancelled (\<exists>m n. cancel m n) res (refine_candidates fl cancel ss c snapshot cs) \<and>
    candidates_ok R ss res \<and> candidate_rows R ss res = List.map_filter (refine_row fl ss c snapshot) (candidate_rows R ss cs)"
proof (cases cs)
  case (Dense ds prev first same)
  then have "c = Unchanged \<Longrightarrow> still_mapped prev snapshot" using assms(5) by (simp add: memory_kept_def)
  from refine_dense_rows [OF assms(1-4) [unfolded Dense] this] show ?thesis unfolding Dense by blast
next
  case (Sparse as rs ps fs)
  from refine_sparse_rows [OF assms(1-4) [unfolded Sparse]] show ?thesis unfolding Sparse by blast
qed

end
