(* ===== verification/Memory_Session.thy ===== *)
theory Memory_Session
  imports Memory_Refine Runs "HOL-Library.Sublist"
begin

text \<open>
  A whole search: the first scan finds exactly the candidates that a scan of every address would
  find, every later scan keeps the rows that pass, undo and redo move between the scans, and what
  the search keeps for undo is limited.
\<close>

unbundle bit_operations_syntax

subsection \<open>The first scan\<close>

lemma less_div_ceil: "1 \<le> b \<Longrightarrow> t < div_ceil a b \<longleftrightarrow> t * b < a"
proof -
  assume b: "1 \<le> b"
  have a: "a = a div b * b + a mod b" by simp
  show ?thesis
  proof (cases "a mod b = 0")
    case True
    with a have "a = a div b * b" by simp
    then have "t * b < a \<longleftrightarrow> t * b < a div b * b" by simp
    with True b show ?thesis by (simp add: div_ceil_def)
  next
    case False
    then have "t * b < a \<longleftrightarrow> t \<le> a div b"
      using b by (metis a add.commute div_le_mono div_mult_self_is_m le_neq_implies_less less_eq_div_iff_mult_less_eq
          less_imp_le_nat mod_mult_self2_is_0 zero_less_iff_neq_zero not_one_le_zero)
    with False show ?thesis by (simp add: div_ceil_def less_Suc_eq_le)
  qed
qed

lemma div_ceil_le: "1 \<le> b \<Longrightarrow> div_ceil a b \<le> t \<longleftrightarrow> a \<le> t * b"
  using less_div_ceil [of b t a] by (simp add: not_less [symmetric])

lemma less_last_slot:
  fixes al len :: nat
  assumes "1 \<le> al" and "len \<le> a"
  shows "t < (a - len) div al + 1 \<longleftrightarrow> t * al + len \<le> a"
proof -
  have "t < (a - len) div al + 1 \<longleftrightarrow> t \<le> (a - len) div al" by linarith
  also have "\<dots> \<longleftrightarrow> t * al \<le> a - len" using assms(1) by (intro less_eq_div_iff_mult_less_eq) simp
  also have "\<dots> \<longleftrightarrow> t * al + len \<le> a" using assms(2) by linarith
  finally show ?thesis .
qed

definition in_range :: "'f search_settings \<Rightarrow> nat \<Rightarrow> bool" where
  "in_range ss address = (case ss_range ss of
     None \<Rightarrow> True
   | Some (start, e) \<Rightarrow> unat start \<le> address \<and> address + search_len ss \<le> unat e)"

lemma scan_bounds_spec:
  assumes "search_len ss \<le> mapped"
  shows "fst (scan_bounds ss region mapped) \<le> t \<and> t < snd (scan_bounds ss region mapped) \<longleftrightarrow>
    t * alignment_of ss + search_len ss \<le> mapped \<and> in_range ss (unat (ri_base region) + t * alignment_of ss)"
proof -
  let ?al = "alignment_of ss" and ?len = "search_len ss" and ?base = "unat (ri_base region)"
  note al = alignment_pos [of ss]
  have upto: "t < (a - ?len) div ?al + 1 \<longleftrightarrow> t * ?al + ?len \<le> a" if "?len \<le> a" for a
    using al that by (rule less_last_slot)
  show ?thesis
  proof (cases "ss_range ss")
    case None
    then have bounds: "scan_bounds ss region mapped = (0, (mapped - ?len) div ?al + 1)" and range: "in_range ss a" for a
      by (simp_all add: scan_bounds_def in_range_def search_len_def Let_def)
    show ?thesis unfolding bounds fst_conv snd_conv upto [OF assms] using range by simp
  next
    case (Some r)
    obtain start e where r: "r = (start, e)" by (cases r)
    let ?C = "if unat e < ?base + ?len then 0 else (unat e - (?base + ?len)) div ?al + 1"
    have C: "t < ?C \<longleftrightarrow> ?base + t * ?al + ?len \<le> unat e"
    proof (cases "unat e < ?base + ?len")
      case True
      then show ?thesis by simp
    next
      case False
      then have "?len \<le> unat e - ?base" by linarith
      from upto [OF this, unfolded diff_diff_left] have "t < ?C \<longleftrightarrow> t * ?al + ?len \<le> unat e - ?base"
        unfolding if_not_P [OF False] .
      also have "\<dots> \<longleftrightarrow> ?base + t * ?al + ?len \<le> unat e" using False by linarith
      finally show ?thesis .
    qed
    have A: "div_ceil (unat start - ?base) ?al \<le> t \<longleftrightarrow> unat start \<le> ?base + t * ?al"
      unfolding div_ceil_le [OF al] by linarith
    have bounds: "scan_bounds ss region mapped =
        (div_ceil (unat start - ?base) ?al, min ((mapped - ?len) div ?al + 1) ?C)"
      by (simp add: scan_bounds_def Some r Let_def search_len_def)
    have range: "in_range ss (?base + t * ?al) \<longleftrightarrow> unat start \<le> ?base + t * ?al \<and> ?base + t * ?al + ?len \<le> unat e"
      by (simp add: in_range_def Some r)
    show ?thesis
      unfolding bounds fst_conv snd_conv min_less_iff_conj A C range upto [OF assms] by blast
  qed
qed

text \<open>Whether a slot of the first scan is a candidate.\<close>

definition slot_found :: "('f, 'x) float_lib_scheme \<Rightarrow> 'f search_settings \<Rightarrow> 'f comparison \<Rightarrow> bytes \<Rightarrow> nat \<Rightarrow> bool" where
  "slot_found fl ss c bs s \<longleftrightarrow> passes fl (settings_reader ss) c
     (take (search_len ss) (drop (s * alignment_of ss) bs)) None None = Returns True"

lemma scan_slot_spec:
  assumes f: "format_ok (ss_format ss)" and s: "s * alignment_of ss + search_len ss \<le> length bs"
    and words: "s < length words * 64"
  shows "scan_slot fl (settings_reader ss) c (alignment_of ss) bs s words =
    Returns (if slot_found fl ss c bs s then set_slot_bit s words else words)"
proof -
  let ?cur = "take (search_len ss) (drop (s * alignment_of ss) bs)"
  have set: "set_slot s words = Returns (set_slot_bit s words)"
    using words by (simp add: set_slot_def less_mult_imp_div_less)
  have "passes fl (settings_reader ss) c ?cur None None \<noteq> Panics"
    using s by (intro passes_returns settings_reader_ok(1) [OF f]) (auto simp: settings_reader_ok)
  then obtain v where v: "passes fl (settings_reader ss) c ?cur None None = Returns v"
    by (cases "passes fl (settings_reader ss) c ?cur None None") simp_all
  have cut: "slice_at bs (s * alignment_of ss) (s * alignment_of ss + search_len ss) = Returns ?cur"
    using s by (simp add: slice_at_def)
  show ?thesis
  proof (cases "c = Unknown")
    case True
    then show ?thesis by (simp add: scan_slot_def set slot_found_def passes_def)
  next
    case False
    then have "scan_slot fl (settings_reader ss) c (alignment_of ss) bs s words =
        (if v then set_slot s words else Returns words)"
      using v cut by (cases c) (simp_all add: scan_slot_def Let_def settings_reader_ok)
    then show ?thesis using v set by (simp add: slot_found_def)
  qed
qed

lemma scan_slots_spec:
  assumes f: "format_ok (ss_format ss)"
    and xs: "\<And>s. s \<in> set xs \<Longrightarrow> s * alignment_of ss + search_len ss \<le> length bs \<and> s < length words * 64"
  shows "\<exists>ws. rfold (scan_slot fl (settings_reader ss) c (alignment_of ss) bs) xs words = Returns ws \<and>
    length ws = length words \<and> (\<forall>t. has_slot ws t \<longleftrightarrow> has_slot words t \<or> t \<in> set xs \<and> slot_found fl ss c bs t)"
  using xs
proof (induction xs arbitrary: words)
  case (Cons s xs)
  let ?next = "if slot_found fl ss c bs s then set_slot_bit s words else words"
  have step: "scan_slot fl (settings_reader ss) c (alignment_of ss) bs s words = Returns ?next"
    using Cons.prems by (intro scan_slot_spec [OF f]) simp_all
  have "\<exists>ws. rfold (scan_slot fl (settings_reader ss) c (alignment_of ss) bs) xs ?next = Returns ws \<and>
    length ws = length ?next \<and> (\<forall>t. has_slot ws t \<longleftrightarrow> has_slot ?next t \<or> t \<in> set xs \<and> slot_found fl ss c bs t)"
    using Cons.prems by (intro Cons.IH) auto
  moreover have "has_slot ?next t \<longleftrightarrow> has_slot words t \<or> t = s \<and> slot_found fl ss c bs s" for t
    using Cons.prems has_slot_set [of s words t] by auto
  ultimately show ?case using step by auto
qed simp

lemma scan_chunks_spec:
  "rfold scan [slot ..< end_slot] words = Returns ws \<Longrightarrow>
   done_or_cancelled (\<exists>n. cancel n) ws (scan_chunks cancel scan slot end_slot words)"
proof (induction cancel scan slot end_slot words rule: scan_chunks.induct)
  case (1 cancel scan slot end_slot words)
  show ?case
  proof (cases "end_slot \<le> slot \<or> cancel slot")
    case True
    then show ?thesis using 1(2) by (subst scan_chunks.simps) (auto simp: done_or_cancelled_def)
  next
    case False
    let ?chunk = "min (slot + CHUNK_SLOTS) end_slot"
    have "[slot ..< end_slot] = [slot ..< ?chunk] @ [?chunk ..< end_slot]"
      using False upt_add_eq_append [of slot ?chunk "end_slot - ?chunk"] by (simp add: min_def)
    then have "rbind (rfold scan [slot ..< ?chunk] words) (rfold scan [?chunk ..< end_slot]) = Returns ws"
      using 1(2) by (simp add: rfold_append)
    then obtain mid where mid: "rfold scan [slot ..< ?chunk] words = Returns mid"
      "rfold scan [?chunk ..< end_slot] mid = Returns ws"
      by (cases "rfold scan [slot ..< ?chunk] words") simp_all
    have "done_or_cancelled (\<exists>n. cancel n) ws (scan_chunks cancel scan ?chunk end_slot mid)"
      using 1(1) [OF _ _ refl mid(2)] False by simp
    then show ?thesis using False mid(1) by (subst scan_chunks.simps) (simp add: Let_def)
  qed
qed

text \<open>The slots a scan of every address of a region would find.\<close>

definition included :: "'f search_settings \<Rightarrow> nat \<Rightarrow> bool" where
  "included ss i \<longleftrightarrow> ss_regions ss = [] \<or> i \<in> set (ss_regions ss)"

definition found_slots :: "('f, 'x) float_lib_scheme \<Rightarrow> 'f search_settings \<Rightarrow> 'f comparison \<Rightarrow> region_info list \<Rightarrow>
    memory_snapshot \<Rightarrow> nat \<Rightarrow> nat list" where
  "found_slots fl ss c R snapshot i = filter
     (\<lambda>s. included ss i \<and> s * alignment_of ss + search_len ss \<le> length (region_data snapshot i) \<and>
        in_range ss (unat (ri_base (R ! i)) + s * alignment_of ss) \<and> slot_found fl ss c (region_data snapshot i) s)
     [0 ..< length (region_data snapshot i)]"

lemma filter_upt_cong:
  assumes "\<And>s. P s \<Longrightarrow> s < m \<and> s < n"
  shows "filter P [0 ..< m] = filter P [0 ..< n]"
proof (rule sorted_distinct_set_unique)
  show "set (filter P [0 ..< m]) = set (filter P [0 ..< n])" using assms by auto
qed (simp_all add: sorted_wrt_filter)

lemma scan_region_spec:
  assumes s: "snapshot_of R snapshot" and i: "i < length R" and f: "format_ok (ss_format ss)"
  shows "\<exists>ws. done_or_cancelled (\<exists>n. cancel i n) (build_rank \<lparr>dr_words = ws, dr_count = 0, dr_rank = []\<rparr>)
      (scan_region fl cancel ss c snapshot i (ms_layout snapshot ! i)) \<and>
    slots ws = found_slots fl ss c R snapshot i"
proof -
  let ?bs = "region_data snapshot i" and ?al = "alignment_of ss" and ?len = "search_len ss" and ?r = "R ! i"
  let ?words = "replicate (div_ceil (div_ceil (unat (ri_len ?r)) ?al) 64) 0 :: u64 list"
  let ?finish = "\<lambda>words. Returns (Inr (build_rank \<lparr>dr_words = words, dr_count = 0, dr_rank = []\<rparr>)) :: (search_error + dense_region) rust"
  note data = region_data [OF s i] and layout = snapshot_of_region [OF s i]
  note al = alignment_pos [of ss] and len = search_len_pos [OF f]
  have empty: "\<not> has_slot ?words t" for t by (simp add: has_slot_def)
  have rd: "rd_len (settings_reader ss) = ?len" by (rule settings_reader_ok(2))
  show ?thesis
  proof (cases "included ss i \<and> ?len \<le> length ?bs")
    case False
    have "scan_region fl cancel ss c snapshot i (ms_layout snapshot ! i) = ?finish ?words"
      using False by (auto simp: scan_region_def data(1) layout Let_def rd included_def)
    moreover have "found_slots fl ss c R snapshot i = []"
      using False by (auto simp: found_slots_def filter_empty_conv)
    ultimately show ?thesis by (intro exI [of _ ?words]) (simp add: done_returns)
  next
    case True
    let ?bounds = "scan_bounds ss ?r (length ?bs)"
    let ?xs = "[fst ?bounds ..< snd ?bounds]"
    have mem: "t \<in> set ?xs \<longleftrightarrow> t * ?al + ?len \<le> length ?bs \<and> in_range ss (unat (ri_base ?r) + t * ?al)" for t
      using scan_bounds_spec [of ss "length ?bs" ?r t] True by simp
    have fits: "t < length ?words * 64" if "t * ?al + ?len \<le> length ?bs" for t
    proof -
      have "t * ?al < unat (ri_len ?r)" using that len data(2,3) by linarith
      then have "t < div_ceil (unat (ri_len ?r)) ?al" by (simp add: less_div_ceil [OF al])
      moreover have "t div 64 * 64 \<le> t" by simp
      ultimately have "t div 64 < div_ceil (div_ceil (unat (ri_len ?r)) ?al) 64" by (simp add: less_div_ceil)
      then show ?thesis by simp
    qed
    obtain ws where ws: "rfold (scan_slot fl (settings_reader ss) c ?al ?bs) ?xs ?words = Returns ws"
      "length ws = length ?words" "\<And>t. has_slot ws t \<longleftrightarrow> t \<in> set ?xs \<and> slot_found fl ss c ?bs t"
      using scan_slots_spec [OF f, of ?xs ?bs ?words fl c] mem fits empty by blast
    have "scan_region fl cancel ss c snapshot i (ms_layout snapshot ! i) = try_bind
        (scan_chunks (cancel i) (scan_slot fl (settings_reader ss) c ?al ?bs) (fst ?bounds) (snd ?bounds) ?words) ?finish"
      using True by (auto simp: scan_region_def data(1) layout Let_def rd included_def split_def)
    then have "done_or_cancelled (\<exists>n. cancel i n) (build_rank \<lparr>dr_words = ws, dr_count = 0, dr_rank = []\<rparr>)
        (scan_region fl cancel ss c snapshot i (ms_layout snapshot ! i))"
      using done_or_cancelled_bind [OF scan_chunks_spec [OF ws(1), of "cancel i"] done_returns] by simp
    moreover have "slots ws = found_slots fl ss c R snapshot i"
    proof -
      let ?P = "\<lambda>t. included ss i \<and> t * ?al + ?len \<le> length ?bs \<and> in_range ss (unat (ri_base ?r) + t * ?al) \<and>
          slot_found fl ss c ?bs t"
      have "has_slot ws = ?P" using ws(3) mem True by auto
      then have "slots ws = filter ?P [0 ..< length ws * 64]" by (simp add: slots_filter)
      also have "\<dots> = filter ?P [0 ..< length ?bs]"
      proof (rule filter_upt_cong)
        fix t
        assume "?P t"
        then have t: "t * ?al + ?len \<le> length ?bs" by simp
        have "t * 1 \<le> t * ?al" by (rule mult_le_mono2) (rule al)
        with t len have "t < length ?bs" by linarith
        with fits [OF t] ws(2) show "t < length ws * 64 \<and> t < length ?bs" by simp
      qed
      finally show ?thesis by (simp add: found_slots_def)
    qed
    ultimately show ?thesis by blast
  qed
qed

text \<open>All regions.\<close>

fun found_rows :: "('f, 'x) float_lib_scheme \<Rightarrow> 'f search_settings \<Rightarrow> 'f comparison \<Rightarrow> region_info list \<Rightarrow>
    memory_snapshot \<Rightarrow> nat list \<Rightarrow> search_row list" where
  "found_rows fl ss c R snapshot [] = []"
| "found_rows fl ss c R snapshot (i # is) =
     map (row_at R (alignment_of ss) (search_len ss) snapshot snapshot i) (found_slots fl ss c R snapshot i) @
     found_rows fl ss c R snapshot is"

lemma scan_regions_spec:
  assumes s: "snapshot_of R snapshot" and f: "format_ok (ss_format ss)"
  shows "i + length ls = length R \<Longrightarrow> ls = drop i (ms_layout snapshot) \<Longrightarrow>
    \<exists>ds. done_or_cancelled (\<exists>m n. cancel m n) ds (scan_regions (scan_region fl cancel ss c snapshot) i ls) \<and>
      length ds = length ls \<and> dense_ok R (alignment_of ss) (search_len ss) snapshot snapshot i ds \<and>
      dense_rows R (alignment_of ss) (search_len ss) snapshot snapshot i ds = found_rows fl ss c R snapshot [i ..< length R]"
proof (induction ls arbitrary: i)
  case Nil
  then show ?case by (simp add: done_or_cancelled_def)
next
  case (Cons l ls)
  have i: "i < length R" and l: "l = ms_layout snapshot ! i" and ls: "ls = drop (Suc i) (ms_layout snapshot)"
  proof -
    show i: "i < length R" using Cons.prems(1) by simp
    then have "drop i (ms_layout snapshot) = ms_layout snapshot ! i # drop (Suc i) (ms_layout snapshot)"
      by (simp add: Cons_nth_drop_Suc snapshot_of_length [OF s])
    with Cons.prems(2) show "l = ms_layout snapshot ! i" "ls = drop (Suc i) (ms_layout snapshot)" by simp_all
  qed
  obtain ws where ws: "done_or_cancelled (\<exists>n. cancel i n) (build_rank \<lparr>dr_words = ws, dr_count = 0, dr_rank = []\<rparr>)
      (scan_region fl cancel ss c snapshot i l)" "slots ws = found_slots fl ss c R snapshot i"
    using scan_region_spec [OF s i f] unfolding l by blast
  obtain ds where ds: "done_or_cancelled (\<exists>m n. cancel m n) ds (scan_regions (scan_region fl cancel ss c snapshot) (Suc i) ls)"
    "length ds = length ls" "dense_ok R (alignment_of ss) (search_len ss) snapshot snapshot (Suc i) ds"
    "dense_rows R (alignment_of ss) (search_len ss) snapshot snapshot (Suc i) ds = found_rows fl ss c R snapshot [Suc i ..< length R]"
    using Cons.IH [of "Suc i"] Cons.prems(1) ls by auto
  let ?d = "build_rank \<lparr>dr_words = ws, dr_count = 0, dr_rank = []\<rparr>"
  have "done_or_cancelled (\<exists>m n. cancel m n) (?d # ds) (scan_regions (scan_region fl cancel ss c snapshot) i (l # ls))"
    using ws(1) ds(1) by (auto simp: done_or_cancelled_def)
  moreover have "list_all (slot_ok (alignment_of ss) (search_len ss) snapshot snapshot i) (slots ws)"
    unfolding ws(2) using region_data(2) [OF s i] by (simp add: list_all_iff found_slots_def slot_ok_def)
  then have "dense_ok R (alignment_of ss) (search_len ss) snapshot snapshot i (?d # ds)" using i ds(3) by simp
  moreover have "[i ..< length R] = i # [Suc i ..< length R]" using i by (rule upt_conv_Cons)
  then have "dense_rows R (alignment_of ss) (search_len ss) snapshot snapshot i (?d # ds) = found_rows fl ss c R snapshot [i ..< length R]"
    using ws(2) ds(4) by simp
  ultimately show ?case using ds(2) by (intro exI [of _ "?d # ds"]) simp
qed

lemma search_new_rows:
  assumes R: "regions_ok R" and s: "snapshot_of R snapshot" and f: "format_ok (ss_format ss)"
    and c: "check_comparison ss c = Inr ()" "is_initial c"
  shows "\<exists>s. done_or_cancelled (\<exists>m n. cancel m n) s (search_new fl cancel ss c snapshot) \<and>
    search_ok R s \<and> se_settings s = ss \<and> search_rows R s = found_rows fl ss c R snapshot [0 ..< length R]"
proof -
  obtain ds where ds: "done_or_cancelled (\<exists>m n. cancel m n) ds (scan_regions (scan_region fl cancel ss c snapshot) 0 (ms_layout snapshot))"
    "length ds = length R" "dense_ok R (alignment_of ss) (search_len ss) snapshot snapshot 0 ds"
    "dense_rows R (alignment_of ss) (search_len ss) snapshot snapshot 0 ds = found_rows fl ss c R snapshot [0 ..< length R]"
    using scan_regions_spec [OF s f, of 0 "ms_layout snapshot" cancel fl c] snapshot_of_length [OF s] by auto
  define s0 where "s0 = \<lparr>se_settings = ss, se_candidates = Dense ds snapshot snapshot True, se_history = [], se_redo = [],
            se_steps = 1, se_last_frame = ms_frame snapshot, se_last_epoch = ms_epoch snapshot\<rparr>"
  have ok: "candidates_ok R (se_settings s0) (se_candidates s0)" "format_ok (ss_format (se_settings s0))"
    using ds(2,3) s f by (simp_all add: s0_def)
  obtain cs where cs: "maybe_make_sparse s0 = Returns (s0\<lparr>se_candidates := cs\<rparr>)" "candidates_ok R ss cs"
    "candidate_rows R ss cs = search_rows R s0"
    using maybe_make_sparse_rows [OF R ok(2,1)] by (auto simp: s0_def)
  have "done_or_cancelled (\<exists>m n. cancel m n) (s0\<lparr>se_candidates := cs\<rparr>) (search_new fl cancel ss c snapshot)"
    unfolding search_new_def using c cs(1)
    by (simp add: done_or_cancelled_bind [OF ds(1)] done_returns s0_def)
  moreover have "search_ok R (s0\<lparr>se_candidates := cs\<rparr>)" using cs(2) f by (simp add: search_ok_def s0_def)
  moreover have "search_rows R (s0\<lparr>se_candidates := cs\<rparr>) = found_rows fl ss c R snapshot [0 ..< length R]"
    using cs(3) ds(4) by (simp add: search_rows_def s0_def)
  ultimately show ?thesis by (intro exI [of _ "s0\<lparr>se_candidates := cs\<rparr>"]) (simp add: s0_def)
qed

subsection \<open>The undo history\<close>

lemma trim_history_suffix: "suffix (trim_history hs) hs"
  by (induction hs) (auto simp: suffix_Cons)

lemma trim_history_limits:
  "length (trim_history hs) \<le> MAX_HISTORY_STEPS \<and> sum_list (map history_bytes (trim_history hs)) \<le> MAX_HISTORY_BYTES"
  by (induction hs) (simp_all add: MAX_HISTORY_STEPS_def MAX_HISTORY_BYTES_def)

lemma trim_history_longest:
  "suffix gs hs \<Longrightarrow> length gs \<le> MAX_HISTORY_STEPS \<Longrightarrow> sum_list (map history_bytes gs) \<le> MAX_HISTORY_BYTES \<Longrightarrow>
   suffix gs (trim_history hs)"
  by (induction hs) (auto simp: suffix_Cons)

lemma list_all_suffix: "suffix gs hs \<Longrightarrow> list_all P hs \<Longrightarrow> list_all P gs"
  by (auto simp: suffix_def)

subsection \<open>Later scans\<close>

lemma unat_u32_less: "unat (n :: u32) < 2 ^ 32"
  using unsigned_less [of n] by simp

lemma next_step:
  assumes "(n :: u32) \<noteq> - 1"
  shows "add_u32 n 1 = Returns (n + 1)" and "unat (n + 1) = Suc (unat n)" and "Suc (unat n) < 2 ^ 32"
proof -
  have "unat n \<noteq> 2 ^ 32 - 1"
    using assms word_unat_eq_iff [of n "- 1"] by (simp add: unsigned_minus_1_eq_mask mask_eq_exp_minus_1)
  with unat_u32_less [of n] show "Suc (unat n) < 2 ^ 32" by simp
  then show "add_u32 n 1 = Returns (n + 1)" and "unat (n + 1) = Suc (unat n)"
    by (simp_all add: add_u32_def unat_word_ariths)
qed

lemma search_refine_rows:
  assumes R: "regions_ok R" "snapshot_of R snapshot" and ok: "search_ok R s"
    and c: "check_comparison (se_settings s) c = Inr ()" "c \<noteq> Unknown"
    and grown: "memory_kept c snapshot (se_candidates s)" and more: "se_steps s \<noteq> - 1"
  shows "\<exists>s'. done_or_cancelled (\<exists>m n. cancel m n) s' (search_refine fl cancel c snapshot s) \<and>
    search_ok R s' \<and> se_settings s' = se_settings s \<and>
    search_rows R s' = List.map_filter (refine_row fl (se_settings s) c snapshot) (search_rows R s) \<and>
    se_history s' = trim_history (se_history s @ [se_candidates s]) \<and> se_redo s' = []"
proof -
  let ?ss = "se_settings s"
  have f: "format_ok (ss_format ?ss)" and cs: "candidates_ok R ?ss (se_candidates s)"
    and history: "list_all (candidates_ok R ?ss) (se_history s @ [se_candidates s])" and steps: "length (se_history s) < unat (se_steps s)"
    using ok by (simp_all add: search_ok_def)
  have add: "add_u32 (se_steps s) 1 = Returns (se_steps s + 1)" and succ: "unat (se_steps s + 1) = Suc (unat (se_steps s))"
    "Suc (unat (se_steps s)) < 2 ^ 32"
    using next_step [OF more] by simp_all
  obtain res where res: "done_or_cancelled (\<exists>m n. cancel m n) res (refine_candidates fl cancel ?ss c snapshot (se_candidates s))"
    "candidates_ok R ?ss res"
    "candidate_rows R ?ss res = List.map_filter (refine_row fl ?ss c snapshot) (candidate_rows R ?ss (se_candidates s))"
    using refine_candidates_rows [OF R f cs grown, where fl = fl and cancel = cancel] by blast
  define s1 where "s1 = s\<lparr>se_candidates := res, se_history := trim_history (se_history s @ [se_candidates s]), se_redo := [],
           se_steps := se_steps s + 1, se_last_frame := ms_frame snapshot, se_last_epoch := ms_epoch snapshot\<rparr>"
  have "format_ok (ss_format (se_settings s1))" "candidates_ok R (se_settings s1) (se_candidates s1)"
    using f res(2) by (simp_all add: s1_def)
  from maybe_make_sparse_rows [OF R(1) this] obtain cs' where cs':
    "maybe_make_sparse s1 = Returns (s1\<lparr>se_candidates := cs'\<rparr>)" "candidates_ok R ?ss cs'"
    "candidate_rows R ?ss cs' = search_rows R s1" by (auto simp: s1_def)
  have "done_or_cancelled (\<exists>m n. cancel m n) (s1\<lparr>se_candidates := cs'\<rparr>) (search_refine fl cancel c snapshot s)"
    unfolding search_refine_def using c cs'(1) by (simp add: add done_or_cancelled_bind [OF res(1)] done_returns s1_def)
  moreover have "length (trim_history (se_history s @ [se_candidates s])) < unat (se_steps s + 1)"
    using suffix_length_le [OF trim_history_suffix, of "se_history s @ [se_candidates s]"] steps succ(1) by simp
  then have "search_ok R (s1\<lparr>se_candidates := cs'\<rparr>)"
    using cs'(2) f list_all_suffix [OF trim_history_suffix history] succ by (simp add: search_ok_def s1_def)
  moreover have "search_rows R (s1\<lparr>se_candidates := cs'\<rparr>) =
      List.map_filter (refine_row fl ?ss c snapshot) (search_rows R s)"
    using cs'(3) res(3) by (simp add: search_rows_def s1_def)
  ultimately show ?thesis by (intro exI [of _ "s1\<lparr>se_candidates := cs'\<rparr>"]) (simp add: s1_def)
qed

subsection \<open>Undo and redo\<close>

lemma search_undo_redo: "search_undo s = Returns (True, s') \<Longrightarrow> search_redo s' = Returns (True, s)"
  using unat_u32_less [of "se_steps s"]
  by (auto simp: search_undo_def search_redo_def sub_u32_def add_u32_def rbind_def word_le_nat_alt unat_sub
      split: if_splits rust.splits)

lemma search_redo_undo: "search_redo s = Returns (True, s') \<Longrightarrow> search_undo s' = Returns (True, s)"
  by (auto simp: search_undo_def search_redo_def sub_u32_def add_u32_def rbind_def word_le_nat_alt unat_word_ariths
      split: if_splits rust.splits)

text \<open>
  All the states a search keeps, oldest first, and the number of the last of them; undo and redo
  only move along them.
\<close>

definition all_states :: "'f search \<Rightarrow> candidates list" where
  "all_states s = se_history s @ se_candidates s # rev (se_redo s)"

definition last_step :: "'f search \<Rightarrow> nat" where
  "last_step s = unat (se_steps s) + length (se_redo s)"

definition moved_along :: "region_info list \<Rightarrow> 'f search \<Rightarrow> 'f search \<Rightarrow> bool" where
  "moved_along R s s' \<longleftrightarrow> search_ok R s' \<and> all_states s' = all_states s \<and> last_step s' = last_step s"

lemma search_undo_ok:
  assumes "search_ok R s"
  shows "\<exists>moved s'. search_undo s = Returns (moved, s') \<and> moved_along R s s'"
proof (cases "se_history s" rule: rev_cases)
  case Nil
  with assms show ?thesis by (intro exI [of _ False] exI [of _ s]) (simp add: search_undo_def moved_along_def)
next
  case (snoc hs h)
  then have "1 \<le> se_steps s" using assms by (simp add: search_ok_def word_le_nat_alt)
  then have "sub_u32 (se_steps s) 1 = Returns (se_steps s - 1)" and "unat (se_steps s - 1) = unat (se_steps s) - 1"
    and "1 \<le> unat (se_steps s)"
    by (simp_all add: sub_u32_def unat_sub word_le_nat_alt)
  with snoc assms show ?thesis
    by (auto simp: search_undo_def search_ok_def moved_along_def all_states_def last_step_def)
qed

lemma search_redo_ok:
  assumes "search_ok R s"
  shows "\<exists>moved s'. search_redo s = Returns (moved, s') \<and> moved_along R s s'"
proof (cases "se_redo s" rule: rev_cases)
  case Nil
  with assms show ?thesis by (intro exI [of _ False] exI [of _ s]) (simp add: search_redo_def moved_along_def)
next
  case (snoc hs h)
  then have "Suc (unat (se_steps s)) < 2 ^ 32" using assms by (simp add: search_ok_def)
  then have "add_u32 (se_steps s) 1 = Returns (se_steps s + 1)" and "unat (se_steps s + 1) = Suc (unat (se_steps s))"
    by (simp_all add: add_u32_def unat_word_ariths)
  with snoc assms show ?thesis
    by (auto simp: search_redo_def search_ok_def moved_along_def all_states_def last_step_def)
qed

subsection \<open>A whole session\<close>

datatype 'f search_op =
    OpRefine "nat \<Rightarrow> nat \<Rightarrow> bool" "'f comparison" memory_snapshot
  | OpUndo
  | OpRedo

datatype search_event = Scanned | Refused search_error | Panicked | Moved bool

fun search_step :: "('f, 'x) float_lib_scheme \<Rightarrow> 'f search_op \<Rightarrow> 'f search \<Rightarrow> 'f search \<times> search_event list" where
  "search_step fl (OpRefine cancel c snapshot) s = (case search_refine fl cancel c snapshot s of
     Panics \<Rightarrow> (s, [Panicked])
   | Returns (Inl e) \<Rightarrow> (s, [Refused e])
   | Returns (Inr s') \<Rightarrow> (s', [Scanned]))"
| "search_step fl OpUndo s = (case search_undo s of
     Panics \<Rightarrow> (s, [Panicked])
   | Returns (moved, s') \<Rightarrow> (s', [Moved moved]))"
| "search_step fl OpRedo s = (case search_redo s of
     Panics \<Rightarrow> (s, [Panicked])
   | Returns (moved, s') \<Rightarrow> (s', [Moved moved]))"

text \<open>What a caller has to respect: snapshots of the same game that do not lose memory an \<open>Unchanged\<close> scan needs.\<close>

fun search_admits :: "region_info list \<Rightarrow> 'f search_op \<Rightarrow> 'f search \<Rightarrow> bool" where
  "search_admits R (OpRefine cancel c snapshot) s \<longleftrightarrow> snapshot_of R snapshot \<and>
     memory_kept c snapshot (se_candidates s)"
| "search_admits R OpUndo s = True"
| "search_admits R OpRedo s = True"

definition history_limited :: "'f search \<Rightarrow> bool" where
  "history_limited s \<longleftrightarrow> length (butlast (all_states s)) \<le> MAX_HISTORY_STEPS \<and>
     sum_list (map history_bytes (butlast (all_states s))) \<le> MAX_HISTORY_BYTES"

definition search_inv :: "region_info list \<Rightarrow> 'f search \<Rightarrow> search_event list \<Rightarrow> bool" where
  "search_inv R s log \<longleftrightarrow> search_ok R s \<and> history_limited s \<and> Panicked \<notin> set log"

lemma moved_along_inv:
  "moved_along R s s' \<Longrightarrow> search_inv R s log \<Longrightarrow> search_inv R s' (log @ [Moved m])"
  by (simp add: moved_along_def search_inv_def history_limited_def)

lemma history_limited_history:
  assumes "history_limited s"
  shows "length (se_history s) \<le> MAX_HISTORY_STEPS" and "sum_list (map history_bytes (se_history s)) \<le> MAX_HISTORY_BYTES"
proof -
  have "\<exists>rest. butlast (all_states s) = se_history s @ rest" by (simp add: all_states_def butlast_append)
  with assms show "length (se_history s) \<le> MAX_HISTORY_STEPS"
    "sum_list (map history_bytes (se_history s)) \<le> MAX_HISTORY_BYTES" by (auto simp: history_limited_def simp del: length_butlast)
qed

lemma refine_step:
  assumes R: "regions_ok R" and inv: "search_inv R s log" and ok: "search_admits R (OpRefine cancel c snapshot) s"
    and more: "se_steps s \<noteq> - 1"
  shows "\<exists>s' e. search_step fl (OpRefine cancel c snapshot) s = (s', [e]) \<and> search_ok R s' \<and> history_limited s' \<and> e \<noteq> Panicked"
proof (cases "check_comparison (se_settings s) c = Inr () \<and> c \<noteq> Unknown")
  case True
  have s: "search_ok R s" using inv by (simp add: search_inv_def)
  from True search_refine_rows [OF R _ s, of snapshot c, where fl = fl and cancel = cancel] ok more obtain s' where
    s': "done_or_cancelled (\<exists>m n. cancel m n) s' (search_refine fl cancel c snapshot s)" "search_ok R s'"
      "se_history s' = trim_history (se_history s @ [se_candidates s])" "se_redo s' = []" by auto
  have "history_limited s'"
    using trim_history_limits [of "se_history s @ [se_candidates s]"] s'(3,4) by (simp add: history_limited_def all_states_def)
  with s'(1,2) inv show ?thesis by (auto simp: done_or_cancelled_def search_inv_def)
next
  case False
  then have "\<exists>e. search_refine fl cancel c snapshot s = Returns (Inl e)"
    by (cases "check_comparison (se_settings s) c") (auto simp: search_refine_def)
  with inv show ?thesis by (auto simp: search_inv_def)
qed

text \<open>The operations of the histories below: the step counter also has room for one more scan.\<close>

definition search_allows :: "region_info list \<Rightarrow> 'f search_op \<Rightarrow> 'f search \<Rightarrow> bool" where
  "search_allows R a s \<longleftrightarrow> regions_ok R \<and> search_admits R a s \<and> Suc (last_step s) < 2 ^ 32"

lemma allows_steps: "search_allows R a s \<Longrightarrow> se_steps s \<noteq> - 1"
  by (auto simp: search_allows_def last_step_def unsigned_minus_1_eq_mask mask_eq_exp_minus_1)

lemma search_step_keeps:
  assumes inv: "search_inv R s log" and ok: "search_allows R a s" and step: "search_step fl a s = (s', out)"
  shows "search_inv R s' (log @ out)"
proof -
  have s: "search_ok R s" using inv by (simp add: search_inv_def)
  show ?thesis
  proof (cases a)
    case (OpRefine cancel c snapshot)
    from refine_step [OF _ inv _ allows_steps [OF ok], of cancel c snapshot fl] ok step inv show ?thesis
      by (auto simp: OpRefine search_inv_def search_allows_def)
  next
    case OpUndo
    with search_undo_ok [OF s] step moved_along_inv [OF _ inv] show ?thesis by auto
  next
    case OpRedo
    with search_redo_ok [OF s] step moved_along_inv [OF _ inv] show ?thesis by auto
  qed
qed

interpretation searching: history "search_step fl" "search_allows R" "search_inv R"
  by unfold_locales (rule search_step_keeps)

text \<open>Every operation makes at most one more step, so a history shorter than \<open>u32\<close> is allowed.\<close>

lemma maybe_make_sparse_fields:
  "maybe_make_sparse s = Returns s' \<Longrightarrow> se_steps s' = se_steps s \<and> se_redo s' = se_redo s \<and> se_history s' = se_history s"
  by (auto simp: maybe_make_sparse_def Let_def rbind_def split: candidates.splits if_splits rust.splits)

lemma last_step_grows: "last_step (fst (search_step fl a s)) \<le> Suc (last_step s)"
proof (cases a)
  case (OpRefine cancel c snapshot)
  show ?thesis
  proof (cases "search_refine fl cancel c snapshot s")
    case (Returns r)
    show ?thesis
    proof (cases r)
      case (Inr s')
      with Returns obtain n where "add_u32 (se_steps s) 1 = Returns n" "se_steps s' = n" "se_redo s' = []"
        by (auto simp: search_refine_def try_bind_def rbind_def dest!: maybe_make_sparse_fields split: rust.splits sum.splits if_splits)
      moreover from this(1) have "unat n = Suc (unat (se_steps s))"
        by (auto simp: add_u32_def unat_word_ariths split: if_splits)
      ultimately have "last_step s' \<le> Suc (unat (se_steps s))" by (simp add: last_step_def)
      with Returns Inr show ?thesis by (simp add: OpRefine last_step_def)
    qed (simp add: OpRefine Returns)
  qed (simp add: OpRefine)
next
  case OpUndo
  then show ?thesis
    by (auto simp: search_undo_def sub_u32_def last_step_def word_le_nat_alt unat_sub)
next
  case OpRedo
  then show ?thesis
    by (auto simp: search_redo_def add_u32_def last_step_def unat_word_ariths)
qed

lemma short_run_allowed:
  assumes "regions_ok R"
  shows "admitted_run (search_step fl) (search_admits R) as s \<Longrightarrow> last_step s + length as < 2 ^ 32 \<Longrightarrow>
    admitted_run (search_step fl) (search_allows R) as s"
proof (induction as arbitrary: s)
  case (Cons a as)
  from Cons.prems(2) have "last_step (fst (search_step fl a s)) + length as < 2 ^ 32"
    using last_step_grows [of fl a s] by simp
  moreover have "search_allows R a s" using Cons.prems assms by (simp add: search_allows_def)
  ultimately show ?case using Cons by simp
qed simp

lemma search_new_inv:
  assumes "regions_ok R" "snapshot_of R snapshot" "format_ok (ss_format ss)" "search_new fl cancel ss c snapshot = Returns (Inr s)"
  shows "search_inv R s []" and "last_step s = 1"
proof -
  have c: "check_comparison ss c = Inr ()" "is_initial c"
    using assms(4) by (cases "check_comparison ss c"; simp add: search_new_def split: if_splits)+
  from search_new_rows [OF assms(1-3) c, of cancel fl] assms(4) have s: "search_ok R s"
    by (auto simp: done_or_cancelled_def)
  have fresh: "se_history s = [] \<and> se_redo s = [] \<and> se_steps s = 1"
  proof -
    obtain regions where "maybe_make_sparse
           \<lparr>se_settings = ss, se_candidates = Dense regions snapshot snapshot True, se_history = [], se_redo = [],
            se_steps = 1, se_last_frame = ms_frame snapshot, se_last_epoch = ms_epoch snapshot\<rparr> = Returns s"
      using assms(4) c by (auto simp: search_new_def try_bind_def rbind_def split: rust.splits sum.splits)
    from maybe_make_sparse_fields [OF this] show ?thesis by simp
  qed
  with s show "search_inv R s []" and "last_step s = 1"
    by (simp_all add: search_inv_def history_limited_def all_states_def last_step_def)
qed

end
