(* ===== verification/Memory_Compare.thy ===== *)
theory Memory_Compare
  imports Memory_Candidates
begin

text \<open>
  What the comparisons of the RAM search mean for whole numbers: the words the code computes with
  are the numbers in memory, and none of its differences wraps around.
\<close>

text \<open>Comparisons with whole numbers; a magnitude of \<open>i64::MIN\<close> is not one.\<close>

fun whole :: "'f number \<Rightarrow> bool" where
  "whole (IntNumber v) = True" | "whole (FloatNumber f) = False"

fun magnitude :: "'f number \<Rightarrow> bool" where
  "magnitude (IntNumber v) = (- (2 ^ 63) < sint v)" | "magnitude (FloatNumber f) = False"

fun whole_comparison :: "'f comparison \<Rightarrow> bool" where
  "whole_comparison (Equal v) = whole v" | "whole_comparison (NotEqual v) = whole v"
| "whole_comparison (Less v) = whole v" | "whole_comparison (LessOrEqual v) = whole v"
| "whole_comparison (Greater v) = whole v" | "whole_comparison (GreaterOrEqual v) = whole v"
| "whole_comparison (Between a b) = (whole a \<and> whole b)"
| "whole_comparison (InSet vs) = list_all whole vs"
| "whole_comparison (Pattern p) = False"
| "whole_comparison (IncreasedBy d) = whole d" | "whole_comparison (DecreasedBy d) = whole d"
| "whole_comparison (ChangedBy d) = magnitude d" | "whole_comparison (ChangedByAtLeast d) = magnitude d"
| "whole_comparison _ = True"

fun int_of :: "'f number \<Rightarrow> int" where
  "int_of (IntNumber v) = sint v" | "int_of (FloatNumber f) = 0"

text \<open>The meaning of a comparison, for the current, the previous and the first value.\<close>

fun holds :: "'f comparison \<Rightarrow> int \<Rightarrow> int \<Rightarrow> int \<Rightarrow> bool" where
  "holds Unknown v p f = True"
| "holds (Equal x) v p f = (v = int_of x)" | "holds (NotEqual x) v p f = (v \<noteq> int_of x)"
| "holds (Less x) v p f = (v < int_of x)" | "holds (LessOrEqual x) v p f = (v \<le> int_of x)"
| "holds (Greater x) v p f = (v > int_of x)" | "holds (GreaterOrEqual x) v p f = (v \<ge> int_of x)"
| "holds (Between a b) v p f = (int_of a \<le> v \<and> v \<le> int_of b)"
| "holds (InSet xs) v p f = (v \<in> int_of ` set xs)"
| "holds (Pattern xs) v p f = False"
| "holds Changed v p f = (v \<noteq> p)" | "holds Unchanged v p f = (v = p)"
| "holds Increased v p f = (v > p)" | "holds Decreased v p f = (v < p)"
| "holds (IncreasedBy d) v p f = (v = p + int_of d)" | "holds (DecreasedBy d) v p f = (v = p - int_of d)"
| "holds (ChangedBy d) v p f = (\<bar>v - p\<bar> = \<bar>int_of d\<bar>)"
| "holds (ChangedByAtLeast d) v p f = (v \<noteq> p \<and> \<bar>v - p\<bar> \<ge> \<bar>int_of d\<bar>)"
| "holds EqualToFirst v p f = (v = f)" | "holds NotEqualToFirst v p f = (v \<noteq> f)"
| "holds IncreasedSinceFirst v p f = (v > f)" | "holds DecreasedSinceFirst v p f = (v < f)"

subsection \<open>Arithmetic that does not wrap\<close>

lemma value_range_small:
  assumes "format_ok f" and "is_integer (vf_ty f)" and "v \<in> value_range f"
  shows "\<bar>v\<bar> < 2 ^ 32"
proof -
  have len: "vf_len f \<le> 4" using format_ok_len(3) [OF assms(1)] assms(2) by (simp add: is_integer_def)
  then have "(2 :: int) ^ (8 * vf_len f) \<le> 2 ^ 32" "(2 :: int) ^ (8 * vf_len f - 1) \<le> 2 ^ 31"
    by (intro power_increasing; simp)+
  moreover have "(100 :: int) ^ vf_len f \<le> 100 ^ 4" using len by (intro power_increasing) simp_all
  ultimately show ?thesis using assms(3) by (auto simp: value_range_def Let_def split: if_splits)
qed

lemma sint_sub: "- (2 ^ 63) \<le> sint (a :: i64) - sint b \<Longrightarrow> sint a - sint b < 2 ^ 63 \<Longrightarrow> sint (a - b) = sint a - sint b"
  by (simp add: signed_take_bit_int_eq_self sint_word_ariths)

lemma sint_wrapping_abs: "- (2 ^ 63) < sint a \<Longrightarrow> sint (wrapping_abs a) = \<bar>sint a\<bar>"
  using sint_lt [of a] by (simp add: wrapping_abs_def sint_word_ariths signed_take_bit_int_eq_self)

lemma sint_eq_iff: "a = b \<longleftrightarrow> sint (a :: i64) = sint b"
  by (auto intro: signed_word_eqI)

text \<open>Different bytes are different values.\<close>

lemma decode_injective:
  assumes "format_ok f" "is_integer (vf_ty f)" "length a = vf_len f" "length b = vf_len f"
    and "decode_number fl f a = Some (IntNumber x)" "decode_number fl f b = Some (IntNumber y)"
  shows "a = b \<longleftrightarrow> x = y"
proof
  assume "x = y"
  then have "Returns (Some a) = Returns (Some b)"
    using encode_decode [OF assms(1-3,5)] encode_decode [OF assms(1,2,4,6)] by simp
  then show "a = b" by simp
qed (use assms in simp)

lemma decode_in_range:
  assumes "format_ok f" "is_integer (vf_ty f)" "length bs = vf_len f" "decode_number fl f bs = Some (IntNumber x)"
  shows "sint x \<in> value_range f"
proof -
  have "encode_number fl f (IntNumber x) = Returns (Some bs)" by (rule encode_decode [OF assms])
  from decode_encode_bits [OF assms(1,2) this] assms(4) show ?thesis by auto
qed

lemma passes_means:
  assumes rd: "reader_ok rd" "is_integer (vf_ty (rd_format rd))" and c: "whole_comparison c"
    and len: "length current = rd_len rd" "length prev = rd_len rd" "length first = rd_len rd"
    and v: "decode_number fl (rd_format rd) current = Some (IntNumber v)"
    and p: "decode_number fl (rd_format rd) prev = Some (IntNumber p)"
    and f: "decode_number fl (rd_format rd) first = Some (IntNumber f)"
  shows "passes fl rd c current (Some prev) (Some first) = Returns (holds c (sint v) (sint p) (sint f))"
proof -
  have fmt: "format_ok (rd_format rd)" and l: "rd_len rd = vf_len (rd_format rd)" using rd(1) by (simp_all add: reader_ok_def)
  have number: "reader_number fl rd current 0 = Returns (Some (IntNumber v))"
    using reader_number_decode [OF rd(1), of 0 current fl] len v by simp
  have numbers: "number_and fl rd (Some prev) t = Returns (t (IntNumber p))" "number_and fl rd (Some first) t = Returns (t (IntNumber f))" for t
    using number_of_returns [OF rd(1), of "Some prev" fl] number_of_returns [OF rd(1), of "Some first" fl] len p f
    by (simp_all add: number_and_def)
  have inj: "prev = current \<longleftrightarrow> sint v = sint p" "first = current \<longleftrightarrow> sint v = sint f"
    using decode_injective [OF fmt rd(2) _ _ p v] decode_injective [OF fmt rd(2) _ _ f v] len l
    by (auto simp: sint_eq_iff)
  have small: "\<bar>sint v\<bar> < 2 ^ 32" "\<bar>sint p\<bar> < 2 ^ 32"
    using value_range_small [OF fmt rd(2)] decode_in_range [OF fmt rd(2) _ v] decode_in_range [OF fmt rd(2) _ p] len l by simp_all
  have diff: "sint (v - p) = sint v - sint p" "sint (p - v) = sint p - sint v"
    using small by (intro sint_sub; simp)+
  have abs: "sint (wrapping_abs (v - p)) = \<bar>sint v - sint p\<bar>"
    using sint_wrapping_abs [of "v - p"] small by (simp add: diff)
  have eq: "reader_equal fl rd (IntNumber a) (IntNumber b) \<longleftrightarrow> sint a = sint b" for a b
    by (simp add: reader_equal_def sint_eq_iff)
  have less: "reader_less fl rd (IntNumber a) (IntNumber b) \<longleftrightarrow> sint a < sint b" for a b
    by (simp add: reader_less_def)
  have zero: "wrapping_abs (v - p) = 0 \<longleftrightarrow> sint v = sint p" by (simp add: sint_eq_iff abs)
  show ?thesis
  proof (cases c)
    case (InSet vs)
    have "list_all whole xs \<Longrightarrow> list_ex (reader_equal fl rd (IntNumber v)) xs \<longleftrightarrow> sint v \<in> int_of ` set xs" for xs
    proof (induction xs)
      case (Cons x xs)
      then show ?case by (cases x) (auto simp: eq)
    qed simp
    from this [of vs] c have "list_ex (reader_equal fl rd (IntNumber v)) vs \<longleftrightarrow> sint v \<in> int_of ` set vs"
      by (simp add: InSet)
    then show ?thesis by (simp add: InSet passes_def number)
  next
    case (Between a b)
    with c show ?thesis by (cases a; cases b) (auto simp: passes_def number less not_less)
  next
    case (ChangedBy d)
    with c obtain x where "d = IntNumber x" "- (2 ^ 63) < sint x" by (cases d) simp_all
    then show ?thesis
      by (simp add: ChangedBy passes_def number numbers reader_difference_def eq abs sint_wrapping_abs)
  next
    case (ChangedByAtLeast d)
    with c obtain x where "d = IntNumber x" "- (2 ^ 63) < sint x" by (cases d) simp_all
    then show ?thesis
      by (auto simp: ChangedByAtLeast passes_def number numbers reader_difference_def less abs sint_wrapping_abs zero Let_def)
  next
    case (IncreasedBy d)
    with c obtain x where "d = IntNumber x" by (cases d) simp_all
    then show ?thesis by (auto simp: IncreasedBy passes_def number numbers reader_difference_def eq diff)
  next
    case (DecreasedBy d)
    with c obtain x where "d = IntNumber x" by (cases d) simp_all
    then show ?thesis by (auto simp: DecreasedBy passes_def number numbers reader_difference_def eq diff)
  next
    case (Equal x)
    with c show ?thesis by (cases x) (simp_all add: passes_def number eq)
  next
    case (NotEqual x)
    with c show ?thesis by (cases x) (simp_all add: passes_def number eq)
  next
    case (Less x)
    with c show ?thesis by (cases x) (simp_all add: passes_def number less)
  next
    case (LessOrEqual x)
    with c show ?thesis by (cases x) (auto simp: passes_def number less)
  next
    case (Greater x)
    with c show ?thesis by (cases x) (simp_all add: passes_def number less)
  next
    case (GreaterOrEqual x)
    with c show ?thesis by (cases x) (auto simp: passes_def number less)
  qed (use c in \<open>auto simp: passes_def number numbers less inj\<close>)
qed

end
