(* ===== verification/Link_Serial.thy ===== *)
theory Link_Serial
  imports Leb128
begin

text \<open>
  The log of what a Game Boy received over its link cable during a frame, from
  \<open>supershuckie-core/src/emulator/link.rs\<close>: the events, \<open>GbSerialEvents::encode\<close> and
  \<open>GbSerialEvents::decode\<close>, and the rule that decides which console of a pair steps next.

  \<open>encode\<close> walks the events in groups of one kind; \<open>decode\<close> reads the groups back. They are
  inverse to each other for every log of at most 65536 events whose slave bits are in cycle
  order within each group, which is how a port writes them.
\<close>

unbundle bit_operations_syntax

section \<open>Errors\<close>

text \<open>The reasons \<open>BadSerialData\<close> is given, in the place of their text.\<close>

datatype bad_serial =
    TooManyBits u64
  | TruncatedMasterBits
  | CycleOverflow
  | TruncatedSlaveBit
  | SlaveBitValue u8
  | TruncatedConnected
  | ConnectedFlag u8
  | InfraredUnsupported
  | UnknownTag u8
  | TruncatedVarint
  | VarintTooLong

datatype link_error =
    IncompatiblePartner
  | NotConnected
  | BadSerialData bad_serial
  | Deadlock
  | EmulatorFailed rstring

text \<open>
  \<open>second_runs_next\<close>, on what it asks the two ports: whether each is asleep and its link time.
\<close>

definition second_runs_next :: "bool \<Rightarrow> u64 \<Rightarrow> bool \<Rightarrow> u64 \<Rightarrow> link_error + bool" where
  "second_runs_next first_asleep first_time second_asleep second_time =
     (case (first_asleep, second_asleep) of
        (True, True) \<Rightarrow> Inl Deadlock
      | (True, False) \<Rightarrow> Inr True
      | (False, True) \<Rightarrow> Inr False
      | (False, False) \<Rightarrow> Inr (second_time < first_time))"

section \<open>Events\<close>

datatype gb_serial_event = MasterBit bool | SlaveBit u64 bool | Connected bool

fun is_master :: "gb_serial_event \<Rightarrow> bool" where
  "is_master (MasterBit _) = True"
| "is_master _ = False"

fun is_slave :: "gb_serial_event \<Rightarrow> bool" where
  "is_slave (SlaveBit _ _) = True"
| "is_slave _ = False"

definition TAG_MASTER :: u8 where "TAG_MASTER = 0x01"
definition TAG_SLAVE :: u8 where "TAG_SLAVE = 0x02"
definition TAG_INFRARED :: u8 where "TAG_INFRARED = 0x03"
definition TAG_CONNECTED :: u8 where "TAG_CONNECTED = 0x04"

lemmas serial_tags = TAG_MASTER_def TAG_SLAVE_def TAG_INFRARED_def TAG_CONNECTED_def

definition MAX_GB_EVENTS :: nat where "MAX_GB_EVENTS = 65536"

section \<open>Variable-length integers\<close>

text \<open>\<open>push_varint\<close> is the loop of \<open>write_leb128\<close>, appending.\<close>

definition push_varint :: "bytes \<Rightarrow> u64 \<Rightarrow> bytes" where
  "push_varint into value = into @ write_leb128 value"

fun read_varint_loop :: "u64 \<Rightarrow> nat \<Rightarrow> bytes \<Rightarrow> link_error + (u64 \<times> bytes)" where
  "read_varint_loop value shift [] = Inl (BadSerialData TruncatedVarint)"
| "read_varint_loop value shift (byte # rest) =
     (if 64 \<le> shift \<or> (shift = 63 \<and> byte AND 0x7E \<noteq> 0) then Inl (BadSerialData VarintTooLong)
      else let value' = value OR push_bit shift (ucast (byte AND 0x7F))
        in if byte AND 0x80 = 0 then Inr (value', rest) else read_varint_loop value' (shift + 7) rest)"

definition read_varint :: "bytes \<Rightarrow> link_error + (u64 \<times> bytes)" where
  "read_varint data = read_varint_loop 0 0 data"

text \<open>
  It accepts exactly what the replay's own \<open>read_leb128\<close> accepts, with the same value: the two
  routines of the repository agree.
\<close>

lemma one_less_bits: "1 < (x :: u64) \<longleftrightarrow> (\<exists>n \<ge> 1. bit x n)"
proof -
  have "1 < x \<longleftrightarrow> unat x div 2 \<noteq> 0" by (auto simp: word_less_nat_alt)
  also have "unat x div 2 = unat (drop_bit 1 x)" by (simp add: drop_bit_eq_div unat_div)
  also have "unat (drop_bit 1 x) \<noteq> 0 \<longleftrightarrow> drop_bit 1 x \<noteq> 0" by (simp add: unat_eq_0)
  also have "drop_bit 1 x \<noteq> 0 \<longleftrightarrow> (\<exists>n. bit x (1 + n))"
  proof -
    have "bit x (1 + n) \<Longrightarrow> n < 64" for n using bit_imp_le_length [of x "1 + n"] by simp
    then show ?thesis by (auto simp: bit_eq_iff bit_drop_bit_eq)
  qed
  also have "\<dots> \<longleftrightarrow> (\<exists>n \<ge> 1. bit x n)" by (metis le_add1 le_add_diff_inverse)
  finally show ?thesis .
qed

lemma bit_0x7E: "bit (0x7E :: nat) n \<longleftrightarrow> 1 \<le> n \<and> n < 7" "bit (0x7E :: int) n \<longleftrightarrow> 1 \<le> n \<and> n < 7"
proof -
  have "(0x7E :: nat) = push_bit 1 (mask 6)" and "(0x7E :: int) = push_bit 1 (mask 6)"
    by (simp_all add: mask_eq_exp_minus_1)
  then show "bit (0x7E :: nat) n \<longleftrightarrow> 1 \<le> n \<and> n < 7" and "bit (0x7E :: int) n \<longleftrightarrow> 1 \<le> n \<and> n < 7"
    by (simp_all only: bit_push_bit_iff bit_mask_iff) auto
qed

lemma tenth_byte: "1 < (ucast ((b :: u8) AND 0x7F) :: u64) \<longleftrightarrow> b AND 0x7E \<noteq> 0"
  unfolding one_less_bits by (auto simp: bit_eq_iff bit_and_iff bit_0x7E bit_unsigned_iff mask_7 bit_mask_iff)

lemma read_varint_loop_leb128:
  "read_leb128_loop r shift s = (case read_varint_loop r shift s of Inl _ \<Rightarrow> None | Inr y \<Rightarrow> Some y)"
  by (induction r shift s rule: read_varint_loop.induct) (auto simp: Let_def tenth_byte)

lemma read_varint_leb128:
  "read_leb128 s = (case read_varint s of Inl _ \<Rightarrow> None | Inr y \<Rightarrow> Some y)"
  by (simp add: read_leb128_def read_varint_def read_varint_loop_leb128)

lemma read_varint_Some: "read_leb128 s = Some y \<Longrightarrow> read_varint s = Inr y"
  by (simp add: read_varint_leb128 split: sum.splits)

lemma read_varint_push [simp]: "read_varint (write_leb128 v @ rest) = Inr (v, rest)"
  by (rule read_varint_Some) (rule read_write_leb128)

lemma read_varint_shorter: "read_varint s = Inr (v, rest) \<Longrightarrow> length rest < length s"
  using read_leb128_shorter [of s v rest] by (simp add: read_varint_leb128)
section \<open>Encoding\<close>

fun master_bit :: "gb_serial_event \<Rightarrow> bool" where
  "master_bit (MasterBit b) = b"
| "master_bit _ = False"

text \<open>One turn of the loop that packs master bits, most significant bit first.\<close>

definition pack_bit :: "bytes \<times> u8 \<Rightarrow> nat \<times> gb_serial_event \<Rightarrow> bytes \<times> u8" where
  "pack_bit s e =
     (let (into, byte) = s;
          (n, event) = e;
          byte = byte OR push_bit (7 - n mod 8) (of_bool (master_bit event))
      in if n mod 8 = 7 then (into @ [byte], 0) else (into, byte))"

definition encode_masters :: "gb_serial_event list \<Rightarrow> bytes \<Rightarrow> bytes" where
  "encode_masters bits into =
     (let into = push_varint (into @ [TAG_MASTER]) (of_nat (length bits));
          (into, byte) = foldl pack_bit (into, 0) (enumerate 0 bits)
      in if length bits mod 8 \<noteq> 0 then into @ [byte] else into)"

text \<open>One turn of the loop over slave bits: the delta to the previous one, and the bit.\<close>

fun push_slave :: "bytes \<times> u64 \<Rightarrow> gb_serial_event \<Rightarrow> bytes \<times> u64" where
  "push_slave (into, previous) (SlaveBit cycles b) =
     (push_varint into (saturating_sub cycles previous) @ [of_bool b], cycles)"
| "push_slave s _ = s"

definition encode_slaves :: "gb_serial_event list \<Rightarrow> bytes \<Rightarrow> bytes" where
  "encode_slaves bits into =
     fst (foldl push_slave (push_varint (into @ [TAG_SLAVE]) (of_nat (length bits)), 0) bits)"

function encode_serial :: "gb_serial_event list \<Rightarrow> bytes \<Rightarrow> bytes" where
  "encode_serial [] into = into"
| "encode_serial (MasterBit b # events) into =
     encode_serial (dropWhile is_master events) (encode_masters (MasterBit b # takeWhile is_master events) into)"
| "encode_serial (SlaveBit c b # events) into =
     encode_serial (dropWhile is_slave events) (encode_slaves (SlaveBit c b # takeWhile is_slave events) into)"
| "encode_serial (Connected c # events) into = encode_serial events (into @ [TAG_CONNECTED, of_bool c])"
  by pat_completeness auto

termination encode_serial
  by (relation "measure (length \<circ> fst)") (auto simp: le_imp_less_Suc length_dropWhile_le)

section \<open>Decoding\<close>

definition bad :: "bad_serial \<Rightarrow> link_error + 'a" where
  "bad r = Inl (BadSerialData r)"

definition too_many :: "u64 \<Rightarrow> gb_serial_event list \<Rightarrow> bool" where
  "too_many count events \<longleftrightarrow>
     MAX_GB_EVENTS < unat count \<or> MAX_GB_EVENTS < length events + unat count"

definition unpack_masters :: "bytes \<Rightarrow> nat \<Rightarrow> gb_serial_event list" where
  "unpack_masters packed count =
     map (\<lambda>n. MasterBit (packed ! (n div 8) AND drop_bit (n mod 8) 0x80 \<noteq> 0)) [0..<count]"

definition decode_masters ::
  "bytes \<Rightarrow> gb_serial_event list \<Rightarrow> link_error + (bytes \<times> gb_serial_event list)" where
  "decode_masters data events =
     and_then (read_varint data) (\<lambda>(count, data).
       if too_many count events then bad (TooManyBits count)
       else case split_at_checked ((unat count + 7) div 8) data of
           None \<Rightarrow> bad TruncatedMasterBits
         | Some (packed, rest) \<Rightarrow> Inr (rest, events @ unpack_masters packed (unat count)))"

fun decode_slave_loop ::
  "nat \<Rightarrow> u64 \<Rightarrow> bytes \<Rightarrow> gb_serial_event list \<Rightarrow> link_error + (bytes \<times> gb_serial_event list)" where
  "decode_slave_loop 0 cycles data events = Inr (data, events)"
| "decode_slave_loop (Suc k) cycles data events =
     and_then (read_varint data) (\<lambda>(delta, data).
       if usize_limit \<le> unat cycles + unat delta then bad CycleOverflow
       else let cycles = cycles + delta
         in case data of
             [] \<Rightarrow> bad TruncatedSlaveBit
           | b # rest \<Rightarrow>
               if 1 < b then bad (SlaveBitValue b)
               else decode_slave_loop k cycles rest (events @ [SlaveBit cycles (b \<noteq> 0)]))"

definition decode_slaves ::
  "bytes \<Rightarrow> gb_serial_event list \<Rightarrow> link_error + (bytes \<times> gb_serial_event list)" where
  "decode_slaves data events =
     and_then (read_varint data) (\<lambda>(count, data).
       if too_many count events then bad (TooManyBits count)
       else decode_slave_loop (unat count) 0 data events)"

definition decode_connected ::
  "bytes \<Rightarrow> gb_serial_event list \<Rightarrow> link_error + (bytes \<times> gb_serial_event list)" where
  "decode_connected data events =
     (case data of
        [] \<Rightarrow> bad TruncatedConnected
      | connected # rest \<Rightarrow>
          if 1 < connected then bad (ConnectedFlag connected)
          else Inr (rest, events @ [Connected (connected \<noteq> 0)]))"

text \<open>One tagged group.\<close>

definition decode_group ::
  "u8 \<Rightarrow> bytes \<Rightarrow> gb_serial_event list \<Rightarrow> link_error + (bytes \<times> gb_serial_event list)" where
  "decode_group tag data events =
     (if tag = TAG_MASTER then decode_masters data events
      else if tag = TAG_SLAVE then decode_slaves data events
      else if tag = TAG_CONNECTED then decode_connected data events
      else if tag = TAG_INFRARED then bad InfraredUnsupported
      else bad (UnknownTag tag))"

lemma decode_slave_loop_shorter:
  "decode_slave_loop k cycles data events = Inr (rest, events') \<Longrightarrow> length rest \<le> length data"
proof (induction k arbitrary: cycles data events)
  case 0
  then show ?case by simp
next
  case (Suc k)
  then obtain delta b data' where "read_varint data = Inr (delta, b # data')" and
    "decode_slave_loop k (cycles + delta) data' (events @ [SlaveBit (cycles + delta) (b \<noteq> 0)]) = Inr (rest, events')"
    by (auto simp: bad_def and_then_def Let_def split: sum.splits if_splits list.splits)
  with Suc.IH [OF this(2)] show ?case by (fastforce dest: read_varint_shorter)
qed

lemma decode_group_shorter: "decode_group tag data events = Inr (rest, events') \<Longrightarrow> length rest \<le> length data"
  by (auto simp: decode_group_def decode_masters_def decode_slaves_def decode_connected_def bad_def and_then_def
      split_at_checked_eq_Some dest!: read_varint_shorter decode_slave_loop_shorter
      split: if_splits sum.splits option.splits list.splits)

function decode_serial :: "bytes \<Rightarrow> gb_serial_event list \<Rightarrow> link_error + gb_serial_event list" where
  "decode_serial [] events = Inr events"
| "decode_serial (tag # data) events =
     (case decode_group tag data events of
        Inl e \<Rightarrow> Inl e
      | Inr (rest, events') \<Rightarrow> decode_serial rest events')"
  by pat_completeness auto

termination decode_serial
  by (relation "measure (length \<circ> fst)") (auto simp: le_imp_less_Suc dest: decode_group_shorter)

definition decode_gb :: "bytes \<Rightarrow> link_error + gb_serial_event list" where
  "decode_gb data = decode_serial data []"

section \<open>Round trip\<close>

text \<open>Slave bits that follow one another are in cycle order, as a port logs them.\<close>

fun cycles_ascend :: "gb_serial_event \<Rightarrow> gb_serial_event \<Rightarrow> bool" where
  "cycles_ascend (SlaveBit c _) (SlaveBit c' _) \<longleftrightarrow> c \<le> c'"
| "cycles_ascend _ _ \<longleftrightarrow> True"

definition in_cycle_order :: "gb_serial_event list \<Rightarrow> bool" where
  "in_cycle_order events \<longleftrightarrow> successively cycles_ascend events"

subsection \<open>Master bits\<close>

text \<open>The bytes made of the bits so far, and the byte in progress.\<close>

definition packs :: "gb_serial_event list \<Rightarrow> bytes \<Rightarrow> u8 \<Rightarrow> bool" where
  "packs bits done byte \<longleftrightarrow>
     length done = length bits div 8 \<and>
     (\<forall>i < 8 * length done. bit (done ! (i div 8)) (7 - i mod 8) = master_bit (bits ! i)) \<and>
     (\<forall>i < 8. bit byte (7 - i) = (8 * length done + i < length bits \<and> master_bit (bits ! (8 * length done + i))))"

lemma pack_bit_prefix: "pack_bit (pre @ into, byte) e = apfst ((@) pre) (pack_bit (into, byte) e)"
  by (simp add: pack_bit_def Let_def split_def)

lemma foldl_pack_prefix: "foldl pack_bit (pre @ into, byte) es = apfst ((@) pre) (foldl pack_bit (into, byte) es)"
  by (induction es rule: rev_induct) (auto simp: pack_bit_prefix apfst_def map_prod_def split_def)

lemma byte_index:
  fixes i q :: nat
  assumes "\<not> i < 8 * q" and "i < 8 * q + 8"
  shows "i div 8 = q" and "8 * q + i mod 8 = i"
proof -
  show q: "i div 8 = q" by (rule div_nat_eqI) (use assms in simp_all)
  show "8 * q + i mod 8 = i" using mult_div_mod_eq [of 8 i] unfolding q .
qed

lemma packs_step:
  assumes "packs bits done byte"
  shows "case_prod (packs (bits @ [e])) (pack_bit (done, byte) (length bits, e))"
proof -
  define n where "n = length bits"
  have d: "length done = n div 8" and
    old: "\<And>i. i < 8 * length done \<Longrightarrow> bit (done ! (i div 8)) (7 - i mod 8) = master_bit (bits ! i)" and
    cur: "\<And>i. i < 8 \<Longrightarrow> bit byte (7 - i) = (8 * length done + i < n \<and> master_bit (bits ! (8 * length done + i)))"
    using assms by (auto simp: packs_def n_def)
  define byte' where "byte' = byte OR push_bit (7 - n mod 8) (of_bool (master_bit e) :: u8)"
  have le: "8 * length done \<le> n" by (simp add: d)
  have at: "8 * length done + n mod 8 = n" by (simp add: d)
  have new: "bit byte' (7 - i) = (8 * length done + i < Suc n \<and> master_bit ((bits @ [e]) ! (8 * length done + i)))"
    if "i < 8" for i
  proof -
    have "bit (push_bit (7 - n mod 8) (of_bool (master_bit e)) :: u8) (7 - i) \<longleftrightarrow> i = n mod 8 \<and> master_bit e"
      using that by (auto simp: bit_simps)
    then have "bit byte' (7 - i) \<longleftrightarrow> bit byte (7 - i) \<or> i = n mod 8 \<and> master_bit e"
      by (simp add: byte'_def bit_or_iff)
    moreover have "i = n mod 8 \<longleftrightarrow> 8 * length done + i = n" using at by linarith
    ultimately have "bit byte' (7 - i) \<longleftrightarrow>
        8 * length done + i < n \<and> master_bit (bits ! (8 * length done + i)) \<or> 8 * length done + i = n \<and> master_bit e"
      using that by (simp only: cur)
    then show ?thesis by (auto simp: nth_append n_def less_Suc_eq)
  qed
  have old': "bit (done ! (i div 8)) (7 - i mod 8) = master_bit ((bits @ [e]) ! i)" if "i < 8 * length done" for i
    using that old [OF that] le by (simp add: nth_append n_def)
  show ?thesis
  proof (cases "n mod 8 = 7")
    case True
    then have s: "Suc n div 8 = Suc (n div 8)" by (simp add: div_Suc mod_Suc)
    have "bit ((done @ [byte']) ! (i div 8)) (7 - i mod 8) = master_bit ((bits @ [e]) ! i)"
      if "i < 8 * length (done @ [byte'])" for i
    proof (cases "i < 8 * length done")
      case True
      then have "i div 8 < length done" by linarith
      then have "(done @ [byte']) ! (i div 8) = done ! (i div 8)" by (simp only: nth_append if_True)
      with old' [OF True] show ?thesis by (simp only:)
    next
      case False
      moreover have "i < 8 * length done + 8" using that by simp
      ultimately have x: "i div 8 = length done" "8 * length done + i mod 8 = i"
        by (rule byte_index)+
      have "i < Suc n" using \<open>i < 8 * length done + 8\<close> at \<open>n mod 8 = 7\<close> by linarith
      moreover have "(done @ [byte']) ! (i div 8) = byte'" by (simp only: x nth_append_length)
      ultimately show ?thesis using new [of "i mod 8"] x(2) by (simp only: mod_less_divisor zero_less_numeral simp_thms)
    qed
    moreover have "8 * length (done @ [byte']) = length (bits @ [e])"
      using at True by (simp add: n_def)
    ultimately have "packs (bits @ [e]) (done @ [byte']) 0"
      using s d unfolding packs_def by (simp add: n_def)
    with True show ?thesis by (simp add: pack_bit_def Let_def byte'_def n_def [symmetric])
  next
    case False
    then have "Suc n div 8 = n div 8" by (simp add: div_Suc mod_Suc)
    then have "packs (bits @ [e]) done byte'"
      using d old' new unfolding packs_def by (simp add: n_def)
    with False show ?thesis by (simp add: pack_bit_def Let_def byte'_def n_def [symmetric])
  qed
qed

lemma packs_all: "case_prod (packs bits) (foldl pack_bit ([], 0) (enumerate 0 bits))"
proof (induction bits rule: rev_induct)
  case Nil
  then show ?case by (simp add: packs_def)
next
  case (snoc e bits)
  obtain packed byte where f: "foldl pack_bit ([], 0) (enumerate 0 bits) = (packed, byte)" by fastforce
  with snoc packs_step [of bits packed byte e] show ?case by (simp add: enumerate_append_eq)
qed

lemma unpack_packed:
  assumes "packs bits done byte" and "list_all is_master bits"
  shows "unpack_masters (if length bits mod 8 \<noteq> 0 then done @ [byte] else done) (length bits) = bits"
    (is "unpack_masters ?p _ = _")
proof (rule nth_equalityI)
  show "length (unpack_masters ?p (length bits)) = length bits" by (simp add: unpack_masters_def)
  fix i
  assume "i < length (unpack_masters ?p (length bits))"
  then have i: "i < length bits" by (simp add: unpack_masters_def)
  have d: "length done = length bits div 8" using assms(1) by (simp add: packs_def)
  have tst: "(x :: u8) AND drop_bit (i mod 8) 0x80 \<noteq> 0 \<longleftrightarrow> bit x (7 - i mod 8)" for x
  proof -
    have "bit (x AND drop_bit (i mod 8) 0x80) k \<longleftrightarrow> bit x k \<and> k = 7 - i mod 8" for k
      by (auto simp: bit_simps bit_0x80)
    moreover have "y \<noteq> 0 \<longleftrightarrow> (\<exists>k. bit y k)" for y :: u8
    proof
      show "\<exists>k. bit y k" if "y \<noteq> 0" using that by (rule contrapos_np) (simp add: bit_eq_iff)
    qed auto
    ultimately show ?thesis by simp
  qed
  have "bit (?p ! (i div 8)) (7 - i mod 8) = master_bit (bits ! i)"
  proof (cases "i < 8 * length done")
    case True
    then show ?thesis using assms(1) by (auto simp: packs_def nth_append)
  next
    case False
    moreover have "i < 8 * length done + 8" using i d by linarith
    ultimately have x: "i div 8 = length done" "8 * length done + i mod 8 = i"
      by (simp_all add: byte_index)
    moreover have "length bits mod 8 \<noteq> 0"
      using False i mult_div_mod_eq [of 8 "length bits"] unfolding d by linarith
    moreover have "bit byte (7 - i mod 8) = master_bit (bits ! i)"
      using assms(1) i x(2) mod_less_divisor [of 8 i] unfolding packs_def by (metis zero_less_numeral)
    ultimately show ?thesis by (simp add: nth_append)
  qed
  moreover have "bits ! i = MasterBit (master_bit (bits ! i))"
    using assms(2) i by (cases "bits ! i") (auto simp: list_all_length)
  ultimately show "unpack_masters ?p (length bits) ! i = bits ! i"
    using i tst by (simp add: unpack_masters_def)
qed

lemma bytes_for_bits: "(n + 7) div 8 = (if n mod 8 = 0 then n div 8 else Suc (n div 8))" for n :: nat
proof (cases "n mod 8 = 0")
  case True
  then obtain m where "n = 8 * m" by (metis mult_div_mod_eq add.right_neutral)
  then show ?thesis using div_nat_eqI [of 8 m "8 * m + 7"] by simp
next
  case False
  moreover have "(8 * q + r + 7) div 8 = Suc q" if "0 < r" "r < 8" for q r :: nat
    by (rule div_nat_eqI) (use that in auto)
  from this [of "n mod 8" "n div 8"] False have "(n + 7) div 8 = Suc (n div 8)" by simp
  ultimately show ?thesis by simp
qed

lemma encode_masters_bytes:
  obtains packed where
    "\<And>into. encode_masters bits into = into @ TAG_MASTER # write_leb128 (of_nat (length bits)) @ packed"
    and "length packed = (length bits + 7) div 8"
    and "list_all is_master bits \<Longrightarrow> unpack_masters packed (length bits) = bits"
proof -
  obtain full byte where f: "foldl pack_bit ([], 0) (enumerate 0 bits) = (full, byte)" by fastforce
  with packs_all [of bits] have p: "packs bits full byte" by simp
  let ?packed = "if length bits mod 8 \<noteq> 0 then full @ [byte] else full"
  have "encode_masters bits into = into @ TAG_MASTER # write_leb128 (of_nat (length bits)) @ ?packed" for into
    using foldl_pack_prefix [of "into @ TAG_MASTER # write_leb128 (of_nat (length bits))" "[]" 0 "enumerate 0 bits"]
    by (simp add: encode_masters_def push_varint_def f)
  moreover have "length full = length bits div 8" using p by (simp add: packs_def)
  then have "length ?packed = (length bits + 7) div 8" by (simp add: bytes_for_bits)
  ultimately show thesis using that [of ?packed] unpack_packed [OF p] by blast
qed

text \<open>The slave bits of a group, without the accumulator.\<close>

fun slave_bytes :: "u64 \<Rightarrow> gb_serial_event list \<Rightarrow> bytes" where
  "slave_bytes previous [] = []"
| "slave_bytes previous (SlaveBit c b # es) =
     write_leb128 (saturating_sub c previous) @ of_bool b # slave_bytes c es"
| "slave_bytes previous (_ # es) = slave_bytes previous es"

lemma foldl_push_slave: "fst (foldl push_slave (into, previous) es) = into @ slave_bytes previous es"
  by (induction previous es arbitrary: into rule: slave_bytes.induct) (auto simp: push_varint_def)

lemma decode_slave_loop_bytes:
  "list_all is_slave es \<Longrightarrow> successively cycles_ascend es \<Longrightarrow>
   (case es of SlaveBit c _ # _ \<Rightarrow> previous \<le> c | _ \<Rightarrow> True) \<Longrightarrow>
   decode_slave_loop (length es) previous (slave_bytes previous es @ rest) events = Inr (rest, events @ es)"
proof (induction previous es arbitrary: events rule: slave_bytes.induct)
  case (2 previous c b es)
  then have le: "previous \<le> c" by simp
  then have "saturating_sub c previous = c - previous" by (auto simp: saturating_sub_def)
  moreover have "unat previous + unat (c - previous) < usize_limit"
    using le unat_u64_bound [of c] by (simp add: unat_sub word_le_nat_alt)
  moreover have "case es of SlaveBit c' _ # _ \<Rightarrow> c \<le> c' | _ \<Rightarrow> True" and "successively cycles_ascend es"
    using "2.prems" by (auto split: list.splits gb_serial_event.splits simp: successively_Cons)
  moreover have "\<not> 1 < (of_bool b :: u8)" by (cases b) auto
  ultimately show ?case using "2.IH" "2.prems"(1) by (cases b) (simp_all add: Let_def)
qed auto

lemma too_many_length: "length events + n \<le> MAX_GB_EVENTS \<Longrightarrow> \<not> too_many (of_nat n) events \<and> unat (of_nat n :: u64) = n"
  by (simp add: too_many_def MAX_GB_EVENTS_def usize_limit_def)

lemma decode_group_masters:
  assumes "list_all is_master bits" and "length events + length bits \<le> MAX_GB_EVENTS"
  obtains data where "\<And>into. encode_masters bits into = into @ TAG_MASTER # data"
    and "\<And>rest. decode_group TAG_MASTER (data @ rest) events = Inr (rest, events @ bits)"
proof -
  obtain packed where
    "\<And>into. encode_masters bits into = into @ TAG_MASTER # write_leb128 (of_nat (length bits)) @ packed"
    and "length packed = (length bits + 7) div 8"
    and "list_all is_master bits \<Longrightarrow> unpack_masters packed (length bits) = bits"
    using encode_masters_bytes [of bits] by metis
  with assms that [of "write_leb128 (of_nat (length bits)) @ packed"] show thesis
    by (simp add: decode_group_def decode_masters_def too_many_length)
qed

lemma decode_group_slaves:
  assumes "list_all is_slave bits" and "successively cycles_ascend bits"
    and "length events + length bits \<le> MAX_GB_EVENTS"
  obtains data where "\<And>into. encode_slaves bits into = into @ TAG_SLAVE # data"
    and "\<And>rest. decode_group TAG_SLAVE (data @ rest) events = Inr (rest, events @ bits)"
proof -
  have "case bits of SlaveBit c _ # _ \<Rightarrow> 0 \<le> c | _ \<Rightarrow> True"
    by (auto split: list.splits gb_serial_event.splits)
  with assms that [of "write_leb128 (of_nat (length bits)) @ slave_bytes 0 bits"] show thesis
    by (simp add: decode_group_def decode_slaves_def too_many_length encode_slaves_def foldl_push_slave
        push_varint_def decode_slave_loop_bytes serial_tags)
qed

lemma decode_group_connected: "decode_group TAG_CONNECTED (of_bool c # rest) events = Inr (rest, events @ [Connected c])"
  by (cases c) (simp_all add: decode_group_def decode_connected_def serial_tags)

lemma successively_parts:
  "successively P xs \<Longrightarrow> successively P (takeWhile Q xs) \<and> successively P (dropWhile Q xs)"
  using successively_append_iff [of P "takeWhile Q xs" "dropWhile Q xs"] by auto

lemma list_all_takeWhile: "list_all P (takeWhile P xs)"
  by (induction xs) auto

lemma encode_group_prefix:
  "encode_masters bits into = into @ encode_masters bits []"
  "encode_slaves bits into = into @ encode_slaves bits []"
proof -
  show "encode_masters bits into = into @ encode_masters bits []"
    using encode_masters_bytes [of bits] by (metis append_Nil)
  show "encode_slaves bits into = into @ encode_slaves bits []"
    by (simp add: encode_slaves_def foldl_push_slave push_varint_def)
qed

lemma encode_serial_prefix: "encode_serial events into = into @ encode_serial events []"
proof (induction events arbitrary: into rule: length_induct)
  case (1 events)
  have by_group: "encode_serial events into = into @ encode_serial events []"
    if step: "\<And>x. encode_serial events x = encode_serial d (G x)" and G: "\<And>x. G x = x @ G []"
      and d: "length d < length events" for d G
  proof -
    have IH: "\<And>x. encode_serial d x = x @ encode_serial d []" using "1.IH" d by blast
    have "encode_serial events into = G into @ encode_serial d []" unfolding step by (rule IH)
    also have "G into = into @ G []" by (rule G)
    also have "(into @ G []) @ encode_serial d [] = into @ encode_serial events []"
      unfolding step [of "[]"] IH [of "G []"] by simp
    finally show ?thesis .
  qed
  show ?case
  proof (cases events)
    case (Cons e es)
    then have shorter: "length (dropWhile P es) < length events" "length es < length events" for P
      by (simp_all add: length_dropWhile_le less_Suc_eq_le)
    show ?thesis
    proof (cases e)
      case (MasterBit b)
      show ?thesis
        by (rule by_group [OF _ encode_group_prefix(1) shorter(1)]) (simp add: Cons MasterBit)
    next
      case (SlaveBit c b)
      show ?thesis
        by (rule by_group [OF _ encode_group_prefix(2) shorter(1)]) (simp add: Cons SlaveBit)
    next
      case (Connected c)
      show ?thesis
        by (rule by_group [OF _ _ shorter(2), of "\<lambda>x. x @ [TAG_CONNECTED, of_bool c]"]) (simp_all add: Cons Connected)
    qed
  qed simp
qed

lemma decode_encode_serial:
  "in_cycle_order es \<Longrightarrow> length events + length es \<le> MAX_GB_EVENTS \<Longrightarrow>
   decode_serial (encode_serial es []) events = Inr (events @ es)"
proof (induction es arbitrary: events rule: length_induct)
  case (1 es)
  then have IH: "decode_serial (encode_serial xs []) ev = Inr (ev @ xs)"
    if "length xs < length es" "in_cycle_order xs" "length ev + length xs \<le> MAX_GB_EVENTS" for xs ev
    using that 1(1) by simp
  show ?case
  proof (cases es)
    case (Cons e tail)
    define group where "group P = e # takeWhile P tail" for P
    define rest where "rest P = dropWhile P tail" for P
    have split: "es = group P @ rest P" for P by (simp add: group_def rest_def Cons)
    have len: "length es = length (group P) + length (rest P)" "length (rest P) < length es" for P
    proof -
      show "length es = length (group P) + length (rest P)" by (subst split [of P]) (rule length_append)
      then show "length (rest P) < length es" by (simp add: group_def)
    qed
    have order: "successively cycles_ascend (group P)" "in_cycle_order (rest P)" for P
      using "1.prems"(1) successively_append_iff [of cycles_ascend "group P" "rest P"]
      unfolding in_cycle_order_def split [of P, symmetric] by simp_all
    have next_ok: "decode_serial (encode_serial (rest P) []) (events @ group P) = Inr (events @ es)" for P
    proof -
      have "length (events @ group P) + length (rest P) \<le> MAX_GB_EVENTS"
        using "1.prems"(2) len(1) [of P] by simp
      from IH [OF len(2) order(2) this] show ?thesis unfolding append_assoc split [of P, symmetric] .
    qed
    show ?thesis
    proof (cases e)
      case (MasterBit b)
      have "list_all is_master (group is_master)"
        by (simp add: group_def MasterBit list_all_takeWhile)
      moreover have "length events + length (group is_master) \<le> MAX_GB_EVENTS"
        using "1.prems"(2) len(1) [of is_master] by linarith
      ultimately obtain data where "\<And>into. encode_masters (group is_master) into = into @ TAG_MASTER # data" and
        step: "\<And>r. decode_group TAG_MASTER (data @ r) events = Inr (r, events @ group is_master)"
        by (rule decode_group_masters) blast
      then have data: "encode_masters (group is_master) [] = TAG_MASTER # data" by simp
      have "encode_serial es [] = encode_masters (group is_master) [] @ encode_serial (rest is_master) []"
      proof -
        have "encode_serial es [] = encode_serial (rest is_master) (encode_masters (group is_master) [])"
          unfolding Cons MasterBit group_def rest_def by simp
        then show ?thesis unfolding encode_serial_prefix [of "rest is_master" "encode_masters (group is_master) []"] .
      qed
      then have "encode_serial es [] = TAG_MASTER # data @ encode_serial (rest is_master) []" unfolding data append_Cons .
      then show ?thesis by (simp only: decode_serial.simps step sum.case prod.case next_ok)
    next
      case (SlaveBit c b)
      have "list_all is_slave (group is_slave)"
        by (simp add: group_def SlaveBit list_all_takeWhile)
      moreover have "length events + length (group is_slave) \<le> MAX_GB_EVENTS"
        using "1.prems"(2) len(1) [of is_slave] by linarith
      ultimately obtain data where "\<And>into. encode_slaves (group is_slave) into = into @ TAG_SLAVE # data" and
        step: "\<And>r. decode_group TAG_SLAVE (data @ r) events = Inr (r, events @ group is_slave)"
        by (rule decode_group_slaves [OF _ order(1)]) blast
      then have data: "encode_slaves (group is_slave) [] = TAG_SLAVE # data" by simp
      have "encode_serial es [] = encode_slaves (group is_slave) [] @ encode_serial (rest is_slave) []"
      proof -
        have "encode_serial es [] = encode_serial (rest is_slave) (encode_slaves (group is_slave) [])"
          unfolding Cons SlaveBit group_def rest_def by simp
        then show ?thesis unfolding encode_serial_prefix [of "rest is_slave" "encode_slaves (group is_slave) []"] .
      qed
      then have "encode_serial es [] = TAG_SLAVE # data @ encode_serial (rest is_slave) []" unfolding data append_Cons .
      then show ?thesis by (simp only: decode_serial.simps step sum.case prod.case next_ok)
    next
      case (Connected c)
      then have "encode_serial es [] = TAG_CONNECTED # of_bool c # encode_serial tail []"
        using encode_serial_prefix [of tail "[TAG_CONNECTED, of_bool c]"] unfolding Cons by simp
      moreover have "group (\<lambda>_. False) = [Connected c]" "rest (\<lambda>_. False) = tail"
        by (cases tail; simp add: group_def rest_def Connected)+
      ultimately show ?thesis using next_ok [of "\<lambda>_. False"] by (simp add: decode_group_connected)
    qed
  qed simp
qed

lemma decode_gb_encode: "in_cycle_order es \<Longrightarrow> length es \<le> MAX_GB_EVENTS \<Longrightarrow> decode_gb (encode_serial es []) = Inr es"
  using decode_encode_serial [of es "[]"] by (simp add: decode_gb_def)

end
