(* ===== verification/Console_Input.thy ===== *)
theory Console_Input
  imports Prelude
begin

text \<open>
  What a player holds, from \<open>supershuckie-core/src/emulator.rs\<close> (\<open>Input\<close> and its operators)
  and \<open>supershuckie-core/src/lib.rs\<close>: the layers of input (keyboard, rapid fire, toggles, a
  bot, timed presses), the input they give the next frame, and what a completed frame does
  to them. \<open>held_inputs\<close> says which input each of the coming frames gets.
\<close>

section \<open>Input\<close>

type_synonym i8 = "8 word"

record input =
  in_a :: bool
  in_b :: bool
  in_start :: bool
  in_select :: bool
  in_d_up :: bool
  in_d_down :: bool
  in_d_left :: bool
  in_d_right :: bool
  in_l :: bool
  in_r :: bool
  in_x :: bool
  in_y :: bool
  in_zl :: bool
  in_zr :: bool
  in_circle :: "i8 \<times> i8"
  in_c_stick :: "i8 \<times> i8"
  in_touch :: "(u16 \<times> u16) option"

definition no_input :: input where
  "no_input =
     \<lparr> in_a = False, in_b = False, in_start = False, in_select = False, in_d_up = False,
       in_d_down = False, in_d_left = False, in_d_right = False, in_l = False, in_r = False,
       in_x = False, in_y = False, in_zl = False, in_zr = False, in_circle = (0, 0),
       in_c_stick = (0, 0), in_touch = None \<rparr>"

definition is_empty_input :: "input \<Rightarrow> bool" where
  "is_empty_input i \<longleftrightarrow>
     \<not> in_a i \<and> \<not> in_b i \<and> \<not> in_start i \<and> \<not> in_select i \<and> \<not> in_d_up i \<and> \<not> in_d_down i \<and>
     \<not> in_d_left i \<and> \<not> in_d_right i \<and> \<not> in_l i \<and> \<not> in_r i \<and> \<not> in_x i \<and> \<not> in_y i \<and>
     \<not> in_zl i \<and> \<not> in_zr i \<and> fst (in_circle i) = 0 \<and> snd (in_circle i) = 0 \<and>
     fst (in_c_stick i) = 0 \<and> snd (in_c_stick i) = 0 \<and> in_touch i = None"

text \<open>\<open>BitOr\<close>: the first stick that is not neutral wins, and the first touch.\<close>

definition input_or :: "input \<Rightarrow> input \<Rightarrow> input" where
  "input_or i j =
     \<lparr> in_a = (in_a i \<or> in_a j), in_b = (in_b i \<or> in_b j),
       in_start = (in_start i \<or> in_start j), in_select = (in_select i \<or> in_select j),
       in_d_up = (in_d_up i \<or> in_d_up j), in_d_down = (in_d_down i \<or> in_d_down j),
       in_d_left = (in_d_left i \<or> in_d_left j), in_d_right = (in_d_right i \<or> in_d_right j),
       in_l = (in_l i \<or> in_l j), in_r = (in_r i \<or> in_r j), in_x = (in_x i \<or> in_x j),
       in_y = (in_y i \<or> in_y j), in_zl = (in_zl i \<or> in_zl j), in_zr = (in_zr i \<or> in_zr j),
       in_circle = (if in_circle i \<noteq> (0, 0) then in_circle i else in_circle j),
       in_c_stick = (if in_c_stick i \<noteq> (0, 0) then in_c_stick i else in_c_stick j),
       in_touch = (case in_touch i of Some p \<Rightarrow> Some p | None \<Rightarrow> in_touch j) \<rparr>"

definition input_and :: "input \<Rightarrow> input \<Rightarrow> input" where
  "input_and i j =
     \<lparr> in_a = (in_a i \<and> in_a j), in_b = (in_b i \<and> in_b j),
       in_start = (in_start i \<and> in_start j), in_select = (in_select i \<and> in_select j),
       in_d_up = (in_d_up i \<and> in_d_up j), in_d_down = (in_d_down i \<and> in_d_down j),
       in_d_left = (in_d_left i \<and> in_d_left j), in_d_right = (in_d_right i \<and> in_d_right j),
       in_l = (in_l i \<and> in_l j), in_r = (in_r i \<and> in_r j), in_x = (in_x i \<and> in_x j),
       in_y = (in_y i \<and> in_y j), in_zl = (in_zl i \<and> in_zl j), in_zr = (in_zr i \<and> in_zr j),
       in_circle = (if in_circle i \<noteq> (0, 0) \<and> in_circle j \<noteq> (0, 0) then in_circle i else (0, 0)),
       in_c_stick = (if in_c_stick i \<noteq> (0, 0) \<and> in_c_stick j \<noteq> (0, 0) then in_c_stick i else (0, 0)),
       in_touch = (case in_touch i of Some p \<Rightarrow> in_touch j | None \<Rightarrow> None) \<rparr>"

definition input_not :: "input \<Rightarrow> input" where
  "input_not i =
     \<lparr> in_a = (\<not> in_a i), in_b = (\<not> in_b i), in_start = (\<not> in_start i), in_select = (\<not> in_select i),
       in_d_up = (\<not> in_d_up i), in_d_down = (\<not> in_d_down i), in_d_left = (\<not> in_d_left i),
       in_d_right = (\<not> in_d_right i), in_l = (\<not> in_l i), in_r = (\<not> in_r i), in_x = (\<not> in_x i),
       in_y = (\<not> in_y i), in_zl = (\<not> in_zl i), in_zr = (\<not> in_zr i),
       in_circle = (0, 0), in_c_stick = (0, 0), in_touch = None \<rparr>"

lemma is_empty_no_input: "is_empty_input i \<longleftrightarrow> i = no_input"
  by (cases i) (auto simp: is_empty_input_def no_input_def prod_eq_iff)

lemma input_or_no_input [simp]: "input_or i no_input = i" "input_or no_input i = i"
  by (cases i; auto simp: input_or_def no_input_def split: option.splits)+

lemma input_or_assoc: "input_or (input_or i j) k = input_or i (input_or j k)"
  by (simp add: input_or_def split: option.splits)

lemma input_or_idem [simp]: "input_or i i = i"
  by (cases i) (auto simp: input_or_def split: option.splits)

section \<open>The layers\<close>

record rapid_fire =
  rf_input :: input
  hold_length :: u64
  interval :: u64
  current_frame :: u64
  rf_total_frames :: u64

record timed_press =
  press_input :: input
  frames_left :: u64

record input_state =
  base_input :: input
  next_input :: "input option"
  rapid_fire_input :: "rapid_fire option"
  toggled_input :: "input option"
  bot_input :: "input option"
  pending_timed_presses :: "timed_press list"
  timed_presses :: "timed_press list"
  input_latched :: bool

definition enqueue_input :: "input \<Rightarrow> 'a input_state_scheme \<Rightarrow> 'a input_state_scheme" where
  "enqueue_input i s = s\<lparr> next_input := Some i \<rparr>"

definition set_toggled_input :: "input option \<Rightarrow> 'a input_state_scheme \<Rightarrow> 'a input_state_scheme" where
  "set_toggled_input i s = s\<lparr> toggled_input := i, input_latched := False \<rparr>"

definition set_bot_input :: "bool \<Rightarrow> input option \<Rightarrow> 'a input_state_scheme \<Rightarrow> 'a input_state_scheme" where
  "set_bot_input playing_back i s =
     (if playing_back then s
      else s\<lparr> bot_input := (case i of Some j \<Rightarrow> if \<not> is_empty_input j then Some j else None | None \<Rightarrow> None),
             input_latched := False \<rparr>)"

definition set_rapid_fire_input ::
  "bool \<Rightarrow> rapid_fire option \<Rightarrow> 'a input_state_scheme \<Rightarrow> 'a input_state_scheme" where
  "set_rapid_fire_input mid_frame i s =
     (let s = s\<lparr> input_latched := False \<rparr>
      in case i of
          None \<Rightarrow> s\<lparr> rapid_fire_input := None \<rparr>
        | Some rf \<Rightarrow>
            let rf = rf\<lparr> rf_total_frames := saturating_add (hold_length rf) (interval rf) \<rparr>;
                restart = rf\<lparr> current_frame := (if mid_frame then rf_total_frames rf - 1 else 0) \<rparr>
            in s\<lparr> rapid_fire_input := Some
                 (case rapid_fire_input s of
                    Some old \<Rightarrow>
                      if hold_length rf = hold_length old \<and> interval rf = interval old
                      then rf\<lparr> current_frame := current_frame old \<rparr> else restart
                  | None \<Rightarrow> restart) \<rparr>)"

definition press_for_frames :: "bool \<Rightarrow> input \<Rightarrow> u64 \<Rightarrow> 'a input_state_scheme \<Rightarrow> 'a input_state_scheme" where
  "press_for_frames playing_back i frames s =
     (if playing_back then s
      else s\<lparr> pending_timed_presses := pending_timed_presses s @ [\<lparr> press_input = i, frames_left = frames \<rparr>],
             input_latched := False \<rparr>)"

text \<open>\<open>x |= y\<close> for an optional \<open>y\<close>.\<close>

definition or_option :: "input \<Rightarrow> input option \<Rightarrow> input" where
  "or_option i x = (case x of Some j \<Rightarrow> input_or i j | None \<Rightarrow> i)"

definition rapid_fire_now :: "rapid_fire option \<Rightarrow> input option" where
  "rapid_fire_now rf =
     (case rf of
        Some r \<Rightarrow> if current_frame r < hold_length r then Some (rf_input r) else None
      | None \<Rightarrow> None)"

definition compute_pending_input :: "'a input_state_scheme \<Rightarrow> input \<times> 'a input_state_scheme" where
  "compute_pending_input s =
     (let s = (case next_input s of Some i \<Rightarrow> s\<lparr> next_input := None, base_input := i \<rparr> | None \<Rightarrow> s);
          i = or_option (base_input s) (rapid_fire_now (rapid_fire_input s));
          i = or_option i (toggled_input s);
          i = or_option i (bot_input s);
          s = s\<lparr> timed_presses := timed_presses s @ pending_timed_presses s, pending_timed_presses := [] \<rparr>
      in (foldl input_or i (map press_input (timed_presses s)), s))"

text \<open>What \<open>do_frame_timekeeping\<close> does to the layers when \<open>frames > 0\<close> have run.\<close>

definition release_presses :: "u64 \<Rightarrow> timed_press list \<Rightarrow> timed_press list" where
  "release_presses frames ps =
     filter (\<lambda>p. 0 < frames_left p) (map (\<lambda>p. p\<lparr> frames_left := saturating_sub (frames_left p) frames \<rparr>) ps)"

definition advance_rapid_fire :: "u64 \<Rightarrow> rapid_fire \<Rightarrow> rapid_fire" where
  "advance_rapid_fire frames rf =
     rf\<lparr> current_frame := (current_frame rf + frames mod rf_total_frames rf) mod rf_total_frames rf \<rparr>"

definition advance_input :: "u64 \<Rightarrow> 'a input_state_scheme \<Rightarrow> 'a input_state_scheme" where
  "advance_input frames s =
     s\<lparr> input_latched := False,
       timed_presses := release_presses frames (timed_presses s),
       rapid_fire_input := map_option (advance_rapid_fire frames) (rapid_fire_input s) \<rparr>"

section \<open>The inputs of the coming frames\<close>

text \<open>A frame that gets its input and completes.\<close>

definition input_frame :: "'a input_state_scheme \<Rightarrow> input \<times> 'a input_state_scheme" where
  "input_frame s = (let (i, s) = compute_pending_input s in (i, advance_input 1 s))"

text \<open>The input of frame \<open>t\<close>, counted from now, if nothing new is set meanwhile.\<close>

fun nth_input :: "nat \<Rightarrow> 'a input_state_scheme \<Rightarrow> input" where
  "nth_input 0 s = fst (input_frame s)"
| "nth_input (Suc t) s = nth_input t (snd (input_frame s))"

text \<open>
  The same, said directly: rapid fire is on while its phase is below the hold length, and a
  press is held while the frame is below the number of frames it was made for.
\<close>

definition phase :: "rapid_fire \<Rightarrow> nat \<Rightarrow> nat" where
  "phase r t = (unat (current_frame r) + t) mod unat (rf_total_frames r)"

definition rapid_fire_at :: "nat \<Rightarrow> rapid_fire option \<Rightarrow> input option" where
  "rapid_fire_at t rf =
     (case rf of
        Some r \<Rightarrow> if phase r t < unat (hold_length r) then Some (rf_input r) else None
      | None \<Rightarrow> None)"

definition held_inputs :: "nat \<Rightarrow> 'a input_state_scheme \<Rightarrow> input" where
  "held_inputs t s =
     foldl input_or
       (or_option (or_option (or_option
          (case next_input s of Some i \<Rightarrow> i | None \<Rightarrow> base_input s)
          (rapid_fire_at t (rapid_fire_input s))) (toggled_input s)) (bot_input s))
       (map press_input (filter (\<lambda>p. t < unat (frames_left p)) (timed_presses s @ pending_timed_presses s)))"

text \<open>
  What the setters keep: presses have frames left, the phase of a rapid fire is within its
  cycle, and the cycle is the (saturating) sum of its parts.
\<close>

definition rapid_fire_ok :: "rapid_fire \<Rightarrow> bool" where
  "rapid_fire_ok r \<longleftrightarrow> 0 < hold_length r \<and> 0 < interval r \<and>
     rf_total_frames r = saturating_add (hold_length r) (interval r) \<and> current_frame r < rf_total_frames r"

definition input_state_ok :: "'a input_state_scheme \<Rightarrow> bool" where
  "input_state_ok s \<longleftrightarrow>
     list_all (\<lambda>p. 0 < frames_left p) (timed_presses s @ pending_timed_presses s) \<and>
     pred_option rapid_fire_ok (rapid_fire_input s)"

lemma advance_phase:
  assumes "rapid_fire_ok r"
  shows "unat (current_frame (advance_rapid_fire 1 r)) = phase r 1"
    and "phase (advance_rapid_fire 1 r) t = phase r (Suc t)"
    and "rapid_fire_ok (advance_rapid_fire 1 r)"
proof -
  let ?n = "unat (rf_total_frames r)"
  have lt: "unat (current_frame r) < ?n" using assms unfolding rapid_fire_ok_def word_less_nat_alt by blast
  have "1 < ?n"
  proof -
    have "0 < unat (hold_length r)" and "0 < unat (interval r)"
      using assms by (simp_all add: rapid_fire_ok_def word_less_nat_alt)
    moreover have "unat (- 1 :: u64) = 2 ^ 64 - 1"
      by (simp add: unsigned_minus_1_eq_mask mask_eq_exp_minus_1)
    ultimately show ?thesis
      using assms by (auto simp: rapid_fire_ok_def saturating_add_def unat_word_ariths)
  qed
  then have one: "unat (1 mod rf_total_frames r) = 1" unfolding unat_mod by simp
  have "unat (current_frame r + 1 mod rf_total_frames r) = unat (current_frame r) + 1"
    using lt unat_u64_less [of "rf_total_frames r"] one by (subst unat_add_lem [THEN iffD1]) auto
  then show p: "unat (current_frame (advance_rapid_fire 1 r)) = phase r 1"
    by (simp add: advance_rapid_fire_def phase_def unat_mod)
  have tot: "rf_total_frames (advance_rapid_fire 1 r) = rf_total_frames r" by (simp add: advance_rapid_fire_def)
  show "phase (advance_rapid_fire 1 r) t = phase r (Suc t)"
    unfolding phase_def [of "advance_rapid_fire 1 r"] p tot by (simp add: phase_def mod_add_left_eq)
  have "phase r 1 < ?n" using lt by (simp add: phase_def)
  with p have "current_frame (advance_rapid_fire 1 r) < rf_total_frames r" by (simp add: word_less_nat_alt)
  with assms show "rapid_fire_ok (advance_rapid_fire 1 r)"
    by (simp add: rapid_fire_ok_def advance_rapid_fire_def)
qed

lemma rapid_fire_at_0: "rapid_fire_now rf = rapid_fire_at 0 rf" if "pred_option rapid_fire_ok rf"
proof (cases rf)
  case (Some r)
  with that have "unat (current_frame r) < unat (rf_total_frames r)"
    by (auto simp: rapid_fire_ok_def word_less_nat_alt)
  then show ?thesis
    by (simp add: Some rapid_fire_now_def rapid_fire_at_def phase_def word_less_nat_alt)
qed (simp add: rapid_fire_now_def rapid_fire_at_def)

lemma rapid_fire_at_Suc:
  "pred_option rapid_fire_ok rf \<Longrightarrow>
   rapid_fire_at t (map_option (advance_rapid_fire 1) rf) = rapid_fire_at (Suc t) rf"
  by (cases rf) (simp_all add: rapid_fire_at_def advance_phase(2), simp add: advance_rapid_fire_def)

lemma held_presses_Suc:
  "map press_input (filter (\<lambda>p. t < unat (frames_left p)) (release_presses 1 ps)) =
   map press_input (filter (\<lambda>p. Suc t < unat (frames_left p)) ps)"
proof (induction ps)
  case Nil
  then show ?case by (simp add: release_presses_def)
next
  case (Cons p ps)
  have "unat (saturating_sub (frames_left p) 1) = unat (frames_left p) - 1"
  proof (cases "frames_left p < 1")
    case True
    then show ?thesis by (simp add: saturating_sub_def word_less_nat_alt)
  next
    case False
    then have "1 \<le> frames_left p" by (simp only: linorder_not_less)
    then show ?thesis by (simp add: saturating_sub_def unat_sub)
  qed
  with Cons show ?case by (auto simp: release_presses_def word_less_nat_alt)
qed

lemma release_presses_positive: "list_all (\<lambda>p. 0 < frames_left p) (release_presses n ps)"
  by (auto simp: release_presses_def list_all_iff)

lemma input_frame_ok: "input_state_ok s \<Longrightarrow> input_state_ok (snd (input_frame s))"
  by (auto simp: input_state_ok_def input_frame_def compute_pending_input_def Let_def advance_input_def
      release_presses_positive option.pred_map option.map_sel pred_option_def advance_phase(3)
      split: option.splits)

lemma nth_input_held: "input_state_ok s \<Longrightarrow> nth_input t s = held_inputs t s"
proof (induction t s rule: nth_input.induct)
  case (1 s)
  then have "pred_option rapid_fire_ok (rapid_fire_input s)" and
    "filter (\<lambda>p. 0 < unat (frames_left p)) (timed_presses s @ pending_timed_presses s) =
     timed_presses s @ pending_timed_presses s"
    by (auto simp: input_state_ok_def list_all_iff word_less_nat_alt filter_id_conv)
  then show ?case
    by (simp add: input_frame_def compute_pending_input_def Let_def held_inputs_def
        rapid_fire_at_0 split: option.splits del: filter_append)
next
  case (2 t s)
  then have "nth_input (Suc t) s = held_inputs t (snd (input_frame s))" by (simp add: input_frame_ok)
  also have "\<dots> = held_inputs (Suc t) s"
    using "2.prems"
    by (simp add: input_frame_def compute_pending_input_def Let_def held_inputs_def input_state_ok_def
        advance_input_def rapid_fire_at_Suc held_presses_Suc split: option.splits del: filter_append)
  finally show ?case .
qed

lemma saturating_sum_positive: "0 < a \<Longrightarrow> 0 < saturating_add a (b :: u64)"
  by (auto simp: saturating_add_def word_less_nat_alt unat_word_ariths unsigned_minus_1_eq_mask mask_eq_exp_minus_1)

lemma set_rapid_fire_ok:
  assumes "input_state_ok s" and "\<And>r. rf = Some r \<Longrightarrow> 0 < hold_length r \<and> 0 < interval r"
  shows "input_state_ok (set_rapid_fire_input mid rf s)"
proof (cases rf)
  case (Some r)
  then have r: "0 < hold_length r" "0 < interval r" using assms(2) by auto
  then have n: "0 < saturating_add (hold_length r) (interval r)" by (simp add: saturating_sum_positive)
  then have "saturating_add (hold_length r) (interval r) - 1 < saturating_add (hold_length r) (interval r)"
    by (simp add: word_less_nat_alt unat_sub word_le_nat_alt Suc_le_eq)
  with n r have restart: "rapid_fire_ok (r\<lparr> rf_total_frames := saturating_add (hold_length r) (interval r),
      current_frame := (if mid then saturating_add (hold_length r) (interval r) - 1 else 0) \<rparr>)"
    by (auto simp: rapid_fire_ok_def)
  moreover have "rapid_fire_ok (r\<lparr> rf_total_frames := saturating_add (hold_length r) (interval r),
      current_frame := current_frame old \<rparr>)"
    if "rapid_fire_input s = Some old" "hold_length r = hold_length old" "interval r = interval old" for old
    using assms(1) that r by (simp add: input_state_ok_def rapid_fire_ok_def) metis
  ultimately show ?thesis
    using assms(1) by (cases mid) (auto simp: set_rapid_fire_input_def Some input_state_ok_def Let_def split: option.splits)
qed (use assms(1) in \<open>simp add: set_rapid_fire_input_def input_state_ok_def\<close>)

lemma setters_ok:
  assumes "input_state_ok s"
  shows "input_state_ok (enqueue_input i s)" and "input_state_ok (set_toggled_input x s)"
    and "input_state_ok (set_bot_input pb x s)"
    and "0 < n \<Longrightarrow> input_state_ok (press_for_frames pb i n s)"
  using assms
  by (simp_all add: input_state_ok_def enqueue_input_def set_toggled_input_def set_bot_input_def press_for_frames_def)

end
