(* ===== verification/Link_Cable.thy ===== *)
theory Link_Cable
  imports Link_Serial Link_Stream Header Console_Input
begin

text \<open>
  The link cable between the player's console and the copy of a partner's, from
  \<open>supershuckie-core/src/link.rs\<close> with what it uses of \<open>supershuckie-core/src/lib.rs\<close>: the
  inbox the partner's frames arrive in, scheduling, preparing a frame on either side, pair
  hashes, and \<open>run_linked\<close>, which steps the pair.

  An emulator core is a parameter: \<open>core_ops\<close> is what the code calls of the trait
  \<open>EmulatorCore\<close> and of its \<open>LinkPort\<close>, on a type of core states. Link frames are counted in
  \<open>nat\<close>: at sixty a second the code's \<open>u64\<close> counters do not wrap. What reaches only a
  recorder, a stream, the screen or the speakers is left out.
\<close>

section \<open>What a core offers\<close>

text \<open>
  The first argument of \<open>step_linked\<close> is what its pacing clock reads; it returns the frames
  completed and both cores. \<open>memory_regions\<close> gives each region's short name and its data.
\<close>

record 'c core_ops =
  is_mid_frame :: "'c \<Rightarrow> bool"
  has_link_port :: "'c \<Rightarrow> bool"
  link_time :: "'c \<Rightarrow> u64"
  is_asleep :: "'c \<Rightarrow> bool"
  step_linked :: "nat \<Rightarrow> bool \<Rightarrow> 'c \<Rightarrow> 'c \<Rightarrow> link_error + (u64 \<times> 'c \<times> 'c)"
  connect_port :: "bool \<Rightarrow> 'c \<Rightarrow> link_error + 'c"
  disconnect_port :: "'c \<Rightarrow> 'c"
  take_serial_in :: "'c \<Rightarrow> bytes \<times> 'c"
  core_hard_reset :: "'c \<Rightarrow> 'c"
  set_input_encoded :: "bytes \<Rightarrow> 'c \<Rightarrow> 'c"
  encode_input :: "'c \<Rightarrow> input \<Rightarrow> bytes"
  write_ram :: "u32 \<Rightarrow> bytes \<Rightarrow> 'c \<Rightarrow> bool \<times> 'c"
  memory_regions :: "'c \<Rightarrow> (string \<times> bytes option) list"
  replay_console_type :: "'c \<Rightarrow> replay_console_type option"
  blake3_slices :: "bytes list \<Rightarrow> bytes"

section \<open>Data\<close>

definition PAIR_HASH_INTERVAL_FRAMES :: nat where "PAIR_HASH_INTERVAL_FRAMES = 60"
definition MAX_INBOX_AHEAD_FRAMES :: nat where "MAX_INBOX_AHEAD_FRAMES = 600"
definition PAIR_HASH_WINDOW :: nat where "PAIR_HASH_WINDOW = 8"
definition MAX_STEPS :: nat where "MAX_STEPS = 1000000"

type_synonym pair_hash = "nat \<times> bytes"

record link_settings =
  delay_frames :: nat
  local_is_first :: bool
  local_start_frame :: u64
  partner_start_frame :: u64
  partner_start_input :: bytes

record link_frame =
  fr_events :: "packet list"
  fr_elapsed_millis :: u64
  fr_pair_hash :: "pair_hash option"

record link_inbox =
  ib_frames :: "nat \<Rightarrow> link_frame option"
  ib_applied :: nat
  ib_newest :: nat
  ib_ended :: bool

text \<open>The problems \<open>LinkFailure::Emulator\<close> names, in the place of their text.\<close>

datatype link_problem =
    NotLinked
  | PartnerNotLinked
  | LostLinkPort
  | TurnProblem link_error
  | LocalConsoleFailed link_error
  | PartnerConsoleFailed link_error
  | NoProgress

datatype link_failure = PairHashMismatch nat | PartnerEnded | LinkTimeout | LinkEmulator link_problem

datatype link_run_outcome = Ran u64 u64 | Stalled | Failed link_failure

record scheduled_frame =
  sf_events :: "packet list"
  sf_input :: "input option"

text \<open>\<open>lk_published\<close> logs the frames handed to the publisher.\<close>

record link_state =
  lk_settings :: link_settings
  lk_queue :: "nat \<Rightarrow> scheduled_frame option"
  lk_frame :: nat
  lk_next_send_frame :: nat
  lk_frame_prepared :: bool
  lk_computed_hashes :: "pair_hash list"
  lk_received_hashes :: "pair_hash list"
  lk_pending_hash :: "pair_hash option"
  lk_hash_due_at :: "nat option"
  lk_first_frames :: nat
  lk_stalled :: bool
  lk_paced :: bool
  lk_failure :: "link_failure option"
  lk_published :: "(nat \<times> link_frame) list"

record link_partner_state =
  lp_inbox :: link_inbox
  lp_delay :: nat
  lp_prefill_input :: bytes
  lp_frame :: nat
  lp_frame_prepared :: bool

text \<open>
  \<open>SuperShuckieCore\<close>: the input layers of \<open>Console_Input\<close> and the fields linking uses.
  \<open>playing_back\<close> and \<open>following\<close> are what the methods of those names answer.
\<close>

record 'c console = input_state +
  emu :: 'c
  writes :: "(u32 \<times> bytes) list"
  current_input :: input
  playing_back :: bool
  following :: bool
  replay_stalled :: bool
  replay_waiting :: bool
  replay_frame_pending :: bool
  total_milliseconds :: u64
  stream_time_origin :: u64
  frames_since_last_keyframe :: u64
  console_frames :: u64
  state_epoch :: u64
  replay_write_failures :: nat
  link_holding :: bool
  link :: "link_state option"
  link_partner :: "link_partner_state option"

section \<open>The inbox\<close>

definition new_inbox :: link_inbox where
  "new_inbox = \<lparr> ib_frames = (\<lambda>_. None), ib_applied = 0, ib_newest = 0, ib_ended = False \<rparr>"

definition inbox_push :: "nat \<Rightarrow> link_frame \<Rightarrow> link_inbox \<Rightarrow> link_inbox" where
  "inbox_push n lf ib =
     (if n < ib_applied ib \<or> ib_applied ib + MAX_INBOX_AHEAD_FRAMES < n then ib
      else ib\<lparr> ib_frames := (ib_frames ib)(n \<mapsto> lf), ib_newest := max (ib_newest ib) n \<rparr>)"

definition inbox_end :: "link_inbox \<Rightarrow> link_inbox" where
  "inbox_end ib = ib\<lparr> ib_ended := True \<rparr>"

definition inbox_take :: "nat \<Rightarrow> link_inbox \<Rightarrow> link_frame option \<times> link_inbox" where
  "inbox_take n ib =
     (case ib_frames ib n of
        None \<Rightarrow> (None, ib)
      | Some lf \<Rightarrow>
          (Some lf, ib\<lparr> ib_applied := n + 1,
                        ib_frames := (\<lambda>m. if m \<le> n then None else ib_frames ib m) \<rparr>))"

section \<open>Scheduling\<close>

definition new_entry :: scheduled_frame where
  "new_entry = \<lparr> sf_events = [], sf_input = None \<rparr>"

definition queue_entry :: "nat \<Rightarrow> (nat \<Rightarrow> scheduled_frame option) \<Rightarrow> scheduled_frame" where
  "queue_entry n q = (case q n of Some e \<Rightarrow> e | None \<Rightarrow> new_entry)"

definition schedule :: "packet \<Rightarrow> link_state \<Rightarrow> link_state" where
  "schedule p l =
     (let n = lk_next_send_frame l;
          e = queue_entry n (lk_queue l);
          e = (case p of
                 ResetConsole \<Rightarrow> e\<lparr> sf_events := p # sf_events e \<rparr>
               | _ \<Rightarrow> e\<lparr> sf_events := sf_events e @ [p] \<rparr>)
      in l\<lparr> lk_queue := (lk_queue l)(n \<mapsto> e) \<rparr>)"

text \<open>\<open>flush_writes\<close> and \<open>hard_reset\<close> of a console; \<open>frozen\<close> cases first, as in the code.\<close>

definition write_now :: "'c core_ops \<Rightarrow> 'c console \<Rightarrow> u32 \<times> bytes \<Rightarrow> 'c console" where
  "write_now ops c w = c\<lparr> emu := snd (write_ram ops (fst w) (snd w) (emu c)) \<rparr>"

definition flush_writes :: "'c core_ops \<Rightarrow> 'c console \<Rightarrow> 'c console" where
  "flush_writes ops c =
     (if playing_back c \<or> link_holding c then c
      else case link c of
          Some l \<Rightarrow>
            c\<lparr> link := Some (foldl (\<lambda>l w. schedule (WriteMemory (ucast (fst w)) (snd w)) l) l (writes c)),
               writes := [] \<rparr>
        | None \<Rightarrow>
            if is_mid_frame ops (emu c) then c
            else (foldl (write_now ops) c (writes c))\<lparr> writes := [] \<rparr>)"

definition enqueue_write :: "'c core_ops \<Rightarrow> u32 \<Rightarrow> bytes \<Rightarrow> 'c console \<Rightarrow> bool \<times> 'c console" where
  "enqueue_write ops address data c =
     (if playing_back c then (False, c)
      else (True, flush_writes ops (c\<lparr> writes := writes c @ [(address, data)] \<rparr>)))"

text \<open>
  \<open>hard_reset\<close> of a linked or held console. On one that is neither, the code first finishes
  the current frame on its own; that case is not a link operation and is not modelled.
\<close>

definition linked_hard_reset :: "'c console \<Rightarrow> 'c console" where
  "linked_hard_reset c =
     (if playing_back c then c
      else case link c of
          Some l \<Rightarrow> c\<lparr> link := Some (schedule ResetConsole l) \<rparr>
        | None \<Rightarrow> c)"

section \<open>Hashes of a pair\<close>

fun sync_hash_regions :: "replay_console_type option \<Rightarrow> string list" where
  "sync_hash_regions (Some GameBoy) = [''WRAM'', ''WRAMX'', ''HRAM'']"
| "sync_hash_regions (Some SuperGameBoy2) = [''WRAM'', ''WRAMX'', ''HRAM'']"
| "sync_hash_regions (Some GameBoyColor) = [''WRAM'', ''WRAMX'', ''HRAM'']"
| "sync_hash_regions (Some GameBoyAdvance) = [''EWRAM'', ''IWRAM'']"
| "sync_hash_regions (Some NintendoDS) = [''MAIN'', ''SWRAM'', ''WRAM7'']"
| "sync_hash_regions (Some Nintendo3DS) = [''HEAP'']"
| "sync_hash_regions _ = []"

definition sync_hash :: "'c core_ops \<Rightarrow> 'c \<Rightarrow> bytes option" where
  "sync_hash ops c =
     (let wanted = sync_hash_regions (replay_console_type ops c);
          parts = List.map_filter snd (filter (\<lambda>r. fst r \<in> set wanted) (memory_regions ops c))
      in if parts \<noteq> [] then Some (blake3_slices ops parts) else None)"

definition hash_or_default :: "bytes option \<Rightarrow> bytes" where
  "hash_or_default h = (case h of Some b \<Rightarrow> b | None \<Rightarrow> replicate 32 0)"

text \<open>The pair hash of the first and the second console.\<close>

definition pair_hash_of :: "'c core_ops \<Rightarrow> 'c \<Rightarrow> 'c \<Rightarrow> bytes" where
  "pair_hash_of ops first second =
     blake3_slices ops [hash_or_default (sync_hash ops first), hash_or_default (sync_hash ops second)]"

definition keep_window :: "'a list \<Rightarrow> 'a list" where
  "keep_window xs = drop (length xs - PAIR_HASH_WINDOW) xs"

definition link_match_hashes :: "link_state \<Rightarrow> link_failure option \<times> link_state" where
  "link_match_hashes l =
     (let oldest = (case lk_computed_hashes l of [] \<Rightarrow> 0 | (f, _) # _ \<Rightarrow> f);
          mine = (\<lambda>f. map_option snd (find (\<lambda>c. fst c = f) (lk_computed_hashes l)));
          mismatch = map_option (PairHashMismatch \<circ> fst)
            (find (\<lambda>(f, h). case mine f of Some m \<Rightarrow> m \<noteq> h | None \<Rightarrow> False) (lk_received_hashes l));
          kept = filter (\<lambda>(f, h). mine f = None \<and> oldest \<le> f) (lk_received_hashes l)
      in (mismatch, l\<lparr> lk_received_hashes := keep_window kept \<rparr>))"

definition link_note_computed_hash :: "nat \<Rightarrow> bytes \<Rightarrow> link_state \<Rightarrow> link_failure option \<times> link_state" where
  "link_note_computed_hash n h l =
     link_match_hashes (l\<lparr> lk_pending_hash := Some (n, h),
                           lk_computed_hashes := keep_window (lk_computed_hashes l @ [(n, h)]) \<rparr>)"

definition link_first_frame_completed :: "link_state \<Rightarrow> link_state" where
  "link_first_frame_completed l =
     (let l = l\<lparr> lk_first_frames := lk_first_frames l + 1 \<rparr>
      in if lk_first_frames l mod PAIR_HASH_INTERVAL_FRAMES = 0
         then l\<lparr> lk_hash_due_at := Some (lk_first_frames l) \<rparr> else l)"

section \<open>Events\<close>

text \<open>
  What an event does to the core; \<open>u32::try_from\<close> of a written address can fail. A console
  applies its own events as they were scheduled, a partner's as they arrived.
\<close>

definition apply_write :: "'c core_ops \<Rightarrow> u64 \<Rightarrow> bytes \<Rightarrow> 'c \<Rightarrow> bool \<times> 'c" where
  "apply_write ops address data c =
     (if unat address < 2 ^ 32 then write_ram ops (ucast address) data c else (False, c))"

fun apply_local_event :: "'c core_ops \<Rightarrow> input option \<Rightarrow> packet \<Rightarrow> 'c console \<Rightarrow> 'c console" where
  "apply_local_event ops i ResetConsole c = c\<lparr> emu := core_hard_reset ops (emu c), state_epoch := state_epoch c + 1 \<rparr>"
| "apply_local_event ops i (ChangeInput data) c =
     c\<lparr> emu := set_input_encoded ops data (emu c),
       current_input := (case i of Some j \<Rightarrow> j | None \<Rightarrow> current_input c) \<rparr>"
| "apply_local_event ops i (WriteMemory address data) c = c\<lparr> emu := snd (apply_write ops address data (emu c)) \<rparr>"
| "apply_local_event ops i _ c = c"

text \<open>The arms of \<open>apply_playback_packet\<close> that the partner's side lets through.\<close>

fun apply_partner_event :: "'c core_ops \<Rightarrow> packet \<Rightarrow> 'c console \<Rightarrow> 'c console" where
  "apply_partner_event ops ResetConsole c = c\<lparr> emu := core_hard_reset ops (emu c), state_epoch := state_epoch c + 1 \<rparr>"
| "apply_partner_event ops (ChangeInput data) c = c\<lparr> emu := set_input_encoded ops data (emu c) \<rparr>"
| "apply_partner_event ops (WriteMemory address data) c =
     (let (wrote, core) = apply_write ops address data (emu c)
      in c\<lparr> emu := core, replay_write_failures := replay_write_failures c + (if wrote then 0 else 1) \<rparr>)"
| "apply_partner_event ops _ c = c"

section \<open>A step of one console\<close>

definition recording_millis :: "'c console \<Rightarrow> u64" where
  "recording_millis c = total_milliseconds c - stream_time_origin c"

definition link_frame_completed :: "nat \<Rightarrow> 'c console \<Rightarrow> 'c console" where
  "link_frame_completed n c =
     c\<lparr> link := map_option (\<lambda>l. l\<lparr> lk_frame := lk_frame l + n, lk_frame_prepared := False \<rparr>) (link c),
       link_partner := map_option (\<lambda>p. p\<lparr> lp_frame := lp_frame p + n, lp_frame_prepared := False \<rparr>) (link_partner c) \<rparr>"

text \<open>\<open>now\<close> is what \<open>current_timer_millis\<close> answers.\<close>

definition do_frame_timekeeping :: "'c core_ops \<Rightarrow> u64 \<Rightarrow> u64 \<Rightarrow> 'c console \<Rightarrow> 'c console" where
  "do_frame_timekeeping ops now frames c =
     (let c = c\<lparr> frames_since_last_keyframe := frames_since_last_keyframe c + frames,
                 console_frames := console_frames c + frames \<rparr>
      in if 0 < frames then
           let c = advance_input frames (c\<lparr> replay_frame_pending := False \<rparr>);
               c = (if has_link_port ops (emu c) then c\<lparr> emu := snd (take_serial_in ops (emu c)) \<rparr> else c);
               c = (if \<not> playing_back c then c\<lparr> total_milliseconds := now \<rparr> else c)
           in link_frame_completed (unat frames) c
         else c)"

text \<open>\<open>link_step\<close>: of the stepping console and its partner.\<close>

definition link_step ::
  "'c core_ops \<Rightarrow> nat \<Rightarrow> u64 \<Rightarrow> bool \<Rightarrow> 'c console \<Rightarrow> 'c console \<Rightarrow> link_error + (u64 \<times> 'c console \<times> 'c console)" where
  "link_step ops clk now paced c partner =
     (if \<not> has_link_port ops (emu c) then Inl NotConnected
      else case step_linked ops clk paced (emu c) (emu partner) of
          Inl e \<Rightarrow> Inl e
        | Inr (frames, self, other) \<Rightarrow>
            Inr (frames, do_frame_timekeeping ops now frames (c\<lparr> emu := self \<rparr>), partner\<lparr> emu := other \<rparr>))"

section \<open>Preparing a frame\<close>

text \<open>
  The link state's part: the fresh input is scheduled and that frame goes out; the entry of
  the frame about to run comes off the queue.
\<close>

definition link_send_frame :: "input \<Rightarrow> bytes \<Rightarrow> u64 \<Rightarrow> link_state \<Rightarrow> scheduled_frame option \<times> link_state" where
  "link_send_frame i encoded_input elapsed l =
     (let send = lk_next_send_frame l;
          e = queue_entry send (lk_queue l);
          e = e\<lparr> sf_events := sf_events e @ [ChangeInput encoded_input], sf_input := Some i \<rparr>;
          q = (lk_queue l)(send \<mapsto> e);
          out = \<lparr> fr_events = sf_events e, fr_elapsed_millis = elapsed, fr_pair_hash = lk_pending_hash l \<rparr>
      in (q (lk_frame l),
          l\<lparr> lk_queue := q(lk_frame l := None), lk_pending_hash := None,
            lk_published := lk_published l @ [(send, out)],
            lk_next_send_frame := send + 1, lk_frame_prepared := True \<rparr>))"

definition link_prepare_local_frame :: "'c core_ops \<Rightarrow> 'c console \<Rightarrow> 'c console" where
  "link_prepare_local_frame ops c =
     (let elapsed = recording_millis c;
          (i, c) = compute_pending_input c
      in case link c of
          None \<Rightarrow> c
        | Some l \<Rightarrow>
            let (to_apply, l) = link_send_frame i (encode_input ops (emu c) i) elapsed l;
                c = c\<lparr> link := Some l \<rparr>
            in case to_apply of
                None \<Rightarrow> c
              | Some s \<Rightarrow> fold (apply_local_event ops (sf_input s)) (sf_events s) c)"

datatype partner_frame = Ready | Waiting | Ended

text \<open>The frame the partner's side runs next, and the inbox without it.\<close>

definition next_partner_frame :: "u64 \<Rightarrow> link_partner_state \<Rightarrow> link_frame option \<times> link_partner_state" where
  "next_partner_frame now p =
     (if lp_frame p < lp_delay p
      then (Some \<lparr> fr_events = [ChangeInput (lp_prefill_input p)], fr_elapsed_millis = now, fr_pair_hash = None \<rparr>, p)
      else let (lf, ib) = inbox_take (lp_frame p) (lp_inbox p) in (lf, p\<lparr> lp_inbox := ib \<rparr>))"

definition link_prepare_partner_frame ::
  "'c core_ops \<Rightarrow> 'c console \<Rightarrow> 'c console \<Rightarrow> (link_failure + partner_frame) \<times> 'c console \<times> 'c console" where
  "link_prepare_partner_frame ops c partner =
     (case link_partner partner of
        None \<Rightarrow> (Inl (LinkEmulator PartnerNotLinked), c, partner)
      | Some p \<Rightarrow>
          let now = total_milliseconds partner;
              (next_lf, p) = next_partner_frame now p
          in case next_lf of
              None \<Rightarrow> (Inr (if ib_ended (lp_inbox p) then Ended else Waiting), c, partner)
            | Some lf \<Rightarrow>
                let partner = partner\<lparr> link_partner := Some (p\<lparr> lp_frame_prepared := True \<rparr>) \<rparr>;
                    partner = fold (apply_partner_event ops) (fr_events lf) partner;
                    partner = partner\<lparr> total_milliseconds := max (fr_elapsed_millis lf) now \<rparr>
                in case (fr_pair_hash lf, link c) of
                    (Some h, Some l) \<Rightarrow>
                      let (failure, l) = link_match_hashes (l\<lparr> lk_received_hashes := lk_received_hashes l @ [h] \<rparr>)
                      in (case failure of Some f \<Rightarrow> Inl f | None \<Rightarrow> Inr Ready, c\<lparr> link := Some l \<rparr>, partner)
                  | _ \<Rightarrow> (Inr Ready, c, partner))"


section \<open>Stepping the pair\<close>

definition upd_link :: "(link_state \<Rightarrow> link_state) \<Rightarrow> 'c console \<Rightarrow> 'c console" where
  "upd_link f c = c\<lparr> link := map_option f (link c) \<rparr>"

definition link_fail :: "link_failure \<Rightarrow> 'c console \<Rightarrow> link_run_outcome \<times> 'c console" where
  "link_fail failure c = (Failed failure, upd_link (\<lambda>l. l\<lparr> lk_failure := Some failure \<rparr>) c)"

text \<open>Whether the second console of the pair runs next.\<close>

definition link_turn :: "'c core_ops \<Rightarrow> 'c \<Rightarrow> 'c \<Rightarrow> link_error + bool" where
  "link_turn ops first second =
     second_runs_next (is_asleep ops first) (link_time ops first) (is_asleep ops second) (link_time ops second)"

text \<open>The hash due for the first console's last frame, taken right before it steps again.\<close>

definition take_due_hash :: "'c core_ops \<Rightarrow> 'c console \<Rightarrow> 'c console \<Rightarrow> link_failure option \<times> 'c console" where
  "take_due_hash ops c partner =
     (case link c of
        None \<Rightarrow> (None, c)
      | Some l \<Rightarrow>
          (case lk_hash_due_at l of
             None \<Rightarrow> (None, c)
           | Some n \<Rightarrow>
               let h = (if local_is_first (lk_settings l) then pair_hash_of ops (emu c) (emu partner)
                        else pair_hash_of ops (emu partner) (emu c));
                   (failure, l) = link_note_computed_hash n h (l\<lparr> lk_hash_due_at := None \<rparr>)
               in (failure, c\<lparr> link := Some l \<rparr>)))"

text \<open>The local console's part of one turn of the loop.\<close>

definition local_runs ::
  "'c core_ops \<Rightarrow> nat \<Rightarrow> u64 \<Rightarrow> u64 \<Rightarrow> link_state \<Rightarrow> 'c console \<Rightarrow> 'c console \<Rightarrow> link_run_outcome \<times> 'c console \<times> 'c console" where
  "local_runs ops clk now done l c partner =
     (let c = (if \<not> is_mid_frame ops (emu c) \<and> \<not> lk_frame_prepared l then link_prepare_local_frame ops c else c)
      in case link_step ops clk now (lk_paced l) c partner of
          Inl e \<Rightarrow> let (out, c) = link_fail (LinkEmulator (LocalConsoleFailed e)) c in (out, c, partner)
        | Inr (frames, c, partner) \<Rightarrow>
            let c = (if 0 < frames \<and> local_is_first (lk_settings l) then upd_link link_first_frame_completed c else c)
            in (Ran frames done, upd_link (\<lambda>l. l\<lparr> lk_stalled := False \<rparr>) c, partner))"

text \<open>The partner's part: \<open>Inl\<close> leaves the loop, \<open>Inr\<close> says how many frames completed.\<close>

definition partner_runs ::
  "'c core_ops \<Rightarrow> nat \<Rightarrow> u64 \<Rightarrow> link_partner_state \<Rightarrow> 'c console \<Rightarrow> 'c console \<Rightarrow>
     (link_run_outcome + u64) \<times> 'c console \<times> 'c console" where
  "partner_runs ops clk now p c partner =
     (let (prepared, c, partner) =
            (if \<not> is_mid_frame ops (emu partner) \<and> \<not> lp_frame_prepared p
             then link_prepare_partner_frame ops c partner else (Inr Ready, c, partner))
      in case prepared of
          Inl failure \<Rightarrow> let (out, c) = link_fail failure c in (Inl out, c, partner)
        | Inr Ended \<Rightarrow> let (out, c) = link_fail PartnerEnded c in (Inl out, c, partner)
        | Inr Waiting \<Rightarrow> (Inl Stalled, upd_link (\<lambda>l. l\<lparr> lk_stalled := True \<rparr>) c, partner)
        | Inr Ready \<Rightarrow>
            (case link_step ops clk now False partner c of
               Inl e \<Rightarrow> let (out, c) = link_fail (LinkEmulator (PartnerConsoleFailed e)) c in (Inl out, c, partner)
             | Inr (frames, partner, c) \<Rightarrow>
                 (Inr frames,
                  (case link c of
                     Some l \<Rightarrow> if 0 < frames \<and> \<not> local_is_first (lk_settings l)
                               then upd_link link_first_frame_completed c else c
                   | None \<Rightarrow> c),
                  partner)))"

fun run_linked_loop ::
  "'c core_ops \<Rightarrow> nat \<Rightarrow> u64 \<Rightarrow> nat \<Rightarrow> u64 \<Rightarrow> 'c console \<Rightarrow> 'c console \<Rightarrow> link_run_outcome \<times> 'c console \<times> 'c console" where
  "run_linked_loop ops clk now 0 done c partner =
     (let (out, c) = link_fail (LinkEmulator NoProgress) c in (out, c, partner))"
| "run_linked_loop ops clk now (Suc fuel) done c partner =
     (case link c of
        None \<Rightarrow> (Failed (LinkEmulator NotLinked), c, partner)
      | Some l \<Rightarrow>
          if \<not> has_link_port ops (emu c) \<or> \<not> has_link_port ops (emu partner)
          then let (out, c) = link_fail (LinkEmulator LostLinkPort) c in (out, c, partner)
          else
            let is_first = local_is_first (lk_settings l)
            in case (if is_first then link_turn ops (emu c) (emu partner) else link_turn ops (emu partner) (emu c)) of
                Inl e \<Rightarrow> let (out, c) = link_fail (LinkEmulator (TurnProblem e)) c in (out, c, partner)
              | Inr second_runs \<Rightarrow>
                  let (failure, c) = (if \<not> second_runs then take_due_hash ops c partner else (None, c))
                  in case (failure, link c, link_partner partner) of
                      (Some f, _, _) \<Rightarrow> let (out, c) = link_fail f c in (out, c, partner)
                    | (None, Some l, Some p) \<Rightarrow>
                        if second_runs \<noteq> is_first then local_runs ops clk now done l c partner
                        else (case partner_runs ops clk now p c partner of
                            (Inl out, c, partner) \<Rightarrow> (out, c, partner)
                          | (Inr frames, c, partner) \<Rightarrow> run_linked_loop ops clk now fuel (done + frames) c partner)
                    | _ \<Rightarrow> (Failed (LinkEmulator NotLinked), c, partner))"

definition run_linked ::
  "'c core_ops \<Rightarrow> nat \<Rightarrow> u64 \<Rightarrow> 'c console \<Rightarrow> 'c console \<Rightarrow> link_run_outcome \<times> 'c console \<times> 'c console" where
  "run_linked ops clk now c partner =
     (case (link c, link_partner partner) of
        (None, _) \<Rightarrow> (Failed (LinkEmulator NotLinked), c, partner)
      | (Some l, None) \<Rightarrow> (Failed (LinkEmulator PartnerNotLinked), c, partner)
      | (Some l, Some p) \<Rightarrow>
          (case lk_failure l of
             Some f \<Rightarrow> (Failed f, c, partner)
           | None \<Rightarrow> run_linked_loop ops clk now MAX_STEPS 0 c partner))"

section \<open>Plugging the cable in and pulling it\<close>

fun core_link_family :: "replay_console_type option \<Rightarrow> nat option" where
  "core_link_family (Some GameBoy) = Some 1"
| "core_link_family (Some GameBoyColor) = Some 1"
| "core_link_family (Some SuperGameBoy2) = Some 1"
| "core_link_family (Some GameBoyAdvance) = Some 2"
| "core_link_family _ = None"

definition console_linked :: "'c console \<Rightarrow> bool" where
  "console_linked c \<longleftrightarrow> link c \<noteq> None \<or> link_partner c \<noteq> None"

datatype begin_error =
    NotHeld
  | AlreadyLinked
  | LocalAtFrame u64 u64
  | NotFollowed
  | PartnerAtFrame u64 u64
  | CannotBeLinked
  | NoDelay
  | NoLinkPort
  | LocalPlug link_error
  | PartnerPlug link_error

text \<open>The checks of \<open>begin_link\<close>, in order.\<close>

definition begin_checks :: "'c core_ops \<Rightarrow> 'c console \<Rightarrow> 'c console \<Rightarrow> link_settings \<Rightarrow> begin_error option" where
  "begin_checks ops c partner s =
     (if \<not> link_holding c then Some NotHeld
      else if console_linked c \<or> console_linked partner then Some AlreadyLinked
      else if is_mid_frame ops (emu c) \<or> console_frames c \<noteq> local_start_frame s
        then Some (LocalAtFrame (console_frames c) (local_start_frame s))
      else if \<not> following partner then Some NotFollowed
      else if is_mid_frame ops (emu partner) \<or> console_frames partner \<noteq> partner_start_frame s
        then Some (PartnerAtFrame (console_frames partner) (partner_start_frame s))
      else if core_link_family (replay_console_type ops (emu c)) = None \<or>
              core_link_family (replay_console_type ops (emu c)) \<noteq> core_link_family (replay_console_type ops (emu partner))
        then Some CannotBeLinked
      else if delay_frames s = 0 then Some NoDelay
      else if \<not> has_link_port ops (emu c) \<or> \<not> has_link_port ops (emu partner) then Some NoLinkPort
      else None)"

definition new_link :: "link_settings \<Rightarrow> bytes \<Rightarrow> input \<Rightarrow> link_state" where
  "new_link s held i =
     \<lparr> lk_settings = s,
       lk_queue = (\<lambda>n. if n < delay_frames s
                       then Some \<lparr> sf_events = [ChangeInput held], sf_input = Some i \<rparr> else None),
       lk_frame = 0, lk_next_send_frame = delay_frames s, lk_frame_prepared = False,
       lk_computed_hashes = [], lk_received_hashes = [], lk_pending_hash = None, lk_hash_due_at = None,
       lk_first_frames = 0, lk_stalled = False, lk_paced = True, lk_failure = None, lk_published = [] \<rparr>"

definition begin_link ::
  "'c core_ops \<Rightarrow> link_settings \<Rightarrow> link_inbox \<Rightarrow> 'c console \<Rightarrow> 'c console \<Rightarrow>
     (begin_error + unit) \<times> 'c console \<times> 'c console" where
  "begin_link ops s ib c partner =
     (case begin_checks ops c partner s of
        Some e \<Rightarrow> (Inl e, c, partner)
      | None \<Rightarrow>
          (case connect_port ops (local_is_first s) (emu c) of
             Inl e \<Rightarrow> (Inl (LocalPlug e), c, partner)
           | Inr plugged \<Rightarrow>
               (case connect_port ops (\<not> local_is_first s) (emu partner) of
                  Inl e \<Rightarrow> (Inl (PartnerPlug e), c\<lparr> emu := disconnect_port ops plugged \<rparr>, partner)
                | Inr partner_plugged \<Rightarrow>
                    let held = encode_input ops plugged (current_input c);
                        c = c\<lparr> emu := plugged, link := Some (new_link s held (current_input c)) \<rparr>;
                        c = flush_writes ops c;
                        partner = partner\<lparr> emu := partner_plugged,
                          link_partner := Some \<lparr> lp_inbox = ib, lp_delay = delay_frames s,
                            lp_prefill_input = partner_start_input s, lp_frame = 0, lp_frame_prepared = False \<rparr>,
                          replay_waiting := False, replay_stalled := False, replay_frame_pending := False,
                          input_latched := False \<rparr>
                    in (Inr (), c\<lparr> link_holding := False, input_latched := False \<rparr>, partner))))"

definition unplug :: "'c core_ops \<Rightarrow> 'c \<Rightarrow> 'c" where
  "unplug ops c = (if has_link_port ops c then disconnect_port ops c else c)"

definition end_link :: "'c core_ops \<Rightarrow> 'c console \<Rightarrow> 'c console \<Rightarrow> 'c console \<times> 'c console" where
  "end_link ops c partner =
     (c\<lparr> emu := unplug ops (emu c), link := None, link_holding := False, input_latched := False, writes := [] \<rparr>,
      partner\<lparr> emu := unplug ops (emu partner), link_partner := None, input_latched := False,
        replay_frame_pending := False, replay_waiting := False \<rparr>)"

definition link_release :: "'c console \<Rightarrow> 'c console" where
  "link_release c = (if link_holding c then c\<lparr> link_holding := False, input_latched := False \<rparr> else c)"

definition set_link_paced :: "bool \<Rightarrow> 'c console \<Rightarrow> 'c console" where
  "set_link_paced paced c = upd_link (\<lambda>l. l\<lparr> lk_paced := paced \<rparr>) c"

end
