(* ===== verification/Link_Pair.thy ===== *)
theory Link_Pair
  imports Link_Cable
begin

text \<open>
  What two linked consoles do, without machines, messages or clocks: a pair of cores moves
  from one state to the next by a function of the events of each console's frames. The run of
  a pair on a machine, in \<open>Link_Cable\<close>, goes through states of this run only; that is shown
  in \<open>Link_Lockstep\<close>.

  Consoles are told apart by a bool: \<open>False\<close> is the first, \<open>True\<close> the second.
\<close>

section \<open>The pair\<close>

record 'c pair =
  pr_core :: "bool \<Rightarrow> 'c"
  pr_frame :: "bool \<Rightarrow> nat"
  pr_prepared :: "bool \<Rightarrow> bool"
  pr_done :: nat
  pr_due :: "nat option"

type_synonym frame_events = "bool \<Rightarrow> nat \<Rightarrow> packet list"

text \<open>What is \<open>x\<close> for console \<open>me\<close> and \<open>y\<close> for the other one.\<close>

definition sided :: "bool \<Rightarrow> 'a \<Rightarrow> 'a \<Rightarrow> bool \<Rightarrow> 'a" where
  "sided me x y s = (if s = me then x else y)"

lemma sided_simps [simp]:
  "sided me x y me = x" "sided me x y (\<not> me) = y" "sided (\<not> me) x y me = y"
  "(sided me x y)(me := z) = sided me z y" "(sided me x y)(\<not> me := z) = sided me x z"
  "(sided (\<not> me) x y)(me := z) = sided (\<not> me) x z"
  by (auto simp: sided_def)

lemma sided_flip: "sided me x y = sided (\<not> me) y x"
  by (auto simp: sided_def)

text \<open>An event on the core alone.\<close>

fun event_on_core :: "'c core_ops \<Rightarrow> packet \<Rightarrow> 'c \<Rightarrow> 'c" where
  "event_on_core ops ResetConsole c = core_hard_reset ops c"
| "event_on_core ops (ChangeInput data) c = set_input_encoded ops data c"
| "event_on_core ops (WriteMemory address data) c = snd (apply_write ops address data c)"
| "event_on_core ops _ c = c"

definition serial_taken :: "'c core_ops \<Rightarrow> u64 \<Rightarrow> 'c \<Rightarrow> 'c" where
  "serial_taken ops frames c = (if 0 < frames \<and> has_link_port ops c then snd (take_serial_in ops c) else c)"

definition pair_turn :: "'c core_ops \<Rightarrow> 'c pair \<Rightarrow> link_error + bool" where
  "pair_turn ops P =
     (if \<not> has_link_port ops (pr_core P False) \<or> \<not> has_link_port ops (pr_core P True) then Inl NotConnected
      else link_turn ops (pr_core P False) (pr_core P True))"

text \<open>Console \<open>r\<close> steps.\<close>

definition pair_step :: "'c core_ops \<Rightarrow> bool \<Rightarrow> 'c pair \<Rightarrow> 'c pair" where
  "pair_step ops r P =
     (case step_linked ops 0 False (pr_core P r) (pr_core P (\<not> r)) of
        Inl e \<Rightarrow> P
      | Inr (frames, a, b) \<Rightarrow>
          let done = pr_done P + (if 0 < frames \<and> \<not> r then 1 else 0)
          in \<lparr> pr_core = sided r (serial_taken ops frames a) b,
               pr_frame = (pr_frame P)(r := pr_frame P r + unat frames),
               pr_prepared = (pr_prepared P)(r := pr_prepared P r \<and> frames = 0),
               pr_done = done,
               pr_due = (if 0 < frames \<and> \<not> r \<and> done mod PAIR_HASH_INTERVAL_FRAMES = 0 then Some done else pr_due P) \<rparr>)"

definition pair_prepare :: "'c core_ops \<Rightarrow> frame_events \<Rightarrow> bool \<Rightarrow> 'c pair \<Rightarrow> 'c pair" where
  "pair_prepare ops ev r P =
     P\<lparr> pr_core := (pr_core P)(r := fold (event_on_core ops) (ev r (pr_frame P r)) (pr_core P r)),
       pr_prepared := (pr_prepared P)(r := True) \<rparr>"

definition pair_move :: "'c core_ops \<Rightarrow> frame_events \<Rightarrow> 'c pair \<Rightarrow> 'c pair" where
  "pair_move ops ev P =
     (case pair_turn ops P of
        Inl e \<Rightarrow> P
      | Inr r \<Rightarrow>
          if \<not> r \<and> pr_due P \<noteq> None then P\<lparr> pr_due := None \<rparr>
          else if \<not> is_mid_frame ops (pr_core P r) \<and> \<not> pr_prepared P r then pair_prepare ops ev r P
          else pair_step ops r P)"

definition pair_after :: "'c core_ops \<Rightarrow> frame_events \<Rightarrow> 'c pair \<Rightarrow> nat \<Rightarrow> 'c pair" where
  "pair_after ops ev P k = (pair_move ops ev ^^ k) P"

definition pair_reaches :: "'c core_ops \<Rightarrow> frame_events \<Rightarrow> 'c pair \<Rightarrow> 'c pair \<Rightarrow> bool" where
  "pair_reaches ops ev P Q \<longleftrightarrow> (\<exists>k. Q = pair_after ops ev P k)"

text \<open>The pair at the moment the cable went in.\<close>

definition plugged_pair :: "'c \<Rightarrow> 'c \<Rightarrow> 'c pair" where
  "plugged_pair first second =
     \<lparr> pr_core = sided False first second, pr_frame = (\<lambda>_. 0), pr_prepared = (\<lambda>_. False),
       pr_done = 0, pr_due = None \<rparr>"

section \<open>What a core is relied on for\<close>

text \<open>
  An unpaced step does not look at the clock; a paced one does the same or nothing at all; a
  step completes at most one frame, and then the console is at a frame boundary; it does not
  move the partner's frame. Events take no link time, and plugging in changes neither the
  frame boundary nor how inputs are encoded.
\<close>

definition unpaced_steps :: "'c core_ops \<Rightarrow> bool" where
  "unpaced_steps ops \<longleftrightarrow> (\<forall>clk a b. step_linked ops clk False a b = step_linked ops 0 False a b)"

definition paced_steps :: "'c core_ops \<Rightarrow> bool" where
  "paced_steps ops \<longleftrightarrow>
     (\<forall>clk a b. step_linked ops clk True a b = step_linked ops 0 False a b \<or> step_linked ops clk True a b = Inr (0, a, b))"

definition steps_to_boundary :: "'c core_ops \<Rightarrow> bool" where
  "steps_to_boundary ops \<longleftrightarrow>
     (\<forall>a b frames a' b'. step_linked ops 0 False a b = Inr (frames, a', b') \<longrightarrow>
        frames \<le> 1 \<and> (0 < frames \<longrightarrow> \<not> is_mid_frame ops a') \<and> is_mid_frame ops b' = is_mid_frame ops b)"

definition same_moment :: "'c core_ops \<Rightarrow> 'c \<Rightarrow> 'c \<Rightarrow> bool" where
  "same_moment ops a b \<longleftrightarrow>
     is_asleep ops b = is_asleep ops a \<and> link_time ops b = link_time ops a \<and> has_link_port ops b = has_link_port ops a"

definition events_take_no_time :: "'c core_ops \<Rightarrow> bool" where
  "events_take_no_time ops \<longleftrightarrow> (\<forall>p c. same_moment ops c (event_on_core ops p c))"

definition core_lawful :: "'c core_ops \<Rightarrow> bool" where
  "core_lawful ops \<longleftrightarrow>
     unpaced_steps ops \<and> paced_steps ops \<and> steps_to_boundary ops \<and> events_take_no_time ops \<and>
     (\<forall>c. is_mid_frame ops (snd (take_serial_in ops c)) = is_mid_frame ops c) \<and>
     (\<forall>c c' f. connect_port ops f c = Inr c' \<longrightarrow>
        is_mid_frame ops c' = is_mid_frame ops c \<and> encode_input ops c' = encode_input ops c)"

lemma lawful_unpaced: "core_lawful ops \<Longrightarrow> step_linked ops clk False a b = step_linked ops 0 False a b"
  unfolding core_lawful_def unpaced_steps_def by blast

lemma lawful_paced:
  "core_lawful ops \<Longrightarrow>
   step_linked ops clk paced a b = step_linked ops 0 False a b \<or> step_linked ops clk paced a b = Inr (0, a, b)"
proof (cases paced)
  case True
  assume "core_lawful ops"
  then have "paced_steps ops" unfolding core_lawful_def by blast
  with True show ?thesis unfolding paced_steps_def by simp
next
  case False
  assume "core_lawful ops"
  then have "unpaced_steps ops" unfolding core_lawful_def by blast
  then have "step_linked ops clk False a b = step_linked ops 0 False a b" unfolding unpaced_steps_def by blast
  with False show ?thesis by simp
qed

lemma lawful_step:
  assumes "core_lawful ops" and "step_linked ops 0 False a b = Inr (frames, a', b')"
  shows "frames = 0 \<or> frames = 1" and "0 < frames \<Longrightarrow> \<not> is_mid_frame ops a'"
    and "is_mid_frame ops b' = is_mid_frame ops b"
proof -
  have "frames \<le> 1" and "0 < frames \<longrightarrow> \<not> is_mid_frame ops a'" and "is_mid_frame ops b' = is_mid_frame ops b"
    using assms unfolding core_lawful_def steps_to_boundary_def by blast+
  then show "frames = 0 \<or> frames = 1" and "0 < frames \<Longrightarrow> \<not> is_mid_frame ops a'"
    and "is_mid_frame ops b' = is_mid_frame ops b"
    by (auto simp: word_le_nat_alt word_unat_eq_iff)
qed

lemma lawful_serial: "core_lawful ops \<Longrightarrow> is_mid_frame ops (serial_taken ops frames c) = is_mid_frame ops c"
  unfolding core_lawful_def serial_taken_def by simp

lemma lawful_connect:
  "core_lawful ops \<Longrightarrow> connect_port ops f c = Inr c' \<Longrightarrow>
   is_mid_frame ops c' = is_mid_frame ops c \<and> encode_input ops c' = encode_input ops c"
  unfolding core_lawful_def by blast

lemma same_moment_trans: "same_moment ops a b \<Longrightarrow> same_moment ops b c \<Longrightarrow> same_moment ops a c"
  by (simp add: same_moment_def)

lemma lawful_events: "core_lawful ops \<Longrightarrow> same_moment ops c (fold (event_on_core ops) ps c)"
proof (induction ps arbitrary: c)
  case Nil
  then show ?case by (simp add: same_moment_def)
next
  case (Cons p ps)
  then have "same_moment ops c (event_on_core ops p c)"
    unfolding core_lawful_def events_take_no_time_def by blast
  with Cons show ?case by (auto intro: same_moment_trans)
qed

section \<open>The run of a pair\<close>

lemma pair_after_0 [simp]: "pair_after ops ev P 0 = P"
  by (simp add: pair_after_def)

lemma pair_after_Suc: "pair_after ops ev P (Suc k) = pair_move ops ev (pair_after ops ev P k)"
  by (simp add: pair_after_def)

lemma pair_reaches_refl: "pair_reaches ops ev P P"
  unfolding pair_reaches_def by (rule exI [of _ 0]) simp

lemma pair_reaches_move: "pair_reaches ops ev P Q \<Longrightarrow> pair_reaches ops ev P (pair_move ops ev Q)"
  unfolding pair_reaches_def by (metis pair_after_Suc)

text \<open>Frames are only ever completed.\<close>

lemma pair_move_frames: "pr_frame P r \<le> pr_frame (pair_move ops ev P) r"
  by (auto simp: pair_move_def pair_prepare_def pair_step_def Let_def split: sum.splits)

lemma pair_after_frames: "j \<le> k \<Longrightarrow> pr_frame (pair_after ops ev P j) r \<le> pr_frame (pair_after ops ev P k) r"
  by (induction k) (auto simp: le_Suc_eq pair_after_Suc intro: order_trans [OF _ pair_move_frames])

subsection \<open>Each pair hash is taken once\<close>

text \<open>The hash of the first console's frame \<open>n\<close>: taken where it is due and the first runs next.\<close>

definition hash_moment :: "'c core_ops \<Rightarrow> nat \<Rightarrow> 'c pair \<Rightarrow> bool" where
  "hash_moment ops n P \<longleftrightarrow> pair_turn ops P = Inr False \<and> pr_due P = Some n"

definition run_hash :: "'c core_ops \<Rightarrow> frame_events \<Rightarrow> 'c pair \<Rightarrow> pair_hash \<Rightarrow> bool" where
  "run_hash ops ev P nh \<longleftrightarrow>
     (\<exists>Q. pair_reaches ops ev P Q \<and> hash_moment ops (fst nh) Q \<and>
          snd nh = pair_hash_of ops (pr_core Q False) (pr_core Q True))"

definition due_behind :: "'c pair \<Rightarrow> bool" where
  "due_behind P \<longleftrightarrow> (\<forall>n. pr_due P = Some n \<longrightarrow> n \<le> pr_done P)"

lemma pair_move_due_behind: "due_behind P \<Longrightarrow> due_behind (pair_move ops ev P)"
  by (auto simp: due_behind_def pair_move_def pair_prepare_def pair_step_def Let_def le_SucI split: sum.splits if_splits)

lemma pair_after_due_behind: "due_behind P \<Longrightarrow> due_behind (pair_after ops ev P k)"
  by (induction k) (simp_all add: pair_after_Suc pair_move_due_behind)

text \<open>After the hash of frame \<open>n\<close> was taken, only later frames are due.\<close>

definition past_hash :: "nat \<Rightarrow> 'c pair \<Rightarrow> bool" where
  "past_hash n P \<longleftrightarrow> n \<le> pr_done P \<and> (\<forall>m. pr_due P = Some m \<longrightarrow> n < m)"

lemma hash_moment_past: "due_behind P \<Longrightarrow> hash_moment ops n P \<Longrightarrow> past_hash n (pair_move ops ev P)"
  by (simp add: due_behind_def hash_moment_def past_hash_def pair_move_def)

lemma pair_move_past: "past_hash n P \<Longrightarrow> past_hash n (pair_move ops ev P)"
  by (auto simp: past_hash_def pair_move_def pair_prepare_def pair_step_def Let_def le_SucI split: sum.splits if_splits)

lemma pair_after_past:
  assumes "due_behind P" and "hash_moment ops n (pair_after ops ev P j)" and "j < k"
  shows "past_hash n (pair_after ops ev P k)"
  using assms(3)
proof (induction k)
  case (Suc k)
  then show ?case
    using hash_moment_past [OF pair_after_due_behind [OF assms(1)] assms(2)]
    by (auto simp: pair_after_Suc less_Suc_eq intro: pair_move_past)
qed simp

lemma hash_moment_unique:
  assumes "due_behind P" and "hash_moment ops n (pair_after ops ev P j)" and "hash_moment ops n (pair_after ops ev P k)"
  shows "j = k"
proof (rule ccontr)
  assume "j \<noteq> k"
  moreover have False if "hash_moment ops n (pair_after ops ev P a)" "hash_moment ops n (pair_after ops ev P b)" "a < b" for a b
    using pair_after_past [OF assms(1) that(1,3)] that(2) by (simp add: past_hash_def hash_moment_def)
  ultimately show False using assms(2,3) nat_neq_iff by blast
qed

lemma run_hash_unique:
  assumes "due_behind P" and "run_hash ops ev P (n, h)" and "run_hash ops ev P (n, h')"
  shows "h = h'"
  using assms hash_moment_unique [OF assms(1)] unfolding run_hash_def pair_reaches_def by fastforce

lemma due_behind_plugged: "due_behind (plugged_pair a b)"
  by (simp add: due_behind_def plugged_pair_def)

end
