(* ===== verification/Link_Lockstep.thy ===== *)
theory Link_Lockstep
  imports Link_Pair
begin

text \<open>
  Every machine of a link stays on the run of one pair. \<open>link_ok\<close> ties what a machine holds
  (the two cores, \<open>LinkState\<close>, \<open>LinkPartnerState\<close>) to a run of \<open>Link_Pair\<close> with given events:
  the pair is a state of the run, the scheduled and the received frames carry the events, and
  every pair hash, computed here or received, is one of the run. Each step of \<open>run_linked\<close>
  keeps it, provided the frames the machine itself sends carry the events too.
\<close>

section \<open>A machine on a run\<close>

definition machine_pair :: "'c \<Rightarrow> 'c \<Rightarrow> link_state \<Rightarrow> link_partner_state \<Rightarrow> 'c pair" where
  "machine_pair a b l p =
     \<lparr> pr_core = sided (\<not> local_is_first (lk_settings l)) a b,
       pr_frame = sided (\<not> local_is_first (lk_settings l)) (lk_frame l) (lp_frame p),
       pr_prepared = sided (\<not> local_is_first (lk_settings l)) (lk_frame_prepared l) (lp_frame_prepared p),
       pr_done = lk_first_frames l,
       pr_due = lk_hash_due_at l \<rparr>"

definition sendqueue_ok :: "(nat \<Rightarrow> packet list) \<Rightarrow> link_state \<Rightarrow> bool" where
  "sendqueue_ok evs l \<longleftrightarrow>
     0 < delay_frames (lk_settings l) \<and>
     lk_next_send_frame l = lk_frame l + of_bool (lk_frame_prepared l) + delay_frames (lk_settings l) \<and>
     (\<forall>n. lk_frame l + of_bool (lk_frame_prepared l) \<le> n \<and> n < lk_next_send_frame l \<longrightarrow>
        (\<exists>e. lk_queue l n = Some e \<and> sf_events e = evs n))"

definition frame_ok :: "pair_hash set \<Rightarrow> (nat \<Rightarrow> packet list) \<Rightarrow> nat \<Rightarrow> link_frame \<Rightarrow> bool" where
  "frame_ok H evs n lf \<longleftrightarrow> fr_events lf = evs n \<and> set_option (fr_pair_hash lf) \<subseteq> H"

definition inbox_ok :: "pair_hash set \<Rightarrow> (nat \<Rightarrow> packet list) \<Rightarrow> link_partner_state \<Rightarrow> bool" where
  "inbox_ok H evs p \<longleftrightarrow>
     (\<forall>n < lp_delay p. evs n = [ChangeInput (lp_prefill_input p)]) \<and>
     (\<forall>n lf. ib_frames (lp_inbox p) n = Some lf \<longrightarrow> frame_ok H evs n lf)"

definition hashes_ok :: "pair_hash set \<Rightarrow> link_state \<Rightarrow> bool" where
  "hashes_ok H l \<longleftrightarrow>
     set (lk_computed_hashes l) \<subseteq> H \<and> set (lk_received_hashes l) \<subseteq> H \<and> set_option (lk_pending_hash l) \<subseteq> H \<and>
     (\<forall>(n, lf) \<in> set (lk_published l). set_option (fr_pair_hash lf) \<subseteq> H)"

definition no_mismatch :: "link_state \<Rightarrow> bool" where
  "no_mismatch l \<longleftrightarrow> (\<forall>n. lk_failure l \<noteq> Some (PairHashMismatch n))"

definition run_hashes :: "'c core_ops \<Rightarrow> frame_events \<Rightarrow> 'c pair \<Rightarrow> pair_hash set" where
  "run_hashes ops ev P = {nh. run_hash ops ev P nh}"

definition link_ok ::
  "'c core_ops \<Rightarrow> frame_events \<Rightarrow> 'c pair \<Rightarrow> 'c \<Rightarrow> 'c \<Rightarrow> link_state \<Rightarrow> link_partner_state \<Rightarrow> bool" where
  "link_ok ops ev P a b l p \<longleftrightarrow>
     pair_reaches ops ev P (machine_pair a b l p) \<and>
     (is_mid_frame ops a \<longrightarrow> lk_frame_prepared l) \<and>
     (is_mid_frame ops b \<longrightarrow> lp_frame_prepared p) \<and>
     lp_delay p = delay_frames (lk_settings l) \<and>
     sendqueue_ok (ev (\<not> local_is_first (lk_settings l))) l \<and>
     inbox_ok (run_hashes ops ev P) (ev (local_is_first (lk_settings l))) p \<and>
     hashes_ok (run_hashes ops ev P) l \<and> no_mismatch l"

text \<open>The frames a machine has sent carry the events.\<close>

definition sent_agree :: "(nat \<Rightarrow> packet list) \<Rightarrow> link_state \<Rightarrow> bool" where
  "sent_agree evs l \<longleftrightarrow> (\<forall>(n, lf) \<in> set (lk_published l). fr_events lf = evs n)"

lemma link_ok_status:
  "link_ok ops ev P a b (l\<lparr> lk_stalled := s \<rparr>) p = link_ok ops ev P a b l p"
  "link_ok ops ev P a b l p \<Longrightarrow> (\<And>n. f \<noteq> Some (PairHashMismatch n)) \<Longrightarrow>
   link_ok ops ev P a b (l\<lparr> lk_failure := f \<rparr>) p"
  by (simp_all add: link_ok_def machine_pair_def sendqueue_ok_def hashes_ok_def no_mismatch_def)

section \<open>Hashes\<close>

lemma keep_window_subset: "set (keep_window xs) \<subseteq> set xs"
  by (simp add: keep_window_def set_drop_subset)

lemma match_hashes_ok:
  assumes "single_valued H" and "set (lk_computed_hashes l) \<subseteq> H" and "set (lk_received_hashes l) \<subseteq> H"
  obtains r where "link_match_hashes l = (None, l\<lparr> lk_received_hashes := r \<rparr>)" and "set r \<subseteq> H"
proof -
  define mine where "mine f = map_option snd (find (\<lambda>c. fst c = f) (lk_computed_hashes l))" for f
  have same: "m = h" if "(f, h) \<in> set (lk_received_hashes l)" and "mine f = Some m" for f h m
  proof -
    from that(2) obtain c where "find (\<lambda>c. fst c = f) (lk_computed_hashes l) = Some c" and "snd c = m"
      by (auto simp: mine_def)
    then have "(f, m) \<in> set (lk_computed_hashes l)"
      by (auto simp: find_Some_iff)
    with that(1) assms show ?thesis by (auto dest: single_valuedD)
  qed
  then have "find (\<lambda>(f, h). case mine f of Some m \<Rightarrow> m \<noteq> h | None \<Rightarrow> False) (lk_received_hashes l) = None"
    by (auto simp: find_None_iff split: option.splits)
  moreover have "set (keep_window (filter P (lk_received_hashes l))) \<subseteq> H" for P
    using keep_window_subset [of "filter P (lk_received_hashes l)"] assms(3) by auto
  ultimately show thesis
    by (intro that) (auto simp: link_match_hashes_def Let_def mine_def [abs_def])
qed

lemma run_hashes_single_valued: "due_behind P \<Longrightarrow> single_valued (run_hashes ops ev P)"
  by (rule single_valuedI) (auto simp: run_hashes_def dest: run_hash_unique)

lemma note_hash_ok:
  assumes "single_valued H" and "hashes_ok H l" and "(n, h) \<in> H"
  obtains r where "link_note_computed_hash n h l =
      (None, l\<lparr> lk_pending_hash := Some (n, h), lk_computed_hashes := keep_window (lk_computed_hashes l @ [(n, h)]),
               lk_received_hashes := r \<rparr>)"
    and "set r \<subseteq> H"
proof -
  let ?l = "l\<lparr> lk_pending_hash := Some (n, h), lk_computed_hashes := keep_window (lk_computed_hashes l @ [(n, h)]) \<rparr>"
  have "set (lk_computed_hashes ?l) \<subseteq> H" and "set (lk_received_hashes ?l) \<subseteq> H"
    using assms(2,3) keep_window_subset [of "lk_computed_hashes l @ [(n, h)]"] by (auto simp: hashes_ok_def)
  then obtain r where "link_match_hashes ?l = (None, ?l\<lparr> lk_received_hashes := r \<rparr>)" and "set r \<subseteq> H"
    using match_hashes_ok [OF assms(1)] by metis
  with that show thesis by (simp add: link_note_computed_hash_def)
qed

text \<open>Whose turn it is, on the machine and in the run.\<close>

definition machine_turn :: "'c core_ops \<Rightarrow> 'c \<Rightarrow> 'c \<Rightarrow> bool \<Rightarrow> link_error + bool" where
  "machine_turn ops a b is_first = (if is_first then link_turn ops a b else link_turn ops b a)"

lemma pair_turn_machine:
  assumes "has_link_port ops a" and "has_link_port ops b"
  shows "pair_turn ops (machine_pair a b l p) = machine_turn ops a b (local_is_first (lk_settings l))"
  using assms by (cases "local_is_first (lk_settings l)") (auto simp: pair_turn_def machine_pair_def machine_turn_def sided_def)

lemma due_hash_ok:
  assumes ok: "link_ok ops ev P a b l p" and due: "lk_hash_due_at l = Some n" and "due_behind P"
    and turn: "pair_turn ops (machine_pair a b l p) = Inr False"
  defines "h \<equiv> (if local_is_first (lk_settings l) then pair_hash_of ops a b else pair_hash_of ops b a)"
  obtains l' where "link_note_computed_hash n h (l\<lparr> lk_hash_due_at := None \<rparr>) = (None, l')"
    and "link_ok ops ev P a b l' p" and "lk_hash_due_at l' = None" and "lk_settings l' = lk_settings l"
    and "lk_published l' = lk_published l" and "lk_frame_prepared l' = lk_frame_prepared l" and "lk_paced l' = lk_paced l"
proof -
  let ?H = "run_hashes ops ev P" and ?Q = "machine_pair a b l p"
  have reach: "pair_reaches ops ev P ?Q" and h: "hashes_ok ?H l" using ok by (simp_all add: link_ok_def)
  have "hash_moment ops n ?Q" using turn due by (simp add: hash_moment_def) (simp add: machine_pair_def Let_def)
  moreover have "h = pair_hash_of ops (pr_core ?Q False) (pr_core ?Q True)"
    by (simp add: h_def machine_pair_def sided_def)
  ultimately have "(n, h) \<in> ?H" using reach by (auto simp: run_hashes_def run_hash_def)
  let ?l0 = "l\<lparr> lk_hash_due_at := None \<rparr>"
  have "hashes_ok ?H ?l0" using h by (simp add: hashes_ok_def)
  then obtain r where eq: "link_note_computed_hash n h ?l0 =
      (None, ?l0\<lparr> lk_pending_hash := Some (n, h),
        lk_computed_hashes := keep_window (lk_computed_hashes ?l0 @ [(n, h)]), lk_received_hashes := r \<rparr>)"
    (is "_ = (None, ?l)") and r: "set r \<subseteq> ?H"
    using \<open>(n, h) \<in> ?H\<close> by (rule note_hash_ok [OF run_hashes_single_valued [OF \<open>due_behind P\<close>]])
  have "machine_pair a b ?l p = pair_move ops ev ?Q"
    unfolding pair_move_def turn by (simp add: due machine_pair_def)
  then have "pair_reaches ops ev P (machine_pair a b ?l p)" using pair_reaches_move [OF reach] by simp
  moreover have "hashes_ok ?H ?l"
    using h r \<open>(n, h) \<in> ?H\<close> keep_window_subset [of "lk_computed_hashes l @ [(n, h)]"] by (auto simp: hashes_ok_def)
  ultimately have "link_ok ops ev P a b ?l p"
    using ok by (simp add: link_ok_def sendqueue_ok_def no_mismatch_def)
  then show thesis by (intro that [OF eq]) simp_all
qed

section \<open>Preparing and stepping keep the machine on the run\<close>

text \<open>The move of the run when console \<open>r\<close>'s turn finds no hash due.\<close>

definition clear_turn :: "'c core_ops \<Rightarrow> 'c pair \<Rightarrow> bool \<Rightarrow> bool" where
  "clear_turn ops Q r \<longleftrightarrow> pair_turn ops Q = Inr r \<and> (r \<or> pr_due Q = None)"

lemma pair_move_prepare:
  "clear_turn ops Q r \<Longrightarrow> \<not> is_mid_frame ops (pr_core Q r) \<Longrightarrow> \<not> pr_prepared Q r \<Longrightarrow>
   pair_move ops ev Q = pair_prepare ops ev r Q"
  by (auto simp: clear_turn_def pair_move_def)

lemma pair_move_step:
  "clear_turn ops Q r \<Longrightarrow> pr_prepared Q r \<Longrightarrow> pair_move ops ev Q = pair_step ops r Q"
  by (auto simp: clear_turn_def pair_move_def)

lemma send_frame_ok:
  assumes ok: "link_ok ops ev P a b l p"
    and turn: "clear_turn ops (machine_pair a b l p) (\<not> local_is_first (lk_settings l))"
    and "\<not> is_mid_frame ops a" and "\<not> lk_frame_prepared l"
    and send: "link_send_frame i inp elapsed l = (to_apply, l')"
    and agree: "sent_agree (ev (\<not> local_is_first (lk_settings l))) l'"
  obtains s where "to_apply = Some s"
    and "sf_events s = ev (\<not> local_is_first (lk_settings l)) (lk_frame l)"
    and "link_ok ops ev P (fold (event_on_core ops) (sf_events s) a) b l' p"
proof -
  let ?me = "\<not> local_is_first (lk_settings l)" and ?n = "lk_next_send_frame l"
  define e where "e = queue_entry ?n (lk_queue l)\<lparr>
    sf_events := sf_events (queue_entry ?n (lk_queue l)) @ [ChangeInput inp], sf_input := Some i \<rparr>"
  have q: "sendqueue_ok (ev ?me) l" and reach: "pair_reaches ops ev P (machine_pair a b l p)"
    using ok by (simp_all add: link_ok_def)
  have l': "l' = l\<lparr> lk_queue := ((lk_queue l)(?n \<mapsto> e))(lk_frame l := None), lk_pending_hash := None,
      lk_published := lk_published l @ [(?n, \<lparr> fr_events = sf_events e, fr_elapsed_millis = elapsed, fr_pair_hash = lk_pending_hash l \<rparr>)],
      lk_next_send_frame := ?n + 1, lk_frame_prepared := True \<rparr>"
    and apply_e: "to_apply = ((lk_queue l)(?n \<mapsto> e)) (lk_frame l)"
    using send by (simp_all add: link_send_frame_def Let_def e_def)
  have e: "sf_events e = ev ?me ?n" using agree by (simp add: l' sent_agree_def)
  have n: "?n = lk_frame l + delay_frames (lk_settings l)" and "0 < delay_frames (lk_settings l)"
    using q \<open>\<not> lk_frame_prepared l\<close> by (simp_all add: sendqueue_ok_def)
  then obtain s where s: "lk_queue l (lk_frame l) = Some s" "sf_events s = ev ?me (lk_frame l)"
    using q \<open>\<not> lk_frame_prepared l\<close> by (auto simp: sendqueue_ok_def)
  have "to_apply = Some s" using apply_e s(1) n \<open>0 < _\<close> by simp
  moreover have "machine_pair (fold (event_on_core ops) (sf_events s) a) b l' p =
      pair_prepare ops ev ?me (machine_pair a b l p)"
    by (simp add: l' machine_pair_def pair_prepare_def s(2))
  then have "machine_pair (fold (event_on_core ops) (sf_events s) a) b l' p = pair_move ops ev (machine_pair a b l p)"
    using pair_move_prepare [OF turn] assms(3,4) by (simp add: machine_pair_def)
  then have "pair_reaches ops ev P (machine_pair (fold (event_on_core ops) (sf_events s) a) b l' p)"
    using pair_reaches_move [OF reach] by simp
  moreover have "sendqueue_ok (ev ?me) l'"
    using q \<open>\<not> lk_frame_prepared l\<close> e by (auto simp: sendqueue_ok_def l' less_Suc_eq)
  moreover have "hashes_ok (run_hashes ops ev P) l'"
    using ok by (auto simp: link_ok_def hashes_ok_def l')
  ultimately show thesis
    using ok s(2) that by (simp add: link_ok_def l' no_mismatch_def)
qed

text \<open>What completing \<open>frames\<close> frames does to the link state of the console that steps, or not.\<close>

definition local_completed :: "u64 \<Rightarrow> link_state \<Rightarrow> link_state" where
  "local_completed frames l =
     (let l = (if 0 < frames then l\<lparr> lk_frame := lk_frame l + unat frames, lk_frame_prepared := False \<rparr> else l)
      in if 0 < frames \<and> local_is_first (lk_settings l) then link_first_frame_completed l else l)"

definition partner_completed :: "u64 \<Rightarrow> link_partner_state \<Rightarrow> link_partner_state" where
  "partner_completed frames p =
     (if 0 < frames then p\<lparr> lp_frame := lp_frame p + unat frames, lp_frame_prepared := False \<rparr> else p)"

definition other_completed :: "u64 \<Rightarrow> link_state \<Rightarrow> link_state" where
  "other_completed frames l =
     (if 0 < frames \<and> \<not> local_is_first (lk_settings l) then link_first_frame_completed l else l)"

lemma first_frame_completed_keeps:
  "lk_settings (link_first_frame_completed l) = lk_settings l"
  "sendqueue_ok evs (link_first_frame_completed l) = sendqueue_ok evs l"
  "hashes_ok H (link_first_frame_completed l) = hashes_ok H l"
  "no_mismatch (link_first_frame_completed l) = no_mismatch l"
  "lk_frame_prepared (link_first_frame_completed l) = lk_frame_prepared l"
  "lk_published (link_first_frame_completed l) = lk_published l"
  by (simp_all add: link_first_frame_completed_def Let_def sendqueue_ok_def hashes_ok_def no_mismatch_def)

lemma completed_keeps [simp]:
  "lk_settings (local_completed frames l) = lk_settings l"
  "lk_published (local_completed frames l) = lk_published l"
  "lk_settings (other_completed frames l) = lk_settings l"
  "lk_published (other_completed frames l) = lk_published l"
  by (simp_all add: local_completed_def other_completed_def first_frame_completed_keeps Let_def)

lemma word_pos_0 [simp]: "0 < (f :: u64) \<longleftrightarrow> f \<noteq> 0"
  by (simp add: word_gt_0)

lemma local_step_pair:
  assumes "step_linked ops 0 False a b = Inr (frames, a', b')" and "lk_frame_prepared l"
  shows "pair_step ops (\<not> local_is_first (lk_settings l)) (machine_pair a b l p) =
    machine_pair (serial_taken ops frames a') b' (local_completed frames l) p"
  using assms
  by (cases "frames = 0")
    (simp_all add: pair_step_def machine_pair_def local_completed_def link_first_frame_completed_def Let_def)

lemma partner_step_pair:
  assumes "step_linked ops 0 False b a = Inr (frames, b', a')" and "lp_frame_prepared p"
  shows "pair_step ops (local_is_first (lk_settings l)) (machine_pair a b l p) =
    machine_pair a' (serial_taken ops frames b') (other_completed frames l) (partner_completed frames p)"
  using assms
  by (cases "frames = 0")
    (simp_all add: pair_step_def machine_pair_def other_completed_def partner_completed_def
      link_first_frame_completed_def Let_def sided_flip [of "local_is_first (lk_settings l)"])

lemma serial_taken_0 [simp]: "serial_taken ops 0 c = c"
  by (simp add: serial_taken_def)

lemma completed_0 [simp]: "local_completed 0 l = l" "partner_completed 0 p = p" "other_completed 0 l = l"
  by (simp_all add: local_completed_def partner_completed_def other_completed_def)

lemma local_completed_keeps:
  assumes "frames = 0 \<or> frames = 1" and "lk_frame_prepared l" and "sendqueue_ok evs l"
  shows "sendqueue_ok evs (local_completed frames l)"
    and "lk_frame_prepared (local_completed frames l) = (frames = 0)"
proof -
  have "sendqueue_ok evs (if 0 < frames then l\<lparr> lk_frame := lk_frame l + unat frames, lk_frame_prepared := False \<rparr> else l)"
    using assms by (auto simp: sendqueue_ok_def)
  then show "sendqueue_ok evs (local_completed frames l)"
    by (cases "frames = 0") (simp_all add: local_completed_def Let_def first_frame_completed_keeps)
  show "lk_frame_prepared (local_completed frames l) = (frames = 0)"
    using assms by (simp add: local_completed_def Let_def first_frame_completed_keeps)
qed

lemma at_frame_keeps:
  "hashes_ok H (l\<lparr> lk_frame := n, lk_frame_prepared := f \<rparr>) = hashes_ok H l"
  "no_mismatch (l\<lparr> lk_frame := n, lk_frame_prepared := f \<rparr>) = no_mismatch l"
  "inbox_ok H evs (p\<lparr> lp_frame := n, lp_frame_prepared := f \<rparr>) = inbox_ok H evs p"
  by (simp_all add: hashes_ok_def no_mismatch_def inbox_ok_def)

lemma completed_hashes [simp]:
  "hashes_ok H (local_completed frames l) = hashes_ok H l" "no_mismatch (local_completed frames l) = no_mismatch l"
  "hashes_ok H (other_completed frames l) = hashes_ok H l" "no_mismatch (other_completed frames l) = no_mismatch l"
  "sendqueue_ok evs (other_completed frames l) = sendqueue_ok evs l"
  "lk_frame_prepared (other_completed frames l) = lk_frame_prepared l"
  "inbox_ok H evs (partner_completed frames p) = inbox_ok H evs p"
  "lp_delay (partner_completed frames p) = lp_delay p"
  by (simp_all add: local_completed_def other_completed_def partner_completed_def Let_def first_frame_completed_keeps
      at_frame_keeps)

lemma local_step_ok:
  assumes lawful: "core_lawful ops" and ok: "link_ok ops ev P a b l p"
    and turn: "clear_turn ops (machine_pair a b l p) (\<not> local_is_first (lk_settings l))"
    and prep: "lk_frame_prepared l"
    and step: "step_linked ops clk paced a b = Inr (frames, a', b')"
  shows "link_ok ops ev P (serial_taken ops frames a') b' (local_completed frames l) p"
proof (cases "step_linked ops 0 False a b = Inr (frames, a', b')")
  case True
  note frames = lawful_step [OF lawful True]
  have "pair_move ops ev (machine_pair a b l p) = machine_pair (serial_taken ops frames a') b' (local_completed frames l) p"
    using pair_move_step [OF turn] local_step_pair [OF True prep] prep by (simp add: machine_pair_def)
  then have "pair_reaches ops ev P (machine_pair (serial_taken ops frames a') b' (local_completed frames l) p)"
    using ok pair_reaches_move unfolding link_ok_def by metis
  moreover have "is_mid_frame ops (serial_taken ops frames a') \<longrightarrow> lk_frame_prepared (local_completed frames l)"
    using frames lawful_serial [OF lawful] local_completed_keeps(2) [OF frames(1) prep] ok
    unfolding link_ok_def by auto
  ultimately show ?thesis
    using ok frames(3) local_completed_keeps(1) [OF frames(1) prep] unfolding link_ok_def by simp
next
  case False
  then have "frames = 0" "a' = a" "b' = b" using lawful_paced [OF lawful, of clk paced a b] step by auto
  with ok show ?thesis by simp
qed

lemma partner_step_ok:
  assumes lawful: "core_lawful ops" and ok: "link_ok ops ev P a b l p"
    and turn: "clear_turn ops (machine_pair a b l p) (local_is_first (lk_settings l))"
    and prep: "lp_frame_prepared p"
    and step: "step_linked ops clk False b a = Inr (frames, b', a')"
  shows "link_ok ops ev P a' (serial_taken ops frames b') (other_completed frames l) (partner_completed frames p)"
proof -
  have step0: "step_linked ops 0 False b a = Inr (frames, b', a')"
    using step lawful_unpaced [OF lawful] by metis
  note frames = lawful_step [OF lawful step0]
  have "pair_move ops ev (machine_pair a b l p) =
      machine_pair a' (serial_taken ops frames b') (other_completed frames l) (partner_completed frames p)"
    using pair_move_step [OF turn] partner_step_pair [OF step0 prep] prep by (simp add: machine_pair_def)
  then have "pair_reaches ops ev P
      (machine_pair a' (serial_taken ops frames b') (other_completed frames l) (partner_completed frames p))"
    using ok pair_reaches_move unfolding link_ok_def by metis
  moreover have "is_mid_frame ops (serial_taken ops frames b') \<longrightarrow> lp_frame_prepared (partner_completed frames p)"
    using frames lawful_serial [OF lawful] prep by (auto simp: partner_completed_def)
  ultimately show ?thesis using ok frames(3) unfolding link_ok_def by simp
qed

lemma inbox_take_frames:
  assumes "inbox_take n ib = (lf, ib')"
  shows "lf = ib_frames ib n" and "ib_frames ib' m = Some x \<Longrightarrow> ib_frames ib m = Some x"
  using assms by (auto simp: inbox_take_def split: option.splits if_splits)

lemma next_partner_frame_ok:
  assumes "inbox_ok H evs p" and "next_partner_frame now p = (Some lf, p')"
  shows "fr_events lf = evs (lp_frame p)" and "set_option (fr_pair_hash lf) \<subseteq> H" and "inbox_ok H evs p'"
    and "lp_frame p' = lp_frame p" and "lp_frame_prepared p' = lp_frame_prepared p" and "lp_delay p' = lp_delay p"
proof -
  have *: "fr_events lf = evs (lp_frame p) \<and> set_option (fr_pair_hash lf) \<subseteq> H \<and> inbox_ok H evs p' \<and>
      lp_frame p' = lp_frame p \<and> lp_frame_prepared p' = lp_frame_prepared p \<and> lp_delay p' = lp_delay p"
  proof (cases "lp_frame p < lp_delay p")
    case True
    with assms show ?thesis by (auto simp: next_partner_frame_def inbox_ok_def)
  next
    case False
    with assms(2) obtain ib where t: "inbox_take (lp_frame p) (lp_inbox p) = (Some lf, ib)" and p': "p' = p\<lparr> lp_inbox := ib \<rparr>"
      by (auto simp: next_partner_frame_def split: prod.splits)
    have "ib_frames (lp_inbox p) (lp_frame p) = Some lf" using inbox_take_frames(1) [OF t] by simp
    with assms(1) have "frame_ok H evs (lp_frame p) lf" by (simp add: inbox_ok_def)
    moreover have "inbox_ok H evs p'"
      using assms(1) inbox_take_frames(2) [OF t] by (auto simp: inbox_ok_def p')
    ultimately show ?thesis by (simp add: p' frame_ok_def)
  qed
  then show "fr_events lf = evs (lp_frame p)" and "set_option (fr_pair_hash lf) \<subseteq> H" and "inbox_ok H evs p'"
    and "lp_frame p' = lp_frame p" and "lp_frame_prepared p' = lp_frame_prepared p" and "lp_delay p' = lp_delay p"
    by blast+
qed

lemma partner_prepare_ok:
  assumes ok: "link_ok ops ev P a b l p"
    and turn: "clear_turn ops (machine_pair a b l p) (local_is_first (lk_settings l))"
    and "\<not> is_mid_frame ops b" and "\<not> lp_frame_prepared p"
    and next_lf: "next_partner_frame now p = (Some lf, p')"
  shows "link_ok ops ev P a (fold (event_on_core ops) (fr_events lf) b) l (p'\<lparr> lp_frame_prepared := True \<rparr>)"
proof -
  let ?r = "local_is_first (lk_settings l)"
  have "inbox_ok (run_hashes ops ev P) (ev ?r) p" using ok by (simp add: link_ok_def)
  note lf = next_partner_frame_ok [OF this next_lf]
  have "machine_pair a (fold (event_on_core ops) (fr_events lf) b) l (p'\<lparr> lp_frame_prepared := True \<rparr>) =
      pair_prepare ops ev ?r (machine_pair a b l p)"
    by (simp add: machine_pair_def pair_prepare_def lf)
  then have "machine_pair a (fold (event_on_core ops) (fr_events lf) b) l (p'\<lparr> lp_frame_prepared := True \<rparr>) =
      pair_move ops ev (machine_pair a b l p)"
    using pair_move_prepare [OF turn] assms(3,4) by (simp add: machine_pair_def)
  then have "pair_reaches ops ev P (machine_pair a (fold (event_on_core ops) (fr_events lf) b) l (p'\<lparr> lp_frame_prepared := True \<rparr>))"
    using ok pair_reaches_move unfolding link_ok_def by metis
  moreover have "inbox_ok (run_hashes ops ev P) (ev ?r) (p'\<lparr> lp_frame_prepared := True \<rparr>)"
    using lf(3) by (simp add: inbox_ok_def)
  ultimately show ?thesis using ok lf(6) unfolding link_ok_def by simp
qed

text \<open>Events leave whose turn it is.\<close>

lemma machine_turn_local_events:
  "core_lawful ops \<Longrightarrow> machine_turn ops (fold (event_on_core ops) ps a) b f = machine_turn ops a b f"
  using lawful_events [of ops a ps] by (simp add: machine_turn_def link_turn_def same_moment_def)

lemma machine_turn_partner_events:
  "core_lawful ops \<Longrightarrow> machine_turn ops a (fold (event_on_core ops) ps b) f = machine_turn ops a b f"
  using lawful_events [of ops b ps] by (simp add: machine_turn_def link_turn_def same_moment_def)

lemma port_events: "core_lawful ops \<Longrightarrow> has_link_port ops (fold (event_on_core ops) ps a) = has_link_port ops a"
  using lawful_events [of ops a ps] by (simp add: same_moment_def)

section \<open>The consoles of a machine\<close>

lemma fold_local_events:
  "\<exists>ep ci. fold (apply_local_event ops i) ps c =
     c\<lparr> emu := fold (event_on_core ops) ps (emu c), state_epoch := ep, current_input := ci \<rparr>"
proof (induction ps arbitrary: c)
  case Nil
  show ?case by (rule exI [of _ "state_epoch c"], rule exI [of _ "current_input c"]) simp
next
  case (Cons p ps)
  have "\<exists>ep ci. apply_local_event ops i p c = c\<lparr> emu := event_on_core ops p (emu c), state_epoch := ep, current_input := ci \<rparr>"
  proof (cases p)
    case ResetConsole
    then show ?thesis by (intro exI [of _ "state_epoch c + 1"] exI [of _ "current_input c"]) simp
  next
    case (ChangeInput d)
    then show ?thesis
      by (intro exI [of _ "state_epoch c"] exI [of _ "case i of Some j \<Rightarrow> j | None \<Rightarrow> current_input c"]) simp
  qed (intro exI [of _ "state_epoch c"] exI [of _ "current_input c"], simp)+
  then obtain ep ci where one:
    "apply_local_event ops i p c = c\<lparr> emu := event_on_core ops p (emu c), state_epoch := ep, current_input := ci \<rparr>" by blast
  from Cons.IH [of "c\<lparr> emu := event_on_core ops p (emu c), state_epoch := ep, current_input := ci \<rparr>"]
  show ?case by (simp add: one)
qed

lemma fold_partner_events:
  "\<exists>ep wf. fold (apply_partner_event ops) ps c =
     c\<lparr> emu := fold (event_on_core ops) ps (emu c), state_epoch := ep, replay_write_failures := wf \<rparr>"
proof (induction ps arbitrary: c)
  case Nil
  show ?case by (rule exI [of _ "state_epoch c"], rule exI [of _ "replay_write_failures c"]) simp
next
  case (Cons p ps)
  have "\<exists>ep wf. apply_partner_event ops p c = c\<lparr> emu := event_on_core ops p (emu c), state_epoch := ep, replay_write_failures := wf \<rparr>"
  proof (cases p)
    case ResetConsole
    then show ?thesis by (intro exI [of _ "state_epoch c + 1"] exI [of _ "replay_write_failures c"]) simp
  next
    case (WriteMemory a d)
    then show ?thesis
      by (intro exI [of _ "state_epoch c"]
          exI [of _ "replay_write_failures c + (if fst (apply_write ops a d (emu c)) then 0 else 1)"])
        (simp add: split_def)
  qed (intro exI [of _ "state_epoch c"] exI [of _ "replay_write_failures c"], simp)+
  then obtain ep wf where one:
    "apply_partner_event ops p c = c\<lparr> emu := event_on_core ops p (emu c), state_epoch := ep, replay_write_failures := wf \<rparr>" by blast
  from Cons.IH [of "c\<lparr> emu := event_on_core ops p (emu c), state_epoch := ep, replay_write_failures := wf \<rparr>"]
  show ?case by (simp add: one)
qed

lemma fold_local_events_keep [simp]:
  "emu (fold (apply_local_event ops i) ps c) = fold (event_on_core ops) ps (emu c)"
  "link (fold (apply_local_event ops i) ps c) = link c"
  "link_partner (fold (apply_local_event ops i) ps c) = link_partner c"
  using fold_local_events [of ops i ps c] by auto

lemma fold_partner_events_keep [simp]:
  "emu (fold (apply_partner_event ops) ps c) = fold (event_on_core ops) ps (emu c)"
  "link (fold (apply_partner_event ops) ps c) = link c"
  "link_partner (fold (apply_partner_event ops) ps c) = link_partner c"
  using fold_partner_events [of ops ps c] by auto

lemma compute_pending_input_keeps [simp]:
  "emu (snd (compute_pending_input c)) = emu c" "link (snd (compute_pending_input c)) = link c"
  "link_partner (snd (compute_pending_input c)) = link_partner c"
  by (simp_all add: compute_pending_input_def Let_def split: option.splits)

lemma advance_input_keeps [simp]:
  "emu (advance_input n c) = emu c" "link (advance_input n c) = link c" "link_partner (advance_input n c) = link_partner c"
  "playing_back (advance_input n c) = playing_back c"
  by (simp_all add: advance_input_def)

definition boundary_reached :: "u64 \<Rightarrow> link_state \<Rightarrow> link_state" where
  "boundary_reached frames l =
     (if 0 < frames then l\<lparr> lk_frame := lk_frame l + unat frames, lk_frame_prepared := False \<rparr> else l)"

lemma reached_0 [simp]: "map_option (boundary_reached 0) x = x" "map_option (partner_completed 0) y = y"
  by (cases x; simp add: boundary_reached_def) (cases y; simp)

lemma do_frame_timekeeping_keeps:
  "emu (do_frame_timekeeping ops now frames c) = serial_taken ops frames (emu c)"
  "link (do_frame_timekeeping ops now frames c) = map_option (boundary_reached frames) (link c)"
  "link_partner (do_frame_timekeeping ops now frames c) = map_option (partner_completed frames) (link_partner c)"
proof (atomize (full), cases "frames = 0")
  case True
  then show "emu (do_frame_timekeeping ops now frames c) = serial_taken ops frames (emu c) \<and>
    link (do_frame_timekeeping ops now frames c) = map_option (boundary_reached frames) (link c) \<and>
    link_partner (do_frame_timekeeping ops now frames c) = map_option (partner_completed frames) (link_partner c)"
    by (simp add: do_frame_timekeeping_def)
next
  case False
  then show "emu (do_frame_timekeeping ops now frames c) = serial_taken ops frames (emu c) \<and>
    link (do_frame_timekeeping ops now frames c) = map_option (boundary_reached frames) (link c) \<and>
    link_partner (do_frame_timekeeping ops now frames c) = map_option (partner_completed frames) (link_partner c)"
    by (cases "has_link_port ops (emu c)"; cases "playing_back c")
      (simp_all add: do_frame_timekeeping_def link_frame_completed_def serial_taken_def Let_def
        partner_completed_def [abs_def] boundary_reached_def [abs_def])
qed

definition machine_ok :: "'c core_ops \<Rightarrow> frame_events \<Rightarrow> 'c pair \<Rightarrow> 'c console \<Rightarrow> 'c console \<Rightarrow> bool" where
  "machine_ok ops ev P c partner \<longleftrightarrow>
     link_partner c = None \<and> link partner = None \<and>
     (\<exists>l p. link c = Some l \<and> link_partner partner = Some p \<and> link_ok ops ev P (emu c) (emu partner) l p)"

text \<open>The link state of a local console, and the condition on what it sent.\<close>

definition console_agrees :: "frame_events \<Rightarrow> 'c console \<Rightarrow> bool" where
  "console_agrees ev c \<longleftrightarrow>
     (\<forall>l. link c = Some l \<longrightarrow> sent_agree (ev (\<not> local_is_first (lk_settings l))) l)"

lemma machine_okI:
  "link_partner c = None \<Longrightarrow> link partner = None \<Longrightarrow> link c = Some l \<Longrightarrow> link_partner partner = Some p \<Longrightarrow>
   link_ok ops ev P (emu c) (emu partner) l p \<Longrightarrow> machine_ok ops ev P c partner"
  by (auto simp: machine_ok_def)

lemma machine_ok_upd_link:
  assumes "machine_ok ops ev P c partner"
    and "\<And>a b l p. link_ok ops ev P a b l p \<Longrightarrow> link_ok ops ev P a b (f l) p"
  shows "machine_ok ops ev P (upd_link f c) partner"
  using assms by (auto simp: machine_ok_def upd_link_def)

lemma link_fail_ok:
  assumes "machine_ok ops ev P c partner" and "\<And>n. failure \<noteq> PairHashMismatch n" and "link_fail failure c = (out, c')"
  shows "machine_ok ops ev P c' partner" and "out \<noteq> Failed (PairHashMismatch n)"
  using assms by (auto simp: link_fail_def intro!: machine_ok_upd_link link_ok_status(2))

section \<open>The parts of a turn\<close>

lemma prepare_local_console:
  assumes "link c = Some l"
  obtains i inp elapsed to_apply l1 where
    "link_send_frame i inp elapsed l = (to_apply, l1)"
    and "link (link_prepare_local_frame ops c) = Some l1"
    and "link_partner (link_prepare_local_frame ops c) = link_partner c"
    and "emu (link_prepare_local_frame ops c) =
      (case to_apply of None \<Rightarrow> emu c | Some s \<Rightarrow> fold (event_on_core ops) (sf_events s) (emu c))"
proof -
  obtain i c0 where c0: "compute_pending_input c = (i, c0)" by fastforce
  then have keep: "emu c0 = emu c" "link c0 = Some l" "link_partner c0 = link_partner c"
    using compute_pending_input_keeps [of c] assms by simp_all
  obtain to_apply l1 where "link_send_frame i (encode_input ops (emu c0) i) (recording_millis c) l = (to_apply, l1)" by fastforce
  with c0 keep show thesis
    by (intro that) (auto simp: link_prepare_local_frame_def Let_def split: option.splits)
qed

lemma send_frame_settings:
  "link_send_frame i inp elapsed l = (to_apply, l1) \<Longrightarrow>
   lk_settings l1 = lk_settings l \<and> lk_hash_due_at l1 = lk_hash_due_at l \<and> lk_frame_prepared l1"
  by (auto simp: link_send_frame_def Let_def)

lemma prepare_local_settings:
  assumes "link c = Some l" and "link (link_prepare_local_frame ops c) = Some l1"
  shows "lk_settings l1 = lk_settings l"
  by (rule prepare_local_console [OF assms(1), of ops]) (use assms(2) send_frame_settings in fastforce)

lemma link_step_console:
  assumes "link_step ops clk now paced c partner = Inr (frames, c', partner')"
  obtains a b where "step_linked ops clk paced (emu c) (emu partner) = Inr (frames, a, b)"
    and "emu c' = serial_taken ops frames a"
    and "link c' = map_option (boundary_reached frames) (link c)"
    and "link_partner c' = map_option (partner_completed frames) (link_partner c)"
    and "partner' = partner\<lparr> emu := b \<rparr>"
  using assms by (auto simp: link_step_def do_frame_timekeeping_keeps split: if_splits sum.splits)

lemma local_completed_eq:
  "local_completed frames l =
     (if 0 < frames \<and> local_is_first (lk_settings l) then link_first_frame_completed (boundary_reached frames l)
      else boundary_reached frames l)"
  by (simp add: local_completed_def boundary_reached_def Let_def)

text \<open>It is this machine's turn to step console \<open>r\<close> and no hash is due.\<close>

definition console_turn :: "'c core_ops \<Rightarrow> bool \<Rightarrow> 'c \<Rightarrow> 'c \<Rightarrow> link_state \<Rightarrow> bool" where
  "console_turn ops r a b l \<longleftrightarrow>
     has_link_port ops a \<and> has_link_port ops b \<and>
     machine_turn ops a b (local_is_first (lk_settings l)) = Inr r \<and> (r \<or> lk_hash_due_at l = None)"

lemma console_turn_clear: "console_turn ops r a b l \<Longrightarrow> clear_turn ops (machine_pair a b l p) r"
  unfolding console_turn_def clear_turn_def by (auto simp: pair_turn_machine) (simp add: machine_pair_def)

lemma console_turn_local_events:
  "core_lawful ops \<Longrightarrow> console_turn ops r a b l \<Longrightarrow> lk_settings l1 = lk_settings l \<Longrightarrow>
   lk_hash_due_at l1 = lk_hash_due_at l \<Longrightarrow> console_turn ops r (fold (event_on_core ops) ps a) b l1"
  by (simp add: console_turn_def port_events machine_turn_local_events)

lemma console_turn_partner_events:
  "core_lawful ops \<Longrightarrow> console_turn ops r a b l \<Longrightarrow> console_turn ops r a (fold (event_on_core ops) ps b) l"
  by (simp add: console_turn_def port_events machine_turn_partner_events)

lemma prepared_local_ok:
  assumes lawful: "core_lawful ops" and ok: "machine_ok ops ev P c partner" and l: "link c = Some l"
    and turn: "console_turn ops (\<not> local_is_first (lk_settings l)) (emu c) (emu partner) l"
    and agree: "console_agrees ev (if \<not> is_mid_frame ops (emu c) \<and> \<not> lk_frame_prepared l
      then link_prepare_local_frame ops c else c)" (is "console_agrees ev ?c")
  obtains l1 where "link ?c = Some l1" and "lk_settings l1 = lk_settings l" and "lk_frame_prepared l1"
    and "console_turn ops (\<not> local_is_first (lk_settings l)) (emu ?c) (emu partner) l1"
    and "machine_ok ops ev P ?c partner"
proof -
  from ok l obtain p where p: "link_partner c = None" "link partner = None" "link_partner partner = Some p"
    and lok: "link_ok ops ev P (emu c) (emu partner) l p"
    by (auto simp: machine_ok_def)
  show thesis
  proof (cases "\<not> is_mid_frame ops (emu c) \<and> \<not> lk_frame_prepared l")
    case True
    obtain i inp elapsed to_apply l1 where
      send: "link_send_frame i inp elapsed l = (to_apply, l1)" and
      c1: "link (link_prepare_local_frame ops c) = Some l1"
        "link_partner (link_prepare_local_frame ops c) = link_partner c"
        "emu (link_prepare_local_frame ops c) =
          (case to_apply of None \<Rightarrow> emu c | Some s \<Rightarrow> fold (event_on_core ops) (sf_events s) (emu c))"
      by (rule prepare_local_console [OF l])
    note set1 = send_frame_settings [OF send]
    have "sent_agree (ev (\<not> local_is_first (lk_settings l))) l1"
      using agree True c1(1) set1 by (auto simp: console_agrees_def)
    then obtain s where "to_apply = Some s" and
      "link_ok ops ev P (fold (event_on_core ops) (sf_events s) (emu c)) (emu partner) l1 p"
      using send_frame_ok [OF lok console_turn_clear [OF turn] _ _ send] True by metis
    moreover have "console_turn ops (\<not> local_is_first (lk_settings l)) (fold (event_on_core ops) (sf_events s) (emu c)) (emu partner) l1"
      using console_turn_local_events [OF lawful turn] set1 by blast
    ultimately show thesis
      using True set1 c1 p by (intro that [of l1]) (auto simp: machine_ok_def)
  next
    case False
    moreover have "lk_frame_prepared l" using False lok by (auto simp: link_ok_def)
    ultimately show thesis using l turn ok by (intro that [of l]) auto
  qed
qed

lemma local_runs_ok:
  assumes lawful: "core_lawful ops" and ok: "machine_ok ops ev P c partner" and l: "link c = Some l"
    and turn: "console_turn ops (\<not> local_is_first (lk_settings l)) (emu c) (emu partner) l"
    and run: "local_runs ops clk now done l c partner = (out, c', partner')"
    and agree: "console_agrees ev c'"
  shows "machine_ok ops ev P c' partner' \<and> out \<noteq> Failed (PairHashMismatch n)"
proof -
  define c1 where "c1 = (if \<not> is_mid_frame ops (emu c) \<and> \<not> lk_frame_prepared l then link_prepare_local_frame ops c else c)"
  show ?thesis
  proof (cases "link_step ops clk now (lk_paced l) c1 partner")
    case (Inl e)
    then have out: "link_fail (LinkEmulator (LocalConsoleFailed e)) c1 = (out, c')" "partner' = partner"
      using run by (auto simp: local_runs_def c1_def [symmetric] split: prod.splits)
    then have "console_agrees ev c1"
      using agree by (auto simp: link_fail_def upd_link_def console_agrees_def sent_agree_def)
    then obtain l1 where "machine_ok ops ev P c1 partner"
      using prepared_local_ok [OF lawful ok l turn] unfolding c1_def by metis
    from link_fail_ok [OF this _ out(1)] out(2) show ?thesis by simp
  next
    case (Inr r)
    obtain frames c2 partner2 where step: "link_step ops clk now (lk_paced l) c1 partner = Inr (frames, c2, partner2)"
      using Inr by (cases r) auto
    obtain a b where core: "step_linked ops clk (lk_paced l) (emu c1) (emu partner) = Inr (frames, a, b)"
      and c2: "emu c2 = serial_taken ops frames a" "link c2 = map_option (boundary_reached frames) (link c1)"
        "link_partner c2 = map_option (partner_completed frames) (link_partner c1)" "partner2 = partner\<lparr> emu := b \<rparr>"
      by (rule link_step_console [OF step])
    define c3 where "c3 = (if 0 < frames \<and> local_is_first (lk_settings l) then upd_link link_first_frame_completed c2 else c2)"
    have out: "out = Ran frames done" "c' = upd_link (\<lambda>l. l\<lparr> lk_stalled := False \<rparr>) c3" "partner' = partner2"
      using run step by (auto simp: local_runs_def c1_def [symmetric] c3_def Let_def)
    have c3: "emu c3 = emu c2" "link_partner c3 = link_partner c2" by (simp_all add: c3_def upd_link_def)
    have same: "lk_settings l1 = lk_settings l" if "link c1 = Some l1" for l1
    proof (cases "c1 = c")
      case False
      then have "c1 = link_prepare_local_frame ops c" by (auto simp: c1_def split: if_splits)
      with that show ?thesis using prepare_local_settings [OF l] by blast
    qed (use that l in simp)
    obtain l0 where l0: "link c1 = Some l0"
    proof (cases "c1 = c")
      case False
      then have "c1 = link_prepare_local_frame ops c" by (auto simp: c1_def split: if_splits)
      with that show thesis using prepare_local_console [OF l, of ops] by metis
    qed (use that l in simp)
    have l3: "link c3 = Some (local_completed frames l0)"
      by (simp add: c3_def c2 upd_link_def local_completed_eq l0 same [OF l0])
    have "console_agrees ev c1"
      using agree by (simp add: out console_agrees_def upd_link_def sent_agree_def l3 l0 same [OF l0])
    then obtain l1 where c1: "link c1 = Some l1" "lk_settings l1 = lk_settings l" "lk_frame_prepared l1"
      "console_turn ops (\<not> local_is_first (lk_settings l)) (emu c1) (emu partner) l1" "machine_ok ops ev P c1 partner"
      using prepared_local_ok [OF lawful ok l turn] unfolding c1_def by metis
    then obtain p where p: "link_partner c1 = None" "link partner = None" "link_partner partner = Some p"
      and lok: "link_ok ops ev P (emu c1) (emu partner) l1 p"
      by (auto simp: machine_ok_def)
    have "link_ok ops ev P (serial_taken ops frames a) b (local_completed frames l1) p"
      using local_step_ok [OF lawful lok _ c1(3) core] console_turn_clear [OF c1(4)] c1(2) by simp
    then have "machine_ok ops ev P c3 partner2"
      using l3 l0 c1(1) p c2 c3 by (intro machine_okI) simp_all
    then show ?thesis
      using out by (auto intro: machine_ok_upd_link simp: link_ok_status(1))
  qed
qed

lemma prepared_partner_ok:
  assumes lawful: "core_lawful ops" and start: "due_behind P" and ok: "machine_ok ops ev P c partner"
    and l: "link c = Some l" and p: "link_partner partner = Some p"
    and turn: "console_turn ops (local_is_first (lk_settings l)) (emu c) (emu partner) l"
    and "\<not> is_mid_frame ops (emu partner)" and "\<not> lp_frame_prepared p"
    and prep: "link_prepare_partner_frame ops c partner = (res, c1, partner1)"
  shows "(res = Inr Ended \<or> res = Inr Waiting) \<and> c1 = c \<and> partner1 = partner \<or>
    res = Inr Ready \<and> machine_ok ops ev P c1 partner1 \<and>
    (\<exists>l1 p1. link c1 = Some l1 \<and> lk_settings l1 = lk_settings l \<and> link_partner partner1 = Some p1 \<and> lp_frame_prepared p1 \<and>
       console_turn ops (local_is_first (lk_settings l)) (emu c1) (emu partner1) l1)"
proof -
  let ?r = "local_is_first (lk_settings l)"
  obtain x p' where nx: "next_partner_frame (total_milliseconds partner) p = (x, p')" by fastforce
  from ok l p have nolink: "link_partner c = None" "link partner = None"
    and lok: "link_ok ops ev P (emu c) (emu partner) l p"
    by (auto simp: machine_ok_def)
  show ?thesis
  proof (cases x)
    case None
    with prep nx p show ?thesis by (auto simp: link_prepare_partner_frame_def split: if_splits)
  next
    case (Some lf)
    let ?b = "fold (event_on_core ops) (fr_events lf) (emu partner)" and ?p = "p'\<lparr> lp_frame_prepared := True \<rparr>"
    have lok1: "link_ok ops ev P (emu c) ?b l ?p"
      using partner_prepare_ok [OF lok console_turn_clear [OF turn] assms(7,8)] nx Some by simp
    have turn1: "console_turn ops ?r (emu c) ?b l" by (rule console_turn_partner_events [OF lawful turn])
    have p1: "link_partner partner1 = Some ?p" "link partner1 = None" "emu partner1 = ?b" "emu c1 = emu c" "link_partner c1 = None"
      using prep nx Some p nolink l
      by (auto simp: link_prepare_partner_frame_def Let_def split: option.splits prod.splits)
    show ?thesis
    proof (cases "fr_pair_hash lf")
      case None
      with prep nx Some p l have "res = Inr Ready" "c1 = c" by (auto simp: link_prepare_partner_frame_def Let_def)
      with p1 l lok1 turn1 show ?thesis by (auto intro: machine_okI)
    next
      case (Some h)
      let ?l = "l\<lparr> lk_received_hashes := lk_received_hashes l @ [h] \<rparr>"
      have "h \<in> run_hashes ops ev P"
        using next_partner_frame_ok(2) [of "run_hashes ops ev P" _ p _ lf p'] lok nx \<open>x = Some lf\<close> Some
        by (auto simp: link_ok_def)
      moreover have hok: "hashes_ok (run_hashes ops ev P) l" using lok by (simp add: link_ok_def)
      ultimately have "set (lk_computed_hashes ?l) \<subseteq> run_hashes ops ev P" "set (lk_received_hashes ?l) \<subseteq> run_hashes ops ev P"
        by (auto simp: hashes_ok_def)
      then obtain r where m: "link_match_hashes ?l = (None, ?l\<lparr> lk_received_hashes := r \<rparr>)" and r: "set r \<subseteq> run_hashes ops ev P"
        by (rule match_hashes_ok [OF run_hashes_single_valued [OF start]])
      have "link_ok ops ev P (emu c) ?b (l\<lparr> lk_received_hashes := r \<rparr>) ?p"
        using lok1 r by (simp add: link_ok_def machine_pair_def sendqueue_ok_def hashes_ok_def no_mismatch_def)
      moreover have "console_turn ops ?r (emu c) ?b (l\<lparr> lk_received_hashes := r \<rparr>)"
        using turn1 by (simp add: console_turn_def)
      moreover have "res = Inr Ready" "link c1 = Some (l\<lparr> lk_received_hashes := r \<rparr>)"
        using prep nx \<open>x = Some lf\<close> Some p l m by (auto simp: link_prepare_partner_frame_def Let_def)
      ultimately show ?thesis using p1 by (auto intro: machine_okI)
    qed
  qed
qed

lemma partner_step_console_ok:
  assumes lawful: "core_lawful ops" and ok: "machine_ok ops ev P c partner" and l: "link c = Some l"
    and p: "link_partner partner = Some p" "lp_frame_prepared p"
    and turn: "console_turn ops (local_is_first (lk_settings l)) (emu c) (emu partner) l"
    and step: "link_step ops clk now False partner c = Inr (frames, partner2, c2)"
  shows "machine_ok ops ev P
    (case link c2 of
       Some l \<Rightarrow> if 0 < frames \<and> \<not> local_is_first (lk_settings l) then upd_link link_first_frame_completed c2 else c2
     | None \<Rightarrow> c2) partner2"
proof -
  from ok l p(1) have nolink: "link_partner c = None" "link partner = None"
    and lok: "link_ok ops ev P (emu c) (emu partner) l p"
    by (auto simp: machine_ok_def)
  obtain b a where core: "step_linked ops clk False (emu partner) (emu c) = Inr (frames, b, a)"
    and p2: "emu partner2 = serial_taken ops frames b" "link partner2 = map_option (boundary_reached frames) (link partner)"
      "link_partner partner2 = map_option (partner_completed frames) (link_partner partner)" "c2 = c\<lparr> emu := a \<rparr>"
    by (rule link_step_console [OF step])
  have "link_ok ops ev P a (serial_taken ops frames b) (other_completed frames l) (partner_completed frames p)"
    by (rule partner_step_ok [OF lawful lok console_turn_clear [OF turn] p(2) core])
  then show ?thesis
    using nolink p2 p(1) l
    by (intro machine_okI [where l = "other_completed frames l" and p = "partner_completed frames p"])
      (auto simp: other_completed_def upd_link_def)
qed

lemma partner_runs_ok:
  assumes lawful: "core_lawful ops" and start: "due_behind P" and ok: "machine_ok ops ev P c partner"
    and l: "link c = Some l" and p: "link_partner partner = Some p"
    and turn: "console_turn ops (local_is_first (lk_settings l)) (emu c) (emu partner) l"
    and run: "partner_runs ops clk now p c partner = (res, c', partner')"
  shows "machine_ok ops ev P c' partner' \<and> res \<noteq> Inl (Failed (PairHashMismatch n))"
proof -
  obtain prepared c1 partner1 where prep:
    "(if \<not> is_mid_frame ops (emu partner) \<and> \<not> lp_frame_prepared p
      then link_prepare_partner_frame ops c partner else (Inr Ready, c, partner)) = (prepared, c1, partner1)"
    by (cases "if \<not> is_mid_frame ops (emu partner) \<and> \<not> lp_frame_prepared p
      then link_prepare_partner_frame ops c partner else (Inr Ready, c, partner)")
  have cases: "(prepared = Inr Ended \<or> prepared = Inr Waiting) \<and> c1 = c \<and> partner1 = partner \<or>
    prepared = Inr Ready \<and> machine_ok ops ev P c1 partner1 \<and>
    (\<exists>l1 p1. link c1 = Some l1 \<and> lk_settings l1 = lk_settings l \<and> link_partner partner1 = Some p1 \<and> lp_frame_prepared p1 \<and>
       console_turn ops (local_is_first (lk_settings l)) (emu c1) (emu partner1) l1)"
  proof (cases "\<not> is_mid_frame ops (emu partner) \<and> \<not> lp_frame_prepared p")
    case True
    with prep have "link_prepare_partner_frame ops c partner = (prepared, c1, partner1)" by simp
    from prepared_partner_ok [OF lawful start ok l p turn _ _ this] True show ?thesis by blast
  next
    case False
    then have "lp_frame_prepared p" using ok l p by (auto simp: machine_ok_def link_ok_def)
    with False prep ok l p turn show ?thesis by auto
  qed
  show ?thesis
  proof (cases "prepared = Inr Ready")
    case True
    with cases obtain l1 p1 where ok1: "machine_ok ops ev P c1 partner1" and
      c1: "link c1 = Some l1" "lk_settings l1 = lk_settings l" "link_partner partner1 = Some p1" "lp_frame_prepared p1"
      "console_turn ops (local_is_first (lk_settings l1)) (emu c1) (emu partner1) l1" by auto
    show ?thesis
    proof (cases "link_step ops clk now False partner1 c1")
      case (Inl e)
      then have "link_fail (LinkEmulator (PartnerConsoleFailed e)) c1 = (fst (link_fail (LinkEmulator (PartnerConsoleFailed e)) c1), c')"
        "partner' = partner1" "res = Inl (fst (link_fail (LinkEmulator (PartnerConsoleFailed e)) c1))"
        using run prep True by (auto simp: partner_runs_def split: prod.splits)
      with link_fail_ok [OF ok1 _ this(1)] show ?thesis by auto
    next
      case (Inr r)
      then obtain frames partner2 c2 where step: "link_step ops clk now False partner1 c1 = Inr (frames, partner2, c2)"
        by (cases r) auto
      from partner_step_console_ok [OF lawful ok1 c1(1,3,4,5) step] run prep True step
      show ?thesis by (auto simp: partner_runs_def)
    qed
  next
    case False
    with cases have same: "c1 = c" "partner1 = partner" and "prepared = Inr Ended \<or> prepared = Inr Waiting" by auto
    then consider (e) "prepared = Inr Ended" | (w) "prepared = Inr Waiting" by blast
    then show ?thesis
    proof cases
      case e
      then have "link_fail PartnerEnded c = (fst (link_fail PartnerEnded c), c')" "partner' = partner" "res = Inl (fst (link_fail PartnerEnded c))"
        using run prep same by (auto simp: partner_runs_def split: prod.splits)
      with link_fail_ok [OF ok _ this(1)] show ?thesis by auto
    next
      case w
      then have "c' = upd_link (\<lambda>l. l\<lparr> lk_stalled := True \<rparr>) c" "partner' = partner" "res = Inl Stalled"
        using run prep same by (auto simp: partner_runs_def)
      then show ?thesis using ok by (auto intro: machine_ok_upd_link simp: link_ok_status(1))
    qed
  qed
qed

section \<open>Running the pair\<close>

lemma take_due_hash_ok:
  assumes start: "due_behind P" and ok: "machine_ok ops ev P c partner" and l: "link c = Some l"
    and ports: "has_link_port ops (emu c)" "has_link_port ops (emu partner)"
    and turn: "machine_turn ops (emu c) (emu partner) (local_is_first (lk_settings l)) = Inr r"
    and taken: "(if \<not> r then take_due_hash ops c partner else (None, c)) = (failure, c1)"
  obtains l1 where "failure = None" and "link c1 = Some l1" and "lk_settings l1 = lk_settings l" and "lk_paced l1 = lk_paced l"
    and "machine_ok ops ev P c1 partner" and "console_turn ops r (emu c1) (emu partner) l1"
proof (cases "\<not> r \<and> lk_hash_due_at l \<noteq> None")
  case False
  then have "failure = None" "c1 = c" using taken l by (auto simp: take_due_hash_def split: if_splits)
  then show thesis
    using False ok l ports turn that [of l] by (auto simp: console_turn_def)
next
  case True
  then obtain n where due: "lk_hash_due_at l = Some n" by auto
  from ok l obtain p where nolink: "link_partner c = None" "link partner = None" "link_partner partner = Some p"
    and lok: "link_ok ops ev P (emu c) (emu partner) l p"
    by (auto simp: machine_ok_def)
  have "pair_turn ops (machine_pair (emu c) (emu partner) l p) = Inr False"
    using pair_turn_machine [OF ports] turn True by simp
  then obtain l1 where
    "link_note_computed_hash n (if local_is_first (lk_settings l) then pair_hash_of ops (emu c) (emu partner)
       else pair_hash_of ops (emu partner) (emu c)) (l\<lparr> lk_hash_due_at := None \<rparr>) = (None, l1)"
    and l1: "link_ok ops ev P (emu c) (emu partner) l1 p" "lk_hash_due_at l1 = None" "lk_settings l1 = lk_settings l"
      "lk_paced l1 = lk_paced l"
    using due_hash_ok [OF lok due start] by metis
  then have "failure = None" "c1 = c\<lparr> link := Some l1 \<rparr>"
    using taken True l due by (auto simp: take_due_hash_def Let_def)
  moreover have "machine_ok ops ev P (c\<lparr> link := Some l1 \<rparr>) partner"
    using l1(1) nolink by (intro machine_okI) simp_all
  ultimately show thesis
    using that [of l1] l1 ports turn by (simp add: console_turn_def)
qed

lemma run_linked_loop_ok:
  assumes lawful: "core_lawful ops" and start: "due_behind P"
  shows "machine_ok ops ev P c partner \<Longrightarrow>
    run_linked_loop ops clk now fuel pf c partner = (out, c', partner') \<Longrightarrow> console_agrees ev c' \<Longrightarrow>
    machine_ok ops ev P c' partner' \<and> out \<noteq> Failed (PairHashMismatch n)"
proof (induction fuel arbitrary: pf c partner)
  case 0
  then show ?case using link_fail_ok [OF "0.prems"(1), of "LinkEmulator NoProgress"] by (auto split: prod.splits)
next
  case (Suc fuel)
  obtain l p where l: "link c = Some l" and p: "link_partner partner = Some p"
    using Suc.prems(1) by (auto simp: machine_ok_def)
  have fails: "machine_ok ops ev P c' partner' \<and> out \<noteq> Failed (PairHashMismatch n)"
    if "(out, c', partner') = (let (out, c) = link_fail failure c in (out, c, partner))" "\<And>n. failure \<noteq> PairHashMismatch n" for failure
    using that link_fail_ok [OF Suc.prems(1) that(2)] by (auto split: prod.splits)
  show ?case
  proof (cases "has_link_port ops (emu c) \<and> has_link_port ops (emu partner)")
    case False
    then show ?thesis using Suc.prems(2) l by (intro fails [of "LinkEmulator LostLinkPort"]) auto
  next
    case True
    let ?first = "local_is_first (lk_settings l)"
    show ?thesis
    proof (cases "machine_turn ops (emu c) (emu partner) ?first")
      case (Inl e)
      then show ?thesis
        using Suc.prems(2) l True by (intro fails [of "LinkEmulator (TurnProblem e)"]) (auto simp: machine_turn_def)
    next
      case (Inr r)
      obtain failure c1 where taken: "(if \<not> r then take_due_hash ops c partner else (None, c)) = (failure, c1)" by fastforce
      obtain l1 where c1: "failure = None" "link c1 = Some l1" "lk_settings l1 = lk_settings l" "lk_paced l1 = lk_paced l"
        "machine_ok ops ev P c1 partner" "console_turn ops r (emu c1) (emu partner) l1"
        by (rule take_due_hash_ok [OF start Suc.prems(1) l _ _ Inr taken]) (use True in auto)
      have body: "(if r \<noteq> ?first then local_runs ops clk now pf l1 c1 partner
          else (case partner_runs ops clk now p c1 partner of
              (Inl out, c, partner) \<Rightarrow> (out, c, partner)
            | (Inr frames, c, partner) \<Rightarrow> run_linked_loop ops clk now fuel (pf + frames) c partner)) = (out, c', partner')"
        using Suc.prems(2) l p True Inr taken c1(1,2) by (simp add: machine_turn_def [symmetric])
      show ?thesis
      proof (cases "r = ?first")
        case False
        then have "local_runs ops clk now pf l1 c1 partner = (out, c', partner')" and "r = (\<not> ?first)" using body by auto
        then show ?thesis
          using local_runs_ok [OF lawful c1(5,2) _ _ Suc.prems(3)] c1(3,6) by simp
      next
        case True
        obtain res c2 partner2 where run: "partner_runs ops clk now p c1 partner = (res, c2, partner2)" by (metis prod_cases3)
        have "console_turn ops (local_is_first (lk_settings l1)) (emu c1) (emu partner) l1" using c1(3,6) True by simp
        note ok2 = partner_runs_ok [OF lawful start c1(5,2) p this run]
        show ?thesis
        proof (cases res)
          case (Inl o')
          then show ?thesis using ok2 body True run by auto
        next
          case (Inr frames)
          then have "run_linked_loop ops clk now fuel (pf + frames) c2 partner2 = (out, c', partner')"
            using body True run by simp
          with Suc.IH ok2 Suc.prems(3) show ?thesis by blast
        qed
      qed
    qed
  qed
qed

lemma run_linked_ok:
  assumes "core_lawful ops" and "due_behind P" and ok: "machine_ok ops ev P c partner"
    and run: "run_linked ops clk now c partner = (out, c', partner')" and "console_agrees ev c'"
  shows "machine_ok ops ev P c' partner'" and "out \<noteq> Failed (PairHashMismatch n)"
proof -
  obtain l p where lp: "link c = Some l" "link_partner partner = Some p" "no_mismatch l"
    using ok by (auto simp: machine_ok_def link_ok_def)
  have "machine_ok ops ev P c' partner' \<and> out \<noteq> Failed (PairHashMismatch n)"
  proof (cases "lk_failure l")
    case None
    then have "run_linked_loop ops clk now MAX_STEPS 0 c partner = (out, c', partner')"
      using run lp by (simp add: run_linked_def)
    from run_linked_loop_ok [OF assms(1,2) ok this assms(5)] show ?thesis .
  next
    case (Some f)
    then show ?thesis using run lp ok by (auto simp: run_linked_def no_mismatch_def)
  qed
  then show "machine_ok ops ev P c' partner'" and "out \<noteq> Failed (PairHashMismatch n)" by blast+
qed

end
