(* ===== verification/Link_System.thy ===== *)
theory Link_System
  imports Link_Lockstep
begin

text \<open>
  Two machines joined by a cable: each runs its own console against its copy of the other's,
  the network delivers link frames in any order and any number of times, and the players do
  what they like. \<open>False\<close> is the machine of the first console, \<open>True\<close> that of the second.

  Both machines stay on the run of one pair, so the hashes they exchange agree; and when
  everything sent has arrived they cannot both be waiting.
\<close>

section \<open>The system\<close>

record 'c cable_system =
  s_local :: "bool \<Rightarrow> 'c console"
  s_partner :: "bool \<Rightarrow> 'c console"

datatype player_op =
    PlayerInput input
  | PlayerToggles "input option"
  | PlayerBot "input option"
  | PlayerRapidFire "rapid_fire option"
  | PlayerPress input u64
  | PlayerWrite u32 bytes
  | PlayerReset
  | PlayerPaced bool

fun player_does :: "'c core_ops \<Rightarrow> player_op \<Rightarrow> 'c console \<Rightarrow> 'c console" where
  "player_does ops (PlayerInput i) c = enqueue_input i c"
| "player_does ops (PlayerToggles i) c = set_toggled_input i c"
| "player_does ops (PlayerBot i) c = set_bot_input (playing_back c) i c"
| "player_does ops (PlayerRapidFire rf) c = set_rapid_fire_input (is_mid_frame ops (emu c)) rf c"
| "player_does ops (PlayerPress i n) c = press_for_frames (playing_back c) i n c"
| "player_does ops (PlayerWrite address data) c = snd (enqueue_write ops address data c)"
| "player_does ops PlayerReset c = linked_hard_reset c"
| "player_does ops (PlayerPaced paced) c = set_link_paced paced c"

text \<open>
  \<open>Deliver m i\<close> gives machine \<open>m\<close> the \<open>i\<close>-th frame the other one has sent; \<open>Run m clk now\<close>
  runs it once, with what its clocks read; \<open>Gone m\<close> ends its inbox.
\<close>

datatype cable_action = Run bool nat u64 | Player bool player_op | Deliver bool nat | Gone bool

definition published_by :: "'c console \<Rightarrow> (nat \<times> link_frame) list" where
  "published_by c = (case link c of Some l \<Rightarrow> lk_published l | None \<Rightarrow> [])"

definition upd_inbox :: "(link_inbox \<Rightarrow> link_inbox) \<Rightarrow> 'c console \<Rightarrow> 'c console" where
  "upd_inbox f c = c\<lparr> link_partner := map_option (\<lambda>p. p\<lparr> lp_inbox := f (lp_inbox p) \<rparr>) (link_partner c) \<rparr>"

fun cable_step :: "'c core_ops \<Rightarrow> cable_action \<Rightarrow> 'c cable_system \<Rightarrow> 'c cable_system" where
  "cable_step ops (Run m clk now) s =
     (let (out, c, partner) = run_linked ops clk now (s_local s m) (s_partner s m)
      in \<lparr> s_local = (s_local s)(m := c), s_partner = (s_partner s)(m := partner) \<rparr>)"
| "cable_step ops (Player m op) s = s\<lparr> s_local := (s_local s)(m := player_does ops op (s_local s m)) \<rparr>"
| "cable_step ops (Deliver m i) s =
     (let sent = published_by (s_local s (\<not> m))
      in if i < length sent
         then s\<lparr> s_partner := (s_partner s)(m := upd_inbox (inbox_push (fst (sent ! i)) (snd (sent ! i))) (s_partner s m)) \<rparr>
         else s)"
| "cable_step ops (Gone m) s = s\<lparr> s_partner := (s_partner s)(m := upd_inbox inbox_end (s_partner s m)) \<rparr>"

definition cable_run :: "'c core_ops \<Rightarrow> cable_action list \<Rightarrow> 'c cable_system \<Rightarrow> 'c cable_system" where
  "cable_run ops acts s = fold (cable_step ops) acts s"

text \<open>
  Both machines just plugged the cable in: each console is at the state its copy is at, the
  settings mirror each other, and \<open>begin_link\<close> succeeded on both.
\<close>

definition held_input :: "'c core_ops \<Rightarrow> 'c console \<Rightarrow> bytes" where
  "held_input ops c = encode_input ops (emu c) (current_input c)"

definition mirrored :: "'c core_ops \<Rightarrow> (bool \<Rightarrow> link_settings) \<Rightarrow> 'c cable_system \<Rightarrow> bool" where
  "mirrored ops sets s \<longleftrightarrow>
     (\<forall>m. local_is_first (sets m) = (\<not> m) \<and> delay_frames (sets m) = delay_frames (sets (\<not> m)) \<and>
          partner_start_input (sets m) = held_input ops (s_local s (\<not> m)) \<and>
          emu (s_partner s m) = emu (s_local s (\<not> m)) \<and>
          link_partner (s_local s m) = None \<and> link (s_partner s m) = None)"

definition plug_in ::
  "'c core_ops \<Rightarrow> (bool \<Rightarrow> link_settings) \<Rightarrow> 'c cable_system \<Rightarrow> 'c cable_system option" where
  "plug_in ops sets s =
     (case (begin_link ops (sets False) new_inbox (s_local s False) (s_partner s False),
            begin_link ops (sets True) new_inbox (s_local s True) (s_partner s True)) of
        ((Inr _, c, partner), (Inr _, c', partner')) \<Rightarrow>
          Some \<lparr> s_local = sided False c c', s_partner = sided False partner partner' \<rparr>
      | _ \<Rightarrow> None)"

section \<open>What a machine has sent\<close>

text \<open>The numbers of the frames sent are consecutive, from the delay on.\<close>

definition sent_numbered :: "link_state \<Rightarrow> bool" where
  "sent_numbered l \<longleftrightarrow>
     delay_frames (lk_settings l) \<le> lk_next_send_frame l \<and>
     map fst (lk_published l) = [delay_frames (lk_settings l)..<lk_next_send_frame l]"

text \<open>From one link state to a later one, frames are only added, under consecutive numbers.\<close>

definition sends :: "link_state \<Rightarrow> link_state \<Rightarrow> bool" where
  "sends l l' \<longleftrightarrow> lk_settings l' = lk_settings l \<and>
     (\<exists>new. lk_published l' = lk_published l @ new) \<and> (sent_numbered l \<longrightarrow> sent_numbered l')"

definition console_sends :: "'c console \<Rightarrow> 'c console \<Rightarrow> bool" where
  "console_sends c c' \<longleftrightarrow> (\<forall>l. link c = Some l \<longrightarrow> (\<exists>l'. link c' = Some l' \<and> sends l l'))"

lemma sends_refl [simp]: "sends l l"
  by (simp add: sends_def)

lemma sends_trans: "sends a b \<Longrightarrow> sends b c \<Longrightarrow> sends a c"
  by (auto simp: sends_def)

lemma console_sends_refl [simp]: "console_sends c c"
  by (simp add: console_sends_def)

lemma console_sends_trans: "console_sends a b \<Longrightarrow> console_sends b c \<Longrightarrow> console_sends a c"
  unfolding console_sends_def using sends_trans by metis

lemma sends_same:
  "lk_settings l' = lk_settings l \<Longrightarrow> lk_published l' = lk_published l \<Longrightarrow> lk_next_send_frame l' = lk_next_send_frame l \<Longrightarrow>
   sends l l'"
  by (simp add: sends_def sent_numbered_def)

lemma console_sends_link:
  "link c' = link c \<Longrightarrow> console_sends c c'"
  by (simp add: console_sends_def)

lemma console_sends_upd_link: "(\<And>l. sends l (f l)) \<Longrightarrow> console_sends c (upd_link f c)"
  by (simp add: console_sends_def upd_link_def)

lemma sends_first_completed: "sends l (link_first_frame_completed l)"
  by (rule sends_same) (simp_all add: link_first_frame_completed_def Let_def)

lemma sends_boundary: "sends l (boundary_reached frames l)"
  by (rule sends_same) (simp_all add: boundary_reached_def)

lemma match_hashes_result: "\<exists>f r. link_match_hashes l = (f, l\<lparr> lk_received_hashes := r \<rparr>)"
  unfolding link_match_hashes_def Let_def by (intro exI) (rule refl)

lemma sends_match_hashes: "link_match_hashes l = (f, l') \<Longrightarrow> sends l l'"
  using match_hashes_result [of l] by (auto intro: sends_same)

lemma sends_note_hash: "link_note_computed_hash n h l = (f, l') \<Longrightarrow> sends l l'"
  unfolding link_note_computed_hash_def
  by (rule sends_trans [OF _ sends_match_hashes]) (rule sends_same, simp_all)

lemma sends_send_frame: "link_send_frame i inp elapsed l = (to_apply, l') \<Longrightarrow> sends l l'"
  by (auto simp: link_send_frame_def Let_def sends_def sent_numbered_def)

lemma console_sends_prepare_local: "console_sends c (link_prepare_local_frame ops c)"
  unfolding console_sends_def
proof (intro allI impI)
  fix l
  assume "link c = Some l"
  then show "\<exists>l'. link (link_prepare_local_frame ops c) = Some l' \<and> sends l l'"
    by (rule prepare_local_console [of c l ops]) (use sends_send_frame in blast)
qed

lemma console_sends_fail: "link_fail failure c = (out, c') \<Longrightarrow> console_sends c c'"
  by (auto simp: link_fail_def intro!: console_sends_upd_link sends_same)

lemma console_sends_due_hash: "take_due_hash ops c partner = (failure, c') \<Longrightarrow> console_sends c c'"
  by (auto simp: take_due_hash_def console_sends_def Let_def sends_def sent_numbered_def
      split: option.splits prod.splits dest!: sends_note_hash)

lemma sends_match_received:
  "link_match_hashes (l\<lparr> lk_received_hashes := hs \<rparr>) = (f, l') \<Longrightarrow> sends l l'"
  by (rule sends_trans [OF _ sends_match_hashes]) (auto intro: sends_same)

lemma console_sends_partner_prepare:
  "link_prepare_partner_frame ops c partner = (res, c', partner') \<Longrightarrow> console_sends c c'"
  by (auto simp: link_prepare_partner_frame_def console_sends_def Let_def
      split: option.splits prod.splits if_splits dest: sends_match_received)

lemma console_sends_step:
  assumes "link_step ops clk now paced c partner = Inr (frames, c', partner')"
  shows "console_sends c c'" and "console_sends partner partner'"
proof -
  obtain a b where "link c' = map_option (boundary_reached frames) (link c)" and "partner' = partner\<lparr> emu := b \<rparr>"
    by (rule link_step_console [OF assms])
  then show "console_sends c c'" and "console_sends partner partner'"
    by (auto simp: console_sends_def sends_boundary)
qed

lemma console_sends_local_runs:
  assumes "local_runs ops clk now n l c partner = (out, c', partner')"
  shows "console_sends c c'"
proof -
  define c1 where "c1 = (if \<not> is_mid_frame ops (emu c) \<and> \<not> lk_frame_prepared l then link_prepare_local_frame ops c else c)"
  have one: "console_sends c c1" by (simp add: c1_def console_sends_prepare_local)
  show ?thesis
  proof (cases "link_step ops clk now (lk_paced l) c1 partner")
    case (Inl e)
    with assms show ?thesis
      using console_sends_trans [OF one console_sends_fail] by (auto simp: local_runs_def c1_def [symmetric] split: prod.splits)
  next
    case (Inr r)
    then obtain frames c2 partner2 where step: "link_step ops clk now (lk_paced l) c1 partner = Inr (frames, c2, partner2)"
      by (cases r) auto
    note two = console_sends_trans [OF one console_sends_step(1) [OF step]]
    have three: "console_sends x (upd_link link_first_frame_completed x)" for x :: "'a console"
      by (rule console_sends_upd_link) (rule sends_first_completed)
    have four: "console_sends x (upd_link (\<lambda>l. l\<lparr> lk_stalled := False \<rparr>) x)" for x :: "'a console"
      by (rule console_sends_upd_link) (rule sends_same, simp_all)
    have "c' = upd_link (\<lambda>l. l\<lparr> lk_stalled := False \<rparr>)
        (if 0 < frames \<and> local_is_first (lk_settings l) then upd_link link_first_frame_completed c2 else c2)"
      using assms step by (simp add: local_runs_def c1_def [symmetric])
    then show ?thesis
      by (cases "0 < frames \<and> local_is_first (lk_settings l)")
        (auto intro: console_sends_trans [OF two] console_sends_trans [OF three] four)
  qed
qed

lemma console_sends_partner_runs:
  assumes "partner_runs ops clk now p c partner = (res, c', partner')"
  shows "console_sends c c'"
proof -
  obtain prepared c1 partner1 where prep:
    "(if \<not> is_mid_frame ops (emu partner) \<and> \<not> lp_frame_prepared p
      then link_prepare_partner_frame ops c partner else (Inr Ready, c, partner)) = (prepared, c1, partner1)"
    by (cases "if \<not> is_mid_frame ops (emu partner) \<and> \<not> lp_frame_prepared p
      then link_prepare_partner_frame ops c partner else (Inr Ready, c, partner)")
  then have one: "console_sends c c1" by (auto split: if_splits dest: console_sends_partner_prepare)
  have stall: "console_sends x (upd_link (\<lambda>l. l\<lparr> lk_stalled := True \<rparr>) x)" for x :: "'a console"
    by (rule console_sends_upd_link) (rule sends_same, simp_all)
  have first: "console_sends x (upd_link link_first_frame_completed x)" for x :: "'a console"
    by (rule console_sends_upd_link) (rule sends_first_completed)
  have failed: "console_sends c c'" if "link_fail failure c1 = (out, c')" for failure out
    using console_sends_trans [OF one console_sends_fail [OF that]] .
  show ?thesis
  proof (cases "prepared = Inr Ready")
    case True
    show ?thesis
    proof (cases "link_step ops clk now False partner1 c1")
      case (Inl e)
      with assms prep True show ?thesis by (auto simp: partner_runs_def split: prod.splits intro: failed)
    next
      case (Inr r)
      then obtain frames partner2 c2 where step: "link_step ops clk now False partner1 c1 = Inr (frames, partner2, c2)"
        by (cases r) auto
      note two = console_sends_trans [OF one console_sends_step(2) [OF step]]
      note three = console_sends_trans [OF two first]
      from assms prep True step two three show ?thesis
        by (cases "link c2") (auto simp: partner_runs_def split: if_splits)
    qed
  next
    case False
    with assms prep show ?thesis
      by (cases prepared; cases "projr prepared")
        (auto simp: partner_runs_def split: prod.splits partner_frame.splits intro: failed console_sends_trans [OF one stall])
  qed
qed

lemma console_sends_loop:
  "run_linked_loop ops clk now fuel n c partner = (out, c', partner') \<Longrightarrow> console_sends c c'"
proof (induction fuel arbitrary: n c partner)
  case 0
  then show ?case by (auto split: prod.splits dest: console_sends_fail)
next
  case (Suc fuel)
  show ?case
  proof (cases "link c")
    case None
    then show ?thesis by (simp add: console_sends_def)
  next
    case (Some l)
    show ?thesis
    proof (cases "has_link_port ops (emu c) \<and> has_link_port ops (emu partner)")
      case False
      then show ?thesis using Suc.prems Some by (auto split: prod.splits dest: console_sends_fail)
    next
      case True
      let ?first = "local_is_first (lk_settings l)"
      show ?thesis
      proof (cases "machine_turn ops (emu c) (emu partner) ?first")
        case (Inl e)
        then show ?thesis
          using Suc.prems Some True by (auto simp: machine_turn_def [symmetric] split: prod.splits dest: console_sends_fail)
      next
        case (Inr r)
        obtain failure c1 where taken: "(if \<not> r then take_due_hash ops c partner else (None, c)) = (failure, c1)" by fastforce
        then have one: "console_sends c c1" by (auto split: if_splits dest: console_sends_due_hash)
        obtain l1 where l1: "link c1 = Some l1" using one Some by (auto simp: console_sends_def)
        have body: "(case (failure, link c1, link_partner partner) of
              (Some f, _, _) \<Rightarrow> let (out, c) = link_fail f c1 in (out, c, partner)
            | (None, Some l, Some p) \<Rightarrow>
                if r \<noteq> ?first then local_runs ops clk now n l c1 partner
                else (case partner_runs ops clk now p c1 partner of
                    (Inl out, c, partner) \<Rightarrow> (out, c, partner)
                  | (Inr frames, c, partner) \<Rightarrow> run_linked_loop ops clk now fuel (n + frames) c partner)
            | _ \<Rightarrow> (Failed (LinkEmulator NotLinked), c1, partner)) = (out, c', partner')"
          using Suc.prems Some True Inr taken by (simp add: machine_turn_def [symmetric])
        consider (f) f where "failure = Some f" | (n) "failure = None" "link_partner partner = None"
          | (l) p where "failure = None" "link_partner partner = Some p" "r \<noteq> ?first"
          | (p) p where "failure = None" "link_partner partner = Some p" "r = ?first"
          by (cases failure; cases "link_partner partner") auto
        then have "console_sends c1 c'"
        proof cases
          case f
          with body show ?thesis by (auto split: prod.splits dest: console_sends_fail)
        next
          case n
          with body l1 show ?thesis by auto
        next
          case l
          with body l1 show ?thesis by (auto dest: console_sends_local_runs)
        next
          case p
          obtain res c2 partner2 where run: "partner_runs ops clk now p c1 partner = (res, c2, partner2)" by (metis prod_cases3)
          then have "console_sends c1 c2" by (rule console_sends_partner_runs)
          with body p l1 run Suc.IH show ?thesis
            by (cases res) (auto intro: console_sends_trans)
        qed
        with one show ?thesis by (rule console_sends_trans)
      qed
    qed
  qed
qed

lemma console_sends_run:
  "run_linked ops clk now c partner = (out, c', partner') \<Longrightarrow> console_sends c c'"
  by (auto simp: run_linked_def split: option.splits dest: console_sends_loop)

section \<open>Every action keeps both machines on the run\<close>

subsection \<open>Players\<close>

lemma schedule_result:
  "\<exists>e. schedule p l = l\<lparr> lk_queue := (lk_queue l)(lk_next_send_frame l \<mapsto> e) \<rparr>"
  unfolding schedule_def Let_def by (intro exI) (rule refl)

text \<open>Only the frame that is sent next changes in the queue.\<close>

definition queue_differs_at_send :: "link_state \<Rightarrow> link_state \<Rightarrow> bool" where
  "queue_differs_at_send l l' \<longleftrightarrow>
     (\<exists>q. l' = l\<lparr> lk_queue := q \<rparr> \<and> (\<forall>n. n \<noteq> lk_next_send_frame l \<longrightarrow> q n = lk_queue l n))"

lemma queue_differs_schedule: "queue_differs_at_send l (schedule p l)"
  using schedule_result [of p l] by (auto simp: queue_differs_at_send_def)

lemma queue_differs_refl: "queue_differs_at_send l l"
  unfolding queue_differs_at_send_def by (intro exI [of _ "lk_queue l"]) simp

lemma queue_differs_trans: "queue_differs_at_send a b \<Longrightarrow> queue_differs_at_send b c \<Longrightarrow> queue_differs_at_send a c"
  by (auto simp: queue_differs_at_send_def)

lemma queue_differs_foldl:
  "queue_differs_at_send l (foldl (\<lambda>l w. schedule (WriteMemory (ucast (fst w)) (snd w)) l) l ws)"
  by (induction ws rule: rev_induct) (auto intro: queue_differs_refl queue_differs_trans queue_differs_schedule)

lemma queue_differs_ok:
  assumes "queue_differs_at_send l l'" and "link_ok ops ev P a b l p"
  shows "link_ok ops ev P a b l' p"
proof -
  obtain q where q: "l' = l\<lparr> lk_queue := q \<rparr>" "\<And>n. n \<noteq> lk_next_send_frame l \<Longrightarrow> q n = lk_queue l n"
    using assms(1) by (auto simp: queue_differs_at_send_def)
  have "sendqueue_ok evs l \<Longrightarrow> sendqueue_ok evs l'" for evs by (auto simp: sendqueue_ok_def q)
  moreover have "machine_pair a b l' p = machine_pair a b l p" by (simp add: machine_pair_def q(1))
  ultimately show ?thesis
    using assms(2) by (simp add: link_ok_def hashes_ok_def no_mismatch_def q(1))
qed

lemma queue_differs_sends: "queue_differs_at_send l l' \<Longrightarrow> sends l l'"
  by (auto simp: queue_differs_at_send_def intro: sends_same)

text \<open>A player reaches the link only through what is scheduled and through the pacing.\<close>

definition link_touched :: "'c console \<Rightarrow> 'c console \<Rightarrow> bool" where
  "link_touched c c' \<longleftrightarrow>
     emu c' = emu c \<and> link_partner c' = link_partner c \<and>
     (\<forall>l. link c = Some l \<longrightarrow>
        (\<exists>l'. link c' = Some l' \<and> (queue_differs_at_send l l' \<or> (\<exists>b. l' = l\<lparr> lk_paced := b \<rparr>))))"

lemma link_touched_same:
  "emu c' = emu c \<Longrightarrow> link_partner c' = link_partner c \<Longrightarrow> link c' = link c \<Longrightarrow> link_touched c c'"
  by (simp add: link_touched_def queue_differs_refl)

lemma player_touches: "link c = Some l \<Longrightarrow> link_touched c (player_does ops op c)"
proof (induction ops op c rule: player_does.induct)
  case (6 ops address data c)
  show ?case
  proof (cases "playing_back c \<or> link_holding c")
    case True
    then show ?thesis by (auto simp: enqueue_write_def flush_writes_def intro!: link_touched_same)
  next
    case False
    with 6 show ?thesis
      by (simp add: enqueue_write_def flush_writes_def link_touched_def)
        (use queue_differs_foldl [of l "writes c @ [(address, data)]"] in simp)
  qed
next
  case (7 ops c)
  then show ?case by (auto simp: linked_hard_reset_def link_touched_def queue_differs_schedule queue_differs_refl)
next
  case (8 ops b c)
  then show ?case by (auto simp: set_link_paced_def upd_link_def link_touched_def)
qed (auto simp: enqueue_input_def set_toggled_input_def set_bot_input_def set_rapid_fire_input_def press_for_frames_def Let_def
    intro!: link_touched_same split: option.splits)

lemma link_ok_paced: "link_ok ops ev P a b (l\<lparr> lk_paced := x \<rparr>) p = link_ok ops ev P a b l p"
  by (simp add: link_ok_def machine_pair_def sendqueue_ok_def hashes_ok_def no_mismatch_def)

lemma link_touched_sends: "link_touched c c' \<Longrightarrow> console_sends c c'"
  unfolding link_touched_def console_sends_def using queue_differs_sends by (fastforce intro: sends_same)

lemma link_touched_ok:
  assumes "link_touched c c'" and ok: "machine_ok ops ev P c partner"
  shows "machine_ok ops ev P c' partner"
proof -
  obtain l p where l: "link c = Some l" "link_partner partner = Some p" "link_partner c = None" "link partner = None"
    and lok: "link_ok ops ev P (emu c) (emu partner) l p"
    using ok by (auto simp: machine_ok_def)
  obtain l' where l': "link c' = Some l'" "emu c' = emu c" "link_partner c' = link_partner c"
    and d: "queue_differs_at_send l l' \<or> (\<exists>b. l' = l\<lparr> lk_paced := b \<rparr>)"
    using assms(1) l(1) by (auto simp: link_touched_def)
  have "link_ok ops ev P (emu c) (emu partner) l' p"
    using d queue_differs_ok [OF _ lok] lok by (auto simp: link_ok_paced)
  then show ?thesis using l l' by (auto intro: machine_okI)
qed

subsection \<open>The network\<close>

lemma inbox_push_ok:
  assumes "\<And>n lf. ib_frames ib n = Some lf \<Longrightarrow> frame_ok H evs n lf" and "frame_ok H evs k f"
  shows "ib_frames (inbox_push k f ib) n = Some lf \<Longrightarrow> frame_ok H evs n lf"
  using assms by (auto simp: inbox_push_def split: if_splits)

lemma upd_inbox_ok:
  assumes ok: "machine_ok ops ev P c partner"
    and "\<And>l ib n lf. link c = Some l \<Longrightarrow>
      (\<And>n lf. ib_frames ib n = Some lf \<Longrightarrow> frame_ok (run_hashes ops ev P) (ev (local_is_first (lk_settings l))) n lf) \<Longrightarrow>
      ib_frames (f ib) n = Some lf \<Longrightarrow> frame_ok (run_hashes ops ev P) (ev (local_is_first (lk_settings l))) n lf"
  shows "machine_ok ops ev P c (upd_inbox f partner)"
proof -
  obtain l p where l: "link c = Some l" "link_partner partner = Some p" "link_partner c = None" "link partner = None"
    and lok: "link_ok ops ev P (emu c) (emu partner) l p"
    using ok by (auto simp: machine_ok_def)
  let ?p = "p\<lparr> lp_inbox := f (lp_inbox p) \<rparr>" and ?E = "ev (local_is_first (lk_settings l))"
  have "inbox_ok (run_hashes ops ev P) ?E p" using lok by (simp add: link_ok_def)
  then have "inbox_ok (run_hashes ops ev P) ?E ?p"
    using assms(2) [OF l(1), of "lp_inbox p"] unfolding inbox_ok_def by simp
  then have "link_ok ops ev P (emu c) (emu partner) l ?p"
    using lok by (simp add: link_ok_def machine_pair_def)
  then show ?thesis using l by (intro machine_okI [where p = ?p]) (simp_all add: upd_inbox_def)
qed

subsection \<open>The invariant of the system\<close>

definition sys_ok :: "'c core_ops \<Rightarrow> frame_events \<Rightarrow> 'c pair \<Rightarrow> (bool \<Rightarrow> link_settings) \<Rightarrow> 'c cable_system \<Rightarrow> bool" where
  "sys_ok ops ev P sets s \<longleftrightarrow>
     (\<forall>m. machine_ok ops ev P (s_local s m) (s_partner s m) \<and>
          (\<forall>l. link (s_local s m) = Some l \<longrightarrow> lk_settings l = sets m \<and> sent_numbered l))"

definition sys_agrees :: "frame_events \<Rightarrow> 'c cable_system \<Rightarrow> bool" where
  "sys_agrees ev s \<longleftrightarrow> (\<forall>m. console_agrees ev (s_local s m))"

lemma agrees_before:
  assumes "console_agrees ev c'" and "console_sends c c'"
  shows "console_agrees ev c"
proof -
  have "sent_agree (ev (\<not> local_is_first (lk_settings l))) l" if "link c = Some l" for l
  proof -
    from assms(2) that obtain l' new where "link c' = Some l'" "lk_settings l' = lk_settings l" "lk_published l' = lk_published l @ new"
      by (auto simp: console_sends_def sends_def)
    with assms(1) show ?thesis by (auto simp: console_agrees_def sent_agree_def)
  qed
  then show ?thesis by (simp add: console_agrees_def)
qed

lemma numbered_after:
  "console_sends c c' \<Longrightarrow> (\<forall>l. link c = Some l \<longrightarrow> lk_settings l = x \<and> sent_numbered l) \<Longrightarrow> link c \<noteq> None \<Longrightarrow>
   link c' = Some l' \<Longrightarrow> lk_settings l' = x \<and> sent_numbered l'"
proof -
  assume cs: "console_sends c c'" and all: "\<forall>l. link c = Some l \<longrightarrow> lk_settings l = x \<and> sent_numbered l"
    and "link c \<noteq> None" and l': "link c' = Some l'"
  then obtain l where l: "link c = Some l" by blast
  with cs l' have "sends l l'" by (auto simp: console_sends_def)
  with all l show ?thesis by (simp add: sends_def)
qed

lemma machine_ok_linked: "machine_ok ops ev P c partner \<Longrightarrow> link c \<noteq> None"
  by (auto simp: machine_ok_def)

lemma cable_step_sends: "console_sends (s_local s m) (s_local (cable_step ops act s) m)"
proof (cases act)
  case (Run r clk now)
  obtain out c partner where "run_linked ops clk now (s_local s r) (s_partner s r) = (out, c, partner)" by (metis prod_cases3)
  then show ?thesis using console_sends_run by (auto simp: Run)
next
  case (Player r op)
  have "console_sends c (player_does ops op c)" for c
  proof (cases "link c")
    case (Some l)
    then show ?thesis by (intro link_touched_sends player_touches)
  qed (simp add: console_sends_def)
  then show ?thesis by (simp add: Player)
qed (auto simp: Let_def)

lemma cable_step_ok:
  assumes lawful: "core_lawful ops" and start: "due_behind P" and sets: "\<And>m. local_is_first (sets m) = (\<not> m)"
    and ok: "sys_ok ops ev P sets s" and agrees: "sys_agrees ev (cable_step ops act s)"
  shows "sys_ok ops ev P sets (cable_step ops act s)"
proof -
  let ?s = "cable_step ops act s"
  have mok: "machine_ok ops ev P (s_local s m) (s_partner s m)" for m using ok by (simp add: sys_ok_def)
  have "machine_ok ops ev P (s_local ?s m) (s_partner ?s m)" for m
  proof (cases act)
    case (Run r clk now)
    obtain out c partner where run: "run_linked ops clk now (s_local s r) (s_partner s r) = (out, c, partner)" by (metis prod_cases3)
    have "console_agrees ev c" using agrees run by (auto simp: Run sys_agrees_def split: if_splits dest: spec [of _ r])
    from run_linked_ok(1) [OF lawful start mok run this] mok run show ?thesis by (auto simp: Run)
  next
    case (Player r op)
    obtain l where "link (s_local s r) = Some l" using mok [of r] by (auto simp: machine_ok_def)
    from link_touched_ok [OF player_touches [OF this] mok] mok show ?thesis by (auto simp: Player)
  next
    case (Deliver r i)
    show ?thesis
    proof (cases "i < length (published_by (s_local s (\<not> r))) \<and> m = r")
      case True
      obtain l lo where l: "link (s_local s r) = Some l" and lo: "link (s_local s (\<not> r)) = Some lo"
        using machine_ok_linked [OF mok] by blast
      then have set: "lk_settings l = sets r" "lk_settings lo = sets (\<not> r)" using ok by (simp_all add: sys_ok_def)
      obtain n lf where nf: "published_by (s_local s (\<not> r)) ! i = (n, lf)" by fastforce
      then have mem: "(n, lf) \<in> set (lk_published lo)" using True lo nth_mem [of i "lk_published lo"] by (simp add: published_by_def)
      have "sys_agrees ev s"
        unfolding sys_agrees_def using agrees agrees_before cable_step_sends unfolding sys_agrees_def by blast
      then have "sent_agree (ev (\<not> local_is_first (lk_settings lo))) lo"
        using lo by (simp only: sys_agrees_def console_agrees_def)
      then have "sent_agree (ev (\<not> r)) lo" by (simp only: set(2) sets simp_thms)
      moreover have "hashes_ok (run_hashes ops ev P) lo" using mok [of "\<not> r"] lo by (auto simp: machine_ok_def link_ok_def)
      ultimately have "frame_ok (run_hashes ops ev P) (ev (\<not> r)) n lf"
        using mem by (auto simp: sent_agree_def hashes_ok_def frame_ok_def)
      then have "machine_ok ops ev P (s_local s r) (upd_inbox (inbox_push n lf) (s_partner s r))"
        using l set sets by (intro upd_inbox_ok [OF mok]) (auto intro: inbox_push_ok)
      then show ?thesis using True nf by (simp add: Deliver)
    next
      case False
      then show ?thesis using mok [of m] by (auto simp: Deliver Let_def)
    qed
  next
    case (Gone r)
    have "machine_ok ops ev P (s_local s r) (upd_inbox inbox_end (s_partner s r))"
      by (rule upd_inbox_ok [OF mok]) (simp add: inbox_end_def)
    then show ?thesis using mok [of m] by (auto simp: Gone)
  qed
  moreover have "lk_settings l = sets m \<and> sent_numbered l" if "link (s_local ?s m) = Some l" for m l
    by (rule numbered_after [OF cable_step_sends _ machine_ok_linked [OF mok] that])
      (use ok in \<open>simp add: sys_ok_def\<close>)
  ultimately show ?thesis by (simp add: sys_ok_def)
qed

subsection \<open>The start\<close>

text \<open>The events agree with the inputs held when the cable goes in.\<close>

definition prefilled :: "'c core_ops \<Rightarrow> (bool \<Rightarrow> link_settings) \<Rightarrow> 'c cable_system \<Rightarrow> frame_events \<Rightarrow> bool" where
  "prefilled ops sets s ev \<longleftrightarrow>
     (\<forall>m n. n < delay_frames (sets m) \<longrightarrow> ev m n = [ChangeInput (held_input ops (s_local s m))])"

definition first_pair :: "'c cable_system \<Rightarrow> 'c pair" where
  "first_pair s = plugged_pair (emu (s_local s False)) (emu (s_local s True))"

lemma begin_link_result:
  assumes "begin_link ops st ib c partner = (Inr x, c', partner')"
  obtains a b where "connect_port ops (local_is_first st) (emu c) = Inr a"
    and "connect_port ops (\<not> local_is_first st) (emu partner) = Inr b"
    and "emu c' = a" and "emu partner' = b"
    and "link c' = Some (new_link st (encode_input ops a (current_input c)) (current_input c))"
    and "link_partner c' = link_partner c" and "link partner' = link partner"
    and "link_partner partner' = Some \<lparr> lp_inbox = ib, lp_delay = delay_frames st,
      lp_prefill_input = partner_start_input st, lp_frame = 0, lp_frame_prepared = False \<rparr>"
    and "\<not> is_mid_frame ops (emu c)" and "\<not> is_mid_frame ops (emu partner)" and "0 < delay_frames st"
    and "writes c' = writes c"
proof -
  have checks: "begin_checks ops c partner st = None"
    using assms by (auto simp: begin_link_def split: option.splits)
  then have "link_holding c" and *: "\<not> is_mid_frame ops (emu c)" "\<not> is_mid_frame ops (emu partner)" "0 < delay_frames st"
    by (auto simp: begin_checks_def split: if_splits)
  obtain a b where ab: "connect_port ops (local_is_first st) (emu c) = Inr a" "connect_port ops (\<not> local_is_first st) (emu partner) = Inr b"
    using assms checks by (auto simp: begin_link_def split: sum.splits)
  with assms checks \<open>link_holding c\<close> show thesis
    by (intro that [OF ab _ _ _ _ _ _ *]) (auto simp: begin_link_def flush_writes_def)
qed

lemma mirrored_first: "mirrored ops sets s \<Longrightarrow> local_is_first (sets m) = (\<not> m)"
  unfolding mirrored_def by blast

lemma two_sided_delay: "mirrored ops sets s \<Longrightarrow> delay_frames (sets m) = delay_frames (sets (\<not> m))"
  unfolding mirrored_def by blast

lemma plug_in_ok:
  assumes lawful: "core_lawful ops" and mirror: "mirrored ops sets s" and plug: "plug_in ops sets s = Some s0"
    and prefill: "prefilled ops sets s ev"
  shows "sys_ok ops ev (first_pair s0) sets s0"
proof -
  have one: "begin_link ops (sets m) new_inbox (s_local s m) (s_partner s m) = (Inr (), s_local s0 m, s_partner s0 m)" for m
    using plug by (cases m) (auto simp: plug_in_def sided_def split: prod.splits sum.splits)
  have core: "connect_port ops (\<not> m) (emu (s_local s m)) = Inr (emu (s_local s0 m))"
    and partner: "emu (s_partner s0 m) = emu (s_local s0 (\<not> m))"
    and link: "link (s_local s0 m) = Some (new_link (sets m) (held_input ops (s_local s m)) (current_input (s_local s m)))"
    and lp: "link_partner (s_partner s0 m) = Some \<lparr> lp_inbox = new_inbox, lp_delay = delay_frames (sets m),
      lp_prefill_input = held_input ops (s_local s (\<not> m)), lp_frame = 0, lp_frame_prepared = False \<rparr>"
    and none: "link_partner (s_local s0 m) = None" "link (s_partner s0 m) = None"
    and mid: "\<not> is_mid_frame ops (emu (s_local s0 m))" "\<not> is_mid_frame ops (emu (s_partner s0 m))"
    and delay: "0 < delay_frames (sets m)" for m
  proof -
    have mm: "local_is_first (sets k) = (\<not> k)" "partner_start_input (sets k) = held_input ops (s_local s (\<not> k))"
      "emu (s_partner s k) = emu (s_local s (\<not> k))" "link_partner (s_local s k) = None" "link (s_partner s k) = None" for k
      using mirror unfolding mirrored_def by blast+
    note r = begin_link_result [OF one [of m]]
    note r' = begin_link_result [OF one [of "\<not> m"]]
    show c: "connect_port ops (\<not> m) (emu (s_local s m)) = Inr (emu (s_local s0 m))"
      by (rule r) (simp add: mm)
    have c': "connect_port ops m (emu (s_local s (\<not> m))) = Inr (emu (s_local s0 (\<not> m)))"
      by (rule r') (simp add: mm)
    show p: "emu (s_partner s0 m) = emu (s_local s0 (\<not> m))"
      by (rule r) (use c' in \<open>simp add: mm\<close>)
    show "link (s_local s0 m) = Some (new_link (sets m) (held_input ops (s_local s m)) (current_input (s_local s m)))"
      by (rule r) (use lawful_connect [OF lawful] in \<open>simp add: held_input_def\<close>)
    show "link_partner (s_partner s0 m) = Some \<lparr> lp_inbox = new_inbox, lp_delay = delay_frames (sets m),
      lp_prefill_input = held_input ops (s_local s (\<not> m)), lp_frame = 0, lp_frame_prepared = False \<rparr>"
      by (rule r) (simp add: mm)
    show "link_partner (s_local s0 m) = None" by (rule r) (simp add: mm)
    show "link (s_partner s0 m) = None" by (rule r) (simp add: mm)
    show "0 < delay_frames (sets m)" by (rule r)
    have "\<not> is_mid_frame ops (emu (s_local s m))" "\<not> is_mid_frame ops (emu (s_partner s m))" by (rule r, assumption)+
    then show "\<not> is_mid_frame ops (emu (s_local s0 m))" "\<not> is_mid_frame ops (emu (s_partner s0 m))"
      using lawful_connect [OF lawful c] lawful_connect [OF lawful c'] by (simp_all add: p mm)
  qed
  note first = mirrored_first [OF mirror]
  have "machine_ok ops ev (first_pair s0) (s_local s0 m) (s_partner s0 m)" for m
  proof -
    let ?l = "new_link (sets m) (held_input ops (s_local s m)) (current_input (s_local s m))"
    let ?p = "\<lparr> lp_inbox = new_inbox, lp_delay = delay_frames (sets m),
      lp_prefill_input = held_input ops (s_local s (\<not> m)), lp_frame = 0, lp_frame_prepared = False \<rparr>"
    have "machine_pair (emu (s_local s0 m)) (emu (s_partner s0 m)) ?l ?p = first_pair s0"
      by (cases m) (auto simp: machine_pair_def first_pair_def plugged_pair_def new_link_def first partner sided_def)
    moreover have "sendqueue_ok (ev m) ?l"
      using prefill delay [of m] by (auto simp: sendqueue_ok_def new_link_def prefilled_def)
    moreover have "inbox_ok (run_hashes ops ev (first_pair s0)) (ev (\<not> m)) ?p"
      using prefill two_sided_delay [OF mirror, of m] by (auto simp: inbox_ok_def prefilled_def new_inbox_def)
    moreover have "hashes_ok (run_hashes ops ev (first_pair s0)) ?l" "no_mismatch ?l" "lk_settings ?l = sets m"
      "lp_delay ?p = delay_frames (lk_settings ?l)"
      by (simp_all add: hashes_ok_def no_mismatch_def new_link_def)
    ultimately have "link_ok ops ev (first_pair s0) (emu (s_local s0 m)) (emu (s_partner s0 m)) ?l ?p"
      using mid [of m] by (simp add: link_ok_def first pair_reaches_refl)
    then show ?thesis by (rule machine_okI [OF none link lp])
  qed
  moreover have "lk_settings l = sets m \<and> sent_numbered l" if "link (s_local s0 m) = Some l" for m l
  proof -
    have "l = new_link (sets m) (held_input ops (s_local s m)) (current_input (s_local s m))"
      using that link [of m] by simp
    then show ?thesis by (simp add: sent_numbered_def new_link_def)
  qed
  ultimately show ?thesis by (simp add: sys_ok_def)
qed

section \<open>Lockstep\<close>

lemma cable_run_snoc: "cable_run ops (acts @ [act]) s = cable_step ops act (cable_run ops acts s)"
  by (simp add: cable_run_def)

lemma cable_run_ok:
  assumes lawful: "core_lawful ops" and mirror: "mirrored ops sets s" and plug: "plug_in ops sets s = Some s0"
    and prefill: "prefilled ops sets s ev"
  shows "sys_agrees ev (cable_run ops acts s0) \<Longrightarrow> sys_ok ops ev (first_pair s0) sets (cable_run ops acts s0)"
proof (induction acts rule: rev_induct)
  case Nil
  then show ?case using plug_in_ok [OF lawful mirror plug prefill] by (simp add: cable_run_def)
next
  case (snoc act acts)
  have start: "due_behind (first_pair s0)" by (simp add: first_pair_def due_behind_plugged)
  note first = mirrored_first [OF mirror]
  have "\<forall>m. console_sends (s_local (cable_run ops acts s0) m) (s_local (cable_run ops (acts @ [act]) s0) m)"
    unfolding cable_run_snoc using cable_step_sends by blast
  then have "sys_agrees ev (cable_run ops acts s0)"
    using snoc.prems agrees_before unfolding sys_agrees_def by blast
  from snoc.IH [OF this] snoc.prems show ?case
    unfolding cable_run_snoc by (intro cable_step_ok [OF lawful start first])
qed

text \<open>The events read off what the two machines have sent.\<close>

definition events_of :: "'c core_ops \<Rightarrow> (bool \<Rightarrow> link_settings) \<Rightarrow> 'c cable_system \<Rightarrow> 'c cable_system \<Rightarrow> frame_events" where
  "events_of ops sets s s' m n =
     (if n < delay_frames (sets m) then [ChangeInput (held_input ops (s_local s m))]
      else case map_of (published_by (s_local s' m)) n of Some lf \<Rightarrow> fr_events lf | None \<Rightarrow> [])"

lemma prefilled_events_of: "prefilled ops sets s (events_of ops sets s s')"
  by (simp add: prefilled_def events_of_def)

lemma cable_run_numbered:
  assumes lawful: "core_lawful ops" and mirror: "mirrored ops sets s" and plug: "plug_in ops sets s = Some s0"
  obtains l where "link (s_local (cable_run ops acts s0) m) = Some l" and "lk_settings l = sets m" and "sent_numbered l"
proof -
  have ok: "sys_ok ops (events_of ops sets s s0) (first_pair s0) sets s0"
    by (rule plug_in_ok [OF lawful mirror plug prefilled_events_of])
  have "\<exists>l. link (s_local (cable_run ops acts s0) m) = Some l \<and> lk_settings l = sets m \<and> sent_numbered l"
  proof (induction acts rule: rev_induct)
    case Nil
    show ?case using ok by (auto simp: cable_run_def sys_ok_def machine_ok_def)
  next
    case (snoc act acts)
    then obtain l where l: "link (s_local (cable_run ops acts s0) m) = Some l" "lk_settings l = sets m" "sent_numbered l" by blast
    then obtain l' where "link (s_local (cable_run ops (acts @ [act]) s0) m) = Some l'" "sends l l'"
      using cable_step_sends [of "cable_run ops acts s0" m ops act] unfolding cable_run_snoc console_sends_def by blast
    with l show ?case by (auto simp: sends_def)
  qed
  with that show thesis by blast
qed

lemma events_of_agrees:
  fixes acts
  assumes "core_lawful ops" and mirror: "mirrored ops sets s" and "plug_in ops sets s = Some s0"
  defines "s' \<equiv> cable_run ops acts s0"
  shows "sys_agrees (events_of ops sets s s') s'"
proof -
  have "sent_agree (events_of ops sets s s' m) l" if "link (s_local s' m) = Some l" for m l
  proof -
    obtain l' where "link (s_local s' m) = Some l'" "lk_settings l' = sets m" "sent_numbered l'"
      using cable_run_numbered [OF assms(1-3)] unfolding s'_def by blast
    with that have num: "lk_settings l = sets m" "sent_numbered l" by simp_all
    have "fr_events lf = events_of ops sets s s' m n" if "(n, lf) \<in> set (lk_published l)" for n lf
    proof -
      have nums: "map fst (lk_published l) = [delay_frames (sets m)..<lk_next_send_frame l]"
        using num by (simp add: sent_numbered_def)
      have "fst (n, lf) \<in> fst ` set (lk_published l)" using that by (rule imageI)
      then have "n \<in> set (map fst (lk_published l))" by simp
      then have "delay_frames (sets m) \<le> n" unfolding nums by simp
      moreover have "distinct (map fst (lk_published l))" unfolding nums by simp
      then have "map_of (lk_published l) n = Some lf" using that by simp
      ultimately show ?thesis using \<open>link (s_local s' m) = Some l\<close> by (simp add: events_of_def published_by_def)
    qed
    then show ?thesis by (auto simp: sent_agree_def)
  qed
  moreover have "local_is_first (lk_settings l) = (\<not> m)" if "link (s_local s' m) = Some l" for m l
  proof -
    obtain l' where "link (s_local s' m) = Some l'" "lk_settings l' = sets m"
      using cable_run_numbered [OF assms(1-3)] unfolding s'_def by blast
    with that show ?thesis using mirrored_first [OF mirror, of m] by simp
  qed
  ultimately show ?thesis by (simp add: sys_agrees_def console_agrees_def)
qed

lemma both_on_the_run:
  assumes "core_lawful ops" and "mirrored ops sets s" and "plug_in ops sets s = Some s0"
  shows "sys_ok ops (events_of ops sets s (cable_run ops acts s0)) (first_pair s0) sets (cable_run ops acts s0)"
  by (rule cable_run_ok [OF assms prefilled_events_of]) (rule events_of_agrees [OF assms])

text \<open>
  Both machines are on the run of one pair: machine \<open>m\<close> after \<open>k\<close> of its moves. The hashes
  both have computed for the same frame are equal, and neither has failed on a mismatch.
\<close>

definition on_run :: "'c core_ops \<Rightarrow> frame_events \<Rightarrow> 'c pair \<Rightarrow> 'c cable_system \<Rightarrow> bool \<Rightarrow> nat \<Rightarrow> bool" where
  "on_run ops ev P s m k \<longleftrightarrow>
     (\<exists>l p. link (s_local s m) = Some l \<and> link_partner (s_partner s m) = Some p \<and>
        machine_pair (emu (s_local s m)) (emu (s_partner s m)) l p = pair_after ops ev P k)"

definition computed_by :: "'c console \<Rightarrow> pair_hash list" where
  "computed_by c = (case link c of Some l \<Rightarrow> lk_computed_hashes l | None \<Rightarrow> [])"

definition failed_with :: "'c console \<Rightarrow> link_failure option" where
  "failed_with c = (case link c of Some l \<Rightarrow> lk_failure l | None \<Rightarrow> None)"

lemma sys_okE:
  assumes "sys_ok ops ev P sets s"
  obtains l p where "link (s_local s m) = Some l" and "link_partner (s_partner s m) = Some p"
    and "link_ok ops ev P (emu (s_local s m)) (emu (s_partner s m)) l p"
    and "lk_settings l = sets m" and "sent_numbered l"
proof -
  have "machine_ok ops ev P (s_local s m) (s_partner s m)" using assms by (simp add: sys_ok_def)
  then obtain l p where "link (s_local s m) = Some l" "link_partner (s_partner s m) = Some p"
    "link_ok ops ev P (emu (s_local s m)) (emu (s_partner s m)) l p" by (auto simp: machine_ok_def)
  with assms that show thesis by (simp add: sys_ok_def)
qed

lemma sys_ok_on_run: "sys_ok ops ev P sets s \<Longrightarrow> \<exists>k. on_run ops ev P s m k"
  by (rule sys_okE [of ops ev P sets s m]) (auto simp: link_ok_def pair_reaches_def on_run_def)

lemma sys_ok_no_mismatch: "sys_ok ops ev P sets s \<Longrightarrow> failed_with (s_local s m) \<noteq> Some (PairHashMismatch n)"
  by (rule sys_okE [of ops ev P sets s m]) (auto simp: link_ok_def no_mismatch_def failed_with_def)

lemma sys_ok_same_hashes:
  assumes "sys_ok ops ev P sets s" and "due_behind P"
    and "(n, h) \<in> set (computed_by (s_local s m))" and "(n, h') \<in> set (computed_by (s_local s m'))"
  shows "h = h'"
proof -
  have "set (computed_by (s_local s k)) \<subseteq> run_hashes ops ev P" for k
    by (rule sys_okE [OF assms(1), of k]) (auto simp: link_ok_def hashes_ok_def computed_by_def)
  then have "(n, h) \<in> run_hashes ops ev P" and "(n, h') \<in> run_hashes ops ev P" using assms(3,4) by blast+
  then show ?thesis using run_hash_unique [OF assms(2)] by (simp add: run_hashes_def)
qed

section \<open>Never both waiting\<close>

text \<open>
  The copy of the partner's console has to step and the frame it needs has not arrived: what
  \<open>Stalled\<close> says.
\<close>

definition waiting_for_partner :: "'c core_ops \<Rightarrow> 'c console \<Rightarrow> 'c console \<Rightarrow> bool" where
  "waiting_for_partner ops c partner \<longleftrightarrow>
     (\<exists>l p. link c = Some l \<and> link_partner partner = Some p \<and>
        machine_turn ops (emu c) (emu partner) (local_is_first (lk_settings l)) = Inr (local_is_first (lk_settings l)) \<and>
        \<not> is_mid_frame ops (emu partner) \<and> \<not> lp_frame_prepared p \<and> lp_delay p \<le> lp_frame p \<and>
        ib_frames (lp_inbox p) (lp_frame p) = None)"

lemma partner_runs_stalled:
  assumes run: "partner_runs ops clk now p c partner = (Inl Stalled, c', partner')"
    and l: "link c = Some l" and p: "link_partner partner = Some p"
    and turn: "machine_turn ops (emu c) (emu partner) (local_is_first (lk_settings l)) = Inr (local_is_first (lk_settings l))"
  shows "waiting_for_partner ops c' partner'"
proof -
  obtain prepared c1 partner1 where prep:
    "(if \<not> is_mid_frame ops (emu partner) \<and> \<not> lp_frame_prepared p
      then link_prepare_partner_frame ops c partner else (Inr Ready, c, partner)) = (prepared, c1, partner1)"
    by (cases "if \<not> is_mid_frame ops (emu partner) \<and> \<not> lp_frame_prepared p
      then link_prepare_partner_frame ops c partner else (Inr Ready, c, partner)")
  have w: "prepared = Inr Waiting" and c': "c' = upd_link (\<lambda>l. l\<lparr> lk_stalled := True \<rparr>) c1" and "partner' = partner1"
    using run prep
    by (auto simp: partner_runs_def link_fail_def split: prod.splits sum.splits partner_frame.splits)
  then have free: "\<not> is_mid_frame ops (emu partner)" "\<not> lp_frame_prepared p"
    and pr: "link_prepare_partner_frame ops c partner = (Inr Waiting, c1, partner1)"
    using prep by (auto split: if_splits)
  obtain x p' where nx: "next_partner_frame (total_milliseconds partner) p = (x, p')" by fastforce
  have "x = None \<and> c1 = c \<and> partner1 = partner"
    using pr p nx by (auto simp: link_prepare_partner_frame_def Let_def split: option.splits prod.splits if_splits)
  moreover from this nx have "lp_delay p \<le> lp_frame p" "ib_frames (lp_inbox p) (lp_frame p) = None"
    by (auto simp: next_partner_frame_def inbox_take_def split: if_splits prod.splits option.splits)
  ultimately show ?thesis
    using free l p turn c' \<open>partner' = partner1\<close> by (auto simp: waiting_for_partner_def upd_link_def)
qed

lemma loop_stalled:
  "run_linked_loop ops clk now fuel n c partner = (Stalled, c', partner') \<Longrightarrow> waiting_for_partner ops c' partner'"
proof (induction fuel arbitrary: n c partner)
  case 0
  then show ?case by (auto simp: link_fail_def)
next
  case (Suc fuel)
  then obtain l where l: "link c = Some l" by (cases "link c") auto
  have ports: "has_link_port ops (emu c) \<and> has_link_port ops (emu partner)"
  proof (rule ccontr)
    assume "\<not> ?thesis"
    then show False using Suc.prems l by (simp add: link_fail_def)
  qed
  obtain r where turn: "machine_turn ops (emu c) (emu partner) (local_is_first (lk_settings l)) = Inr r"
  proof (cases "machine_turn ops (emu c) (emu partner) (local_is_first (lk_settings l))")
    case (Inl e)
    then show thesis using Suc.prems l ports by (simp add: machine_turn_def [symmetric] link_fail_def)
  qed (rule that)
  obtain failure c1 where taken: "(if \<not> r then take_due_hash ops c partner else (None, c)) = (failure, c1)" by fastforce
  have "console_sends c c1" using taken by (auto split: if_splits dest: console_sends_due_hash)
  then obtain l1 where l1: "link c1 = Some l1" "lk_settings l1 = lk_settings l" using l by (auto simp: console_sends_def sends_def)
  have emu1: "emu c1 = emu c"
    using taken by (auto simp: take_due_hash_def Let_def split: if_splits option.splits prod.splits)
  have body: "(case (failure, link c1, link_partner partner) of
        (Some f, _, _) \<Rightarrow> let (out, c) = link_fail f c1 in (out, c, partner)
      | (None, Some l', Some p) \<Rightarrow>
          if r \<noteq> local_is_first (lk_settings l) then local_runs ops clk now n l' c1 partner
          else (case partner_runs ops clk now p c1 partner of
              (Inl out, c, partner) \<Rightarrow> (out, c, partner)
            | (Inr frames, c, partner) \<Rightarrow> run_linked_loop ops clk now fuel (n + frames) c partner)
      | _ \<Rightarrow> (Failed (LinkEmulator NotLinked), c1, partner)) = (Stalled, c', partner')"
    using Suc.prems l ports turn taken by (simp add: machine_turn_def [symmetric])
  then obtain p where none: "failure = None" and p: "link_partner partner = Some p"
    using l1 by (auto simp: link_fail_def split: option.splits)
  show ?case
  proof (cases "r = local_is_first (lk_settings l)")
    case False
    then have "local_runs ops clk now n l1 c1 partner = (Stalled, c', partner')" using body none p l1 by simp
    then show ?thesis by (auto simp: local_runs_def link_fail_def Let_def split: sum.splits prod.splits)
  next
    case True
    obtain res c2 partner2 where run: "partner_runs ops clk now p c1 partner = (res, c2, partner2)" by (metis prod_cases3)
    show ?thesis
    proof (cases res)
      case (Inl o')
      then have "partner_runs ops clk now p c1 partner = (Inl Stalled, c', partner')" using body none p l1 True run by simp
      then show ?thesis
        by (rule partner_runs_stalled [OF _ l1(1) p]) (use turn True l1 emu1 in simp)
    next
      case (Inr frames)
      then show ?thesis using body none p l1 True run Suc.IH by simp
    qed
  qed
qed

lemma run_linked_stalled:
  "run_linked ops clk now c partner = (Stalled, c', partner') \<Longrightarrow> waiting_for_partner ops c' partner'"
  by (auto simp: run_linked_def split: option.splits dest: loop_stalled)

text \<open>Every frame a machine has sent was run by the other one or is in its inbox.\<close>

definition all_arrived :: "'c cable_system \<Rightarrow> bool" where
  "all_arrived s \<longleftrightarrow>
     (\<forall>m n lf p. (n, lf) \<in> set (published_by (s_local s (\<not> m))) \<longrightarrow> link_partner (s_partner s m) = Some p \<longrightarrow>
        n < lp_frame p \<or> ib_frames (lp_inbox p) n \<noteq> None)"

lemma waiting_behind:
  assumes ok: "sys_ok ops ev P sets s" and arrived: "all_arrived s" and sets: "\<And>m. local_is_first (sets m) = (\<not> m)"
    and delay: "delay_frames (sets m) = delay_frames (sets (\<not> m))"
    and wait: "waiting_for_partner ops (s_local s m) (s_partner s m)"
    and runs: "on_run ops ev P s m j" "on_run ops ev P s (\<not> m) k"
  shows "k < j"
proof -
  obtain l p where l: "link (s_local s m) = Some l" "link_partner (s_partner s m) = Some p" "lk_settings l = sets m"
    and lpd: "lp_delay p = delay_frames (sets m)"
    by (rule sys_okE [OF ok, of m]) (auto simp: link_ok_def)
  obtain lo po where lo: "link (s_local s (\<not> m)) = Some lo" "link_partner (s_partner s (\<not> m)) = Some po"
    "lk_settings lo = sets (\<not> m)" "sent_numbered lo"
    and lok: "link_ok ops ev P (emu (s_local s (\<not> m))) (emu (s_partner s (\<not> m))) lo po"
    by (rule sys_okE [OF ok, of "\<not> m"]) blast
  have missing: "delay_frames (sets m) \<le> lp_frame p" "ib_frames (lp_inbox p) (lp_frame p) = None"
    using wait l lpd by (auto simp: waiting_for_partner_def)
  have "(lp_frame p, lf) \<notin> set (lk_published lo)" for lf
  proof
    assume "(lp_frame p, lf) \<in> set (lk_published lo)"
    then have "(lp_frame p, lf) \<in> set (published_by (s_local s (\<not> m)))" by (simp add: published_by_def lo(1))
    with arrived l(2) have "lp_frame p < lp_frame p \<or> ib_frames (lp_inbox p) (lp_frame p) \<noteq> None"
      unfolding all_arrived_def by blast
    with missing(2) show False by simp
  qed
  then have "lp_frame p \<notin> set (map fst (lk_published lo))" by auto
  moreover have "map fst (lk_published lo) = [delay_frames (sets m)..<lk_next_send_frame lo]"
    using lo(3,4) delay by (simp add: sent_numbered_def)
  ultimately have "lp_frame p \<notin> set [delay_frames (sets m)..<lk_next_send_frame lo]" by (simp only: not_False_eq_True)
  then have "lk_next_send_frame lo \<le> lp_frame p" using missing(1) by simp
  moreover have "lk_frame lo < lk_next_send_frame lo" using lok by (simp add: link_ok_def sendqueue_ok_def)
  moreover have "machine_pair (emu (s_local s m)) (emu (s_partner s m)) l p = pair_after ops ev P j"
    using runs(1) l(1,2) by (simp add: on_run_def)
  then have "pr_frame (pair_after ops ev P j) (\<not> m) = pr_frame (machine_pair (emu (s_local s m)) (emu (s_partner s m)) l p) (\<not> m)"
    by simp
  then have "pr_frame (pair_after ops ev P j) (\<not> m) = lp_frame p"
    by (simp add: machine_pair_def l(3) sets)
  moreover have "machine_pair (emu (s_local s (\<not> m))) (emu (s_partner s (\<not> m))) lo po = pair_after ops ev P k"
    using runs(2) lo(1,2) by (simp add: on_run_def)
  then have "pr_frame (pair_after ops ev P k) (\<not> m) = pr_frame (machine_pair (emu (s_local s (\<not> m))) (emu (s_partner s (\<not> m))) lo po) (\<not> m)"
    by simp
  then have "pr_frame (pair_after ops ev P k) (\<not> m) = lk_frame lo"
    by (simp add: machine_pair_def lo(3) sets)
  ultimately have "pr_frame (pair_after ops ev P k) (\<not> m) < pr_frame (pair_after ops ev P j) (\<not> m)" by simp
  then show ?thesis using pair_after_frames [of j k ops ev P "\<not> m"] by (meson not_le)
qed

lemma not_both_waiting:
  assumes lawful: "core_lawful ops" and mirror: "mirrored ops sets s" and plug: "plug_in ops sets s = Some s0"
    and arrived: "all_arrived (cable_run ops acts s0)"
  shows "\<exists>m. \<not> waiting_for_partner ops (s_local (cable_run ops acts s0) m) (s_partner (cable_run ops acts s0) m)"
proof (rule ccontr)
  let ?s = "cable_run ops acts s0"
  assume "\<not> ?thesis"
  then have wait: "waiting_for_partner ops (s_local ?s m) (s_partner ?s m)" for m by blast
  note ok = both_on_the_run [OF lawful mirror plug, of acts]
  note first = mirrored_first [OF mirror] and delay = two_sided_delay [OF mirror]
  obtain j where j: "on_run ops (events_of ops sets s ?s) (first_pair s0) ?s False j" using sys_ok_on_run [OF ok] by blast
  obtain k where k: "on_run ops (events_of ops sets s ?s) (first_pair s0) ?s True k" using sys_ok_on_run [OF ok] by blast
  have "k < j" using waiting_behind [OF ok arrived first delay wait j] k by simp
  moreover have "j < k" using waiting_behind [OF ok arrived first delay wait k] j by simp
  ultimately show False by simp
qed

text \<open>
  Writes queued while the console was held are still queued, and not scheduled, after
  \<open>begin_link\<close>: it calls \<open>flush_writes\<close> while \<open>link_holding\<close> is still set.
\<close>

lemma held_writes_not_scheduled:
  assumes "begin_link ops st ib c partner = (Inr x, c', partner')"
  shows "writes c' = writes c" and "\<exists>l. link c' = Some l \<and> lk_queue l (lk_next_send_frame l) = None"
proof -
  show "writes c' = writes c" by (rule begin_link_result [OF assms])
  show "\<exists>l. link c' = Some l \<and> lk_queue l (lk_next_send_frame l) = None"
    by (rule begin_link_result [OF assms]) (simp add: new_link_def)
qed

end
