(* ===== verification/Spec2Isabelle.thy ===== *)
theory Spec2Isabelle
  imports Packet_Stream Region_Diff_Apply Word_Diff Bookmark_Section Keyframe_Masks Stored_Keyframe
    Link_Stream Bookmark_Edits Outbound_Writer Host_Ids Memory_Session Memory_Compare Link_System
begin

text \<open>
  Supershuckie: a verification library for the replay format and the networked sessions.

  Supershuckie is a front end around console emulators that records replays and lets several
  people play together. The emulators are third-party cores; the program's own logic is in a few
  libraries, which this development models.

  The replay library (src/supershuckie-replay-recorder/src) writes a recording as a header, then a
  stream of packets with stored keyframes among them, then optionally a section of bookmarks.
  Opening a file parses the header, reads the packets (tolerating a cut-off tail when asked to)
  and checks that every delta keyframe can be resolved. Keyframes are full states or deltas
  against earlier ones, made by a region diff after transient bytes were masked out.

  The play-together library (src/supershuckie-play-together/src) is a star network: one host, up to
  seven clients. Messages are framed, with a length cap that depends on the tag. The host admits
  clients, relays what each publishes to the others, routes link cable messages between linked
  pairs, and closes connections that cannot keep up. Each participant can follow others: a sink is
  handed a snapshot and then every packet that follows it.

  The memory tools (src/supershuckie-memory-tools/src) read a running game's memory as typed values
  and search it: a first scan, narrowing scans, undo and redo, over a bitset per region while there
  are many candidates and over a list once that is smaller.

  The core (src/supershuckie-core/src) wraps an emulator core. Modelled of it are the layers of input
  a player holds and the link cable between two machines: each runs its own console against a copy
  of the partner's, both from the same events, sent a few frames ahead of the frame they apply to.

  Theories, in the order they build on each other:

    Prelude           lists, options, words and the contracts of codecs (reads_as, consumes, yields)
    Codec, Keyed_Store, Slices, Runs   the interfaces, as locales: a codec, a keyed store, byte slices
                      read at an offset, and histories of a component with an invariant
    Packet_IO, Packet_Data, Packets    packet/io.rs and packet.rs: primitives, values, packet kinds
    Packet_Stream     replay_file/playback.rs: the packet loop and the checks of opening a file
    Leb128, Region_Diff, Region_Diff_Correct, Region_Diff_Apply, Word_Diff   util.rs: diffs of states
    Header            replay_file/header.rs: the 2048 bytes, versions and metadata
    Bookmarks, Bookmark_Edits          bookmarks.rs: the table, its operations and codec
    Bookmark_Section  replay_file/bookmark_section.rs: the section and its rewrite in place
    Keyframe_Masks, Stored_Keyframe    keyframe_masks.rs and replay_file/stored_keyframe.rs
    Wire              protocol/wire.rs: fields, framing, the reader of a socket
    Color, Protocol, Messages, Link_Stream    color.rs and protocol/: every message, caps and tags
    Snapshots         protocol/snapshot.rs: states that travel, and decompress_data of util.rs
    Follow            session/follow.rs: one publisher's sink
    Outbound, Outbound_Batch, Outbound_Writer   conn.rs: the queue, encoding a batch, the writer
    Display_Names     compat.rs: names, compatibility of games, link families
    Session           session/mod.rs and error.rs: events, reasons, coalescer, link sinks, pings
    Host, Host_Closing, Host_Handlers, Host_Invariants, Host_Run, Host_Ids   session/host.rs

    Bitset, Memory_Values              search.rs and value.rs: bits of words, typed values
    Memory_Search     search.rs and region.rs: the search itself
    Memory_Candidates, Memory_Rows, Memory_Refine, Memory_Session, Memory_Compare   its correctness:
                      readers and layouts, rows and pages, later scans, whole sessions, what the
                      comparisons mean
    Link_Serial       emulator/link.rs: whose turn it is in a linked pair, the log of cable traffic
    Console_Input     lib.rs and emulator.rs of the core: inputs, their layers, what each frame gets
    Link_Cable        link.rs with what it uses of lib.rs: inbox, schedule, frames, run_linked
    Link_Pair         the run of a pair of cores, without machines: the specification of a link
    Link_Lockstep, Link_System   its correctness: one machine stays on the run, then two machines with
                      a network and players between them

  State and operations. A record mirrors each struct (host is HostShared with the fields of
  HostInner; host_conn is HostConn with its ConnShared); an operation is a function from the state
  to the next one, with the result or error of the code. What the code calls outside (a sink, the
  event queue) is appended to a log in the state, so properties can speak of everything that
  happened. Integers are words of the width the code uses; usize is bounded by usize_limit (64
  bits). Fallible code returns a sum whose left side is the error value of the code.

  The properties are the numbered ones in this theory: replay packets and streams, diffs,
  bookmarks, headers, keyframes, messages and connections, sessions, the RAM search, input, and
  linked machines. Each rests
  on lemmas of its component's theory. The invariants of histories come from interpretations of the
  locales of Runs: of a follow slot (slot), of a queue (queue), of a coalescer (coalescer), of a
  bookmark table (tables), of a whole host (hosting) and of a search (searching). Facts about everything that closing a connection
  can set off come from host_closed of Host_Closing. For the search, found_rows says what a scan of
  every address finds and refine_row what a scan does to one row; the bitset and the list are both
  shown to do that to the rows they stand for (search_rows).

  Fuel and bounds. The loops of the diffs are recursive on what is left to scan. close_connection
  is given as much fuel as there are connections, plus one; closing_terminates says that more changes nothing.
  Histories of a host assume that peer ids do not run out: the code increments a u16 without a
  check and would wrap after 65534 admissions (host_admits; Host_Ids shows that fewer frames than
  ids suffice).

  Scans of a search assume snapshots of one layout without overlaps, and, for a scan of a bitset that
  keeps what did not change, that nothing was unmapped since the last one (memory_kept, in
  search_admits); without that the code can panic, as unchanged_with_less_memory shows. Arithmetic
  that leaves its type is a panic, as in a build with overflow checks: the step counter of a search
  is a u32, so histories are shorter than 2^32 - 1, and a page of a list whose start plus count
  leaves usize panics.

  Bookmark ids saturate at u64::MAX, where the next id is in use and handed out again
  (max_id_is_reused); what is said of fresh ids holds below that.

  A link assumes of a core (core_lawful) that a step not held back by its clock is determined by
  the two cores, that one held back is the same step or none, that a step completes at most one
  frame and then stands at a frame boundary, and that applying an event takes no link time. A core
  whose hard reset moved its link time would not fit. Link frames are counted without a bound; the
  loop of run_linked has the million turns the code gives it, and what follows when they run out
  is a failure like any other.

  What is a parameter: the emulator cores with their link ports (core_ops), floating point (float_lib), what a cancel flag reads as at each check, the zstd library (zstd_lib, relied on only to read back what it made), the
  hash of a bookmark section, the text of explanations (e_render), the clock (e_now, milliseconds),
  the answers of sockets (lists of read and write events), the order in which a hash map is drained.

  Not modelled. Handlers of the host run one at a time: the code takes its locks piecewise, so
  other threads can run between two steps of one handler, and such interleavings are not covered.
  The threads' sleeping and joining, TCP itself and thread start failures are not modelled. Left
  out entirely are the emulator cores and their bindings, the front ends (Qt, C, web server), the
  frame server and the desktop integration, which draw, play and configure; and, still to be
  modelled, the recorder with its thread and resuming, conversion of old files, seeking in the
  player, the client side of a session, and the replay machinery of the core. Of the link
  cable, link_hold (which lets the console finish its frame), the waking of threads and what only
  reaches a recorder, a stream, the screen or the speakers are left out.
\<close>

section \<open>Replay packets and the packet stream\<close>

text \<open>
  C1: a packet that is written is read back, whatever follows it on the stream; and a stream
  that stops inside the packet's bytes (or inside the frame of a stored keyframe) is reported as
  missing data.
\<close>

theorem packet_roundtrip:
  assumes "packet_ok v p" and "trailing_ok p fr"
  shows "read_packet v ((instr_bytes (write_packet p) @ fr) @ rest) = Inr (p, rest) \<and>
    (\<forall>q. strict_prefix q (instr_bytes (write_packet p) @ fr) \<longrightarrow> read_packet v q = Inl NotEnoughData)"
  using reads_packet_trailing [OF assms] by (simp add: reads_as_def)

theorem packet_roundtrip_witness:
  "read_packet 7 ((instr_bytes (write_packet (SerialIn [1, 2])) @ []) @ [9]) = Inr (SerialIn [1, 2], [9]) \<and>
   read_packet 7 [0xFA] = Inl NotEnoughData"
proof -
  have ok: "packet_ok 7 (SerialIn [1, 2])" "trailing_ok (SerialIn [1, 2]) []"
    by (simp_all add: packet_ok_def trailing_ok_def MAX_SERIAL_IN_BYTES_def)
  have "strict_prefix [0xFA] (instr_bytes (write_packet (SerialIn [1, 2])) @ [])"
    by (simp add: write_packet_def write_payload_def get_discriminator_byte_def get_discriminator_def
        write_byte_vec_def write_usize_def write_u64_def Let_def)
  then show ?thesis using packet_roundtrip [OF ok] by blast
qed

text \<open>
  C2: recovery of a recording that was cut off. Whatever complete packets are on the stream, and
  wherever inside the next packet it stops, the tolerant player gets exactly the complete packets
  and notes the truncation; the strict player reports missing data instead.
\<close>

theorem stream_recovery:
  assumes "list_all (recorded_ok v) rs" and "recorded_ok v r" and "strict_prefix q (recorded_bytes r)"
  shows "read_stream True v pos (stream_bytes rs @ q) = Inr (placed pos rs, q \<noteq> []) \<and>
    (q \<noteq> [] \<longrightarrow> read_stream False v pos (stream_bytes rs @ q) = Inl (BrokenPacket NotEnoughDataForPacket))"
  using read_stream_cut [OF assms] by blast

theorem stream_recovery_witness:
  "read_stream True 7 2048 (stream_bytes [(ResetConsole, [])] @ [0xFA]) = Inr ([ResetConsole], True)"
proof -
  have "list_all (recorded_ok 7) [(ResetConsole, [])]" "recorded_ok 7 (SerialIn [1], [])"
    by (simp_all add: recorded_ok_def packet_ok_def trailing_ok_def MAX_SERIAL_IN_BYTES_def)
  moreover have "strict_prefix [0xFA] (recorded_bytes (SerialIn [1], []))"
    by (simp add: recorded_bytes_def write_packet_def write_payload_def get_discriminator_byte_def
        get_discriminator_def write_byte_vec_def write_usize_def write_u64_def Let_def)
  ultimately show ?thesis
    using stream_recovery [of 7 "[(ResetConsole, [])]" "(SerialIn [1], [])" "[0xFA]" 2048]
    by (simp add: set_frame_offset_def Let_def)
qed

text \<open>
  C3: what the player accepts is playable. The packets are not empty, they start with a full
  keyframe or with a blob that has keyframes, and every delta keyframe has a full keyframe before
  it with no blob in between, so that it can be rebuilt.
\<close>

theorem loaded_packets_playable:
  assumes "load_packets allow v pos data = Inr (ps, truncated)"
  shows "chains_ok False ps \<and> ps \<noteq> [] \<and>
    (is_full_keyframe (hd ps) \<or> is_blob (hd ps) \<and> cb_keyframes (hd ps) \<noteq> [])"
  using load_packets_sound [OF assms] by simp

definition sample_keyframe :: packet where
  "sample_keyframe = Keyframe \<lparr>km_input = [], km_speed = Speed 256, km_elapsed_frames = 0,
     km_elapsed_millis = TimestampMillis 0, km_counters = []\<rparr> [7]"

theorem loaded_packets_playable_witness:
  "\<exists>ps. load_packets True 7 2048 (stream_bytes [(sample_keyframe, [])]) = Inr (ps, False) \<and>
     chains_ok False ps \<and> ps \<noteq> []"
proof -
  have ok: "list_all (recorded_ok 7) [(sample_keyframe, [])]"
    by (simp add: recorded_ok_def sample_keyframe_def packet_ok_def trailing_ok_def
        keyframe_metadata_ok_def bytes_ok_def speed_ok_def vec_ok_def usize_limit_def)
  have kinds: "is_full_keyframe sample_keyframe" "\<not> is_blob sample_keyframe"
      "placed 2048 [(sample_keyframe, [])] = [sample_keyframe]"
    by (simp_all add: sample_keyframe_def is_full_keyframe_def is_blob_def set_frame_offset_def Let_def)
  have "load_packets True 7 2048 (stream_bytes [(sample_keyframe, [])]) = Inr ([sample_keyframe], False)"
    by (simp only: load_packets_def read_stream_complete [OF ok] kinds(3))
      (simp add: kinds prepend_packet_def check_first_def)
  then show ?thesis using loaded_packets_playable by blast
qed

section \<open>Delta keyframes\<close>

text \<open>
  C4: the delta between two states of any lengths rebuilds the second from the first: applied to
  the previous state, cut or padded with zeros to the new length, it gives the new state.
\<close>

theorem resizing_diff_rebuilds:
  assumes "length cur + 3 < usize_limit"
  shows "apply_region_diff_in_place (resize_state (length cur) prev)
      (rd_control (region_diff_resizing prev cur)) (rd_data (region_diff_resizing prev cur)) =
    Some (True, cur)"
  by (rule region_diff_resizing_roundtrip [OF assms])

theorem resizing_diff_rebuilds_witness:
  "apply_region_diff_in_place [1, 2, 3, 4, 0, 0]
      (rd_control (region_diff_resizing [1, 2, 3, 4] [1, 2, 3, 4, 5, 6]))
      (rd_data (region_diff_resizing [1, 2, 3, 4] [1, 2, 3, 4, 5, 6])) = Some (True, [1, 2, 3, 4, 5, 6])"
  using resizing_diff_rebuilds [of "[1, 2, 3, 4, 5, 6]" "[1, 2, 3, 4]"]
  by (simp add: resize_state_def usize_limit_def)

text \<open>
  C5: the block-skipping encoder is equivalent to the plain definition: its output is the encoding
  of the maximal runs of changed words, whatever blocks of equal bytes it jumps over.
\<close>

theorem region_diff_is_runs:
  assumes "length prev = length cur"
  shows "compute_region_diff prev cur = Some
    (let rs = word_runs 0 (zip (padded_words prev) (padded_words cur))
     in \<lparr>rd_control = enc_runs rs, rd_data = runs_data rs, rd_runs = length rs\<rparr>)"
  by (rule compute_region_diff_runs [OF assms])

theorem region_diff_is_runs_witness:
  "compute_region_diff [1, 2, 3, 4, 5] [1, 2, 3, 4, 6] = Some
    (let rs = word_runs 0 (zip (padded_words [1, 2, 3, 4, 5]) (padded_words [1, 2, 3, 4, 6]))
     in \<lparr>rd_control = enc_runs rs, rd_data = runs_data rs, rd_runs = length rs\<rparr>)"
  by (rule region_diff_is_runs) simp

text \<open>
  C6: applying any bytes at all as a delta is total and all or nothing. It succeeds exactly when
  the control bytes parse into runs that fit the state and account for all data bytes, then the
  result is the runs applied to the state; otherwise the state is unchanged. No out-of-range
  write, overflow or panic remains.
\<close>

theorem region_diff_apply_total:
  assumes "length state + 3 < usize_limit"
  shows "apply_region_diff_in_place state control data =
    (case parse_control control of
       None \<Rightarrow> Some (False, state)
     | Some ps \<Rightarrow>
         if pairs_fit (div_ceil4 (length state)) 0 ps \<and> 4 * pairs_len ps = length data
         then Some (True, apply_pairs ps data state)
         else Some (False, state))"
  by (rule apply_region_diff_in_place_spec [OF assms])

theorem region_diff_apply_total_witness:
  "apply_region_diff_in_place [1, 2, 3, 4] [] [9] = Some (False, [1, 2, 3, 4])"
  by (subst region_diff_apply_total) (simp_all add: usize_limit_def parse_control.simps)

text \<open>
  C7: the word diff of version 3 files turns the first state into the second, and applying any
  list of entries to any state ends, keeps its length and changes nothing when it is refused.
\<close>

theorem word_diff_rebuilds:
  shows "(case fast_diff a b of None \<Rightarrow> True | Some d \<Rightarrow> apply_diff_in_place a d = Some (True, b)) \<and>
    (\<exists>ok out. apply_diff_in_place state diff = Some (ok, out) \<and> length out = length state \<and> (ok \<or> out = state))"
  using fast_diff_roundtrip [of a b] apply_diff_in_place_total [of state diff] by (auto split: option.splits)

section \<open>Bookmarks\<close>

text \<open>
  C8: every bookmark table that insertions, removals, truncation, type records, pruning,
  sorting and id allocation can produce, in any order and number, from an empty table or a
  well-formed loaded one (get_mut, which lends a bookmark to be changed at will, is left aside),
  is sorted and has distinct non-zero ids. Until its next id is u64::MAX that id is above all ids
  in the table, and no id handed out while further operations leave it below u64::MAX belongs to a
  bookmark of the table or was handed out or brought along before, even if its bookmark is gone.
  From then on u64::MAX itself is handed out every time.
\<close>

theorem reachable_tables_ok:
  assumes "table_reachable t"
  shows "table_ok t \<and>
    (next_id t \<noteq> - 1 \<longrightarrow> (\<forall>b\<in>set (bookmarks t). b_id b < next_id t)) \<and>
    (next_id (fst (run table_step es t)) \<noteq> - 1 \<longrightarrow>
       never_reused (b_id ` set (bookmarks t)) (snd (run table_step es t))) \<and>
    (next_id t = - 1 \<longrightarrow> allocate_id t = (- 1, t))"
  using table_reachable_ok [OF assms] table_ok_ids history_ids allocate_id_exhausted by blast

definition sample_bookmark :: bookmark where
  "sample_bookmark = \<lparr>b_id = 0, b_name = [0x61], b_type_id = 0, b_in_frame = 5,
     b_in_millis = TimestampMillis 80, b_out = Some (9, TimestampMillis 150), b_keyframe = True\<rparr>"

theorem reachable_tables_ok_witness:
  "table_ok (apply_edit (EditTruncate 7) (apply_edit (EditInsert sample_bookmark) table_new)) \<and>
   (let (t, ids) = run table_step [EditInsert sample_bookmark, EditRemove 1, EditInsert sample_bookmark] table_new
    in next_id t = 3 \<and> ids = [Issued 1, Issued 2] \<and> never_reused {} ids)"
proof
  have "table_reachable (apply_edit (EditTruncate 7) (apply_edit (EditInsert sample_bookmark) table_new))"
    by (intro table_reachable.intros)
  from reachable_tables_ok [OF this]
  show "table_ok (apply_edit (EditTruncate 7) (apply_edit (EditInsert sample_bookmark) table_new))" by blast
  let ?run = "run table_step [EditInsert sample_bookmark, EditRemove 1, EditInsert sample_bookmark] table_new"
  have key: "bookmark_key sample_bookmark = (5, 0)" "b_id sample_bookmark = 0" by (simp_all add: bookmark_key_def sample_bookmark_def)
  have ids: "saturating_add (1 :: u64) 1 = 2" "saturating_add (2 :: u64) 1 = 3" "\<not> (2 :: u64) \<le> 1"
    by (simp_all add: saturating_add_def word_le_nat_alt)
  have "next_id (fst ?run) = 3" "snd ?run = [Issued 1, Issued 2]"
    by (simp_all add: table_step_def table_insert_def assign_id_def allocate_id_def table_remove_def insert_at_def
        table_new_def Let_def key ids max_def)
  with reachable_tables_ok [OF table_start, of "[EditInsert sample_bookmark, EditRemove 1, EditInsert sample_bookmark]"]
  show "let (t, ids) = ?run in next_id t = 3 \<and> ids = [Issued 1, Issued 2] \<and> never_reused {} ids"
    by (simp add: Let_def split_def table_new_def del: run.simps)
qed

text \<open>
  C9: refinement. Seen as a partial map from ids to bookmarks, every operation on a well-formed
  table is the corresponding operation on the map: an insertion updates one id (the bookmark's
  own, or the next free one), a removal deletes one, a truncation drops or shortens each bookmark
  by itself, and the others change nothing.
\<close>

theorem table_refines_map:
  assumes "table_ok t"
  shows "table_get (apply_edit e t) = map_edit (next_id t) e (table_get t)"
  by (rule apply_edit_map [OF assms])

theorem table_refines_map_witness:
  "table_get (apply_edit (EditInsert sample_bookmark) table_new) 1 = Some (sample_bookmark\<lparr>b_id := 1\<rparr>)"
  by (subst table_refines_map [OF table_ok_new]) (simp add: table_new_def sample_bookmark_def)

text \<open>
  C10: a bookmark table is read back from its encoding (a table in order exactly as it was, any
  other in its normal form), bytes after it are ignored, and a cut is reported.
\<close>

theorem table_codec:
  assumes "table_wf t"
  shows "table_decode (table_encode t @ extra) = Inr (table_normalise t) \<and>
    (table_ok t \<and> next_id t \<noteq> 0 \<longrightarrow> table_normalise t = t) \<and>
    (strict_prefix q (table_encode t) \<longrightarrow> table_decode q = Inl NotEnoughData)"
  using table_decode_encode [OF assms, of extra] table_decode_truncated [OF assms] table_normalise_id by auto

lemma table_wf_new: "table_wf table_new"
  by (simp add: table_wf_def table_new_def vec_ok_def bytes_ok_def table_encode_def write_u32_def
      write_u64_def write_usize_def write_vec_def usize_limit_def BOOKMARK_TABLE_FORMAT_def Let_def)

theorem table_codec_witness: "table_decode (table_encode table_new @ [1, 2]) = Inr table_new"
  using table_codec [OF table_wf_new, of "[1, 2]"] table_ok_new by (simp add: table_new_def)

section \<open>Files\<close>

text \<open>
  C11: writing bookmarks into a replay file. When the write succeeds, the new header points at the
  new section, everything between the header and the section (patch and packets) is unchanged,
  the section reads back as the table, nothing of an old section is left after it, and the header
  still describes the same replay.
\<close>

theorem bookmarks_written:
  assumes "write_bookmark_section hash file expected t = Inr (out, file')"
    and "hash_ok hash" and "table_wf t" and "length file < usize_limit"
  shows "\<exists>e. packet_stream_end (header_from_bytes (take 2048 file')) = Some (of_nat e) \<and>
      2048 \<le> e \<and> e \<le> length file \<and>
      drop 2048 (take e file') = drop 2048 (take e file) \<and>
      decode_bookmark_section hash (drop e file') = Inr (table_normalise t) \<and>
      take 2048 file' = outcome_header out \<and>
      same_replay_as (header_from_bytes (take 2048 file)) (header_from_bytes (take 2048 file'))"
  by (rule write_bookmark_section_correct [OF assms])

definition sample_metadata :: replay_file_metadata where
  "sample_metadata = \<lparr>m_console_type = GameBoy, m_rom_name = [0x61], m_rom_filename = [0x62],
     m_rom_checksum = replicate 32 1, m_bios_checksum = replicate 32 2, m_emulator_core_name = [0x63],
     m_patch_format = Unpatched, m_patch_target_checksum = replicate 32 3,
     m_crop_start = None, m_crop_end = None, m_timer_offset = None\<rparr>"

definition zero_hash :: "bytes \<Rightarrow> bytes" where
  "zero_hash bs = replicate 32 0"

lemma sample_metadata_ok: "metadata_ok sample_metadata"
  by (simp add: metadata_ok_def name_ok_def sample_metadata_def)

lemma sample_file:
  "\<exists>h. as_raw_header sample_metadata = Inr h \<and> header_parse h = Inr sample_metadata \<and> raw_header_ok h \<and>
     packet_stream_end h = None \<and> replay_version h = 7 \<and> patch_data_length h = 0"
proof -
  obtain h where h: "as_raw_header sample_metadata = Inr h" "header_parse h = Inr sample_metadata"
    using parse_as_raw_header [OF sample_metadata_ok] by blast
  have "replay_version h = 7 \<and> patch_data_length h = 0"
    using h(1) by (auto simp: as_raw_header_def and_then_eq_Inr sample_metadata_def REPLAY_VERSION_def)
  with h as_raw_header_ok [OF h(1)] show ?thesis by (auto simp: sample_metadata_def)
qed

lemma sample_write:
  "\<exists>h out file'. as_raw_header sample_metadata = Inr h \<and> length (header_as_bytes h) = 2048 \<and>
     write_bookmark_section zero_hash (header_as_bytes h) None table_new = Inr (out, file')"
proof -
  obtain h where h: "as_raw_header sample_metadata = Inr h" "header_parse h = Inr sample_metadata"
    "raw_header_ok h" "packet_stream_end h = None" "replay_version h = 7" "patch_data_length h = 0"
    using sample_file by blast
  have len: "length (header_as_bytes h) = 2048" by (rule header_as_bytes_length [OF h(3)])
  have "\<exists>x. write_bookmark_section zero_hash (header_as_bytes h) None table_new = Inr x"
    using h len by (simp add: write_bookmark_section_def seal_header_def header_from_as_bytes Let_def
        BOOKMARK_UPGRADE_MINIMUM_VERSION_def checked_add_def usize_limit_def)
  with h(1) len show ?thesis by auto
qed

theorem bookmarks_written_witness:
  "\<exists>h out file' e. write_bookmark_section zero_hash (header_as_bytes h) None table_new = Inr (out, file') \<and>
     decode_bookmark_section zero_hash (drop e file') = Inr (table_normalise table_new)"
proof -
  obtain h out file' where w: "length (header_as_bytes h) = 2048"
    "write_bookmark_section zero_hash (header_as_bytes h) None table_new = Inr (out, file')"
    using sample_write by blast
  have "hash_ok zero_hash" by (simp add: hash_ok_def zero_hash_def)
  moreover have "length (header_as_bytes h) < usize_limit" using w(1) by (simp add: usize_limit_def)
  ultimately show ?thesis using bookmarks_written [OF w(2) _ table_wf_new] w(2) by blast
qed

text \<open>
  C12: the version a bookmark write leaves behind. A file whose packet stream was never closed
  gets version 5 whatever its version was; only a closed file keeps its version. So an unclosed
  file of version 6 to 10 is relabelled although its packets are unchanged.
\<close>

theorem bookmark_write_version:
  assumes "write_bookmark_section hash file expected t = Inr (out, file')" and "length file < usize_limit"
  shows "replay_version (header_from_bytes (outcome_header out)) =
    (if packet_stream_end (header_from_bytes (take 2048 file)) = None then 5
     else replay_version (header_from_bytes (take 2048 file)))"
  by (rule write_bookmark_section_version [OF assms])

theorem bookmark_write_version_witness:
  "\<exists>h out file'. replay_version h = 7 \<and>
     write_bookmark_section zero_hash (header_as_bytes h) None table_new = Inr (out, file') \<and>
     replay_version (header_from_bytes (outcome_header out)) = 5"
proof -
  obtain h out file' where w: "as_raw_header sample_metadata = Inr h" "length (header_as_bytes h) = 2048"
    "write_bookmark_section zero_hash (header_as_bytes h) None table_new = Inr (out, file')"
    using sample_write by blast
  have h: "raw_header_ok h" "packet_stream_end h = None" "replay_version h = 7"
    using sample_file w(1) by auto
  have "length (header_as_bytes h) < usize_limit" using w(2) by (simp add: usize_limit_def)
  from bookmark_write_version [OF w(3) this] w(2) h
  have "replay_version (header_from_bytes (outcome_header out)) = 5"
    by (simp add: header_from_as_bytes)
  with w(3) h(3) show ?thesis by blast
qed

text \<open>
  C13: metadata a recorder can hold survives the file header: the raw header built from it parses
  back to the same metadata, is laid out in 2048 bytes and starts as an unclosed recording.
\<close>

theorem header_metadata_roundtrip:
  assumes "metadata_ok m" and "length (m_rom_checksum m) = 32" and "length (m_bios_checksum m) = 32"
    and "length (m_patch_target_checksum m) = 32"
  shows "\<exists>h. as_raw_header m = Inr h \<and> length (header_as_bytes h) = 2048 \<and>
    header_parse (header_from_bytes (header_as_bytes h)) = Inr m \<and> packet_stream_end h = None"
proof -
  obtain h where h: "as_raw_header m = Inr h" "header_parse h = Inr m"
    using parse_as_raw_header [OF assms(1)] by blast
  have ok: "raw_header_ok h" "packet_stream_end h = None"
    using as_raw_header_ok [OF h(1) assms(2-4)] by simp_all
  show ?thesis
    using h ok header_as_bytes_length [OF ok(1)] header_from_as_bytes [OF ok(1)] by auto
qed

theorem header_metadata_roundtrip_witness:
  "\<exists>h. as_raw_header sample_metadata = Inr h \<and> length (header_as_bytes h) = 2048 \<and>
    header_parse (header_from_bytes (header_as_bytes h)) = Inr sample_metadata \<and> packet_stream_end h = None"
  by (rule header_metadata_roundtrip [OF sample_metadata_ok]) (simp_all add: sample_metadata_def)

section \<open>Keyframe states\<close>

text \<open>
  C14: masking the transient parts of a console state loses nothing: for any console and any two
  states the masking ends, keeps the length, and putting the overwritten bytes back gives the
  original state.
\<close>

theorem masks_lossless:
  "\<exists>overwritten out. apply_masks console prev cur = Some (overwritten, out) \<and>
     length out = length cur \<and> restore_masks overwritten out = cur"
  by (rule apply_masks_restore)

text \<open>
  C15: a version 9 keyframe payload gives back its control bytes and, with the ROM at hand, its
  data bytes, including those that were replaced by references into the ROM.
\<close>

theorem rom_payload_roundtrip:
  assumes "copies_ok data rom 0 copies" and "length control < usize_limit"
    and "length data < usize_limit" and "length rom < usize_limit"
    and "length (fst (encode_refs data 0 0 copies)) < usize_limit"
  shows "\<exists>p. split_payload_v9 (encode_payload_v9 control data copies) = Inr p \<and>
    p9_control p = control \<and> data_into p (Some rom) = Inr data"
  by (rule payload_v9_roundtrip [OF assms])

theorem rom_payload_roundtrip_witness:
  "\<exists>p. split_payload_v9 (encode_payload_v9 [7] [1, 2, 3]
       [\<lparr>data_offset = 1, rom_offset = 4, copy_len = 2\<rparr>]) = Inr p \<and>
     p9_control p = [7] \<and> data_into p (Some [0, 0, 0, 0, 2, 3]) = Inr [1, 2, 3]"
  by (rule rom_payload_roundtrip)
    (simp_all add: slice_def usize_limit_def write_leb128.simps zigzag_def)

section \<open>The play-together protocol\<close>

text \<open>
  C16: what decodes. A message body decodes to a message exactly when the message respects every
  cap of the protocol; nothing else a peer can send decodes to it; a cut body is reported as
  truncated and bytes after a complete one are counted and refused.
\<close>

theorem message_decoding:
  "(message_ok m \<longleftrightarrow> decode (encode_body m) = Inr m) \<and>
   (decode body = Inr m \<longrightarrow> message_ok m) \<and>
   (message_ok m \<and> strict_prefix p (encode_body m) \<longrightarrow> decode p = Inl decode_error.Truncated) \<and>
   (message_ok m \<and> rest \<noteq> [] \<longrightarrow> decode (encode_body m @ rest) = Inl (TrailingBytes (length rest)))"
  using decode_body decode_sound decode_cut decode_trailing by blast

definition sample_message :: message where
  "sample_message = LinkStart 3 2 77 600 [1, 0] 25 4 (Speed 256)"

lemma sample_message_ok: "message_ok sample_message"
  by (simp add: sample_message_def MAX_INPUT_BYTES_def MAX_LINK_DELAY_def speed_ok_def)

theorem message_decoding_witness:
  "decode (encode_body sample_message) = Inr sample_message \<and>
   decode (encode_body sample_message @ [0]) = Inl (TrailingBytes 1)"
  using message_decoding [of sample_message "[]" "[]" "[0]"] sample_message_ok by simp

text \<open>
  C17: a connection delivers every message whatever the network does to it. For any sequence of
  well-formed messages, any way their bytes are cut into reads and any number of interruptions
  and timeouts in between, the reader returns exactly these messages in order and then the end of
  input.
\<close>

theorem connection_delivers:
  assumes "\<forall>m \<in> set ms. message_ok m \<and> message_fits m" and "patient poll"
    and "healthy es" and "arrived es = concat (map encoded ms)" and "length ms < n"
  shows "read_all_messages n poll c es = Inr (map Inr ms)"
  by (rule read_all_messages_encoded [OF assms])

theorem connection_delivers_witness:
  "read_all_messages 2 (\<lambda>_ c. Inr c) ()
     [Chunk (take 3 (encoded sample_message)), TimedOut, Interrupted, Chunk (drop 3 (encoded sample_message))] =
   Inr [Inr sample_message]"
proof -
  let ?es = "[Chunk (take 3 (encoded sample_message)), TimedOut, Interrupted,
    Chunk (drop 3 (encoded sample_message))]"
  have len: "length (encoded sample_message) > 3" by (simp add: length_encoded)
  have "healthy ?es" using len by (auto simp: healthy_def)
  moreover have "arrived ?es = concat (map encoded [sample_message])" by simp
  moreover have "patient (\<lambda>_ c. Inr c)" by (simp add: patient_def)
  moreover have "message_fits sample_message"
    by (rule small_message_fits [OF sample_message_ok])
      (simp add: sample_message_def LARGE_TAGS_def TAG_LINK_START_def)
  ultimately show ?thesis
    using connection_delivers [of "[sample_message]" "\<lambda>_ c. Inr c" ?es 2 "()"] sample_message_ok by simp
qed

text \<open>
  C18: the frame reader on a socket computes what the bytes say, however they arrive: no frame at
  a clean end, an end-of-file error inside a frame, a refused length before any of the body is
  read, or the frame with the bytes after it left unread.
\<close>

theorem frame_reader_chunk_independent:
  assumes "healthy es" and "patient poll"
  shows "case parse_frame (arrived es) of
      NoFrame \<Rightarrow> (\<exists>c'. read_frame poll c es = Inr (None, c', []))
    | CutFrame \<Rightarrow> read_frame poll c es = Inl IoUnexpectedEof
    | BadLength len \<Rightarrow> read_frame poll c es = Inl (Decode (TooLong len))
    | Frame f rest \<Rightarrow> (\<exists>c' es'. read_frame poll c es = Inr (Some f, c', es') \<and>
        healthy es' \<and> arrived es' = rest)"
  by (rule read_frame_chunks [OF assms])

theorem frame_reader_chunk_independent_witness:
  "read_frame (\<lambda>_ c. Inr c) () [Chunk [1, 0], TimedOut, Chunk [1, 0, 0x22]] = Inl (Decode (TooLong 0x10001))"
proof -
  have "healthy [Chunk [1, 0], TimedOut, Chunk [1, 0, 0x22]]" "patient (\<lambda>_ c. Inr c)"
    by (auto simp: healthy_def patient_def)
  from frame_reader_chunk_independent [OF this, of "()"] show ?thesis
    by (simp add: parse_frame_def from_le_def max_message_length_def LARGE_TAGS_def
        MAX_SMALL_MESSAGE_LENGTH_def word_less_nat_alt)
qed

text \<open>
  C19: every well-formed message that carries no replay data fits the small message cap, so no
  receiver refuses a frame that a well-behaved sender builds.
\<close>

theorem small_messages_fit:
  assumes "message_ok m" and "tag m \<notin> set LARGE_TAGS"
  shows "length (encode_body m) \<le> unat MAX_SMALL_MESSAGE_LENGTH"
  using small_message_fits [OF assms] assms(2) by (simp add: message_fits_def max_message_length_def)

theorem small_messages_fit_witness: "length (encode_body sample_message) \<le> unat MAX_SMALL_MESSAGE_LENGTH"
  by (rule small_messages_fit [OF sample_message_ok])
    (simp add: sample_message_def LARGE_TAGS_def TAG_LINK_START_def)

text \<open>
  C20: only the packets that may travel get through. Decoding gives back what was encoded; whatever
  bytes arrive, a decoded stream or link frame holds no forbidden packet; a link frame's packets
  are also acceptable in a stream and never advance the frame count.
\<close>

theorem travelling_packets:
  "(list_all (sendable forbidden_kind) ps \<longrightarrow> decode_packets (encode_packets ps) = Inr ps) \<and>
   (list_all (sendable forbidden_link_kind) ps \<longrightarrow> decode_link_events (encode_link_events ps) = Inr ps) \<and>
   (decode_packets bs = Inr qs \<longrightarrow> list_all (\<lambda>p. forbidden_kind p = None) qs) \<and>
   (decode_link_events bs = Inr qs \<longrightarrow> list_all (\<lambda>p. forbidden_link_kind p = None) qs \<and>
      decode_packets bs = Inr qs \<and> count_frames qs = 0)"
  using decode_packets_encode decode_link_events_encode decode_allowed_only count_frames_link
    decode_link_events_stream by (auto simp: decode_packets_def decode_link_events_def)

theorem travelling_packets_witness:
  "decode_link_events (encode_link_events [ChangeInput [3], ResetConsole]) = Inr [ChangeInput [3], ResetConsole] \<and>
   count_frames [ChangeInput [3], ResetConsole] = 0"
proof -
  have "list_all (sendable forbidden_link_kind) [ChangeInput [3], ResetConsole]"
    by (simp add: sendable_def packet_ok_def bytes_ok_def usize_limit_def)
  then show ?thesis
    using travelling_packets [of "[ChangeInput [3], ResetConsole]" "encode_link_events [ChangeInput [3], ResetConsole]"]
    by blast
qed

text \<open>
  C21: a joining player always gets a colour of the palette, the one they asked for if nobody has
  it, and one that nobody has as long as there are fewer players than colours.
\<close>

theorem colors_distinct:
  "is_valid_color (assign_color requested taken seed) \<and>
   (is_valid_color requested \<and> requested \<notin> set taken \<longrightarrow> assign_color requested taken seed = requested) \<and>
   (length taken < unat COLOR_COUNT \<longrightarrow> assign_color requested taken seed \<notin> set taken) \<and>
   MAX_PARTICIPANTS < unat COLOR_COUNT"
  using assign_color_valid assign_color_requested assign_color_free
  by (auto simp: MAX_PARTICIPANTS_def)

theorem colors_distinct_witness:
  "is_valid_color (assign_color 5 [5, 1] 42) \<and> assign_color 5 [5, 1] 42 \<notin> {5, 1} \<and> assign_color 2 [5, 1] 42 = 2"
  using colors_distinct [of 5 "[5, 1]" 42] colors_distinct [of 2 "[5, 1]" 42]
  by (simp add: is_valid_color_iff)

section \<open>Sessions\<close>

definition sample_publisher :: publisher_info where
  "sample_publisher = \<lparr>pi_metadata = \<lparr>m_console_type = GameBoy, m_rom_name = [], m_rom_filename = [],
     m_rom_checksum = replicate 32 0, m_bios_checksum = replicate 32 0, m_emulator_core_name = [],
     m_patch_format = Unpatched, m_patch_target_checksum = replicate 32 0, m_crop_start = None,
     m_crop_end = None, m_timer_offset = None\<rparr>, pi_initial_input = [], pi_speed = Speed 256, pi_frame = 0\<rparr>"

lemma sample_publisher_ok: "publisher_ok sample_publisher"
  by (simp add: sample_publisher_def publisher_ok_def text_ok_def hash_wf_def speed_ok_def Let_def)

definition sample_hello :: message where
  "sample_hello = Hello PROTOCOL_VERSION REPLAY_VERSION [] [65] 0 sample_publisher"

definition sample_zstd :: zstd_lib where
  "sample_zstd = \<lparr>z_content_size = (\<lambda>b. of_nat (length b)), z_decompress = (\<lambda>b _. Inr b),
     z_compress = (\<lambda>_ b. Some b)\<rparr>"

definition sample_env :: session_env where
  "sample_env = \<lparr>e_zstd = sample_zstd, e_render = (\<lambda>_. []), e_now = 0\<rparr>"

text \<open>Two clients join, one asks the other for a link, which accepts; then the first is kicked.\<close>

definition sample_history :: "(session_env \<times> host_op) list" where
  "sample_history = map (Pair sample_env)
    [HAddConnection, HFrame 1 (encoded sample_hello), HAddConnection, HFrame 2 (encoded sample_hello),
     HSubscribe 2, HFrame 1 (encoded (LinkRequest 2 3 7 0)), HFrame 2 (encoded (LinkAccept 3 2 7)),
     HWriterDrain 1, HTick, HKick 2, HPoll]"

definition sample_host :: host where
  "sample_host = host_new 4 True 1000 7 [66] 3 [] sample_publisher"

lemma sample_history_admitted: "admitted_run host_step host_admits sample_history sample_host"
  by (rule stays_admitted)
    (simp_all add: sample_history_def is_frame_def sample_host_def host_new_def Let_def HOST_PEER_ID_def)

lemma sample_host_texts:
  "utf8_valid [66]" "text_ok MAX_APP_VERSION_BYTES []" "publisher_ok sample_publisher"
  by (simp_all add: text_ok_def sample_publisher_ok utf8_valid.simps)

text \<open>
  C22: a hosted session is always in order. After any history of accepted connections, frames of
  any content, thread stops and calls of the application, the participants have distinct non-zero
  ids, distinct display names and distinct colours, all within the caps of the protocol, and there
  are no more of them than the session allows. Ids are assumed not to run out.
\<close>

theorem host_session_invariant:
  assumes "utf8_valid display_name" and "text_ok MAX_APP_VERSION_BYTES app_version" and "publisher_ok publisher"
    and "admitted_run host_step host_admits ops
      (host_new k nds timeout sid display_name color app_version publisher)"
  shows "let h = fst (run host_step ops (host_new k nds timeout sid display_name color app_version publisher));
             everybody = h_local h # participants h
         in distinct (map pa_peer_id everybody) \<and> distinct (map pa_display_name everybody) \<and>
            distinct (map pa_color everybody) \<and> list_all participant_ok everybody \<and>
            length everybody \<le> h_max_participants h \<and> h_max_participants h \<le> MAX_PARTICIPANTS"
  using host_participants [OF assms] by (simp only: Let_def)

theorem host_session_invariant_witness:
  "let h = fst (run host_step sample_history sample_host); everybody = h_local h # participants h
   in distinct (map pa_peer_id everybody) \<and> distinct (map pa_display_name everybody) \<and>
      distinct (map pa_color everybody) \<and> list_all participant_ok everybody \<and>
      length everybody \<le> h_max_participants h \<and> h_max_participants h \<le> MAX_PARTICIPANTS"
  using host_session_invariant [OF sample_host_texts sample_history_admitted [unfolded sample_host_def]]
  by (simp only: sample_host_def)

text \<open>
  C23: the link cable roster of a running host is a matching of its participants. Nobody is
  plugged into two cables or into themselves, only participants are in the roster or ask to be,
  nobody asks themselves, and everyone has at most one request outstanding, after every history.
\<close>

theorem host_roster_matching:
  assumes "utf8_valid display_name" and "text_ok MAX_APP_VERSION_BYTES app_version" and "publisher_ok publisher"
    and "admitted_run host_step host_admits ops
      (host_new k nds timeout sid display_name color app_version publisher)"
  shows "let h = fst (run host_step ops (host_new k nds timeout sid display_name color app_version publisher));
             ids = insert HOST_PEER_ID (pa_peer_id ` set (participants h))
         in h_running h \<longrightarrow> distinct (link_ends (h_links h)) \<and> set (link_ends (h_links h)) \<subseteq> ids \<and>
              distinct (map fst (h_link_requests h)) \<and>
              (\<forall>(r, t, _) \<in> set (h_link_requests h). r \<noteq> t \<and> r \<in> ids \<and> t \<in> ids)"
  using host_roster [OF assms] by (simp only: Let_def)

theorem host_roster_matching_witness:
  "let h = fst (run host_step sample_history sample_host);
       ids = insert HOST_PEER_ID (pa_peer_id ` set (participants h))
   in h_running h \<longrightarrow> distinct (link_ends (h_links h)) \<and> set (link_ends (h_links h)) \<subseteq> ids \<and>
        distinct (map fst (h_link_requests h)) \<and>
        (\<forall>(r, t, _) \<in> set (h_link_requests h). r \<noteq> t \<and> r \<in> ids \<and> t \<in> ids)"
  using host_roster_matching [OF sample_host_texts sample_history_admitted [unfolded sample_host_def]]
  by (simp only: sample_host_def)

text \<open>
  C24: a sink that follows a publisher through a host is fed correctly. Whatever frames arrive, the
  calls made on a publisher's sinks never hand packets before a snapshot, always continue exactly
  where the last ones ended, and stop after the sink was ended or dropped.
\<close>

theorem host_feeds_sinks:
  assumes "utf8_valid display_name" and "text_ok MAX_APP_VERSION_BYTES app_version" and "publisher_ok publisher"
    and "admitted_run host_step host_admits ops
      (host_new k nds timeout sid display_name color app_version publisher)"
  shows "feed_run NoSink (calls_of p
    (fst (run host_step ops (host_new k nds timeout sid display_name color app_version publisher)))) \<noteq> None"
  by (rule host_feeds [OF assms])

theorem host_feeds_sinks_witness:
  "feed_run NoSink (calls_of 2 (fst (run host_step sample_history sample_host))) \<noteq> None"
  unfolding sample_host_def
  by (rule host_feeds_sinks [OF sample_host_texts sample_history_admitted [unfolded sample_host_def]])

text \<open>
  C25: closing a connection ends. Closing one may overflow the queue of another and close that one
  in turn; as long as the held connections are the open ones, any fuel beyond their number gives
  the same result, which satisfies the recursion of the code.
\<close>

theorem closing_terminates:
  assumes "held h"
  shows "close_connection n r fl h = close_body close_connection n r fl h \<and>
    close_fuel (Suc (length (h_conns h)) + j) n r fl h = close_connection n r fl h"
  using close_connection_rec [OF assms] close_fuel_more [OF assms] by blast

theorem closing_terminates_witness:
  "close_fuel (Suc (length (h_conns sample_host)) + 5) 1 LR_Kicked True sample_host =
   close_connection 1 LR_Kicked True sample_host"
proof -
  have "held sample_host" by (simp add: held_def sample_host_def host_new_def Let_def)
  from closing_terminates [OF this] show ?thesis by blast
qed

text \<open>
  C26: the outbound queue of a connection keeps its books. After any operations, each lane's
  accepted items are those that left followed by those still queued, in order; the byte count is
  the sum of the costs, never above the cap, and each lane is within the item cap.
\<close>

theorem queue_history:
  "let (q, log) = run queue_step ops queue_new
   in accepted log = departed log @ q_items q \<and>
      accepted_urgent log = departed_urgent log @ q_urgent q \<and>
      q_bytes q = sum_list (map cost (q_items q)) + sum_list (map length (q_urgent q)) \<and>
      q_bytes q \<le> MAX_QUEUE_BYTES \<and>
      length (q_items q) \<le> MAX_QUEUE_ITEMS \<and> length (q_urgent q) \<le> MAX_QUEUE_ITEMS"
  using queue.total_inv [OF queue_new_inv, of ops]
  by (cases "run queue_step ops queue_new") (simp add: queue_inv_def queue_ok_def)

text \<open>
  C27: what a pass of the writer puts on the wire is whole messages. The drained urgent messages
  come first; the rest interleaves, message by message, the batch in its order (a ping last) with
  urgent messages queued meanwhile, so none is ever split. Merging streams loses and reorders
  nothing: between items of other kinds, the stream bytes are the concatenation of the queued ones.
\<close>

theorem writer_sends_messages:
  assumes "\<And>bs. OEncoded bs \<in> set (d_items d) \<Longrightarrow> bs \<noteq> []"
  shows "(\<exists>ms \<in> shuffles (batch_messages z from (d_items d) @
               (case ping of None \<Rightarrow> [] | Some m \<Rightarrow> [encoded m]))
             (urgents_between later 0 (length (pass_runs (encode_outbound z (d_items d) from)
               (case ping of None \<Rightarrow> [] | Some m \<Rightarrow> encoded m)))).
           concat (writer_pass z from d ping later) = concat (d_urgent d @ ms)) \<and>
    stream_runs (grouped None (d_items d)) = stream_runs (d_items d)"
  using writer_pass_messages [OF assms] grouped_runs [of None] by simp

theorem writer_sends_messages_witness:
  "stream_runs (grouped None [OStream 5 [1], OStream 6 [2], OEncoded [9], OStream 7 [3]]) =
     [Inl [1, 2], Inr (OEncoded [9]), Inl [3]]"
  using writer_sends_messages [of "\<lparr>d_items = [OStream 5 [1], OStream 6 [2], OEncoded [9], OStream 7 [3]],
    d_urgent = [], d_closed = False\<rparr>"] by simp

text \<open>
  C28: a snapshot travels. The frame built for a snapshot that fits the message cap decodes, and
  the receiver rebuilds exactly the snapshot, compressed or not, if what the compression library
  makes reads back.
\<close>

theorem snapshot_travels:
  assumes "zstd_lossless z" and "state_fits (sd_state s)" and "from \<noteq> 0"
    and "length (sd_input s) \<le> MAX_INPUT_BYTES" and "speed_ok (sd_speed s)"
    and "length (sd_counters s) \<le> MAX_COUNTERS" and "list_all wire_counter_ok (sd_counters s)"
    and "\<not> too_large (snapshot_encode z s from target)"
  shows "\<exists>w. decode_frame (snapshot_encode z s from target) = Inr (Snapshot w) \<and>
    ws_from w = from \<and> ws_target w = target \<and> into_snapshot z w = Inr s"
  using assms(8) by (intro snapshot_encode_decodes [OF assms(1-7)]) (simp add: too_large_def)

definition sample_snapshot :: snapshot_data where
  "sample_snapshot = \<lparr>sd_frame = 60, sd_elapsed_millis = 1000, sd_input = [1], sd_speed = Speed 256,
     sd_counters = [], sd_state = [1, 2, 3]\<rparr>"

theorem snapshot_travels_witness:
  "\<exists>w. decode_frame (snapshot_encode sample_zstd sample_snapshot 2 0) = Inr (Snapshot w) \<and>
    ws_from w = 2 \<and> ws_target w = 0 \<and> into_snapshot sample_zstd w = Inr sample_snapshot"
proof (rule snapshot_travels)
  show "zstd_lossless sample_zstd" by (simp add: zstd_lossless_def sample_zstd_def)
  show "\<not> too_large (snapshot_encode sample_zstd sample_snapshot 2 0)"
    by (simp add: snapshot_encode_def compress_state_def sample_zstd_def sample_snapshot_def too_large_def
        snapshot_with_state_def length_encoded encode_body_def Let_def MAX_MESSAGE_LENGTH_def enc_speed_def)
qed (simp_all add: sample_snapshot_def state_fits_def MAX_STATE_LENGTH_def MAX_INPUT_BYTES_def speed_ok_def)

text \<open>
  C29: a display name is always found. For any requested name and any names taken (fewer than the
  suffixes there are), the chosen name is valid, within the cap and not taken, and it is the
  cleaned-up request whenever that is free.
\<close>

theorem display_name_unique:
  assumes "utf8_valid requested" and "length taken < 2 ^ 32 - 2"
  shows "\<exists>s. dedupe_display_name requested taken = Some s \<and> s \<notin> set taken \<and> utf8_valid s \<and>
    length s \<le> MAX_DISPLAY_NAME_BYTES \<and>
    (sanitize_display_name requested \<notin> set taken \<longrightarrow> s = sanitize_display_name requested)"
  by (rule dedupe_found [OF assms])

theorem display_name_unique_witness:
  "\<exists>s. dedupe_display_name [65] [[65], [65, 32, 40, 50, 41]] = Some s \<and> s \<notin> {[65], [65, 32, 40, 50, 41]}"
  using display_name_unique [of "[65]" "[[65], [65, 32, 40, 50, 41]]"] by (auto simp: utf8_valid.simps)

text \<open>
  C30: a publisher that keeps count is followed without loss. Once a snapshot has arrived, streams
  that each start where the one before ended all reach the sink, unchanged and in order.
\<close>

theorem followed_without_loss:
  assumes "consecutive (sd_frame snap) ms"
  shows "snd (run follow_step (OpSetSink # OpSnapshot snap # map (\<lambda>(f, ps). OpStream f ps) ms) s) =
    Installed # SinkSnapshot snap # map (\<lambda>(f, ps). SinkPackets f ps) ms"
  by (rule followed_from_snapshot [OF assms])

theorem followed_without_loss_witness:
  "snd (run follow_step [OpSetSink, OpSnapshot sample_snapshot, OpStream 60 [NextFrame (TimestampMillis 16)], OpStream 61 [NextFrame (TimestampMillis 17)]] new_slot) =
    [Installed, SinkSnapshot sample_snapshot, SinkPackets 60 [NextFrame (TimestampMillis 16)], SinkPackets 61 [NextFrame (TimestampMillis 17)]]"
proof -
  have "consecutive (sd_frame sample_snapshot) [(60, [NextFrame (TimestampMillis 16)]), (61, [NextFrame (TimestampMillis 17)])]"
    by (simp add: sample_snapshot_def count_frames_def)
  from followed_without_loss [OF this, of new_slot] show ?thesis by simp
qed

section \<open>Memory tools\<close>

text \<open>
  C31: numbers in memory. For every integer or BCD format the code makes, writing a number never
  panics; a number the format can hold is read back, and bytes that are read as a number are what
  writing that number gives.
\<close>

theorem memory_number_codec:
  assumes "format_ok f" and "is_integer (vf_ty f)"
  shows "encode_number fl f (IntNumber v) \<noteq> Panics \<and>
    (sint v \<in> value_range f \<longrightarrow> (\<exists>bs. encode_number fl f (IntNumber v) = Returns (Some bs) \<and> length bs = vf_len f \<and>
       decode_number fl f bs = Some (IntNumber v))) \<and>
    (\<forall>bs. length bs = vf_len f \<and> decode_number fl f bs = Some (IntNumber v) \<longrightarrow>
       encode_number fl f (IntNumber v) = Returns (Some bs))"
proof (intro conjI impI allI)
  show "encode_number fl f (IntNumber v) \<noteq> Panics" by (simp add: encode_integer [OF assms])
qed (use decode_encode [OF assms] encode_decode [OF assms] in blast)+

definition no_floats :: "unit float_lib" where
  "no_floats = \<lparr>fl_of_int = \<lambda>_. (), fl_of_f32 = \<lambda>_. (), fl_to_f32 = \<lambda>_. 0, fl_sub = \<lambda>_ _. (), fl_abs = \<lambda>_. (),
     fl_lt = \<lambda>_ _. False, fl_le = \<lambda>_ _. True\<rparr>"

definition sample_bcd :: value_format where
  "sample_bcd = \<lparr>vf_ty = Bcd, vf_size = 2, vf_big_endian = True\<rparr>"

theorem memory_number_codec_witness:
  "encode_number no_floats sample_bcd (IntNumber 1234) = Returns (Some [0x12, 0x34]) \<and>
   (\<exists>bs. encode_number no_floats sample_bcd (IntNumber 1234) = Returns (Some bs) \<and>
      decode_number no_floats sample_bcd bs = Some (IntNumber 1234))"
proof -
  have "format_ok sample_bcd" "is_integer (vf_ty sample_bcd)" by code_simp+
  moreover have "sint (1234 :: i64) \<in> value_range sample_bcd" by (simp add: value_range_def sample_bcd_def vf_len_def)
  moreover have "length [0x12, 0x34 :: u8] = vf_len sample_bcd" by (simp add: sample_bcd_def vf_len_def)
  moreover have "decode_number no_floats sample_bcd [0x12, 0x34] = Some (IntNumber 1234)"
    by (simp add: decode_number_def sample_bcd_def vf_len_def decode_bcd_def bcd_push_def)
  ultimately show ?thesis using memory_number_codec [of sample_bcd no_floats 1234] by blast
qed

text \<open>
  C32: what the comparisons of a RAM search mean. On whole numbers every comparison decides, on the
  bytes in memory, the relation of the integers that its name says; no difference wraps around.
\<close>

theorem comparisons_mean:
  assumes "reader_ok rd" and "is_integer (vf_ty (rd_format rd))" and "whole_comparison c"
    and "length current = rd_len rd" and "length prev = rd_len rd" and "length first = rd_len rd"
    and "decode_number fl (rd_format rd) current = Some (IntNumber v)"
    and "decode_number fl (rd_format rd) prev = Some (IntNumber p)"
    and "decode_number fl (rd_format rd) first = Some (IntNumber f)"
  shows "passes fl rd c current (Some prev) (Some first) = Returns (holds c (sint v) (sint p) (sint f))"
  by (rule passes_means [OF assms])

definition sample_settings :: "unit search_settings" where
  "sample_settings = \<lparr>ss_format = \<lparr>vf_ty = I8, vf_size = 1, vf_big_endian = False\<rparr>, ss_alignment = 1,
     ss_regions = [], ss_range = None, ss_epsilon = ()\<rparr>"

theorem comparisons_mean_witness:
  "passes no_floats (settings_reader sample_settings) (IncreasedBy (IntNumber 130)) [127] (Some [253]) (Some [0]) = Returns True"
proof -
  note defs = settings_reader_def sample_settings_def vf_len_def
  have "reader_ok (settings_reader sample_settings)" by (simp add: reader_ok_def format_ok_def defs)
  moreover have "is_integer (vf_ty (rd_format (settings_reader sample_settings)))" by (simp add: integer_types defs)
  moreover have "whole_comparison (IncreasedBy (IntNumber 130) :: unit comparison)" by simp
  moreover have "length [127 :: u8] = rd_len (settings_reader sample_settings)" "length [253 :: u8] = rd_len (settings_reader sample_settings)"
    "length [0 :: u8] = rd_len (settings_reader sample_settings)" by (simp_all add: defs)
  moreover have "decode_number no_floats (rd_format (settings_reader sample_settings)) [127] = Some (IntNumber 127)"
    "decode_number no_floats (rd_format (settings_reader sample_settings)) [253] = Some (IntNumber (- 3))"
    "decode_number no_floats (rd_format (settings_reader sample_settings)) [0] = Some (IntNumber 0)"
    by (simp_all add: decode_number_def raw_bits_def defs)
  ultimately have "passes no_floats (settings_reader sample_settings) (IncreasedBy (IntNumber 130)) [127] (Some [253]) (Some [0]) =
      Returns (holds (IncreasedBy (IntNumber 130) :: unit comparison) (sint (127 :: i64)) (sint (- 3 :: i64)) (sint (0 :: i64)))"
    by (rule comparisons_mean)
  then show ?thesis by simp
qed

text \<open>
  C33: a first scan is complete. On a snapshot of any layout without overlaps it either is cancelled
  or finds, in order, exactly the aligned, mapped addresses of the chosen regions and range whose
  bytes pass, whether it ends with a bitset or a list.
\<close>

theorem first_scan_complete:
  assumes "regions_ok R" and "snapshot_of R snapshot" and "format_ok (ss_format ss)"
    and "check_comparison ss c = Inr ()" and "is_initial c"
  shows "\<exists>s. done_or_cancelled (\<exists>m n. cancel m n) s (search_new fl cancel ss c snapshot) \<and>
    search_rows R s = found_rows fl ss c R snapshot [0 ..< length R]"
  using search_new_rows [OF assms] by blast

definition sample_region :: region_info where
  "sample_region = \<lparr>ri_name = [], ri_short_name = [], ri_base = 0xC000, ri_len = 4, ri_big_endian = False, ri_writable = True\<rparr>"

definition snapshot_with :: "bytes \<Rightarrow> memory_snapshot" where
  "snapshot_with bs = \<lparr>ms_frame = 0, ms_epoch = 0,
     ms_layout = [\<lparr>sr_region = sample_region, sr_offset = 0, sr_available = length bs\<rparr>], ms_bytes = bs\<rparr>"

lemma sample_region_ok [simp]: "regions_ok [sample_region]"
  by (simp add: regions_ok_def sample_region_def)

lemma snapshot_with_ok [simp]: "length bs \<le> 4 \<Longrightarrow> snapshot_of [sample_region] (snapshot_with bs)"
  by (simp add: snapshot_of_def snapshot_with_def sample_region_def)

theorem first_scan_complete_witness:
  "\<exists>s. search_new no_floats (\<lambda>_ _. False) sample_settings (Equal (IntNumber 2)) (snapshot_with [1, 2, 3, 2]) = Returns (Inr s) \<and>
    map sw_address (search_rows [sample_region] s) = [0xC001, 0xC003]"
proof -
  have "format_ok (ss_format sample_settings)" "check_comparison sample_settings (Equal (IntNumber 2)) = Inr ()"
    "is_initial (Equal (IntNumber 2) :: unit comparison)"
    by (simp_all add: format_ok_def sample_settings_def vf_len_def check_comparison_def is_numeric_def is_initial_def)
  from first_scan_complete [OF sample_region_ok snapshot_with_ok this, of "[1, 2, 3, 2]" "\<lambda>_ _. False" no_floats]
  obtain s where "search_new no_floats (\<lambda>_ _. False) sample_settings (Equal (IntNumber 2)) (snapshot_with [1, 2, 3, 2]) = Returns (Inr s)"
    "search_rows [sample_region] s = found_rows no_floats sample_settings (Equal (IntNumber 2)) [sample_region] (snapshot_with [1, 2, 3, 2]) [0 ..< 1]"
    by (auto simp: done_or_cancelled_def)
  moreover have "found_slots no_floats sample_settings (Equal (IntNumber 2)) [sample_region] (snapshot_with [1, 2, 3, 2]) 0 = [1, 3]"
    by (simp add: found_slots_def included_def sample_settings_def search_len_def vf_len_def region_data_def snapshot_with_def
        in_range_def slot_found_def passes_def settings_reader_def reader_number_def slice_at_def alignment_of_def
        reader_equal_def index_at_def upt_rec)
  then have "map sw_address (found_rows no_floats sample_settings (Equal (IntNumber 2)) [sample_region] (snapshot_with [1, 2, 3, 2]) [0 ..< 1]) =
      [0xC001, 0xC003]"
    by (simp add: row_at_def address_at_def sample_region_def alignment_of_def sample_settings_def)
  ultimately show ?thesis by auto
qed

text \<open>
  C34: later scans, for a snapshot of the same regions and a step counter (a u32) with room for
  one more; if the scan looks on a bitset for what did not change, the new snapshot must also map
  all that the previous one maps (memory_kept). Then, bitset or list, whole words skipped or not,
  a scan that is not cancelled maps the rows of the search: a row is dropped unless its address is
  mapped in the new snapshot and its bytes there pass the comparison with its previous and first
  bytes, and gets those bytes as its new value. Without memory_kept the code keeps unmapped rows:
  see unchanged_with_less_memory below.
\<close>

theorem scans_narrow:
  assumes "regions_ok R" and "snapshot_of R snapshot" and "search_ok R s"
    and "check_comparison (se_settings s) c = Inr ()" and "c \<noteq> Unknown"
    and "memory_kept c snapshot (se_candidates s)" and "se_steps s \<noteq> - 1"
  shows "\<exists>s'. done_or_cancelled (\<exists>m n. cancel m n) s' (search_refine fl cancel c snapshot s) \<and> search_ok R s' \<and>
    search_rows R s' = List.map_filter (refine_row fl (se_settings s) c snapshot) (search_rows R s)"
  using search_refine_rows [OF assms] by blast

definition sample_search :: "unit search" where
  "sample_search = \<lparr>se_settings = sample_settings,
     se_candidates = Dense [build_rank \<lparr>dr_words = [10], dr_count = 0, dr_rank = []\<rparr>] (snapshot_with [1, 2, 3, 2]) (snapshot_with [1, 2, 3, 2]) True,
     se_history = [], se_redo = [], se_steps = 1, se_last_frame = 0, se_last_epoch = 0\<rparr>"

lemma sample_search_ok [simp]: "search_ok [sample_region] sample_search"
proof -
  have "format_ok (ss_format (se_settings sample_search))"
    "candidates_ok [sample_region] (se_settings sample_search) (se_candidates sample_search)" by code_simp+
  then show ?thesis by (simp add: search_ok_def) (simp add: sample_search_def)
qed

theorem scans_narrow_witness:
  "\<exists>s. search_refine no_floats (\<lambda>_ _. False) Increased (snapshot_with [9, 2, 9, 7]) sample_search = Returns (Inr s) \<and>
    map sw_address (search_rows [sample_region] s) = [0xC003]"
proof -
  have "check_comparison (se_settings sample_search) Increased = Inr ()" "(Increased :: unit comparison) \<noteq> Unknown"
    "memory_kept (Increased :: unit comparison) (snapshot_with [9, 2, 9, 7]) (se_candidates sample_search)"
    "se_steps sample_search \<noteq> - 1" by code_simp+
  from scans_narrow [OF sample_region_ok snapshot_with_ok sample_search_ok this, of "\<lambda>_ _. False" no_floats]
  obtain s where "search_refine no_floats (\<lambda>_ _. False) Increased (snapshot_with [9, 2, 9, 7]) sample_search = Returns (Inr s)"
    "search_rows [sample_region] s = List.map_filter (refine_row no_floats (se_settings sample_search) Increased (snapshot_with [9, 2, 9, 7]))
      (search_rows [sample_region] sample_search)"
    by (auto simp: done_or_cancelled_def)
  moreover have "map sw_address (List.map_filter (refine_row no_floats (se_settings sample_search) Increased (snapshot_with [9, 2, 9, 7]))
      (search_rows [sample_region] sample_search)) = [0xC003]" by code_simp
  ultimately show ?thesis by auto
qed

text \<open>
  C35: a page of results, found through the ranks of the bitsets or by indexing the list, is the
  part of the rows that was asked for, except that for a list the end of the page is computed in
  usize: when its start (the offset, or the length if that is less) plus the number asked for
  leaves it, a build with overflow checks panics (one
  without them would wrap around to an empty page).
\<close>

theorem results_are_pages:
  assumes "regions_ok R" and "search_ok R s"
  shows "search_results s offset n =
    (if is_sparse (se_candidates s) \<and> usize_limit \<le> min offset (length (search_rows R s)) + n then Panics
     else Returns (take n (drop offset (search_rows R s))))"
  by (rule search_results_rows [OF assms])

theorem results_are_pages_witness:
  "search_results sample_search 1 5 = Returns (drop 1 (search_rows [sample_region] sample_search)) \<and>
   length (search_rows [sample_region] sample_search) = 2"
proof -
  have two: "length (search_rows [sample_region] sample_search) = 2" by code_simp
  then have "take 5 (drop 1 (search_rows [sample_region] sample_search)) = drop 1 (search_rows [sample_region] sample_search)" by simp
  with two results_are_pages [OF sample_region_ok sample_search_ok, of 1 5] show ?thesis
    by (simp add: usize_limit_def)
qed

text \<open>
  C36: a whole search. Take any history of fewer than 2^32 - 1 scans (cancelled, refused or not),
  undos and redos after the first scan, in which every snapshot is of the same regions and no scan
  of a bitset for what did not change meets a snapshot that maps less than the previous one
  (search_admits; the step counter is a u32). Then nothing panics, the candidates stay
  well-formed, and the states kept for undo and redo stay within the limits of number and of memory.
  A scan that is not so admitted can lead to a panic: see unchanged_with_less_memory below.
\<close>

theorem search_history_safe:
  assumes "regions_ok R" and "snapshot_of R snapshot" and "format_ok (ss_format ss)"
    and "search_new fl cancel ss c snapshot = Returns (Inr s)"
    and "admitted_run (search_step fl) (search_admits R) as s" and "length as < 2 ^ 32 - 1"
  shows "search_ok R (fst (run (search_step fl) as s)) \<and> history_limited (fst (run (search_step fl) as s)) \<and>
    Panicked \<notin> set (snd (run (search_step fl) as s))"
proof -
  from search_new_inv(2) [OF assms(1-4)] assms(6) have "last_step s + length as < 2 ^ 32" by simp
  from searching.history_inv [OF search_new_inv(1) [OF assms(1-4)] short_run_allowed [OF assms(1,5) this]]
  show ?thesis by (simp add: search_inv_def)
qed

theorem search_history_safe_witness:
  "\<exists>s. search_new no_floats (\<lambda>_ _. False) sample_settings Unknown (snapshot_with [1, 2]) = Returns (Inr s) \<and>
    Panicked \<notin> set (snd (run (search_step no_floats) [OpRefine (\<lambda>_ _. False) Changed (snapshot_with [1, 5]), OpUndo, OpRedo] s))"
proof -
  have "format_ok (ss_format sample_settings)" by code_simp
  note new = search_history_safe [OF sample_region_ok snapshot_with_ok this]
  have "check_comparison sample_settings Unknown = Inr ()" "is_initial (Unknown :: unit comparison)" by code_simp+
  from search_new_rows [OF sample_region_ok snapshot_with_ok \<open>format_ok (ss_format sample_settings)\<close> this, of "[1, 2]" "\<lambda>_ _. False" no_floats]
  have "\<exists>s. search_new no_floats (\<lambda>_ _. False) sample_settings Unknown (snapshot_with [1, 2]) = Returns (Inr s)"
    by (auto simp: done_or_cancelled_def)
  then obtain s where s: "search_new no_floats (\<lambda>_ _. False) sample_settings Unknown (snapshot_with [1, 2]) = Returns (Inr s)" by blast
  have "admitted_run (search_step no_floats) (search_admits [sample_region])
      [OpRefine (\<lambda>_ _. False) Changed (snapshot_with [1, 5]), OpUndo, OpRedo] s"
    by (simp add: memory_kept_def split: candidates.splits)
  from new [OF _ s this] s show ?thesis by auto
qed

text \<open>
  Without \<open>memory_kept\<close> the narrowing of scans and the safety of histories fail: here the second byte of the region is unmapped
  when a scan for what did not change keeps both candidates, and reading them panics.
\<close>

definition less_memory_search :: "unit search" where
  "less_memory_search = sample_search\<lparr>se_candidates := Dense [build_rank \<lparr>dr_words = [3], dr_count = 0, dr_rank = []\<rparr>]
     (snapshot_with [1, 2]) (snapshot_with [1, 2]) True\<rparr>"

definition still_kept :: "unit search" where
  "still_kept = less_memory_search\<lparr>
     se_candidates := Dense [build_rank \<lparr>dr_words = [3], dr_count = 0, dr_rank = []\<rparr>] (snapshot_with [1]) (snapshot_with [1, 2]) False,
     se_history := [se_candidates less_memory_search], se_steps := 2\<rparr>"

lemma unchanged_with_less_memory:
  "search_ok [sample_region] less_memory_search \<and>
   search_refine no_floats (\<lambda>_ _. False) Unchanged (snapshot_with [1]) less_memory_search = Returns (Inr still_kept) \<and>
   search_results still_kept 0 2 = Panics"
proof (intro conjI)
  let ?d = "build_rank \<lparr>dr_words = [3], dr_count = 0, dr_rank = []\<rparr>"
  have "format_ok (ss_format (se_settings less_memory_search))"
    "candidates_ok [sample_region] (se_settings less_memory_search) (se_candidates less_memory_search)" by code_simp+
  then show "search_ok [sample_region] less_memory_search"
    by (simp add: search_ok_def) (simp add: less_memory_search_def sample_search_def)
  have ones: "rank_blocks 0 [3] = ([0], 2)" "ones_of [3] = 2" by code_simp+
  let ?dense = "Dense [?d] (snapshot_with [1, 2]) (snapshot_with [1, 2]) True"
    and ?next = "Dense [?d] (snapshot_with [1]) (snapshot_with [1, 2]) False"
  have fields: "se_settings less_memory_search = sample_settings" "se_candidates less_memory_search = ?dense"
    "se_history less_memory_search = []" by (simp_all add: less_memory_search_def sample_search_def)
  have "refine_regions no_floats (\<lambda>_ _. False) (settings_reader sample_settings) Unchanged 1 (snapshot_with [1])
      (snapshot_with [1, 2]) (snapshot_with [1, 2]) 0 [?d] = Returns (Inr [?d])"
    by (simp add: region_bytes_def index_at_def slice_at_def snapshot_with_def refine_word_def settings_reader_def
        sample_settings_def vf_len_def build_rank_def ones(1))
  moreover have "alignment_of sample_settings = 1" by code_simp
  moreover have "same_layout (snapshot_with [1]) (snapshot_with [1, 2])" by (simp add: same_layout_def snapshot_with_def)
  ultimately have "refine_candidates no_floats (\<lambda>_ _. False) sample_settings Unchanged (snapshot_with [1]) ?dense = Returns (Inr ?next)"
    by (simp only: refine_candidates.simps not_True_eq_False if_False try_bind_simps)
  moreover have "trim_history [?dense] = [?dense]"
    by (simp add: MAX_HISTORY_STEPS_def MAX_HISTORY_BYTES_def build_rank_def ones(1) snapshot_with_def)
  moreover have "less_memory_search\<lparr>se_candidates := ?next, se_history := [?dense], se_redo := [],
      se_steps := se_steps less_memory_search + 1, se_last_frame := ms_frame (snapshot_with [1]),
      se_last_epoch := ms_epoch (snapshot_with [1])\<rparr> = still_kept"
    by (simp add: still_kept_def less_memory_search_def sample_search_def snapshot_with_def)
  moreover have "maybe_make_sparse still_kept = Returns still_kept"
    by (simp add: maybe_make_sparse_def still_kept_def less_memory_search_def sample_search_def dense_bytes_def
        build_rank_def ones snapshot_with_def sample_settings_def vf_len_def)
  moreover have "check_comparison sample_settings Unchanged = Inr ()" by code_simp
  moreover have "add_u32 (se_steps less_memory_search) 1 = Returns (se_steps less_memory_search + 1)"
    by (simp add: add_u32_def less_memory_search_def sample_search_def)
  ultimately show "search_refine no_floats (\<lambda>_ _. False) Unchanged (snapshot_with [1]) less_memory_search = Returns (Inr still_kept)"
    unfolding search_refine_def fields by (simp del: trim_history.simps refine_candidates.simps)
  have bits: "trailing_zeros 3 = 0" "trailing_zeros 2 = 1" "slots [3] = [0, 1]" by code_simp+
  have region: "region_bytes (snapshot_with [1]) 0 = Returns [1]" "region_bytes (snapshot_with [1, 2]) 0 = Returns [1, 2]"
    "index_at (ms_layout (snapshot_with [1])) 0 = Returns \<lparr>sr_region = sample_region, sr_offset = 0, sr_available = 1\<rparr>"
    by (simp_all add: region_bytes_def index_at_def slice_at_def snapshot_with_def)
  have row: "slot_row 1 1 0xC000 [1] [1, 2] 0 0 = Returns r \<Longrightarrow> page_bits (slot_row 1 1 0xC000 [1] [1, 2] 0) 2 3 [] = Panics"
    "\<exists>r. slot_row 1 1 0xC000 [1] [1, 2] 0 0 = Returns r" for r
    by (simp_all add: page_bits.simps [of _ _ 3] page_bits.simps [of _ _ 2] bits slot_row_def slice_at_def add_u32_def)
  then have "page_bits (slot_row 1 1 0xC000 [1] [1, 2] 0) 2 3 [] = Panics" by blast
  moreover have "nth_slot ?d 0 = Returns (Some 0)" by (simp add: nth_slot_spec bits)
  moreover have "dr_count ?d = 2" "dr_words ?d = [3]" by (simp_all add: build_rank_def ones)
  moreover have "alignment_of sample_settings = 1" "vf_len (ss_format sample_settings) = 1" by code_simp+
  ultimately show "search_results still_kept 0 2 = Panics"
    by (simp add: search_results_def still_kept_def fields region index_at_def [of "[3]"] sample_region_def del: One_nat_def)
qed

section \<open>The core\<close>

text \<open>
  C37: the input of every coming frame. With nothing new set, frame t gets the held input with
  rapid fire on exactly in the hold part of its cycle and each timed press for exactly the frames
  it was made for; frames and the setters keep the layers in the state this relies on.
\<close>

theorem held_input_layers:
  assumes "input_state_ok s"
  shows "nth_input t s = held_inputs t s \<and> input_state_ok (snd (input_frame s)) \<and>
    (0 < n \<longrightarrow> input_state_ok (press_for_frames b i n s)) \<and>
    (0 < hold_length r \<and> 0 < interval r \<longrightarrow> input_state_ok (set_rapid_fire_input mid (Some r) s))"
  using nth_input_held [OF assms] input_frame_ok [OF assms] setters_ok(4) [OF assms]
    set_rapid_fire_ok [OF assms, of "Some r" mid] by auto

definition sample_input :: input where
  "sample_input = no_input\<lparr>in_a := True\<rparr>"

definition idle_layers :: input_state where
  "idle_layers = \<lparr>base_input = no_input, next_input = None, rapid_fire_input = None, toggled_input = None, bot_input = None,
     pending_timed_presses = [], timed_presses = [], input_latched = False\<rparr>"

theorem held_input_layers_witness:
  "nth_input 1 (press_for_frames False sample_input 2 idle_layers) = sample_input \<and>
   nth_input 2 (press_for_frames False sample_input 2 idle_layers) = no_input"
proof -
  let ?s = "press_for_frames False sample_input 2 idle_layers"
  have ok: "input_state_ok ?s" by (simp add: input_state_ok_def press_for_frames_def idle_layers_def)
  have "held_inputs 1 ?s = sample_input" "held_inputs 2 ?s = no_input"
    by (simp_all add: held_inputs_def press_for_frames_def idle_layers_def rapid_fire_at_def or_option_def)
  with held_input_layers [OF ok, of 1 1 False no_input "\<lparr>rf_input = no_input, hold_length = 1, interval = 1, current_frame = 0, rf_total_frames = 0\<rparr>" False]
    held_input_layers [OF ok, of 2 1 False no_input "\<lparr>rf_input = no_input, hold_length = 1, interval = 1, current_frame = 0, rf_total_frames = 0\<rparr>" False]
  show ?thesis by simp
qed

text \<open>
  C38: the cable traffic of a frame travels. A Game Boy's log of at most 65536 events, slave bits
  in cycle order, is what decoding its encoding gives; encoding appends; and the integers in it
  are read exactly as the replay's own LEB128 integers are.
\<close>

theorem serial_log_roundtrip:
  assumes "in_cycle_order es" and "length es \<le> MAX_GB_EVENTS"
  shows "decode_gb (encode_serial es []) = Inr es \<and> encode_serial es into = into @ encode_serial es [] \<and>
    read_leb128 bs = (case read_varint bs of Inl _ \<Rightarrow> None | Inr y \<Rightarrow> Some y)"
  using decode_gb_encode [OF assms] encode_serial_prefix read_varint_leb128 by blast

theorem serial_log_roundtrip_witness:
  "decode_gb (encode_serial [Connected True, MasterBit True, MasterBit False, SlaveBit 12 True, SlaveBit 300 False] []) =
   Inr [Connected True, MasterBit True, MasterBit False, SlaveBit 12 True, SlaveBit 300 False]"
  using serial_log_roundtrip
    [of "[Connected True, MasterBit True, MasterBit False, SlaveBit 12 True, SlaveBit 300 False]" "[]" "[]"]
  by (simp add: in_cycle_order_def MAX_GB_EVENTS_def)

text \<open>
  C39: lockstep. Two machines plug in a cable between consoles in the same states. Whatever the
  players do, however the runs of the two machines interleave and however the network orders and
  repeats the frames, both machines only ever hold states of one run of one pair of cores, a run
  that depends on nothing but the events sent; the pair hashes they compute for the same frame are
  equal, so neither ever ends the link for falling out of step.
\<close>

theorem linked_machines_agree:
  assumes "core_lawful ops" and "mirrored ops sets s" and "plug_in ops sets s = Some s0"
  shows "(\<exists>ev. prefilled ops sets s ev \<and> sys_agrees ev (cable_run ops acts s0) \<and>
      (\<forall>m. \<exists>k. on_run ops ev (first_pair s0) (cable_run ops acts s0) m k)) \<and>
    (\<forall>m m' n h h'. (n, h) \<in> set (computed_by (s_local (cable_run ops acts s0) m)) \<and>
       (n, h') \<in> set (computed_by (s_local (cable_run ops acts s0) m')) \<longrightarrow> h = h') \<and>
    (\<forall>m n. failed_with (s_local (cable_run ops acts s0) m) \<noteq> Some (PairHashMismatch n))"
proof -
  note ok = both_on_the_run [OF assms, of acts]
  have "due_behind (first_pair s0)" by (simp add: first_pair_def due_behind_plugged)
  then show ?thesis
    using sys_ok_on_run [OF ok] sys_ok_same_hashes [OF ok] sys_ok_no_mismatch [OF ok]
      prefilled_events_of events_of_agrees [OF assms] by blast
qed

text \<open>A console whose state is its frame count and its input, and two of them held at frame 0.\<close>

definition toy_ops :: "(nat \<times> bytes) core_ops" where
  "toy_ops = \<lparr>is_mid_frame = \<lambda>_. False, has_link_port = \<lambda>_. True, link_time = \<lambda>c. of_nat (fst c), is_asleep = \<lambda>_. False,
     step_linked = \<lambda>_ _ a b. Inr (1, (fst a + 1, snd a), b), connect_port = \<lambda>_ c. Inr c, disconnect_port = \<lambda>c. c,
     take_serial_in = \<lambda>c. ([], c), core_hard_reset = \<lambda>c. c, set_input_encoded = \<lambda>d c. (fst c, d),
     encode_input = \<lambda>_ i. [of_bool (in_a i)], write_ram = \<lambda>_ _ c. (True, c),
     memory_regions = \<lambda>c. [(''WRAM'', Some (snd c))], replay_console_type = \<lambda>_. Some GameBoy, blake3_slices = concat\<rparr>"

definition toy_console :: "(nat \<times> bytes) console" where
  "toy_console = \<lparr>base_input = no_input, next_input = None, rapid_fire_input = None, toggled_input = None, bot_input = None,
     pending_timed_presses = [], timed_presses = [], input_latched = False,
     emu = (0, []), writes = [], current_input = no_input, playing_back = False, following = True,
     replay_stalled = False, replay_waiting = False, replay_frame_pending = False, total_milliseconds = 0,
     stream_time_origin = 0, frames_since_last_keyframe = 0, console_frames = 0, state_epoch = 0,
     replay_write_failures = 0, link_holding = True, link = None, link_partner = None\<rparr>"

definition toy_settings :: "bool \<Rightarrow> link_settings" where
  "toy_settings m = \<lparr>delay_frames = 2, local_is_first = \<not> m, local_start_frame = 0, partner_start_frame = 0,
     partner_start_input = [0]\<rparr>"

definition toy_system :: "(nat \<times> bytes) cable_system" where
  "toy_system = \<lparr>s_local = \<lambda>_. toy_console, s_partner = \<lambda>_. toy_console\<rparr>"

lemma toy_lawful: "core_lawful toy_ops"
proof -
  have "same_moment toy_ops c (event_on_core toy_ops p c)" for p c
    by (cases p) (simp_all add: same_moment_def toy_ops_def apply_write_def)
  then show ?thesis
    by (simp add: core_lawful_def unpaced_steps_def paced_steps_def steps_to_boundary_def events_take_no_time_def toy_ops_def)
qed

lemma toy_mirrored: "mirrored toy_ops toy_settings toy_system"
  by (simp add: mirrored_def toy_settings_def toy_system_def toy_console_def held_input_def toy_ops_def no_input_def)

lemma toy_plugged: "\<exists>s0. plug_in toy_ops toy_settings toy_system = Some s0"
  by (simp add: plug_in_def begin_link_def begin_checks_def toy_settings_def toy_system_def toy_console_def toy_ops_def
      console_linked_def)

theorem linked_machines_agree_witness:
  "\<exists>s0. plug_in toy_ops toy_settings toy_system = Some s0 \<and>
     failed_with (s_local (cable_run toy_ops
       [Run False 0 0, Deliver True 0, Player True PlayerReset, Run True 0 0, Deliver False 0, Run False 0 5] s0) True)
     \<noteq> Some (PairHashMismatch 60)"
proof -
  obtain s0 where s0: "plug_in toy_ops toy_settings toy_system = Some s0" using toy_plugged by blast
  with linked_machines_agree [OF toy_lawful toy_mirrored s0,
      of "[Run False 0 0, Deliver True 0, Player True PlayerReset, Run True 0 0, Deliver False 0, Run False 0 5]"]
  show ?thesis by blast
qed

text \<open>
  C40: no deadlock. Stalled means that the partner's copy has to step and the frame it needs is
  not there; and whatever happened, once every frame sent has arrived the two machines are not
  both in that state: the one that is behind on the run can go on.
\<close>

theorem never_both_stalled:
  assumes "core_lawful ops" and "mirrored ops sets s" and "plug_in ops sets s = Some s0"
    and "all_arrived (cable_run ops acts s0)"
  shows "(\<exists>m. \<not> waiting_for_partner ops (s_local (cable_run ops acts s0) m) (s_partner (cable_run ops acts s0) m)) \<and>
    (\<forall>clk now c partner c' partner'. run_linked ops clk now c partner = (Stalled, c', partner') \<longrightarrow>
       waiting_for_partner ops c' partner')"
  using not_both_waiting [OF assms] run_linked_stalled by blast

theorem never_both_stalled_witness:
  "\<exists>s0 m. plug_in toy_ops toy_settings toy_system = Some s0 \<and>
     \<not> waiting_for_partner toy_ops (s_local s0 m) (s_partner s0 m)"
proof -
  obtain s0 where s0: "plug_in toy_ops toy_settings toy_system = Some s0" using toy_plugged by blast
  have "published_by (s_local s0 m) = []" for m
    using s0 by (cases m) (auto simp: plug_in_def begin_link_def begin_checks_def toy_settings_def toy_system_def toy_console_def
        toy_ops_def console_linked_def sided_def published_by_def new_link_def flush_writes_def)
  then have "all_arrived (cable_run toy_ops [] s0)" by (simp add: all_arrived_def cable_run_def)
  from never_both_stalled [OF toy_lawful toy_mirrored s0 this] s0 show ?thesis by (auto simp: cable_run_def)
qed

end
